(* ===== verification/Nnc_Prelude.thy ===== *)
theory Nnc_Prelude
  imports Main "HOL-Library.Word"
begin

unbundle bit_operations_syntax

text \<open>
  Shared vocabulary of the development: machine words, the exceptions of the compiler
  (\<^verbatim>\<open>nnc_try_catch.h\<close>), the ways a C function can fail to return a value, the bind
  operator that threads those failures, and generic facts about lists and maps.
\<close>

type_synonym u8 = "8 word"
type_synonym u16 = "16 word"
type_synonym u32 = "32 word"
type_synonym u64 = "64 word"

section \<open>Exceptions and failures\<close>

text \<open>The enumeration \<^verbatim>\<open>nnc_exception_kind\<close>, in source order.\<close>

datatype (plugins only: code size) exc_kind =
    NNC_CONTEXT_SAVED | NNC_UNHANDLED | NNC_UNIMPLEMENTED | NNC_OVERFLOW
  | NNC_LEX_BAD_FILE | NNC_LEX_BAD_ESC | NNC_LEX_BAD_CHR | NNC_LEX_BAD_STR
  | NNC_LEX_BAD_EXP | NNC_LEX_BAD_FLOAT | NNC_LEX_BAD_SUFFIX
  | NNC_SYNTAX | NNC_SEMANTIC
  | NNC_NAME_ALREADY_DECLARED | NNC_TYPE_ALREADY_DECLARED | NNC_CANNOT_RESOLVE_TYPE
  | NNC_CANNOT_RESOLVE_REF_EXPR | NNC_CANNOT_RESOLVE_NOT_EXPR
  | NNC_CANNOT_RESOLVE_CAST_EXPR | NNC_CANNOT_RESOLVE_PLUS_EXPR
  | NNC_CANNOT_RESOLVE_MINUS_EXPR | NNC_CANNOT_RESOLVE_DEREF_EXPR
  | NNC_CANNOT_RESOLVE_SIZEOF_EXPR | NNC_CANNOT_RESOLVE_LENGTHOF_EXPR
  | NNC_CANNOT_RESOLVE_BW_NOT_EXPR | NNC_CANNOT_RESOLVE_DOT_EXPR
  | NNC_CANNOT_RESOLVE_CALL_EXPR | NNC_CANNOT_RESOLVE_SCOPE_EXPR
  | NNC_CANNOT_RESOLVE_INDEX_EXPR | NNC_CANNOT_RESOLVE_ADD_EXPR
  | NNC_CANNOT_RESOLVE_MUL_EXPR | NNC_CANNOT_RESOLVE_SHIFT_EXPR
  | NNC_CANNOT_RESOLVE_REL_EXPR | NNC_CANNOT_RESOLVE_BITWISE_EXPR
  | NNC_CANNOT_ASSIGN_EXPR | NNC_CANNOT_RESOLVE_TERNARY_EXPR
  | NNC_WRONG_ENUMERATOR_INITIALIZER

text \<open>
  A call that does not return: a thrown exception, a call of \<^verbatim>\<open>nnc_abort\<close>, a failed
  \<^verbatim>\<open>assert\<close>, or undefined behaviour (a NULL dereference, an access outside an array, a
  division by zero). \<open>NoFuel\<close> marks the end of a bounded unfolding; no call ends that way
  in the code, and each fuelled definition comes with a lemma that its fuel is enough.
\<close>

datatype fault = Throw exc_kind | Abort | AssertFail | Crash | NoFuel

type_synonym 'a res = "fault + 'a"

definition bind_res :: "'a res \<Rightarrow> ('a \<Rightarrow> 'b res) \<Rightarrow> 'b res" where
  "bind_res m f = (case m of Inl e \<Rightarrow> Inl e | Inr x \<Rightarrow> f x)"

definition assert_res :: "bool \<Rightarrow> unit res" where
  "assert_res b = (if b then Inr () else Inl AssertFail)"

named_theorems res_simps \<open>evaluation of the failure monad\<close>

lemma bind_res_Inl [simp, res_simps]: "bind_res (Inl e) f = Inl e"
  by (simp add: bind_res_def)

lemma bind_res_Inr [simp, res_simps]: "bind_res (Inr x) f = f x"
  by (simp add: bind_res_def)

lemma assert_res_True [simp, res_simps]: "assert_res True = Inr ()"
  by (simp add: assert_res_def)

lemma assert_res_False [simp, res_simps]: "assert_res False = Inl AssertFail"
  by (simp add: assert_res_def)

lemma bind_res_eq_Inr:
  "bind_res m f = Inr y \<longleftrightarrow> (\<exists>x. m = Inr x \<and> f x = Inr y)"
  by (cases m) simp_all

lemma bind_res_eq_Inl:
  "bind_res m f = Inl e \<longleftrightarrow> m = Inl e \<or> (\<exists>x. m = Inr x \<and> f x = Inl e)"
  by (cases m) simp_all

lemma bind_res_assoc: "bind_res (bind_res m f) g = bind_res m (\<lambda>x. bind_res (f x) g)"
  by (cases m) simp_all

lemma bind_res_cong [fundef_cong]:
  "m = m' \<Longrightarrow> (\<And>x. m' = Inr x \<Longrightarrow> f x = g x) \<Longrightarrow> bind_res m f = bind_res m' g"
  by (cases m') simp_all

text \<open>A loop over a list whose body can fail.\<close>

fun fold_res :: "('a \<Rightarrow> 's \<Rightarrow> 's res) \<Rightarrow> 'a list \<Rightarrow> 's \<Rightarrow> 's res" where
  "fold_res f [] s = Inr s"
| "fold_res f (x # xs) s = bind_res (f x s) (fold_res f xs)"

lemma fold_res_append:
  "fold_res f (xs @ ys) s = bind_res (fold_res f xs s) (fold_res f ys)"
  by (induction xs arbitrary: s) (simp_all add: bind_res_def split: sum.splits)

lemma fold_res_invariant:
  assumes "fold_res f xs s = Inr t" and "P s"
    and "\<And>x s s'. x \<in> set xs \<Longrightarrow> P s \<Longrightarrow> f x s = Inr s' \<Longrightarrow> P s'"
  shows "P t"
  using assms
proof (induction xs arbitrary: s)
  case Nil
  then show ?case by simp
next
  case (Cons x xs)
  then obtain s1 where s1: "f x s = Inr s1" and rest: "fold_res f xs s1 = Inr t"
    by (auto simp: bind_res_eq_Inr)
  have "P s1" using Cons.prems(2,3) s1 by auto
  then show ?case
    by (rule Cons.IH [OF rest]) (metis Cons.prems(3) list.set_intros(2))
qed

section \<open>Association lists\<close>

lemma map_of_distinct_append:
  "distinct (map fst (xs @ ys)) \<Longrightarrow> map_of (xs @ ys) k = (case map_of xs k of None \<Rightarrow> map_of ys k | Some v \<Rightarrow> Some v)"
  by (simp add: map_add_def split: option.splits)

lemma map_of_eq_None_notin: "map_of xs k = None \<longleftrightarrow> k \<notin> fst ` set xs"
  by (metis map_of_eq_None_iff)

lemma map_of_snoc_fresh:
  "k \<notin> fst ` set xs \<Longrightarrow> map_of (xs @ [(k, v)]) = (map_of xs)(k \<mapsto> v)"
proof (rule ext)
  fix x assume "k \<notin> fst ` set xs"
  then show "map_of (xs @ [(k, v)]) x = ((map_of xs)(k \<mapsto> v)) x"
    using map_of_eq_None_notin [of xs k] by (auto simp: map_add_def split: option.splits)
qed

section \<open>Sums of lengths\<close>

lemma length_concat_update:
  assumes "i < length xss"
  shows "length (concat (xss[i := ys])) + length (xss ! i) = length (concat xss) + length ys"
  using assms
proof (induction xss arbitrary: i)
  case Nil
  then show ?case by simp
next
  case (Cons xs xss)
  then show ?case by (cases i) auto
qed

end
