(* ===== verification/Nnc_Map.thy ===== *)
theory Nnc_Map
  imports Nnc_Prelude
begin

unbundle bit_operations_syntax

text \<open>
  The chained hash table of \<^verbatim>\<open>src/src/nnc_map.c\<close>. A slot of the table is the list of
  buckets reached from the array element by the \<^verbatim>\<open>next\<close> links; a bucket whose \<^verbatim>\<open>has_key\<close>
  is false is \<open>Vacant\<close>. Keys are either 64-bit numbers or NUL-free strings; what the two
  share is collected in the record \<open>key_ops\<close>, which plays the part of the \<^verbatim>\<open>hash\<close> function
  pointer of every operation. Capacities and lengths are natural numbers: they count allocated
  buckets, so they stay far below the 64-bit (and the 53-bit floating point) limits.

  The lemmas show that the operations keep a structural invariant, that on it the table
  implements a finite map (looking up, inserting a fresh key, removing), that rehashing
  preserves the map, and what the code does outside that contract.
\<close>

section \<open>Hash functions\<close>

definition nncmap_hash :: "u64 \<Rightarrow> u64" where
  "nncmap_hash key0 =
     (let key1 = (key0 XOR drop_bit 31 key0 XOR drop_bit 62 key0) * 0x319642b2d24d8ec3;
          key2 = (key1 XOR drop_bit 27 key1 XOR drop_bit 54 key1) * 0x96de1b173f119089
      in key2 XOR drop_bit 30 key2 XOR drop_bit 60 key2)"

text \<open>\<^verbatim>\<open>nnc_i32 c = *str_key++\<close>: a (signed) char is sign-extended before it is added.\<close>

fun hash_str_loop :: "u64 \<Rightarrow> string \<Rightarrow> u64" where
  "hash_str_loop h [] = h"
| "hash_str_loop h (c # cs) =
     hash_str_loop ((push_bit 5 h + h) + scast (of_char c :: u8)) cs"

definition nncmap_hash_str :: "string \<Rightarrow> u64" where
  "nncmap_hash_str key = hash_str_loop 5481 key"

section \<open>Data\<close>

datatype ('k, 'v) bucket = Vacant | Bucket 'k 'v

record ('k, 'v) nnc_map =
  cap :: nat
  len :: nat
  buckets :: "('k, 'v) bucket list list"

text \<open>
  A hash function, and the outcome of comparing a key with the zero key of a vacant bucket:
  for numbers this is a comparison with 0, for strings \<^verbatim>\<open>strcmp\<close> reads a NULL pointer.
\<close>

record 'k key_ops =
  hash :: "'k \<Rightarrow> u64"
  zero_cmp :: "'k \<Rightarrow> bool res"

definition int_keys :: "u64 key_ops" where
  "int_keys = \<lparr> hash = nncmap_hash, zero_cmp = (\<lambda>k. Inr (k = 0)) \<rparr>"

definition str_keys :: "string key_ops" where
  "str_keys = \<lparr> hash = nncmap_hash_str, zero_cmp = (\<lambda>_. Inl Crash) \<rparr>"

section \<open>Operations\<close>

definition nncmap_keys_cmp :: "'k key_ops \<Rightarrow> ('k, 'v) bucket \<Rightarrow> 'k \<Rightarrow> bool res" where
  "nncmap_keys_cmp ops b k = (case b of Vacant \<Rightarrow> zero_cmp ops k | Bucket k' v \<Rightarrow> Inr (k' = k))"

fun has_key :: "('k, 'v) bucket \<Rightarrow> bool" where
  "has_key Vacant = False"
| "has_key (Bucket k v) = True"

definition slot_of :: "'k key_ops \<Rightarrow> nat \<Rightarrow> 'k \<Rightarrow> nat res" where
  "slot_of ops c k = (if c = 0 then Inl Crash else Inr (unat (hash ops k) mod c))"

text \<open>The loop of \<^verbatim>\<open>nncmap_get\<close> and \<^verbatim>\<open>nncmap_has\<close> along a chain; \<open>None\<close> is the NULL link.\<close>

fun chain_find :: "'k key_ops \<Rightarrow> ('k, 'v) bucket list \<Rightarrow> 'k \<Rightarrow> ('k, 'v) bucket option res" where
  "chain_find ops [] k = Inr None"
| "chain_find ops (b # bs) k =
     bind_res (nncmap_keys_cmp ops b k) (\<lambda>eq. if eq then Inr (Some b) else chain_find ops bs k)"

definition nncmap_get :: "'k key_ops \<Rightarrow> ('k, 'v) nnc_map \<Rightarrow> 'k \<Rightarrow> 'v res" where
  "nncmap_get ops m k =
     bind_res (slot_of ops (cap m) k) (\<lambda>i.
     bind_res (chain_find ops (buckets m ! i) k) (\<lambda>r.
       case r of
         None \<Rightarrow> Inl Crash
       | Some Vacant \<Rightarrow> Inl AssertFail
       | Some (Bucket k' v) \<Rightarrow> Inr v))"

definition nncmap_has :: "'k key_ops \<Rightarrow> ('k, 'v) nnc_map \<Rightarrow> 'k \<Rightarrow> bool res" where
  "nncmap_has ops m k =
     bind_res (slot_of ops (cap m) k) (\<lambda>i.
       if \<not> has_key (hd (buckets m ! i)) then Inr False
       else bind_res (chain_find ops (buckets m ! i) k) (\<lambda>r. Inr (r \<noteq> None)))"

text \<open>The second loop of \<^verbatim>\<open>nncmap_pop\<close>: unlink the first matching child.\<close>

fun unlink_child :: "'k key_ops \<Rightarrow> ('k, 'v) bucket list \<Rightarrow> 'k \<Rightarrow> ('k, 'v) bucket list res" where
  "unlink_child ops [] k = Inl Crash"
| "unlink_child ops (cur # bs) k =
     bind_res (nncmap_keys_cmp ops cur k) (\<lambda>eq.
       if eq then Inr bs
       else bind_res (unlink_child ops bs k) (\<lambda>bs'. Inr (cur # bs')))"

definition nncmap_pop :: "'k key_ops \<Rightarrow> ('k, 'v) nnc_map \<Rightarrow> 'k \<Rightarrow> ('k, 'v) nnc_map res" where
  "nncmap_pop ops m k =
     bind_res (slot_of ops (cap m) k) (\<lambda>i.
     bind_res (nncmap_has ops m k) (\<lambda>found.
       if \<not> found then Inr m
       else (case buckets m ! i of
         [] \<Rightarrow> Inl Crash
       | prev # nxt \<Rightarrow>
           bind_res (nncmap_keys_cmp ops prev k) (\<lambda>eq.
             if eq then
               Inr (m \<lparr> len := len m - 1,
                        buckets := (buckets m)[i := (if nxt \<noteq> [] then nxt else [Vacant])] \<rparr>)
             else
               bind_res (unlink_child ops nxt k) (\<lambda>nxt'.
                 Inr (m \<lparr> len := len m - 1, buckets := (buckets m)[i := prev # nxt'] \<rparr>))))))"

text \<open>
  The loop of \<^verbatim>\<open>nncmap_put\<close> along a chain. The bucket that is filled ends the chain
  (\<^verbatim>\<open>bucket->next = NULL\<close>), also when it was found by its key in the middle of it. The second
  component tells whether \<^verbatim>\<open>len\<close> grows.
\<close>

fun chain_put :: "('k, 'v) bucket list \<Rightarrow> 'k \<Rightarrow> 'v \<Rightarrow> ('k, 'v) bucket list \<times> bool" where
  "chain_put [] k v = ([Bucket k v], True)"
| "chain_put (Vacant # bs) k v = ([Bucket k v], True)"
| "chain_put (Bucket k' v' # bs) k v =
     (if k' = k then ([Bucket k v], False)
      else (let (bs', grown) = chain_put bs k v in (Bucket k' v' # bs', grown)))"

text \<open>
  \<^verbatim>\<open>len / cap >= 0.7\<close> in doubles: for capacities below \<open>2 ^ 49\<close> the rounded quotient compares
  with the rounded 0.7 as the exact ones do.
\<close>

definition nncmap_needs_rehash :: "('k, 'v) nnc_map \<Rightarrow> bool" where
  "nncmap_needs_rehash m \<longleftrightarrow> cap m = 0 \<or> 7 * cap m \<le> 10 * len m"

definition rehash_cap :: "nat \<Rightarrow> nat" where
  "rehash_cap c = c * 3 div 2"

fun chain_kvs :: "('k, 'v) bucket list \<Rightarrow> ('k \<times> 'v) list" where
  "chain_kvs [] = []"
| "chain_kvs (Vacant # bs) = []"
| "chain_kvs (Bucket k v # bs) = (k, v) # chain_kvs bs"

definition nncmap_init :: "nat \<Rightarrow> ('k, 'v) nnc_map" where
  "nncmap_init inicap = \<lparr> cap = inicap, len = 0, buckets = replicate inicap [Vacant] \<rparr>"

text \<open>
  \<^verbatim>\<open>nncmap_rehash\<close> walks the old chains, each up to its first vacant bucket, and puts every
  entry into the larger table; \<open>put\<close> is the recursive call of \<^verbatim>\<open>nncmap_put\<close>. A table of capacity
  0 is given capacity 4 by \<^verbatim>\<open>nncmap_needs_rehash\<close> without an array of that size, so the walk
  leaves the array.
\<close>

definition nncmap_rehash ::
  "('k \<Rightarrow> 'v \<Rightarrow> ('k, 'v) nnc_map \<Rightarrow> ('k, 'v) nnc_map res) \<Rightarrow> ('k, 'v) nnc_map \<Rightarrow> ('k, 'v) nnc_map res"
where
  "nncmap_rehash put m =
     (if cap m = 0 then Inl Crash
      else fold_res (\<lambda>(k, v). put k v) (concat (map chain_kvs (buckets m)))
             (nncmap_init (rehash_cap (cap m))))"

fun put_fuel :: "nat \<Rightarrow> 'k key_ops \<Rightarrow> 'k \<Rightarrow> 'v \<Rightarrow> ('k, 'v) nnc_map \<Rightarrow> ('k, 'v) nnc_map res" where
  "put_fuel 0 ops k v m = Inl NoFuel"
| "put_fuel (Suc n) ops k v m =
     bind_res (if nncmap_needs_rehash m then nncmap_rehash (put_fuel n ops) m else Inr m) (\<lambda>m.
     bind_res (slot_of ops (cap m) k) (\<lambda>i.
       let (bs, grown) = chain_put (buckets m ! i) k v in
       Inr (m \<lparr> len := (if grown then Suc (len m) else len m), buckets := (buckets m)[i := bs] \<rparr>)))"

definition nncmap_put :: "'k key_ops \<Rightarrow> ('k, 'v) nnc_map \<Rightarrow> 'k \<Rightarrow> 'v \<Rightarrow> ('k, 'v) nnc_map res" where
  "nncmap_put ops m k v = put_fuel (Suc (len m)) ops k v m"

text \<open>
  \<^verbatim>\<open>nnc_map_iter\<close>: the callback is a state transformer, and a NULL value stops the program.
\<close>

definition nnc_map_iter ::
  "('v \<Rightarrow> bool) \<Rightarrow> ('k \<Rightarrow> 'v \<Rightarrow> 's \<Rightarrow> 's res) \<Rightarrow> ('k, 'v) nnc_map \<Rightarrow> 's \<Rightarrow> 's res" where
  "nnc_map_iter null iter m s =
     fold_res (\<lambda>(k, v) s. bind_res (assert_res (\<not> null v)) (\<lambda>_. iter k v s))
       (concat (map chain_kvs (buckets m))) s"

section \<open>The hash of numbers is a bijection\<close>

text \<open>The inverse of \<open>nncmap_hash\<close>: its steps undone in reverse order.\<close>

definition nncmap_unhash :: "u64 \<Rightarrow> u64" where
  "nncmap_unhash h =
     (let key2 = h XOR drop_bit 30 h;
          key1 = key2 * 0xbf58476d1ce4e5b9;
          key1' = key1 XOR drop_bit 27 key1;
          key0 = key1' * 0x94d049bb133111eb
      in key0 XOR drop_bit 31 key0)"

lemma xorshift_inverse:
  fixes x y :: u64
  assumes y: "y = x XOR drop_bit n x XOR drop_bit m x" and "m = 2 * n" "64 \<le> 3 * n"
  shows "y XOR drop_bit n y = x"
proof (rule bit_word_eqI)
  fix i
  have m: "m = n + n" using assms(2) by simp
  have "\<not> bit x (i + (n + (n + n)))" using assms(3) by (intro impossible_bit) simp
  then show "bit (y XOR drop_bit n y) i = bit x i"
    by (auto simp: y m bit_simps ac_simps)
qed

lemma mult_inverse64:
  fixes a b x y :: u64
  assumes "y = x * a" "a * b = 1"
  shows "y * b = x"
  using assms by (simp add: mult.assoc)

lemma nncmap_unhash_hash: "nncmap_unhash (nncmap_hash k) = k"
proof -
  define a where "a = k XOR drop_bit 31 k XOR drop_bit 62 k"
  define b where "b = a * 0x319642b2d24d8ec3"
  define c where "c = b XOR drop_bit 27 b XOR drop_bit 54 b"
  define d where "d = c * 0x96de1b173f119089"
  define e where "e = d XOR drop_bit 30 d XOR drop_bit 60 d"
  have "nncmap_hash k = e"
    by (simp add: nncmap_hash_def Let_def e_def d_def c_def b_def a_def)
  moreover have "e XOR drop_bit 30 e = d" by (rule xorshift_inverse [OF e_def]) simp_all
  moreover have "d * 0xbf58476d1ce4e5b9 = c" by (rule mult_inverse64 [OF d_def]) simp
  moreover have "c XOR drop_bit 27 c = b" by (rule xorshift_inverse [OF c_def]) simp_all
  moreover have "b * 0x94d049bb133111eb = a" by (rule mult_inverse64 [OF b_def]) simp
  moreover have "a XOR drop_bit 31 a = k" by (rule xorshift_inverse [OF a_def]) simp_all
  ultimately show ?thesis by (simp only: nncmap_unhash_def Let_def)
qed

theorem nncmap_hash_bij: "bij nncmap_hash"
proof -
  have "inj nncmap_hash" by (metis injI nncmap_unhash_hash)
  then show ?thesis by (simp add: bij_def endo_inj_surj [of "UNIV :: u64 set"])
qed

section \<open>The invariant and the map a table stands for\<close>

text \<open>A slot is one vacant bucket, or a chain without vacant buckets.\<close>

definition chain_ok :: "('k, 'v) bucket list \<Rightarrow> bool" where
  "chain_ok bs \<longleftrightarrow> bs = [Vacant] \<or> bs \<noteq> [] \<and> Vacant \<notin> set bs"

definition slot :: "'k key_ops \<Rightarrow> ('k, 'v) nnc_map \<Rightarrow> 'k \<Rightarrow> nat" where
  "slot ops m k = unat (hash ops k) mod cap m"

definition map_entries :: "('k, 'v) nnc_map \<Rightarrow> ('k \<times> 'v) list" where
  "map_entries m = concat (map chain_kvs (buckets m))"

definition slot_ok :: "'k key_ops \<Rightarrow> ('k, 'v) nnc_map \<Rightarrow> nat \<Rightarrow> ('k, 'v) bucket list \<Rightarrow> bool" where
  "slot_ok ops m i bs \<longleftrightarrow>
     chain_ok bs \<and> distinct (map fst (chain_kvs bs)) \<and> (\<forall>k \<in> fst ` set (chain_kvs bs). slot ops m k = i)"

text \<open>
  The length counts the entries. It can exceed their number once a value has been overwritten
  in the middle of a chain; the \<open>exact\<close> tables are those where it does not.
\<close>

definition map_inv :: "'k key_ops \<Rightarrow> ('k, 'v) nnc_map \<Rightarrow> bool" where
  "map_inv ops m \<longleftrightarrow>
     0 < cap m \<and> length (buckets m) = cap m \<and> (\<forall>i < cap m. slot_ok ops m i (buckets m ! i)) \<and>
     length (map_entries m) \<le> len m"

definition map_exact :: "('k, 'v) nnc_map \<Rightarrow> bool" where
  "map_exact m \<longleftrightarrow> len m = length (map_entries m)"

definition map_abs :: "'k key_ops \<Rightarrow> ('k, 'v) nnc_map \<Rightarrow> 'k \<rightharpoonup> 'v" where
  "map_abs ops m k = map_of (chain_kvs (buckets m ! slot ops m k)) k"

lemma slot_of_slot: "0 < cap m \<Longrightarrow> slot_of ops (cap m) k = Inr (slot ops m k)"
  by (simp add: slot_of_def slot_def)

lemma slot_bound [simp]: "0 < cap m \<Longrightarrow> slot ops m k < cap m"
  by (simp add: slot_def)

lemma slot_update [simp]: "slot ops (m \<lparr> len := l, buckets := bs \<rparr>) k = slot ops m k"
  by (simp add: slot_def)

lemma slot_ok_update [simp]: "slot_ok ops (m \<lparr> len := l, buckets := bs \<rparr>) = slot_ok ops m"
  by (simp add: slot_ok_def fun_eq_iff)

lemma map_invD:
  assumes "map_inv ops m"
  shows "0 < cap m" "length (buckets m) = cap m" "length (map_entries m) \<le> len m"
    "chain_ok (buckets m ! slot ops m k)"
    "distinct (map fst (chain_kvs (buckets m ! slot ops m k)))"
    "i < cap m \<Longrightarrow> slot_ok ops m i (buckets m ! i)"
    "i < cap m \<Longrightarrow> buckets m ! i \<noteq> []"
  using assms by (auto simp: map_inv_def slot_ok_def chain_ok_def)

lemma chain_kvs_vacant_free:
  "Vacant \<notin> set bs \<Longrightarrow> length (chain_kvs bs) = length bs"
  by (induction bs rule: chain_kvs.induct) auto

lemma chain_cases [consumes 1, case_names empty full]:
  assumes "chain_ok bs"
  obtains "bs = [Vacant]" | k v bs' where "bs = Bucket k v # bs'" "Vacant \<notin> set bs'"
  using assms by (cases bs; cases "hd bs") (auto simp: chain_ok_def)

lemma chain_find_full:
  "Vacant \<notin> set bs \<Longrightarrow>
     chain_find ops bs k = Inr (map_option (Bucket k) (map_of (chain_kvs bs) k))"
  by (induction bs rule: chain_kvs.induct) (auto simp: nncmap_keys_cmp_def)

lemma map_inv_update:
  assumes inv: "map_inv ops m" and i: "i < cap m" and ok: "slot_ok ops m i bs"
    and l: "l + length (chain_kvs (buckets m ! i)) \<ge> len m + length (chain_kvs bs)"
  shows "map_inv ops (m \<lparr> len := l, buckets := (buckets m)[i := bs] \<rparr>)"
proof -
  have "length (concat ((map chain_kvs (buckets m))[i := chain_kvs bs]))
      + length (chain_kvs (buckets m ! i)) = length (map_entries m) + length (chain_kvs bs)"
    using length_concat_update [of i "map chain_kvs (buckets m)" "chain_kvs bs"] i map_invD(2) [OF inv]
    by (simp add: map_entries_def)
  then show ?thesis
    using inv i ok l by (auto simp: map_inv_def map_entries_def map_update nth_list_update)
qed

lemma map_exact_update:
  assumes "map_exact m" "i < length (buckets m)"
    and "l + length (chain_kvs (buckets m ! i)) = len m + length (chain_kvs bs)"
  shows "map_exact (m \<lparr> len := l, buckets := (buckets m)[i := bs] \<rparr>)"
  using assms length_concat_update [of i "map chain_kvs (buckets m)" "chain_kvs bs"]
  by (simp add: map_exact_def map_entries_def map_update)

lemma map_abs_update:
  assumes "map_inv ops m" "i < cap m" "slot_ok ops m i bs"
  shows "map_abs ops (m \<lparr> len := l, buckets := (buckets m)[i := bs] \<rparr>) k =
     (if slot ops m k = i then map_of (chain_kvs bs) k else map_abs ops m k)"
  using assms by (auto simp: map_abs_def map_inv_def nth_list_update)

lemma nncmap_init_inv: "0 < c \<Longrightarrow> map_inv ops (nncmap_init c)"
  by (auto simp: map_inv_def nncmap_init_def slot_ok_def chain_ok_def map_entries_def
      concat_eq_Nil_conv)

lemma nncmap_init_abs: "0 < c \<Longrightarrow> map_abs ops (nncmap_init c) k = None"
  by (simp add: map_abs_def nncmap_init_def slot_def)

section \<open>Looking up\<close>

lemma nncmap_has_abs:
  assumes "map_inv ops m"
  shows "nncmap_has ops m k = Inr (map_abs ops m k \<noteq> None)"
  using map_invD(4) [OF assms, of k]
proof (cases rule: chain_cases)
  case empty
  then show ?thesis using map_invD(1) [OF assms]
    by (simp add: nncmap_has_def slot_of_slot map_abs_def)
next
  case (full k' v bs)
  then show ?thesis using map_invD(1) [OF assms] chain_find_full [of "Bucket k' v # bs" ops k]
    by (simp add: nncmap_has_def slot_of_slot map_abs_def)
qed

lemma nncmap_get_abs:
  assumes "map_inv ops m" "map_abs ops m k = Some v"
  shows "nncmap_get ops m k = Inr v"
  using map_invD(4) [OF assms(1), of k]
proof (cases rule: chain_cases)
  case empty
  then show ?thesis using assms(2) by (simp add: map_abs_def)
next
  case (full k' v' bs)
  then show ?thesis
    using map_invD(1) [OF assms(1)] chain_find_full [of "Bucket k' v' # bs" ops k] assms(2)
    by (simp add: nncmap_get_def slot_of_slot map_abs_def)
qed
section \<open>Removing\<close>

lemma filter_key_absent: "k \<notin> fst ` set xs \<Longrightarrow> filter (\<lambda>(x, _). x \<noteq> k) xs = xs"
  by (induction xs) auto

lemma length_filter_key:
  "distinct (map fst xs) \<Longrightarrow> k \<in> fst ` set xs \<Longrightarrow>
     Suc (length (filter (\<lambda>(x, _). x \<noteq> k) xs)) = length xs"
proof (induction xs)
  case Nil
  then show ?case by simp
next
  case (Cons p xs)
  show ?case
  proof (cases "fst p = k")
    case True
    then have "filter (\<lambda>(x, _). x \<noteq> k) xs = xs"
      using Cons.prems(1) by (intro filter_key_absent) auto
    then show ?thesis using True by (cases p) simp
  next
    case False
    then show ?thesis using Cons by (cases p) auto
  qed
qed

lemma map_of_filter_key: "map_of (filter (\<lambda>(x, _). x \<noteq> k) xs) = (map_of xs)(k := None)"
  by (induction xs) (auto simp: fun_eq_iff)

lemma unlink_child_full:
  assumes "Vacant \<notin> set bs" "distinct (map fst (chain_kvs bs))" "map_of (chain_kvs bs) k \<noteq> None"
  shows "\<exists>bs'. unlink_child ops bs k = Inr bs' \<and> Vacant \<notin> set bs' \<and>
     chain_kvs bs' = filter (\<lambda>(x, _). x \<noteq> k) (chain_kvs bs)"
  using assms
proof (induction bs rule: chain_kvs.induct)
  case (3 k' v bs)
  show ?case
  proof (cases "k' = k")
    case True
    have "filter (\<lambda>(x, _). x \<noteq> k) (chain_kvs bs) = chain_kvs bs"
      using 3(3) True by (intro filter_key_absent) auto
    then show ?thesis using True 3(2) by (simp add: nncmap_keys_cmp_def)
  next
    case False
    then show ?thesis using 3 by (auto simp: nncmap_keys_cmp_def)
  qed
qed simp_all

lemma nncmap_pop_abs:
  assumes inv: "map_inv ops m"
  shows "\<exists>m'. nncmap_pop ops m k = Inr m' \<and> map_inv ops m' \<and>
     map_abs ops m' = (map_abs ops m)(k := None) \<and> (map_exact m \<longrightarrow> map_exact m')"
proof (cases "map_abs ops m k")
  case None
  then show ?thesis
    using inv by (auto simp: nncmap_pop_def slot_of_slot map_invD(1) nncmap_has_abs fun_eq_iff)
next
  case (Some v)
  define i where "i = slot ops m k"
  have i: "i < cap m" using map_invD(1) [OF inv] by (simp add: i_def)
  obtain k' v' bs where full: "buckets m ! i = Bucket k' v' # bs" "Vacant \<notin> set bs"
    using map_invD(4) [OF inv, of k] Some by (auto simp: map_abs_def i_def elim!: chain_cases)
  have sok: "slot_ok ops m i (buckets m ! i)" using map_invD(6) [OF inv i] .
  have found: "map_of (chain_kvs (buckets m ! i)) k \<noteq> None"
    using Some by (simp add: map_abs_def i_def)
  define kvs where "kvs = chain_kvs (buckets m ! i)"
  obtain bs' where bs': "nncmap_pop ops m k = Inr (m \<lparr> len := len m - 1, buckets := (buckets m)[i := bs'] \<rparr>)"
    "chain_ok bs'" "chain_kvs bs' = filter (\<lambda>(x, _). x \<noteq> k) kvs"
  proof (cases "k' = k")
    case True
    have "filter (\<lambda>(x, _). x \<noteq> k) (chain_kvs bs) = chain_kvs bs"
      using sok True full by (intro filter_key_absent) (auto simp: slot_ok_def)
    then show ?thesis
      using that [of "if bs \<noteq> [] then bs else [Vacant]"] True full Some inv
      by (auto simp: nncmap_pop_def slot_of_slot map_invD(1) nncmap_has_abs i_def
          nncmap_keys_cmp_def kvs_def chain_ok_def)
  next
    case False
    obtain bs1 where "unlink_child ops bs k = Inr bs1" "Vacant \<notin> set bs1"
      "chain_kvs bs1 = filter (\<lambda>(x, _). x \<noteq> k) (chain_kvs bs)"
      using unlink_child_full [of bs k ops] full sok found False by (auto simp: slot_ok_def)
    then show ?thesis
      using that [of "Bucket k' v' # bs1"] False full Some inv
      by (auto simp: nncmap_pop_def slot_of_slot map_invD(1) nncmap_has_abs i_def
          nncmap_keys_cmp_def kvs_def chain_ok_def)
  qed
  have ok': "slot_ok ops m i bs'"
    using sok bs'(2,3) by (auto simp: slot_ok_def kvs_def distinct_map_filter)
  have "k \<in> fst ` set kvs" using found by (metis kvs_def map_of_eq_None_notin)
  then have len': "length kvs = Suc (length (chain_kvs bs'))"
    using sok bs'(3) length_filter_key [of kvs k] by (simp add: slot_ok_def kvs_def)
  have pos: "0 < len m"
  proof -
    have "length kvs \<le> length (map_entries m)"
      using i map_invD(2) [OF inv] length_concat_update [of i "map chain_kvs (buckets m)" "[]"]
      by (simp add: map_entries_def kvs_def)
    then show ?thesis using len' map_invD(3) [OF inv] by simp
  qed
  let ?m = "m \<lparr> len := len m - 1, buckets := (buckets m)[i := bs'] \<rparr>"
  have "map_inv ops ?m" using len' by (intro map_inv_update inv i ok') (simp add: kvs_def)
  moreover have "map_abs ops ?m = (map_abs ops m)(k := None)"
    using bs'(3) map_abs_update [OF inv i ok'] map_of_filter_key [of k kvs]
    by (auto simp: fun_eq_iff map_abs_def i_def kvs_def)
  moreover have "map_exact m \<longrightarrow> map_exact ?m"
    using map_exact_update [of m i "len m - 1" bs'] len' i map_invD(2) [OF inv] pos by (simp add: kvs_def)
  ultimately show ?thesis using bs'(1) by blast
qed
section \<open>Inserting\<close>

lemma chain_put_fresh:
  assumes "chain_ok bs" "map_of (chain_kvs bs) k = None"
  shows "\<exists>bs'. chain_put bs k v = (bs', True) \<and> chain_ok bs' \<and> chain_kvs bs' = chain_kvs bs @ [(k, v)]"
proof -
  have *: "\<exists>bs'. chain_put bs k v = (bs', True) \<and> bs' \<noteq> [] \<and> Vacant \<notin> set bs' \<and>
      chain_kvs bs' = chain_kvs bs @ [(k, v)]"
    if "Vacant \<notin> set bs" "map_of (chain_kvs bs) k = None" for bs :: "('a, 'b) bucket list"
    using that by (induction bs rule: chain_kvs.induct) (auto split: if_splits)
  from assms(1) show ?thesis
    by (cases rule: chain_cases) (use assms * [of bs] in \<open>auto simp: chain_ok_def\<close>)
qed

lemma chain_put_old:
  assumes "chain_ok bs" "map_of (chain_kvs bs) k \<noteq> None"
  shows "\<exists>bs'. chain_put bs k v = (bs', False) \<and> chain_ok bs' \<and>
     chain_kvs bs' = takeWhile (\<lambda>(x, _). x \<noteq> k) (chain_kvs bs) @ [(k, v)]"
proof -
  have *: "\<exists>bs'. chain_put bs k v = (bs', False) \<and> bs' \<noteq> [] \<and> Vacant \<notin> set bs' \<and>
      chain_kvs bs' = takeWhile (\<lambda>(x, _). x \<noteq> k) (chain_kvs bs) @ [(k, v)]"
    if "Vacant \<notin> set bs" "map_of (chain_kvs bs) k \<noteq> None" for bs :: "('a, 'b) bucket list"
    using that by (induction bs rule: chain_kvs.induct) (auto split: if_splits)
  from assms(1) show ?thesis
    by (cases rule: chain_cases) (use assms * [of bs] in \<open>auto simp: chain_ok_def\<close>)
qed

text \<open>What a call of \<^verbatim>\<open>nncmap_put\<close> promises of the table it returns.\<close>

definition put_post :: "'k key_ops \<Rightarrow> ('k, 'v) nnc_map \<Rightarrow> 'k \<Rightarrow> 'v \<Rightarrow> ('k, 'v) nnc_map \<Rightarrow> bool" where
  "put_post ops m k v m' \<longleftrightarrow>
     map_inv ops m' \<and> map_abs ops m' k = Some v \<and>
     map_abs ops m' \<subseteq>\<^sub>m (map_abs ops m)(k \<mapsto> v) \<and>
     (map_abs ops m k = None \<longrightarrow> map_abs ops m' = (map_abs ops m)(k \<mapsto> v) \<and>
        (map_exact m \<longrightarrow> map_exact m' \<and> len m' = Suc (len m)))"

definition put_core :: "'k key_ops \<Rightarrow> 'k \<Rightarrow> 'v \<Rightarrow> ('k, 'v) nnc_map \<Rightarrow> ('k, 'v) nnc_map res" where
  "put_core ops k v m =
     bind_res (slot_of ops (cap m) k) (\<lambda>i.
       let (bs, grown) = chain_put (buckets m ! i) k v in
       Inr (m \<lparr> len := (if grown then Suc (len m) else len m), buckets := (buckets m)[i := bs] \<rparr>))"

lemma put_fuel_core:
  "put_fuel (Suc n) ops k v m =
     bind_res (if nncmap_needs_rehash m then nncmap_rehash (put_fuel n ops) m else Inr m) (put_core ops k v)"
  by (simp add: put_core_def [abs_def])

lemma map_of_takeWhile_le:
  "map_of (takeWhile P xs) x = Some y \<Longrightarrow> map_of xs x = Some y"
  by (induction xs) (auto split: if_splits)

lemma takeWhile_key_absent: "k \<notin> fst ` set (takeWhile (\<lambda>(x, _). x \<noteq> k) xs)"
  by (induction xs) auto

lemma put_core_post:
  assumes inv: "map_inv ops m"
  shows "\<exists>m'. put_core ops k v m = Inr m' \<and> put_post ops m k v m'"
proof -
  define i where "i = slot ops m k"
  have i: "i < cap m" using map_invD(1) [OF inv] by (simp add: i_def)
  have sok: "slot_ok ops m i (buckets m ! i)" using map_invD(6) [OF inv i] .
  define kvs where "kvs = chain_kvs (buckets m ! i)"
  have abs_k: "map_abs ops m k = map_of kvs k" by (simp add: map_abs_def i_def kvs_def)
  have abs_i: "map_abs ops m x = map_of kvs x" if "slot ops m x = i" for x
    using that by (simp add: map_abs_def kvs_def)
  show ?thesis
  proof (cases "map_of kvs k")
    case None
    obtain bs' where bs': "chain_put (buckets m ! i) k v = (bs', True)" "chain_ok bs'"
      "chain_kvs bs' = kvs @ [(k, v)]"
      using chain_put_fresh [of "buckets m ! i" k v] sok None by (auto simp: slot_ok_def kvs_def)
    let ?m = "m \<lparr> len := Suc (len m), buckets := (buckets m)[i := bs'] \<rparr>"
    have ok': "slot_ok ops m i bs'"
      using sok bs'(2,3) None map_of_eq_None_notin [of kvs k]
      by (auto simp: slot_ok_def kvs_def i_def)
    have "map_abs ops ?m = (map_abs ops m)(k \<mapsto> v)"
      using map_abs_update [OF inv i ok'] bs'(3) None map_of_snoc_fresh [of k kvs v] abs_i i_def
      by (auto simp: fun_eq_iff map_of_eq_None_notin)
    moreover have "map_inv ops ?m"
      by (intro map_inv_update inv i ok') (simp add: bs'(3) kvs_def)
    moreover have "map_exact m \<longrightarrow> map_exact ?m"
      using map_exact_update [of m i "Suc (len m)" bs'] i map_invD(2) [OF inv] bs'(3) by (simp add: kvs_def)
    moreover have "put_core ops k v m = Inr ?m"
      using bs'(1) map_invD(1) [OF inv] by (simp add: put_core_def slot_of_slot i_def)
    ultimately show ?thesis by (auto simp: put_post_def abs_k None)
  next
    case (Some v0)
    define ys where "ys = takeWhile (\<lambda>(x, _). x \<noteq> k) kvs"
    obtain bs' where bs': "chain_put (buckets m ! i) k v = (bs', False)" "chain_ok bs'"
      "chain_kvs bs' = ys @ [(k, v)]"
      using chain_put_old [of "buckets m ! i" k v] sok Some by (auto simp: slot_ok_def kvs_def ys_def)
    have k: "k \<in> fst ` set kvs" using Some by (metis map_of_eq_None_notin option.distinct(1))
    have sub: "set ys \<subseteq> set kvs" by (auto simp: ys_def dest: set_takeWhileD)
    have fresh: "k \<notin> fst ` set ys" unfolding ys_def by (rule takeWhile_key_absent)
    have "length ys < length kvs"
      using k fresh takeWhile_eq_all_conv length_takeWhile_le [of _ kvs]
      by (metis le_neq_implies_less takeWhile_eq_take take_all_iff order_refl ys_def)
    define l where "l = len m"
    let ?m = "m \<lparr> len := l, buckets := (buckets m)[i := bs'] \<rparr>"
    have "distinct (map fst ys)"
      using sok distinct_takeWhile [of "map fst kvs" "\<lambda>x. x \<noteq> k"]
      by (simp add: slot_ok_def kvs_def ys_def takeWhile_map o_def case_prod_beta')
    then have ok': "slot_ok ops m i bs'"
      using sok bs'(2,3) fresh sub by (auto simp: slot_ok_def kvs_def i_def)
    have abs': "map_abs ops ?m x =
       (if x = k then Some v else if slot ops m x = i then map_of ys x else map_abs ops m x)" for x
      using map_abs_update [OF inv i ok'] bs'(3) map_of_snoc_fresh [OF fresh, of v] by (simp add: i_def)
    have "map_abs ops ?m \<subseteq>\<^sub>m (map_abs ops m)(k \<mapsto> v)"
      using abs_i map_of_takeWhile_le [of "\<lambda>(x, _). x \<noteq> k" kvs]
      by (fastforce simp: map_le_def dom_def abs' ys_def split: if_splits)
    moreover have "map_inv ops ?m"
      using \<open>length ys < length kvs\<close> by (intro map_inv_update inv i ok') (simp add: bs'(3) kvs_def l_def)
    moreover have "put_core ops k v m = Inr ?m"
      using bs'(1) map_invD(1) [OF inv] by (simp add: put_core_def slot_of_slot i_def l_def)
    ultimately show ?thesis by (auto simp: put_post_def abs_k Some abs')
  qed
qed

lemma distinct_map_of_slots:
  assumes "\<And>i. i < length xss \<Longrightarrow> distinct (map fst (xss ! i))"
    and "\<And>i k. i < length xss \<Longrightarrow> k \<in> fst ` set (xss ! i) \<Longrightarrow> f k = i"
  shows "distinct (map fst (concat xss)) \<and>
     map_of (concat xss) k = (if f k < length xss then map_of (xss ! f k) k else None)"
  using assms
proof (induction xss rule: rev_induct)
  case Nil
  then show ?case by simp
next
  case (snoc xs xss)
  have old: "distinct (map fst (xss ! i))" "k \<in> fst ` set (xss ! i) \<Longrightarrow> f k = i" if "i < length xss" for i k
    using snoc.prems(1) [of i] snoc.prems(2) [of i k] that by (auto simp: nth_append)
  have new: "distinct (map fst xs)" "k \<in> fst ` set xs \<Longrightarrow> f k = length xss" for k
    using snoc.prems(1) [of "length xss"] snoc.prems(2) [of "length xss" k] by auto
  have IH: "distinct (map fst (concat xss))"
     "map_of (concat xss) k = (if f k < length xss then map_of (xss ! f k) k else None)"
    using snoc.IH old by auto
  have lt: "f x < length xss" if x: "x \<in> fst ` set (concat xss)" for x
  proof -
    from x obtain ys where "ys \<in> set xss" "x \<in> fst ` set ys" by auto
    then obtain i where "i < length xss" "x \<in> fst ` set (xss ! i)" by (metis in_set_conv_nth)
    then show ?thesis using old(2) by blast
  qed
  then have disj: "fst ` set (concat xss) \<inter> fst ` set xs = {}" using new(2) by fastforce
  have dist: "distinct (map fst (concat xss @ xs))" using IH(1) new(1) disj by auto
  have none: "map_of xs k = None" if "f k \<noteq> length xss"
    using that new(2) [of k] map_of_eq_None_notin by metis
  have "map_of (concat xss @ xs) k = (if f k < length (xss @ [xs]) then map_of ((xss @ [xs]) ! f k) k else None)"
    using map_of_distinct_append [OF dist, of k] IH(2) none
    by (auto simp: nth_append less_Suc_eq split: option.splits)
  then show ?case using dist by simp
qed

lemma map_entries_slots:
  assumes inv: "map_inv ops m"
  shows "distinct (map fst (map_entries m)) \<and> map_of (map_entries m) k = map_abs ops m k"
proof -
  define xss where "xss = map chain_kvs (buckets m)"
  have len: "length xss = cap m" using map_invD(2) [OF inv] by (simp add: xss_def)
  have nth: "xss ! i = chain_kvs (buckets m ! i)" if "i < length xss" for i
    using that by (simp add: xss_def)
  have ok: "slot_ok ops m i (buckets m ! i)" if "i < length xss" for i
    using map_invD(6) [OF inv] len that by simp
  have "distinct (map fst (concat xss)) \<and>
     map_of (concat xss) k = (if slot ops m k < length xss then map_of (xss ! slot ops m k) k else None)"
  proof (rule distinct_map_of_slots)
    show "distinct (map fst (xss ! i))" if "i < length xss" for i
      using ok [OF that] nth [OF that] by (simp add: slot_ok_def)
    show "slot ops m x = i" if "i < length xss" "x \<in> fst ` set (xss ! i)" for i x
      using ok [OF that(1)] nth [OF that(1)] that(2) by (auto simp: slot_ok_def)
  qed
  moreover have "slot ops m k < length xss" using len map_invD(1) [OF inv] by simp
  ultimately show ?thesis using nth by (simp add: map_entries_def map_abs_def xss_def [symmetric])
qed

lemma map_entries_abs:
  assumes "map_inv ops m"
  shows "distinct (map fst (map_entries m))" "map_of (map_entries m) = map_abs ops m"
  using map_entries_slots [OF assms] by (auto simp: fun_eq_iff)

lemma map_exact_len:
  assumes "map_inv ops m" "map_exact m"
  shows "len m = card (dom (map_abs ops m))"
  using map_entries_abs [OF assms(1)] assms(2)
  by (metis dom_map_of_conv_image_fst distinct_card length_map list.set_map map_exact_def)

lemma rehash_fold:
  assumes put: "\<And>m k v. map_inv ops m \<Longrightarrow> len m < n \<Longrightarrow>
      \<exists>m'. put k v m = Inr m' \<and> put_post ops m k v m'"
    and "map_inv ops m" "map_exact m" "len m + length es \<le> n" "distinct (map fst es)"
    and "\<forall>k \<in> fst ` set es. map_abs ops m k = None"
  shows "\<exists>m'. fold_res (\<lambda>(k, v). put k v) es m = Inr m' \<and> map_inv ops m' \<and> map_exact m' \<and>
     map_abs ops m' = map_abs ops m ++ map_of es"
  using assms(2-)
proof (induction es arbitrary: m)
  case Nil
  then show ?case by simp
next
  case (Cons e es)
  obtain k v where e: "e = (k, v)" by (cases e)
  obtain m1 where m1: "put k v m = Inr m1" "put_post ops m k v m1"
    using put Cons.prems by fastforce
  have new: "map_abs ops m k = None" using Cons.prems(5) e by simp
  have m1': "map_inv ops m1" "map_exact m1" "len m1 = Suc (len m)" "map_abs ops m1 = (map_abs ops m)(k \<mapsto> v)"
    using m1(2) new Cons.prems(2) by (auto simp: put_post_def)
  have "\<exists>m'. fold_res (\<lambda>(k, v). put k v) es m1 = Inr m' \<and> map_inv ops m' \<and> map_exact m' \<and>
     map_abs ops m' = map_abs ops m1 ++ map_of es"
    using Cons.prems e m1' by (intro Cons.IH) (auto simp: image_iff)
  moreover have eq: "(map_abs ops m)(k \<mapsto> v) ++ map_of es = map_abs ops m ++ map_of (e # es)"
    using Cons.prems(4) e by (auto simp: fun_eq_iff map_add_def map_of_eq_None_notin split: option.splits
        dest: map_of_SomeD intro: rev_image_eqI)
  ultimately show ?case
    unfolding m1'(4) eq by (simp only: e fold_res.simps m1(1) bind_res_Inr prod.case)
qed

lemma map_exact_init: "map_exact (nncmap_init c)"
  by (simp add: map_exact_def nncmap_init_def map_entries_def)

lemma nncmap_init_len: "len (nncmap_init c) = 0"
  by (simp add: nncmap_init_def)

lemma rehash_abs:
  assumes put: "\<And>m k v. map_inv ops m \<Longrightarrow> len m < n \<Longrightarrow>
      \<exists>m'. put k v m = Inr m' \<and> put_post ops m k v m'"
    and inv: "map_inv ops m" and n: "len m \<le> n"
  shows "\<exists>m'. nncmap_rehash put m = Inr m' \<and> map_inv ops m' \<and> map_exact m' \<and>
     map_abs ops m' = map_abs ops m"
proof -
  let ?m0 = "nncmap_init (rehash_cap (cap m))"
  have c: "0 < rehash_cap (cap m)" using map_invD(1) [OF inv] by (simp add: rehash_cap_def)
  have "\<exists>m'. fold_res (\<lambda>(k, v). put k v) (map_entries m) ?m0 = Inr m' \<and> map_inv ops m' \<and> map_exact m' \<and>
     map_abs ops m' = map_abs ops ?m0 ++ map_of (map_entries m)"
    using n map_invD(3) [OF inv]
    by (intro rehash_fold [OF put]) (auto simp: nncmap_init_inv [OF c] nncmap_init_abs [OF c] map_exact_init
        map_entries_abs(1) [OF inv] nncmap_init_len)
  moreover have "map_abs ops ?m0 ++ map_of (map_entries m) = map_abs ops m"
    using map_entries_abs(2) [OF inv] nncmap_init_abs [OF c]
    by (auto simp: fun_eq_iff map_add_def split: option.splits)
  ultimately show ?thesis using map_invD(1) [OF inv]
    by (simp add: nncmap_rehash_def map_entries_def)
qed

lemma put_fuel_post:
  "map_inv ops m \<Longrightarrow> len m < n \<Longrightarrow> \<exists>m'. put_fuel n ops k v m = Inr m' \<and> put_post ops m k v m'"
proof (induction n arbitrary: m k v)
  case 0
  then show ?case by simp
next
  case (Suc n)
  note IH = Suc.IH and inv = Suc.prems(1)
  have "\<exists>m1. (if nncmap_needs_rehash m then nncmap_rehash (put_fuel n ops) m else Inr m) = Inr m1 \<and>
      map_inv ops m1 \<and> map_abs ops m1 = map_abs ops m \<and> (map_exact m \<longrightarrow> map_exact m1 \<and> len m1 = len m)"
  proof (cases "nncmap_needs_rehash m")
    case True
    obtain m' where m': "nncmap_rehash (put_fuel n ops) m = Inr m'" "map_inv ops m'" "map_exact m'"
      "map_abs ops m' = map_abs ops m"
      using rehash_abs [of ops n "put_fuel n ops" m] IH inv Suc.prems(2) by auto
    have "len m' = len m" if "map_exact m"
      using map_exact_len [OF inv that] map_exact_len [OF m'(2,3)] m'(4) by simp
    then show ?thesis using m' True by auto
  qed (use inv in auto)
  then obtain m1 where m1: "(if nncmap_needs_rehash m then nncmap_rehash (put_fuel n ops) m else Inr m) = Inr m1"
      "map_inv ops m1" "map_abs ops m1 = map_abs ops m" "map_exact m \<longrightarrow> map_exact m1 \<and> len m1 = len m"
    by blast
  obtain m2 where "put_core ops k v m1 = Inr m2" "put_post ops m1 k v m2"
    using put_core_post [OF m1(2)] by blast
  then show ?case using m1 unfolding put_fuel_core by (auto simp: put_post_def)
qed

lemma nncmap_put_post:
  "map_inv ops m \<Longrightarrow> \<exists>m'. nncmap_put ops m k v = Inr m' \<and> put_post ops m k v m'"
  unfolding nncmap_put_def by (rule put_fuel_post) simp_all

text \<open>Filling a table that is large enough: no rehashing happens.\<close>

lemma nncmap_put_cap:
  assumes "\<not> nncmap_needs_rehash m" "nncmap_put ops m k v = Inr m'"
  shows "cap m' = cap m"
  using assms unfolding nncmap_put_def put_fuel_core
  by (auto simp: put_core_def bind_res_eq_Inr Let_def case_prod_beta)

lemma put_all_fresh:
  assumes "map_inv ops m" "map_exact m" "distinct (map fst es)"
    "\<forall>k \<in> fst ` set es. map_abs ops m k = None" "10 * (len m + length es) < 7 * cap m"
  shows "\<exists>m'. fold_res (\<lambda>(k, v) m. nncmap_put ops m k v) es m = Inr m' \<and> map_inv ops m' \<and>
     map_abs ops m' = map_abs ops m ++ map_of es \<and> cap m' = cap m \<and> len m' = len m + length es"
  using assms
proof (induction es arbitrary: m)
  case Nil
  then show ?case by simp
next
  case (Cons e es)
  obtain k v where e: "e = (k, v)" by (cases e)
  have new: "map_abs ops m k = None" using Cons.prems(4) e by simp
  obtain m1 where m1: "nncmap_put ops m k v = Inr m1" "map_inv ops m1" "map_exact m1"
    "len m1 = Suc (len m)" "map_abs ops m1 = (map_abs ops m)(k \<mapsto> v)"
    using nncmap_put_post [OF Cons.prems(1), of k v] new Cons.prems(2) by (auto simp: put_post_def)
  have "\<not> nncmap_needs_rehash m" using Cons.prems(5) by (simp add: nncmap_needs_rehash_def)
  then have c1: "cap m1 = cap m" by (rule nncmap_put_cap [OF _ m1(1)])
  have "\<exists>m'. fold_res (\<lambda>(k, v) m. nncmap_put ops m k v) es m1 = Inr m' \<and> map_inv ops m' \<and>
     map_abs ops m' = map_abs ops m1 ++ map_of es \<and> cap m' = cap m1 \<and> len m' = len m1 + length es"
    using Cons.prems e m1 c1 by (intro Cons.IH) (auto simp: image_iff)
  moreover have eq: "(map_abs ops m)(k \<mapsto> v) ++ map_of es = map_abs ops m ++ map_of (e # es)"
    using Cons.prems(3) e by (auto simp: fun_eq_iff map_add_def map_of_eq_None_notin split: option.splits
        dest: map_of_SomeD intro: rev_image_eqI)
  ultimately show ?case
    unfolding m1(4,5) eq c1
    by (simp only: e fold_res.simps prod.case m1(1) bind_res_Inr list.size(4) add_Suc add_Suc_right add_0_right)
qed

section \<open>The dictionary interface\<close>

text \<open>
  What the clients of the table (keyword table, symbol tables, live ranges) rely on: each
  inserts a key only after \<^verbatim>\<open>map_has\<close> answered no, and the table is a finite map then.
\<close>

datatype ('k, 'v) dict_op = Put 'k 'v | Pop 'k

definition dict_step ::
  "('m \<Rightarrow> 'k \<Rightarrow> bool res) \<Rightarrow> ('m \<Rightarrow> 'k \<Rightarrow> 'v \<Rightarrow> 'm res) \<Rightarrow> ('m \<Rightarrow> 'k \<Rightarrow> 'm res) \<Rightarrow>
     ('k, 'v) dict_op \<Rightarrow> 'm \<Rightarrow> 'm res"
where
  "dict_step has put pop cmd m =
     (case cmd of
        Put k v \<Rightarrow> bind_res (has m k) (\<lambda>found. if found then Inr m else put m k v)
      | Pop k \<Rightarrow> pop m k)"

fun dict_spec :: "('k, 'v) dict_op \<Rightarrow> ('k \<rightharpoonup> 'v) \<Rightarrow> ('k \<rightharpoonup> 'v)" where
  "dict_spec (Put k v) f = (if f k = None then f(k \<mapsto> v) else f)"
| "dict_spec (Pop k) f = f(k := None)"

locale nnc_dict =
  fixes inv :: "'m \<Rightarrow> bool" and abs :: "'m \<Rightarrow> 'k \<rightharpoonup> 'v"
    and has :: "'m \<Rightarrow> 'k \<Rightarrow> bool res" and get :: "'m \<Rightarrow> 'k \<Rightarrow> 'v res"
    and put :: "'m \<Rightarrow> 'k \<Rightarrow> 'v \<Rightarrow> 'm res" and pop :: "'m \<Rightarrow> 'k \<Rightarrow> 'm res"
  assumes has_abs: "inv m \<Longrightarrow> has m k = Inr (abs m k \<noteq> None)"
    and get_abs: "inv m \<Longrightarrow> abs m k = Some v \<Longrightarrow> get m k = Inr v"
    and put_abs: "inv m \<Longrightarrow> abs m k = None \<Longrightarrow>
      \<exists>m'. put m k v = Inr m' \<and> inv m' \<and> abs m' = (abs m)(k \<mapsto> v)"
    and pop_abs: "inv m \<Longrightarrow> \<exists>m'. pop m k = Inr m' \<and> inv m' \<and> abs m' = (abs m)(k := None)"
begin

lemma step_abs:
  assumes "inv m"
  shows "\<exists>m'. dict_step has put pop cmd m = Inr m' \<and> inv m' \<and> abs m' = dict_spec cmd (abs m)"
  using put_abs [OF assms] pop_abs [OF assms] assms
  by (cases cmd) (auto simp: dict_step_def has_abs)

lemma history_abs:
  "inv m \<Longrightarrow> \<exists>m'. fold_res (dict_step has put pop) cmds m = Inr m' \<and> inv m' \<and>
     abs m' = fold dict_spec cmds (abs m)"
proof (induction cmds arbitrary: m)
  case Nil
  then show ?case by simp
next
  case (Cons cmd cmds)
  obtain m1 where m1: "dict_step has put pop cmd m = Inr m1" "inv m1" "abs m1 = dict_spec cmd (abs m)"
    using step_abs [OF Cons.prems] by blast
  show ?case using Cons.IH [OF m1(2)] by (simp add: m1)
qed

lemma history_lookup:
  assumes "inv m" "abs m = Map.empty"
  shows "\<exists>m'. fold_res (dict_step has put pop) cmds m = Inr m' \<and> inv m' \<and>
     (\<forall>k. has m' k = Inr (fold dict_spec cmds Map.empty k \<noteq> None)) \<and>
     (\<forall>k v. fold dict_spec cmds Map.empty k = Some v \<longrightarrow> get m' k = Inr v)"
  using history_abs [OF assms(1), of cmds] assms(2) by (auto simp: has_abs get_abs)

lemma has_after_put:
  assumes "inv m" "abs m k = None" "put m k v = Inr m'"
  shows "has m' x = Inr (x = k \<or> abs m x \<noteq> None)" "get m' k = Inr v"
  using put_abs [OF assms(1,2), of v] assms(3) by (auto simp: has_abs get_abs)

lemma has_after_pop:
  assumes "inv m" "pop m k = Inr m'"
  shows "has m' k = Inr False"
  using pop_abs [OF assms(1), of k] assms(2) by (auto simp: has_abs)

end

interpretation int_dict: nnc_dict "map_inv int_keys" "map_abs int_keys"
    "nncmap_has int_keys" "nncmap_get int_keys" "nncmap_put int_keys" "nncmap_pop int_keys"
  by unfold_locales
    (use nncmap_has_abs nncmap_get_abs nncmap_put_post nncmap_pop_abs in \<open>fastforce simp: put_post_def\<close>)+

interpretation str_dict: nnc_dict "map_inv str_keys" "map_abs str_keys"
    "nncmap_has str_keys" "nncmap_get str_keys" "nncmap_put str_keys" "nncmap_pop str_keys"
  by unfold_locales
    (use nncmap_has_abs nncmap_get_abs nncmap_put_post nncmap_pop_abs in \<open>fastforce simp: put_post_def\<close>)+

section \<open>Properties\<close>

definition answers_as :: "'k key_ops \<Rightarrow> ('k, 'v) nnc_map \<Rightarrow> ('k \<rightharpoonup> 'v) \<Rightarrow> bool" where
  "answers_as ops m f \<longleftrightarrow>
     (\<forall>k. nncmap_has ops m k = Inr (f k \<noteq> None)) \<and>
     (\<forall>k v. f k = Some v \<longrightarrow> nncmap_get ops m k = Inr v)"

lemma nncmap_init_empty: "0 < c \<Longrightarrow> map_abs ops (nncmap_init c) = Map.empty"
  by (simp add: fun_eq_iff nncmap_init_abs)

lemma chain_kvs_append:
  "Vacant \<notin> set xs \<Longrightarrow> chain_kvs (xs @ ys) = chain_kvs xs @ chain_kvs ys"
  by (induction xs rule: chain_kvs.induct) auto

lemma in_chain_kvs:
  "Vacant \<notin> set xs \<Longrightarrow> (k, v) \<in> set (chain_kvs xs) \<longleftrightarrow> Bucket k v \<in> set xs"
  by (induction xs rule: chain_kvs.induct) auto

lemma chain_put_at:
  "Vacant \<notin> set xs \<Longrightarrow> k \<notin> fst ` set (chain_kvs xs) \<Longrightarrow>
     chain_put (xs @ Bucket k v0 # ys) k v = (xs @ [Bucket k v], False)"
  by (induction xs rule: chain_kvs.induct) auto

text \<open>
  C9. Putting a value under a key never fails on a well-formed table, rehashing included: the
  recursion through \<open>nncmap_rehash\<close> ends, the invariant is kept, the key maps to the new value,
  no other binding appears or changes, and a fresh key extends the map (and the exact length
  by one).
\<close>

theorem nncmap_put_correct:
  assumes "map_inv ops m"
  shows "\<exists>m'. nncmap_put ops m k v = Inr m' \<and> map_inv ops m' \<and> nncmap_get ops m' k = Inr v \<and>
     map_abs ops m' \<subseteq>\<^sub>m (map_abs ops m)(k \<mapsto> v) \<and>
     (map_abs ops m k = None \<longrightarrow> map_abs ops m' = (map_abs ops m)(k \<mapsto> v) \<and>
        (map_exact m \<longrightarrow> map_exact m' \<and> len m' = Suc (len m)))"
  using nncmap_put_post [OF assms, of k v] by (auto simp: put_post_def nncmap_get_abs)

lemma nncmap_put_correct_witness:
  "\<exists>m'. nncmap_put int_keys (nncmap_init 1 :: (u64, nat) nnc_map) 7 8 = Inr m' \<and>
     nncmap_get int_keys m' 7 = Inr 8 \<and> len m' = 1"
  using nncmap_put_correct [of int_keys "nncmap_init 1 :: (u64, nat) nnc_map" 7 8]
  by (auto simp: nncmap_init_inv nncmap_init_abs map_exact_init nncmap_init_len)

text \<open>
  C21. Any history of guarded insertions and removals on a fresh table, with number or string
  keys, runs to the end, and \<open>nncmap_has\<close> and \<open>nncmap_get\<close> then answer as the finite map the
  history describes.
\<close>

theorem nncmap_history:
  assumes "0 < c"
  shows "(\<exists>m. fold_res (dict_step (nncmap_has int_keys) (nncmap_put int_keys) (nncmap_pop int_keys)) cmds
              (nncmap_init c) = Inr m \<and> answers_as int_keys m (fold dict_spec cmds Map.empty)) \<and>
         (\<exists>m. fold_res (dict_step (nncmap_has str_keys) (nncmap_put str_keys) (nncmap_pop str_keys)) scmds
              (nncmap_init c) = Inr m \<and> answers_as str_keys m (fold dict_spec scmds Map.empty))"
  using int_dict.history_lookup [OF nncmap_init_inv [OF assms] nncmap_init_empty [OF assms], of cmds]
    str_dict.history_lookup [OF nncmap_init_inv [OF assms] nncmap_init_empty [OF assms], of scmds]
  unfolding answers_as_def by blast

lemma nncmap_history_witness:
  "\<exists>m. fold_res (dict_step (nncmap_has str_keys) (nncmap_put str_keys) (nncmap_pop str_keys))
        [Put ''a'' (1::nat), Put ''b'' 2, Put ''a'' 3, Pop ''b''] (nncmap_init 3) = Inr m \<and>
     nncmap_get str_keys m ''a'' = Inr 1 \<and> nncmap_has str_keys m ''b'' = Inr False"
  using nncmap_history [of 3 "[] :: (u64, nat) dict_op list"
      "[Put ''a'' (1::nat), Put ''b'' 2, Put ''a'' 3, Pop ''b'']"]
  by (auto simp: answers_as_def)

text \<open>
  C28. Overwriting: putting a value under a key found in the middle of a chain unlinks every
  bucket behind it. Those keys are no longer found, and \<^verbatim>\<open>len\<close> still counts them.
\<close>

theorem nncmap_put_drops_chain:
  assumes inv: "map_inv ops m" and "\<not> nncmap_needs_rehash m"
    and chain: "buckets m ! slot ops m k = xs @ Bucket k v0 # ys"
    and x: "Bucket x w \<in> set ys"
  shows "nncmap_has ops m x = Inr True \<and>
     (\<exists>m'. nncmap_put ops m k v = Inr m' \<and> nncmap_has ops m' x = Inr False \<and> len m' = len m)"
proof -
  let ?i = "slot ops m k"
  have i: "?i < cap m" using map_invD(1) [OF inv] by simp
  have full: "Vacant \<notin> set (xs @ Bucket k v0 # ys)"
    using map_invD(4) [OF inv, of k] by (cases xs) (auto simp: chain chain_ok_def)
  have kvs: "chain_kvs (buckets m ! ?i) = chain_kvs xs @ (k, v0) # chain_kvs ys"
    using full by (simp add: chain chain_kvs_append)
  have sok: "slot_ok ops m ?i (buckets m ! ?i)" using map_invD(6) [OF inv i] .
  have xk: "x \<in> fst ` set (chain_kvs ys)" using x full in_chain_kvs [of ys x w] by (force simp: image_iff)
  then have xi: "slot ops m x = ?i" using sok by (auto simp: slot_ok_def kvs)
  have put: "nncmap_put ops m k v = Inr (m \<lparr> len := len m, buckets := (buckets m)[?i := xs @ [Bucket k v]] \<rparr>)"
    using chain_put_at [of xs k v0 ys v] full sok assms(2) map_invD(1) [OF inv]
    unfolding nncmap_put_def put_fuel_core put_core_def
    by (simp add: slot_of_slot chain slot_ok_def chain_kvs_append)
  have "map_abs ops m x \<noteq> None"
    unfolding map_abs_def xi map_of_eq_None_notin using xk kvs by (simp add: image_Un)
  moreover have ok': "slot_ok ops m ?i (xs @ [Bucket k v])"
    using sok full by (auto simp: slot_ok_def chain chain_kvs_append chain_ok_def)
  moreover have "map_of (chain_kvs (xs @ [Bucket k v])) x = None"
    unfolding map_of_eq_None_notin using sok full xk kvs by (auto simp: slot_ok_def chain_kvs_append)
  moreover obtain l where "l = len m" by simp
  moreover have "map_inv ops (m \<lparr> len := l, buckets := (buckets m)[?i := xs @ [Bucket k v]] \<rparr>)"
    using full by (intro map_inv_update inv i ok') (simp add: \<open>l = len m\<close> kvs chain_kvs_append)
  ultimately show ?thesis
    using put xi map_abs_update [OF inv i ok', of l x] nncmap_has_abs [OF inv, of x]
      nncmap_has_abs [of ops "m \<lparr> len := l, buckets := (buckets m)[?i := xs @ [Bucket k v]] \<rparr>" x]
    by simp
qed

lemma nncmap_put_drops_chain_witness:
  "let m = \<lparr> cap = 4, len = 2, buckets = [[Vacant], [Vacant], [Bucket 1 0, Bucket 3 0], [Vacant]] \<rparr>
   in nncmap_has int_keys m 3 = Inr True \<and>
      (\<exists>m'. nncmap_put int_keys m 1 (5 :: nat) = Inr m' \<and> nncmap_has int_keys m' 3 = Inr False \<and> len m' = len m)"
proof -
  let ?m = "\<lparr> cap = 4, len = 2, buckets = [[Vacant], [Vacant], [Bucket 1 0, Bucket 3 0], [Vacant]] \<rparr> :: (u64, nat) nnc_map"
  have slots: "slot int_keys ?m 1 = 2" "slot int_keys ?m 3 = 2"
    by (simp_all add: slot_def int_keys_def nncmap_hash_def)
  have "slot_ok int_keys ?m i (buckets ?m ! i)" if "i < 4" for i
    using that slots by (auto simp: slot_ok_def chain_ok_def less_Suc_eq numeral_eq_Suc)
  then have "map_inv int_keys ?m" by (auto simp: map_inv_def map_entries_def)
  then show ?thesis
    using nncmap_put_drops_chain [of int_keys ?m 1 "[]" 0 "[Bucket 3 0]" 3 0 5] slots
    by (simp add: nncmap_needs_rehash_def)
qed

end
