(* ===== verification/Nnc_Buf.thy ===== *)
theory Nnc_Buf
  imports Nnc_Prelude
begin

text \<open>
  The stretchy buffer of \<^verbatim>\<open>src/src/nnc_buf.c\<close>/\<^verbatim>\<open>nnc_buf.h\<close> and the text blob of
  \<^verbatim>\<open>src/src/nnc_blob.c\<close>. A buffer is NULL or a header with capacity, length and an array of
  slots of that capacity. The lemmas show that adding elements implements a list (the array is
  never left, the capacity stays a power of two times 32) and that formatted output of pieces
  shorter than 512 bytes is appended to a blob as it is; the last property says what happens
  to a longer piece.
\<close>

section \<open>Stretchy buffers\<close>

record 'a nnc_buf =
  buf_cap :: nat
  buf_len :: nat
  buf_slots :: "'a list"

type_synonym 'a vec = "'a nnc_buf option"

definition NNC_BUF_INICAP :: nat where "NNC_BUF_INICAP = 32"

text \<open>\<^verbatim>\<open>nncbuf_grow\<close>: the new array holds the old one, the rest is zero (\<open>z\<close>).\<close>

definition nncbuf_grow :: "'a \<Rightarrow> 'a vec \<Rightarrow> nat \<Rightarrow> 'a nnc_buf" where
  "nncbuf_grow z buf inicap =
     (case buf of
        None \<Rightarrow> \<lparr> buf_cap = inicap, buf_len = 0, buf_slots = replicate inicap z \<rparr>
      | Some b \<Rightarrow>
          (let new_cap = buf_cap b * 2
           in \<lparr> buf_cap = new_cap, buf_len = buf_len b,
                buf_slots = buf_slots b @ replicate (new_cap - buf_cap b) z \<rparr>))"

definition nncbuf_need :: "'a vec \<Rightarrow> bool" where
  "nncbuf_need buf = (case buf of None \<Rightarrow> True | Some b \<Rightarrow> buf_cap b \<le> buf_len b)"

definition buf_length :: "'a vec \<Rightarrow> nat" where
  "buf_length buf = (case buf of None \<Rightarrow> 0 | Some b \<Rightarrow> buf_len b)"

definition buf_add :: "'a \<Rightarrow> 'a vec \<Rightarrow> 'a \<Rightarrow> 'a vec res" where
  "buf_add z buf item =
     (let buf' = (if nncbuf_need buf then Some (nncbuf_grow z buf NNC_BUF_INICAP) else buf)
      in case buf' of
           None \<Rightarrow> Inl Crash
         | Some b \<Rightarrow>
             if buf_len b < buf_cap b then
               Inr (Some (b \<lparr> buf_len := Suc (buf_len b), buf_slots := (buf_slots b)[buf_len b := item] \<rparr>))
             else Inl Crash)"

text \<open>\<^verbatim>\<open>buf_pop\<close> decrements an unsigned 64-bit length.\<close>

definition buf_pop :: "'a vec \<Rightarrow> 'a vec" where
  "buf_pop buf =
     map_option (\<lambda>b. b \<lparr> buf_len := (if buf_len b = 0 then 2 ^ 64 - 1 else buf_len b - 1) \<rparr>) buf"

definition buf_last :: "'a vec \<Rightarrow> 'a res" where
  "buf_last buf =
     (case buf of
        None \<Rightarrow> Inl Crash
      | Some b \<Rightarrow> if 0 < buf_len b \<and> buf_len b \<le> buf_cap b then Inr (buf_slots b ! (buf_len b - 1))
                  else Inl Crash)"

definition buf_inv :: "'a vec \<Rightarrow> bool" where
  "buf_inv buf =
     (case buf of None \<Rightarrow> True
      | Some b \<Rightarrow> buf_len b \<le> buf_cap b \<and> length (buf_slots b) = buf_cap b \<and>
                  0 < buf_cap b)"

definition buf_list :: "'a vec \<Rightarrow> 'a list" where
  "buf_list buf = (case buf of None \<Rightarrow> [] | Some b \<Rightarrow> take (buf_len b) (buf_slots b))"

lemma buf_add_inv:
  assumes "buf_inv buf"
  shows "\<exists>buf'. buf_add z buf x = Inr buf' \<and> buf_inv buf' \<and> buf_list buf' = buf_list buf @ [x]"
proof (cases buf)
  case None
  then show ?thesis
    by (simp add: buf_add_def nncbuf_need_def nncbuf_grow_def NNC_BUF_INICAP_def buf_inv_def
        buf_list_def numeral_eq_Suc)
next
  case (Some b)
  show ?thesis
  proof (cases "buf_cap b \<le> buf_len b")
    case True
    then show ?thesis using assms Some
      by (simp add: buf_add_def nncbuf_need_def nncbuf_grow_def Let_def buf_inv_def
          buf_list_def take_Suc_conv_app_nth list_update_append)
  next
    case False
    then show ?thesis using assms Some
      by (simp add: buf_add_def nncbuf_need_def Let_def buf_inv_def
          buf_list_def take_Suc_conv_app_nth)
  qed
qed

lemma buf_add_all:
  "buf_inv buf \<Longrightarrow> \<exists>buf'. fold_res (\<lambda>x b. buf_add z b x) xs buf = Inr buf' \<and> buf_inv buf' \<and>
     buf_list buf' = buf_list buf @ xs"
proof (induction xs arbitrary: buf)
  case Nil
  then show ?case by simp
next
  case (Cons x xs)
  obtain buf1 where "buf_add z buf x = Inr buf1" "buf_inv buf1" "buf_list buf1 = buf_list buf @ [x]"
    using buf_add_inv [OF Cons.prems] by blast
  then show ?case using Cons.IH [of buf1] by simp
qed

lemma last_take_nth: "0 < n \<Longrightarrow> n \<le> length xs \<Longrightarrow> last (take n xs) = xs ! (n - 1)"
  by (subst last_conv_nth) auto

lemma buf_length_list: "buf_inv buf \<Longrightarrow> buf_length buf = length (buf_list buf)"
  by (cases buf) (auto simp: buf_length_def buf_list_def buf_inv_def)

section \<open>Blobs\<close>

definition FMEMOPEN_BUF_GROWTH :: nat where "FMEMOPEN_BUF_GROWTH = 512"

text \<open>\<open>blob\<close> is the array, \<open>None\<close> for NULL.\<close>

record nnc_blob_buf =
  blob :: "char list option"
  blob_len :: nat
  blob_cap :: nat

definition empty_blob :: nnc_blob_buf where
  "empty_blob = \<lparr> blob = None, blob_len = 0, blob_cap = 0 \<rparr>"

definition zeros :: "nat \<Rightarrow> string" where
  "zeros n = replicate n (CHR 0x00)"

definition nnc_blob_buf_init :: "nnc_blob_buf \<Rightarrow> nnc_blob_buf res" where
  "nnc_blob_buf_init buf =
     bind_res (assert_res (blob_len buf = 0)) (\<lambda>_.
     bind_res (assert_res (blob_cap buf = 0)) (\<lambda>_.
     bind_res (assert_res (blob buf = None)) (\<lambda>_.
       Inr \<lparr> blob = Some (zeros FMEMOPEN_BUF_GROWTH), blob_len = 0,
             blob_cap = FMEMOPEN_BUF_GROWTH \<rparr>)))"

definition nnc_blob_buf_grow :: "nnc_blob_buf \<Rightarrow> nnc_blob_buf res" where
  "nnc_blob_buf_grow buf =
     (case blob buf of
        None \<Rightarrow> Inl AssertFail
      | Some b \<Rightarrow> Inr (buf \<lparr> blob := Some (b @ zeros FMEMOPEN_BUF_GROWTH),
                              blob_cap := blob_cap buf + FMEMOPEN_BUF_GROWTH \<rparr>))"

text \<open>\<^verbatim>\<open>memcpy(dst + at, src, n)\<close> between two arrays.\<close>

definition memcpy_at :: "char list \<Rightarrow> nat \<Rightarrow> char list \<Rightarrow> nat \<Rightarrow> char list res" where
  "memcpy_at dst at src n =
     (if at + n \<le> length dst \<and> n \<le> length src
      then Inr (take at dst @ take n src @ drop (at + n) dst) else Inl Crash)"

text \<open>
  \<^verbatim>\<open>nnc_blob_buf_putf\<close>; \<open>text\<close> is the formatted text. \<^verbatim>\<open>vsnprintf\<close> stores at most 511
  characters of it and a NUL, and returns its full length.
\<close>

definition vsnprintf_buf :: "nat \<Rightarrow> string \<Rightarrow> string" where
  "vsnprintf_buf n piece = take (n - 1) piece @ zeros (n - min (n - 1) (length piece))"

definition nnc_blob_buf_putf :: "nnc_blob_buf \<Rightarrow> string \<Rightarrow> nnc_blob_buf res" where
  "nnc_blob_buf_putf buf piece =
     bind_res (if blob_cap buf = 0 then nnc_blob_buf_init buf else Inr buf) (\<lambda>buf.
     bind_res (assert_res (blob buf \<noteq> None)) (\<lambda>_.
       (let formatbuf = vsnprintf_buf FMEMOPEN_BUF_GROWTH piece;
            written = length piece
        in bind_res (if written + blob_len buf \<ge> blob_cap buf then nnc_blob_buf_grow buf else Inr buf) (\<lambda>buf.
           bind_res (memcpy_at (the (blob buf)) (blob_len buf) formatbuf written) (\<lambda>b.
             Inr (buf \<lparr> blob := Some b, blob_len := blob_len buf + written \<rparr>))))))"

text \<open>\<^verbatim>\<open>nnc_blob_buf_append\<close>: a NULL source fails the assertion of \<^verbatim>\<open>nnc_blob_buf_fini\<close>.\<close>

definition nnc_blob_buf_append :: "nnc_blob_buf \<Rightarrow> nnc_blob_buf \<Rightarrow> nnc_blob_buf res" where
  "nnc_blob_buf_append src buf =
     (let cap' = blob_cap src + blob_cap buf in
      bind_res (memcpy_at (zeros cap') 0 (case blob src of None \<Rightarrow> [] | Some b \<Rightarrow> b) (blob_len src)) (\<lambda>b.
      bind_res (memcpy_at b (blob_len src) (case blob buf of None \<Rightarrow> [] | Some b \<Rightarrow> b) (blob_len buf)) (\<lambda>b.
      bind_res (assert_res (blob src \<noteq> None)) (\<lambda>_.
        Inr \<lparr> blob = Some b, blob_len = blob_len src + blob_len buf, blob_cap = cap' \<rparr>))))"

definition blob_inv :: "nnc_blob_buf \<Rightarrow> bool" where
  "blob_inv buf =
     (case blob buf of
        None \<Rightarrow> blob_len buf = 0 \<and> blob_cap buf = 0
      | Some b \<Rightarrow> length b = blob_cap buf \<and> blob_len buf < blob_cap buf)"

definition blob_text :: "nnc_blob_buf \<Rightarrow> string" where
  "blob_text buf = (case blob buf of None \<Rightarrow> [] | Some b \<Rightarrow> take (blob_len buf) b)"

lemma zeros_length [simp]: "length (zeros n) = n"
  by (simp add: zeros_def)

lemma vsnprintf_buf_length [simp]: "0 < n \<Longrightarrow> length (vsnprintf_buf n piece) = n"
  by (auto simp: vsnprintf_buf_def)

lemma vsnprintf_buf_take: "length piece < n \<Longrightarrow> take (length piece) (vsnprintf_buf n piece) = piece"
  by (simp add: vsnprintf_buf_def)

lemma putf_allocated:
  assumes "blob buf = Some b" "blob_inv buf" "length piece < FMEMOPEN_BUF_GROWTH"
  shows "\<exists>buf'. nnc_blob_buf_putf buf piece = Inr buf' \<and> blob_inv buf' \<and>
     blob_text buf' = blob_text buf @ piece"
proof (cases "length piece + blob_len buf \<ge> blob_cap buf")
  case True
  then show ?thesis using assms vsnprintf_buf_take [OF assms(3)]
    by (auto simp: nnc_blob_buf_putf_def nnc_blob_buf_grow_def memcpy_at_def blob_inv_def blob_text_def
        Let_def FMEMOPEN_BUF_GROWTH_def)
next
  case False
  then show ?thesis using assms vsnprintf_buf_take [OF assms(3)]
    by (auto simp: nnc_blob_buf_putf_def memcpy_at_def blob_inv_def blob_text_def
        Let_def FMEMOPEN_BUF_GROWTH_def)
qed

lemma putf_text:
  assumes "blob_inv buf" "length piece < FMEMOPEN_BUF_GROWTH"
  shows "\<exists>buf'. nnc_blob_buf_putf buf piece = Inr buf' \<and> blob_inv buf' \<and>
     blob_text buf' = blob_text buf @ piece"
proof (cases "blob buf")
  case None
  obtain buf1 where buf1: "nnc_blob_buf_init buf = Inr buf1" "blob buf1 \<noteq> None" "blob_inv buf1"
    "blob_text buf1 = []" "blob_cap buf1 \<noteq> 0"
    using assms(1) None
    by (simp add: nnc_blob_buf_init_def blob_inv_def blob_text_def FMEMOPEN_BUF_GROWTH_def)
  then have "nnc_blob_buf_putf buf piece = nnc_blob_buf_putf buf1 piece"
    using assms(1) None by (simp add: nnc_blob_buf_putf_def blob_inv_def)
  then show ?thesis using putf_allocated [of buf1 _ piece] buf1 assms(2) None by (auto simp: blob_text_def)
qed (use putf_allocated assms in blast)

lemma putf_all_text:
  "blob_inv buf \<Longrightarrow> \<forall>piece \<in> set pieces. length piece < FMEMOPEN_BUF_GROWTH \<Longrightarrow>
     \<exists>buf'. fold_res (\<lambda>piece b. nnc_blob_buf_putf b piece) pieces buf = Inr buf' \<and> blob_inv buf' \<and>
       blob_text buf' = blob_text buf @ concat pieces"
proof (induction pieces arbitrary: buf)
  case Nil
  then show ?case by simp
next
  case (Cons piece pieces)
  obtain buf1 where "nnc_blob_buf_putf buf piece = Inr buf1" "blob_inv buf1"
    "blob_text buf1 = blob_text buf @ piece"
    using putf_text [of buf piece] Cons.prems by auto
  then show ?case using Cons.IH [of buf1] Cons.prems(2) by simp
qed

lemma putf_allocates: "nnc_blob_buf_putf buf piece = Inr buf' \<Longrightarrow> blob buf' \<noteq> None"
  by (auto simp: nnc_blob_buf_putf_def Let_def bind_res_eq_Inr)

lemma putf_all_allocated:
  "fold_res (\<lambda>piece b. nnc_blob_buf_putf b piece) pieces buf = Inr buf' \<Longrightarrow> pieces \<noteq> [] \<Longrightarrow> blob buf' \<noteq> None"
proof (induction pieces rule: rev_induct)
  case (snoc x xs)
  then show ?case using putf_allocates by (auto simp: fold_res_append bind_res_eq_Inr)
qed simp

lemma append_text:
  assumes "blob_inv src" "blob_inv buf" "blob src \<noteq> None"
  shows "\<exists>buf'. nnc_blob_buf_append src buf = Inr buf' \<and> blob_inv buf' \<and>
     blob_text buf' = blob_text src @ blob_text buf"
  using assms
  by (cases "blob buf")
    (auto simp: nnc_blob_buf_append_def memcpy_at_def blob_inv_def blob_text_def Let_def)

section \<open>Properties\<close>

text \<open>
  C29. Adding elements to a NULL buffer never writes outside its array and yields the list of
  the elements in order; the length macro counts them and \<open>buf_last\<close> is the last one.
\<close>

theorem buf_add_refines_list:
  "\<exists>buf. fold_res (\<lambda>x b. buf_add z b x) xs None = Inr buf \<and> buf_list buf = xs \<and>
     buf_length buf = length xs \<and> (xs = [] \<or> buf_last buf = Inr (last xs))"
proof -
  obtain buf where buf: "fold_res (\<lambda>x b. buf_add z b x) xs None = Inr buf" "buf_inv buf" "buf_list buf = xs"
    using buf_add_all [of None z xs] by (auto simp: buf_inv_def buf_list_def)
  have "xs = [] \<or> buf_last buf = Inr (last xs)"
    using buf(2,3) by (cases buf) (auto simp: buf_last_def buf_inv_def buf_list_def last_take_nth)
  then show ?thesis using buf buf_length_list [OF buf(2)] by auto
qed

text \<open>
  C30. Text written piece by piece to an empty blob, each piece shorter than 512 characters,
  and then appended to a blob that holds text, arrives complete and in order, without an
  access outside the arrays.
\<close>

theorem blob_putf_append:
  assumes "\<forall>piece \<in> set (ps @ qs). length piece < FMEMOPEN_BUF_GROWTH" and "ps \<noteq> []"
  shows "\<exists>a b c. fold_res (\<lambda>piece b. nnc_blob_buf_putf b piece) ps empty_blob = Inr a \<and>
     fold_res (\<lambda>piece b. nnc_blob_buf_putf b piece) qs empty_blob = Inr b \<and>
     nnc_blob_buf_append a b = Inr c \<and> blob_text c = concat ps @ concat qs"
proof -
  have e: "blob_inv empty_blob" "blob_text empty_blob = []"
    by (simp_all add: empty_blob_def blob_inv_def blob_text_def)
  obtain a where a: "fold_res (\<lambda>piece b. nnc_blob_buf_putf b piece) ps empty_blob = Inr a" "blob_inv a"
    "blob_text a = concat ps" using putf_all_text [OF e(1), of ps] assms(1) e(2) by auto
  obtain b where b: "fold_res (\<lambda>piece b. nnc_blob_buf_putf b piece) qs empty_blob = Inr b" "blob_inv b"
    "blob_text b = concat qs" using putf_all_text [OF e(1), of qs] assms(1) e(2) by auto
  have "blob a \<noteq> None" using putf_all_allocated [OF a(1)] assms(2) by simp
  then show ?thesis using append_text [OF a(2) b(2)] a b by auto
qed

lemma blob_putf_append_witness:
  "\<exists>a b c. fold_res (\<lambda>piece b. nnc_blob_buf_putf b piece) [''.t'', ''ext''] empty_blob = Inr a \<and>
     fold_res (\<lambda>piece b. nnc_blob_buf_putf b piece) [''ret''] empty_blob = Inr b \<and>
     nnc_blob_buf_append a b = Inr c \<and> blob_text c = ''.textret''"
  using blob_putf_append [of "[''.t'', ''ext'']" "[''ret'']"] by (simp add: FMEMOPEN_BUF_GROWTH_def)

text \<open>
  A formatted piece of 512 characters or more is not written as it is: with exactly 512 the
  last byte stored is the NUL of the formatting buffer, and with more \<^verbatim>\<open>memcpy\<close> reads past the
  512 bytes of that buffer.
\<close>

theorem blob_putf_long:
  assumes "blob_inv buf" and "FMEMOPEN_BUF_GROWTH \<le> length piece"
  shows "if length piece = FMEMOPEN_BUF_GROWTH
         then \<exists>buf'. nnc_blob_buf_putf buf piece = Inr buf' \<and>
                blob_text buf' = blob_text buf @ take 511 piece @ [CHR 0x00]
         else nnc_blob_buf_putf buf piece = Inl Crash"
proof -
  obtain buf1 b where buf1: "(if blob_cap buf = 0 then nnc_blob_buf_init buf else Inr buf) = Inr buf1"
    "blob buf1 = Some b" "blob_inv buf1" "blob_text buf1 = blob_text buf"
    using assms(1) by (cases "blob buf")
      (auto simp: nnc_blob_buf_init_def blob_inv_def blob_text_def FMEMOPEN_BUF_GROWTH_def)
  define t where "t = blob_text buf"
  have t: "take (blob_len buf1) b = t" using buf1(2,4) by (simp add: t_def blob_text_def)
  have l: "length t = blob_len buf1" using buf1(2,3) by (simp add: t [symmetric] blob_inv_def)
  show ?thesis unfolding t_def [symmetric] using buf1(1-3) t l assms(2)
    by (auto simp: nnc_blob_buf_putf_def nnc_blob_buf_grow_def memcpy_at_def blob_inv_def blob_text_def
        Let_def FMEMOPEN_BUF_GROWTH_def vsnprintf_buf_def zeros_def)
qed

lemma blob_putf_long_witness:
  "nnc_blob_buf_putf empty_blob (replicate 513 CHR ''x'') = Inl Crash"
  using blob_putf_long [of empty_blob "replicate 513 CHR ''x''"]
  by (simp add: empty_blob_def blob_inv_def FMEMOPEN_BUF_GROWTH_def)

end
