(* ===== verification/Nnc_Arena.thy ===== *)
theory Nnc_Arena
  imports Nnc_Prelude
begin

text \<open>
  The allocation arena of \<^verbatim>\<open>src/src/nnc_arena.c\<close>: the list of live allocations the compiler
  frees when it ends. Addresses are numbers; the address \<^verbatim>\<open>malloc\<close> returns is an argument of
  \<open>nnc_alloc\<close>, and what the arena relies on is that it is not a live one. The entry array is
  modelled with its capacity; slots past the length are \<open>None\<close> (they are never read before
  they are written). The properties show that the arena lists exactly the live blocks, that its
  byte counters are right, and that its array is never left, whatever mix of growing and
  compressing the calls cause.
\<close>

definition NNC_ARENA_CAP :: nat where "NNC_ARENA_CAP = 4"

record arena_entry =
  bytes :: nat
  hptr :: nat

record nnc_arena =
  alloc_bytes :: nat
  overall_alloc_bytes :: nat
  a_len :: nat
  a_cap :: nat
  disposed :: nat
  entries :: "arena_entry option list"

definition nnc_arena_init :: nnc_arena where
  "nnc_arena_init = \<lparr> alloc_bytes = 0, overall_alloc_bytes = 0, a_len = 0, a_cap = NNC_ARENA_CAP,
     disposed = 0, entries = replicate NNC_ARENA_CAP None \<rparr>"

text \<open>
  \<^verbatim>\<open>disposed / (double) cap >= 0.15\<close>; the doubles compare as the fractions do while the capacity
  is below \<open>2 ^ 48\<close>.
\<close>

definition nnc_arena_need_zip :: "nnc_arena \<Rightarrow> bool" where
  "nnc_arena_need_zip a \<longleftrightarrow> disposed a \<noteq> 0 \<and> 3 * a_cap a \<le> 20 * disposed a"

text \<open>
  The loop of \<^verbatim>\<open>nnc_arena_zip\<close> from \<open>addr\<close> on, \<open>n\<close> iterations to go: the next entry that is not
  NULL is moved down to the new length.
\<close>

fun zip_loop :: "nat \<Rightarrow> nat \<Rightarrow> nat \<Rightarrow> arena_entry option list \<Rightarrow> nat \<times> arena_entry option list" where
  "zip_loop 0 addr l es = (l, es)"
| "zip_loop (Suc n) addr l es =
     (if es ! addr \<noteq> None
      then (let es1 = es[l := es ! addr];
                es2 = (if l \<noteq> addr then es1[addr := None] else es1)
            in zip_loop n (Suc addr) (Suc l) es2)
      else zip_loop n (Suc addr) l es)"

definition nnc_arena_zip :: "nnc_arena \<Rightarrow> nnc_arena" where
  "nnc_arena_zip a =
     (let (l, es) = zip_loop (a_len a) 0 0 (entries a)
      in a \<lparr> a_len := l, disposed := 0, entries := es \<rparr>)"

definition nnc_arena_grow :: "nnc_arena \<Rightarrow> nnc_arena" where
  "nnc_arena_grow a =
     a \<lparr> a_cap := a_cap a * 2, entries := entries a @ replicate (a_cap a) None \<rparr>"

definition nnc_arena_push :: "nnc_arena \<Rightarrow> arena_entry \<Rightarrow> nnc_arena res" where
  "nnc_arena_push a e =
     (let a = (if a_cap a = a_len a
               then (if nnc_arena_need_zip a then nnc_arena_zip a else nnc_arena_grow a) else a)
      in if a_len a < length (entries a)
         then Inr (a \<lparr> alloc_bytes := alloc_bytes a + bytes e,
                       overall_alloc_bytes := overall_alloc_bytes a + bytes e,
                       entries := (entries a)[a_len a := Some e], a_len := Suc (a_len a) \<rparr>)
         else Inl Crash)"

definition nnc_arena_flush :: "nnc_arena \<Rightarrow> nat \<Rightarrow> nnc_arena res" where
  "nnc_arena_flush a i =
     (case entries a ! i of
        None \<Rightarrow> Inl AssertFail
      | Some e \<Rightarrow> Inr (a \<lparr> alloc_bytes := alloc_bytes a - bytes e, entries := (entries a)[i := None] \<rparr>))"

text \<open>\<^verbatim>\<open>nnc_alloc\<close>: \<open>p\<close> is the address \<^verbatim>\<open>malloc(size)\<close> returns, \<open>None\<close> for NULL.\<close>

definition nnc_alloc :: "nat option \<Rightarrow> nat \<Rightarrow> nnc_arena \<Rightarrow> nnc_arena res" where
  "nnc_alloc p sz a =
     (case p of None \<Rightarrow> Inl Abort
      | Some p \<Rightarrow> nnc_arena_push a \<lparr> bytes = sz, hptr = p \<rparr>)"

fun dispose_loop :: "nat \<Rightarrow> nat \<Rightarrow> nat \<Rightarrow> nnc_arena \<Rightarrow> nnc_arena res" where
  "dispose_loop 0 i p a = Inr a"
| "dispose_loop (Suc n) i p a =
     (case entries a ! i of
        Some e \<Rightarrow>
          if hptr e = p
          then bind_res (nnc_arena_flush a i) (\<lambda>a. Inr (a \<lparr> disposed := Suc (disposed a) \<rparr>))
          else dispose_loop n (Suc i) p a
      | None \<Rightarrow> dispose_loop n (Suc i) p a)"

definition nnc_dispose :: "nat \<Rightarrow> nnc_arena \<Rightarrow> nnc_arena res" where
  "nnc_dispose p a = dispose_loop (a_len a) 0 p a"

text \<open>
  \<^verbatim>\<open>nnc_arena_fini\<close>; the global arena is the only one it is called with. \<open>freed\<close> lists the
  addresses passed to \<^verbatim>\<open>free\<close>.
\<close>

fun fini_loop :: "nat \<Rightarrow> nat \<Rightarrow> nat list \<Rightarrow> nnc_arena \<Rightarrow> (nat list \<times> nnc_arena) res" where
  "fini_loop 0 i freed a = Inr (freed, a)"
| "fini_loop (Suc n) i freed a =
     (case entries a ! i of
        Some e \<Rightarrow> bind_res (nnc_arena_flush a i) (fini_loop n (Suc i) (freed @ [hptr e]))
      | None \<Rightarrow> fini_loop n (Suc i) freed a)"

definition nnc_arena_fini :: "nnc_arena \<Rightarrow> (nat list \<times> nnc_arena) res" where
  "nnc_arena_fini a =
     bind_res (fini_loop (a_len a) 0 [] a) (\<lambda>(freed, a).
     bind_res (assert_res (alloc_bytes a = 0)) (\<lambda>_.
       Inr (freed, a \<lparr> entries := [], a_cap := 0, a_len := 0, disposed := 0 \<rparr>)))"

section \<open>Live blocks\<close>

definition somes :: "'a option list \<Rightarrow> 'a list" where
  "somes es = map the (filter (\<lambda>e. e \<noteq> None) es)"

lemma somes_simps [simp]:
  "somes [] = []" "somes (None # es) = somes es" "somes (Some e # es) = e # somes es"
  "somes (es @ es') = somes es @ somes es'" "somes (replicate n None) = []"
  by (simp_all add: somes_def)

lemma length_somes: "length (somes es) + count_list es None = length es"
  by (induction es) (auto simp: somes_def)

text \<open>The entries of the array, in order.\<close>

definition live :: "nnc_arena \<Rightarrow> arena_entry list" where
  "live a = somes (take (a_len a) (entries a))"

definition live_map :: "nnc_arena \<Rightarrow> nat \<rightharpoonup> nat" where
  "live_map a = map_of (map (\<lambda>e. (hptr e, bytes e)) (live a))"

definition arena_inv :: "nnc_arena \<Rightarrow> bool" where
  "arena_inv a \<longleftrightarrow>
     0 < a_cap a \<and> length (entries a) = a_cap a \<and> a_len a \<le> a_cap a \<and>
     disposed a = count_list (take (a_len a) (entries a)) None \<and>
     distinct (map hptr (live a)) \<and> alloc_bytes a = sum_list (map bytes (live a))"

lemma arena_init_inv: "arena_inv nnc_arena_init"
  by (simp add: arena_inv_def nnc_arena_init_def NNC_ARENA_CAP_def live_def)

text \<open>
  The compression loop: the array is a compressed part of length \<open>l\<close>, then cleared slots up to
  \<open>addr\<close>, then the rest.
\<close>

lemma zip_loop_correct:
  "map Some xs @ replicate k None @ ys @ zs = es \<Longrightarrow> n = length ys \<Longrightarrow> addr = length xs + k \<Longrightarrow> l = length xs \<Longrightarrow>
     \<exists>es'. zip_loop n addr l es = (length xs + length (somes ys), es') \<and> length es' = length es \<and>
       take (length xs + length (somes ys)) es' = map Some (xs @ somes ys)"
proof (induction ys arbitrary: n addr l es xs k)
  case Nil
  then show ?case by auto
next
  case (Cons y ys)
  have at: "es ! addr = y" using Cons.prems by (auto simp: nth_append)
  show ?case
  proof (cases y)
    case None
    have "replicate k None @ None # ys @ zs = replicate (Suc k) None @ ys @ zs"
      by (simp add: replicate_app_Cons_same)
    then show ?thesis
      using Cons.IH [of xs "Suc k" es "length ys" "Suc addr" l] Cons.prems at None by auto
  next
    case (Some e)
    define es2 where "es2 = (if l \<noteq> addr then (es[l := y])[addr := None] else es[l := y])"
    have "es2 = map Some (xs @ [e]) @ replicate k None @ ys @ zs"
    proof (cases k)
      case 0
      then show ?thesis using Cons.prems Some by (auto simp: es2_def list_update_append)
    next
      case (Suc k')
      have es: "es = map Some xs @ None # replicate k' None @ Some e # ys @ zs"
        using Cons.prems(1) Suc Some by simp
      have u1: "es[l := y] = (map Some xs @ [Some e]) @ replicate k' None @ Some e # ys @ zs"
        using Cons.prems(4) Some by (simp add: es list_update_append)
      have "(es[l := y])[addr := None] = (map Some xs @ [Some e]) @ replicate k' None @ None # ys @ zs"
        unfolding u1 using Cons.prems(3) Suc by (simp add: list_update_append)
      moreover have "l \<noteq> addr" using Cons.prems(3,4) Suc by simp
      ultimately show ?thesis using Suc by (simp add: es2_def replicate_app_Cons_same)
    qed
    moreover have "length es2 = length es" by (simp add: es2_def)
    ultimately show ?thesis
      using Cons.IH [of "xs @ [e]" k es2 "length ys" "Suc addr" "Suc l"] Cons.prems at Some
      by (auto simp: es2_def Let_def)
  qed
qed

lemma zip_loop_all:
  assumes "n \<le> length es"
  shows "\<exists>es'. zip_loop n 0 0 es = (length (somes (take n es)), es') \<and> length es' = length es \<and>
     take (length (somes (take n es))) es' = map Some (somes (take n es))"
  using zip_loop_correct [of "[]" 0 "take n es" "drop n es" es n 0 0] assms by simp

lemma somes_map_Some [simp]: "somes (map Some xs) = xs"
  by (induction xs) simp_all

lemma count_map_Some [simp]: "count_list (map Some xs) None = 0"
  by (induction xs) simp_all

lemma nnc_arena_zip_inv:
  assumes "arena_inv a"
  shows "arena_inv (nnc_arena_zip a) \<and> live (nnc_arena_zip a) = live a \<and>
     a_len (nnc_arena_zip a) + disposed a = a_len a \<and> a_cap (nnc_arena_zip a) = a_cap a \<and>
     overall_alloc_bytes (nnc_arena_zip a) = overall_alloc_bytes a"
proof -
  have le: "a_len a \<le> length (entries a)" using assms by (simp add: arena_inv_def)
  obtain es' where es': "zip_loop (a_len a) 0 0 (entries a) = (length (live a), es')"
    "length es' = length (entries a)" "take (length (live a)) es' = map Some (live a)"
    using zip_loop_all [OF le] by (auto simp: live_def)
  have "length (live a) + disposed a = a_len a"
    using length_somes [of "take (a_len a) (entries a)"] assms by (simp add: live_def arena_inv_def)
  then show ?thesis using es' assms
    by (simp add: nnc_arena_zip_def arena_inv_def live_def)
qed

lemma nnc_arena_grow_inv:
  assumes "arena_inv a"
  shows "arena_inv (nnc_arena_grow a) \<and> live (nnc_arena_grow a) = live a"
  using assms by (simp add: nnc_arena_grow_def arena_inv_def live_def)

lemma nnc_arena_push_inv:
  assumes inv: "arena_inv a" and fresh: "hptr e \<notin> hptr ` set (live a)"
  shows "\<exists>a'. nnc_arena_push a e = Inr a' \<and> arena_inv a' \<and> live a' = live a @ [e] \<and>
     overall_alloc_bytes a' = overall_alloc_bytes a + bytes e"
proof -
  obtain a1 where a1: "(if a_cap a = a_len a then (if nnc_arena_need_zip a then nnc_arena_zip a else nnc_arena_grow a)
      else a) = a1"
    "arena_inv a1" "live a1 = live a" "a_len a1 < a_cap a1" "overall_alloc_bytes a1 = overall_alloc_bytes a"
  proof (cases "a_cap a = a_len a \<and> nnc_arena_need_zip a")
    case True
    then show ?thesis using that [of "nnc_arena_zip a"] nnc_arena_zip_inv [OF inv]
      by (simp add: nnc_arena_need_zip_def)
  next
    case False
    show ?thesis
    proof (cases "a_cap a = a_len a")
      case True
      have "a_len (nnc_arena_grow a) < a_cap (nnc_arena_grow a)"
        "overall_alloc_bytes (nnc_arena_grow a) = overall_alloc_bytes a"
        using inv by (simp_all add: nnc_arena_grow_def arena_inv_def)
      then show ?thesis using True False nnc_arena_grow_inv [OF inv]
        by (intro that [of "nnc_arena_grow a"]) simp_all
    qed (use that [of a] inv in \<open>simp add: arena_inv_def\<close>)
  qed
  have "take (Suc (a_len a1)) ((entries a1)[a_len a1 := Some e]) = take (a_len a1) (entries a1) @ [Some e]"
    using a1(2,4) by (simp add: arena_inv_def take_Suc_conv_app_nth)
  then show ?thesis using a1 fresh
    by (auto simp: nnc_arena_push_def Let_def arena_inv_def live_def)
qed

section \<open>Disposing\<close>

definition holds_ptr :: "nnc_arena \<Rightarrow> nat \<Rightarrow> nat \<Rightarrow> bool" where
  "holds_ptr a p i = (case entries a ! i of None \<Rightarrow> False | Some e \<Rightarrow> hptr e = p)"

definition dispose_at :: "nnc_arena \<Rightarrow> nat \<Rightarrow> nnc_arena res" where
  "dispose_at a i = bind_res (nnc_arena_flush a i) (\<lambda>a. Inr (a \<lparr> disposed := Suc (disposed a) \<rparr>))"

lemma dispose_loop_find:
  "dispose_loop n i p a =
     (case find (holds_ptr a p) [i..<i + n] of None \<Rightarrow> Inr a | Some j \<Rightarrow> dispose_at a j)"
proof (induction n arbitrary: i)
  case (Suc n)
  have "[i..<i + Suc n] = i # [Suc i..<Suc i + n]" by (simp add: upt_rec)
  then show ?case using Suc
    by (auto simp: holds_ptr_def dispose_at_def split: option.splits)
qed simp

lemma somes_nth_split:
  assumes "j < length es" "es ! j = Some e"
  shows "somes es = somes (take j es) @ e # somes (drop (Suc j) es)"
    "somes (es[j := None]) = somes (take j es) @ somes (drop (Suc j) es)"
    "count_list (es[j := None]) None = Suc (count_list es None)"
proof -
  have es: "es = take j es @ Some e # drop (Suc j) es" using id_take_nth_drop [OF assms(1)] assms(2) by simp
  show "somes es = somes (take j es) @ e # somes (drop (Suc j) es)" by (subst es) simp
  show "somes (es[j := None]) = somes (take j es) @ somes (drop (Suc j) es)"
    using assms(1) by (simp add: upd_conv_take_nth_drop)
  have "count_list es None = count_list (take j es) None + count_list (drop (Suc j) es) None"
    by (subst es) simp
  then show "count_list (es[j := None]) None = Suc (count_list es None)"
    using assms(1) by (simp add: upd_conv_take_nth_drop)
qed

lemma live_mem_nth:
  "e \<in> set (live a) \<longleftrightarrow> (\<exists>j < a_len a. j < length (entries a) \<and> entries a ! j = Some e)"
  by (force simp: live_def somes_def in_set_conv_nth image_iff)

lemma find_SomeD: "find P xs = Some x \<Longrightarrow> P x \<and> x \<in> set xs"
  by (induction xs) (auto split: if_splits)

lemma nnc_dispose_inv:
  assumes inv: "arena_inv a"
  shows "\<exists>a'. nnc_dispose p a = Inr a' \<and> arena_inv a' \<and>
     live a' = filter (\<lambda>e. hptr e \<noteq> p) (live a) \<and> overall_alloc_bytes a' = overall_alloc_bytes a"
proof (cases "find (holds_ptr a p) [0..<a_len a]")
  case None
  then have "\<forall>e \<in> set (live a). hptr e \<noteq> p"
    by (fastforce simp: find_None_iff live_mem_nth holds_ptr_def split: option.splits)
  then show ?thesis using None inv by (simp add: nnc_dispose_def dispose_loop_find filter_id_conv)
next
  case (Some j)
  obtain e where j: "j < a_len a" "entries a ! j = Some e" "hptr e = p"
    using find_SomeD [OF Some] by (auto simp: holds_ptr_def split: option.splits)
  have len: "a_len a \<le> length (entries a)" using inv by (simp add: arena_inv_def)
  let ?t = "take (a_len a) (entries a)"
  have tj: "j < length ?t" "?t ! j = Some e" using j len by auto
  note sp = somes_nth_split [OF tj]
  define a' where "a' = a \<lparr> alloc_bytes := alloc_bytes a - bytes e, entries := (entries a)[j := None],
      disposed := Suc (disposed a) \<rparr>"
  let ?rest = "somes (take j ?t) @ somes (drop (Suc j) ?t)"
  have "nnc_dispose p a = Inr a'"
    using Some j(2) by (simp add: nnc_dispose_def dispose_loop_find dispose_at_def nnc_arena_flush_def a'_def)
  moreover have l: "live a' = ?rest"
    using sp(2) by (simp add: live_def take_update_swap a'_def)
  moreover have l0: "live a = somes (take j ?t) @ e # somes (drop (Suc j) ?t)"
    using sp(1) by (simp add: live_def)
  moreover have "arena_inv a'"
  proof -
    have "length (entries a') = a_cap a'" "0 < a_cap a'" "a_len a' \<le> a_cap a'"
      "disposed a' = count_list (take (a_len a') (entries a')) None"
      using inv sp(3) by (simp_all add: arena_inv_def a'_def take_update_swap)
    moreover have "distinct (map hptr (live a'))" using inv l l0 by (simp add: arena_inv_def)
    moreover have "alloc_bytes a' = sum_list (map bytes (live a'))"
    proof -
      have "alloc_bytes a = sum_list (map bytes ?rest) + bytes e" using inv l0 by (simp add: arena_inv_def)
      then show ?thesis using l by (simp add: a'_def)
    qed
    ultimately show ?thesis by (simp add: arena_inv_def)
  qed
  moreover have "filter (\<lambda>e. hptr e \<noteq> p) (live a) = live a'"
  proof -
    have "hptr e \<notin> hptr ` set ?rest" using inv l0 by (auto simp: arena_inv_def)
    then have "filter (\<lambda>e. hptr e \<noteq> p) ?rest = ?rest"
      using j(3) by (intro filter_True) (metis image_eqI)
    then show ?thesis using l l0 j(3) by simp
  qed
  ultimately show ?thesis by (simp add: a'_def)
qed

lemma fini_loop_frees:
  "i + n \<le> length (entries a) \<Longrightarrow> sum_list (map bytes (somes (take n (drop i (entries a))))) \<le> alloc_bytes a \<Longrightarrow>
   \<exists>a'. fini_loop n i freed a = Inr (freed @ map hptr (somes (take n (drop i (entries a)))), a') \<and>
     alloc_bytes a' = alloc_bytes a - sum_list (map bytes (somes (take n (drop i (entries a)))))"
proof (induction n arbitrary: i freed a)
  case (Suc n)
  have d: "take (Suc n) (drop i (entries a)) = entries a ! i # take n (drop (Suc i) (entries a))"
    using Suc.prems(1) by (metis Cons_nth_drop_Suc Suc_le_lessD add_Suc_right le_add1 le_trans not_less_eq_eq take_Suc_Cons)
  show ?case
  proof (cases "entries a ! i")
    case None
    then show ?thesis using Suc.IH [of "Suc i" a freed] Suc.prems d by simp
  next
    case (Some e)
    let ?a = "a \<lparr> alloc_bytes := alloc_bytes a - bytes e, entries := (entries a)[i := None] \<rparr>"
    have "drop (Suc i) ((entries a)[i := None]) = drop (Suc i) (entries a)" by simp
    then show ?thesis
      using Suc.IH [of "Suc i" ?a "freed @ [hptr e]"] Suc.prems d Some
      by (auto simp: nnc_arena_flush_def)
  qed
qed simp

lemma nnc_arena_fini_frees:
  assumes "arena_inv a"
  shows "\<exists>a'. nnc_arena_fini a = Inr (map hptr (live a), a')"
  using fini_loop_frees [of 0 "a_len a" a "[]"] assms
  by (auto simp: nnc_arena_fini_def arena_inv_def live_def)

section \<open>Histories\<close>

datatype heap_op = Alloc nat nat | Dispose nat

definition heap_step :: "heap_op \<Rightarrow> nnc_arena \<Rightarrow> nnc_arena res" where
  "heap_step cmd a =
     (case cmd of Alloc p n \<Rightarrow> nnc_alloc (Some p) n a | Dispose p \<Rightarrow> nnc_dispose p a)"

lemma heap_step_simps [simp]:
  "heap_step (Alloc p n) a = nnc_alloc (Some p) n a"
  "heap_step (Dispose p) a = nnc_dispose p a"
  by (simp_all add: heap_step_def)

text \<open>The specification: a finite map of live blocks; \<open>malloc\<close> returns no live address.\<close>

fun heap_spec :: "heap_op list \<Rightarrow> (nat \<rightharpoonup> nat) \<Rightarrow> (nat \<rightharpoonup> nat) option" where
  "heap_spec [] h = Some h"
| "heap_spec (Alloc p n # cmds) h = (if h p = None then heap_spec cmds (h(p \<mapsto> n)) else None)"
| "heap_spec (Dispose p # cmds) h = heap_spec cmds (h(p := None))"

fun requested :: "heap_op list \<Rightarrow> nat" where
  "requested [] = 0"
| "requested (Alloc p n # cmds) = n + requested cmds"
| "requested (Dispose p # cmds) = requested cmds"

lemma live_map_none: "live_map a p = None \<longleftrightarrow> p \<notin> hptr ` set (live a)"
  by (force simp: live_map_def map_of_eq_None_notin)

lemma live_map_snoc:
  "p \<notin> hptr ` set (live a) \<Longrightarrow> live a' = live a @ [\<lparr> bytes = n, hptr = p \<rparr>] \<Longrightarrow>
     live_map a' = (live_map a)(p \<mapsto> n)"
  using map_of_snoc_fresh [of p "map (\<lambda>e. (hptr e, bytes e)) (live a)" n]
  by (force simp: live_map_def)

lemma live_map_filter:
  "live a' = filter (\<lambda>e. hptr e \<noteq> p) (live a) \<Longrightarrow> live_map a' = (live_map a)(p := None)"
proof -
  have "map_of (map (\<lambda>e. (hptr e, bytes e)) (filter (\<lambda>e. hptr e \<noteq> p) es)) =
      (map_of (map (\<lambda>e. (hptr e, bytes e)) es))(p := None)" for es
    by (induction es) (auto simp: fun_eq_iff)
  then show "live a' = filter (\<lambda>e. hptr e \<noteq> p) (live a) \<Longrightarrow> live_map a' = (live_map a)(p := None)"
    by (simp add: live_map_def)
qed

lemma heap_run:
  "heap_spec cmds (live_map a) = Some h \<Longrightarrow> arena_inv a \<Longrightarrow>
     \<exists>a'. fold_res heap_step cmds a = Inr a' \<and> arena_inv a' \<and> live_map a' = h \<and>
       overall_alloc_bytes a' = overall_alloc_bytes a + requested cmds"
proof (induction cmds arbitrary: a)
  case (Cons cmd cmds)
  show ?case
  proof (cases cmd)
    case (Alloc p n)
    then have p: "live_map a p = None" "heap_spec cmds ((live_map a)(p \<mapsto> n)) = Some h"
      using Cons.prems(1) by (auto split: if_splits)
    then obtain a1 where a1: "nnc_alloc (Some p) n a = Inr a1" "arena_inv a1"
      "live a1 = live a @ [\<lparr> bytes = n, hptr = p \<rparr>]" "overall_alloc_bytes a1 = overall_alloc_bytes a + n"
      using nnc_arena_push_inv [of a "\<lparr> bytes = n, hptr = p \<rparr>"] Cons.prems(2)
      by (auto simp: nnc_alloc_def live_map_none)
    have eq: "live_map a1 = (live_map a)(p \<mapsto> n)"
      using live_map_snoc [OF _ a1(3)] p(1) by (simp add: live_map_none)
    have "\<exists>a'. fold_res heap_step cmds a1 = Inr a' \<and> arena_inv a' \<and> live_map a' = h \<and>
       overall_alloc_bytes a' = overall_alloc_bytes a1 + requested cmds"
      by (rule Cons.IH [OF _ a1(2)]) (simp only: eq p(2))
    then show ?thesis using a1 Alloc by (simp add: add.assoc)
  next
    case (Dispose p)
    obtain a1 where a1: "nnc_dispose p a = Inr a1" "arena_inv a1"
      "live a1 = filter (\<lambda>e. hptr e \<noteq> p) (live a)" "overall_alloc_bytes a1 = overall_alloc_bytes a"
      using nnc_dispose_inv [OF Cons.prems(2)] by blast
    have "\<exists>a'. fold_res heap_step cmds a1 = Inr a' \<and> arena_inv a' \<and> live_map a' = h \<and>
       overall_alloc_bytes a' = overall_alloc_bytes a1 + requested cmds"
      by (rule Cons.IH [OF _ a1(2)])
        (use Cons.prems(1) Dispose in \<open>simp only: live_map_filter [OF a1(3)] heap_spec.simps\<close>)
    then show ?thesis using a1 Dispose by simp
  qed
qed simp

section \<open>Property\<close>

text \<open>
  C25. After any sequence of allocations and disposals the arena lists exactly the live blocks;
  \<^verbatim>\<open>alloc_bytes\<close> is their total size, \<^verbatim>\<open>overall_alloc_bytes\<close> all that was requested, no access
  left the entry array, and \<^verbatim>\<open>nnc_arena_fini\<close> then frees every live block once.
\<close>

theorem arena_history:
  assumes "heap_spec cmds Map.empty = Some h"
  shows "\<exists>a. fold_res heap_step cmds nnc_arena_init = Inr a \<and> live_map a = h \<and>
     alloc_bytes a = sum_list (map bytes (live a)) \<and> overall_alloc_bytes a = requested cmds \<and>
     (\<exists>freed a'. nnc_arena_fini a = Inr (freed, a') \<and> distinct freed \<and> set freed = dom h)"
proof -
  have "live_map nnc_arena_init = Map.empty" "overall_alloc_bytes nnc_arena_init = 0"
    by (simp_all add: live_map_def live_def nnc_arena_init_def)
  then obtain a where a: "fold_res heap_step cmds nnc_arena_init = Inr a" "arena_inv a" "live_map a = h"
    "overall_alloc_bytes a = requested cmds"
    using heap_run [of cmds nnc_arena_init h] arena_init_inv assms by auto
  have "set (map hptr (live a)) = dom h"
    using a(3) by (force simp: live_map_none dom_def)
  then show ?thesis using a nnc_arena_fini_frees [OF a(2)] by (auto simp: arena_inv_def)
qed

lemma arena_history_witness:
  "\<exists>a. fold_res heap_step [Alloc 100 8, Alloc 200 16, Dispose 100, Alloc 100 4] nnc_arena_init = Inr a \<and>
     overall_alloc_bytes a = 28 \<and> live_map a = [200 \<mapsto> 16, 100 \<mapsto> 4]"
  using arena_history [of "[Alloc 100 8, Alloc 200 16, Dispose 100, Alloc 100 4]" "[200 \<mapsto> 16, 100 \<mapsto> 4]"]
  by (auto simp: fun_upd_twist)

end
