(* ===== verification/Nnc_Try.thy ===== *)
theory Nnc_Try
  imports Nnc_Prelude
begin

text \<open>
  The try/catch mechanism of \<^verbatim>\<open>src/src/nnc_try_catch.c\<close>: a fixed array of saved contexts
  (\<^verbatim>\<open>setjmp\<close>) and an array of exception kinds, both indexed by the number of open \<^verbatim>\<open>TRY\<close> blocks.
  A saved context is a value of type \<open>'j\<close> (the place control returns to). The lemmas relate the
  arrays to a stack of open blocks; the properties show that up to 15 open blocks every throw
  reaches the innermost one and its \<^verbatim>\<open>CATCH\<close> clauses test the thrown kind, and that the 16th
  block can be opened but not reached by a throw.
\<close>

definition NNC_EXCEPTION_MAX_DEPTH :: nat where "NNC_EXCEPTION_MAX_DEPTH = 16"

record 'j exc_stack =
  depth :: int
  jmp_stack :: "'j option list"
  exceptions :: "exc_kind list"
  thrown :: "exc_kind option"

text \<open>\<^verbatim>\<open>glob_exception_stack\<close> is zero-initialised.\<close>

definition exc_init :: "'j exc_stack" where
  "exc_init = \<lparr> depth = 0, jmp_stack = replicate NNC_EXCEPTION_MAX_DEPTH None,
     exceptions = replicate NNC_EXCEPTION_MAX_DEPTH NNC_CONTEXT_SAVED, thrown = None \<rparr>"

definition in_range :: "int \<Rightarrow> bool" where
  "in_range d \<longleftrightarrow> 0 \<le> d \<and> d < int NNC_EXCEPTION_MAX_DEPTH"

definition nnc_try_free :: "'j exc_stack \<Rightarrow> 'j exc_stack" where
  "nnc_try_free g = g \<lparr> depth := depth g - 1 \<rparr>"

definition nnc_try :: "exc_kind \<Rightarrow> 'j exc_stack \<Rightarrow> (bool \<times> 'j exc_stack) res" where
  "nnc_try state g =
     (let d = depth g in
      if d = int NNC_EXCEPTION_MAX_DEPTH then Inl Abort
      else if \<not> in_range d then Inl Crash
      else
        (let g = g \<lparr> exceptions := (exceptions g)[nat d := state] \<rparr>;
             g = (if state = NNC_CONTEXT_SAVED then g \<lparr> depth := depth g + 1 \<rparr> else nnc_try_free g)
         in Inr (state = NNC_CONTEXT_SAVED, g)))"

text \<open>
  The macro \<^verbatim>\<open>TRY\<close>: \<^verbatim>\<open>setjmp\<close> saves the context in the entry at the current depth (with 16 open
  blocks that entry does not exist) and \<^verbatim>\<open>nnc_try\<close> is called with its first result, 0.
\<close>

definition try_enter :: "'j \<Rightarrow> 'j exc_stack \<Rightarrow> (bool \<times> 'j exc_stack) res" where
  "try_enter j g =
     (if in_range (depth g)
      then nnc_try NNC_CONTEXT_SAVED (g \<lparr> jmp_stack := (jmp_stack g)[nat (depth g) := Some j] \<rparr>)
      else if depth g = int NNC_EXCEPTION_MAX_DEPTH then nnc_try NNC_CONTEXT_SAVED g
      else Inl Crash)"

text \<open>
  \<^verbatim>\<open>nnc_throw\<close>: \<^verbatim>\<open>longjmp\<close> makes the \<^verbatim>\<open>setjmp\<close> of the topmost entry return once more, and
  \<^verbatim>\<open>nnc_try\<close> runs again with the kind; the result is the place control is at and the result
  of \<^verbatim>\<open>nnc_try\<close> there. Throwing with no open block jumps through an entry that was never saved.
\<close>

definition nnc_throw :: "exc_kind \<Rightarrow> 'j exc_stack \<Rightarrow> ('j \<times> bool \<times> 'j exc_stack) res" where
  "nnc_throw kind g =
     (let d = depth g - 1; g = g \<lparr> thrown := Some kind \<rparr> in
      if \<not> in_range d then Inl Crash
      else (case jmp_stack g ! nat d of
              None \<Rightarrow> Inl Crash
            | Some j \<Rightarrow> bind_res (nnc_try kind g) (\<lambda>(first, g). Inr (j, first, g))))"

definition nnc_catch :: "exc_kind \<Rightarrow> 'j exc_stack \<Rightarrow> bool res" where
  "nnc_catch kind g =
     (let d = depth g + 1 in
      if in_range d then Inr (exceptions g ! nat d = kind) else Inl Crash)"

text \<open>\<^verbatim>\<open>RETHROW\<close> throws \<^verbatim>\<open>CATCHED\<close>, the last thrown exception.\<close>

definition nnc_rethrow :: "'j exc_stack \<Rightarrow> ('j \<times> bool \<times> 'j exc_stack) res" where
  "nnc_rethrow g = (case thrown g of None \<Rightarrow> Inl Crash | Some kind \<Rightarrow> nnc_throw kind g)"

section \<open>The stack of open blocks\<close>

text \<open>\<open>js\<close> lists the open blocks, the innermost first.\<close>

definition exc_rel :: "'j exc_stack \<Rightarrow> 'j list \<Rightarrow> bool" where
  "exc_rel g js \<longleftrightarrow>
     length (jmp_stack g) = NNC_EXCEPTION_MAX_DEPTH \<and>
     length (exceptions g) = NNC_EXCEPTION_MAX_DEPTH \<and>
     length js \<le> NNC_EXCEPTION_MAX_DEPTH \<and> depth g = int (length js) \<and>
     take (length js) (jmp_stack g) = map Some (rev js)"

lemma exc_rel_init: "exc_rel exc_init []"
  by (simp add: exc_rel_def exc_init_def)

lemma take_snoc_update:
  "n < length xs \<Longrightarrow> take (Suc n) (xs[n := x]) = take n xs @ [x]"
  by (simp add: take_Suc_conv_app_nth)

lemma try_enter_rel:
  assumes "exc_rel g js" "length js < NNC_EXCEPTION_MAX_DEPTH"
  shows "\<exists>g'. try_enter j g = Inr (True, g') \<and> exc_rel g' (j # js)"
  using assms
  by (simp add: try_enter_def nnc_try_def exc_rel_def in_range_def Let_def take_snoc_update)

lemma try_free_rel: "exc_rel g (j # js) \<Longrightarrow> exc_rel (nnc_try_free g) js"
  by (auto simp: exc_rel_def nnc_try_free_def take_Suc_conv_app_nth)

lemma nnc_throw_rel:
  assumes rel: "exc_rel g (j # js)" and "Suc (length js) < NNC_EXCEPTION_MAX_DEPTH"
    and kind: "kind \<noteq> NNC_CONTEXT_SAVED"
  shows "\<exists>g'. nnc_throw kind g = Inr (j, False, g') \<and> exc_rel g' js \<and>
    thrown g' = Some kind \<and> (\<forall>k. nnc_catch k g' = Inr (k = kind))"
proof -
  have "jmp_stack g ! length js = Some j" and "exc_rel (nnc_try_free g) js"
    using rel by (auto simp: exc_rel_def take_Suc_conv_app_nth nnc_try_free_def)
  moreover have "nat (depth g) = Suc (length js)" using rel by (simp add: exc_rel_def)
  ultimately show ?thesis using assms
    by (auto simp: nnc_throw_def nnc_try_def exc_rel_def in_range_def Let_def nnc_try_free_def nnc_catch_def
        nat_add_distrib)
qed

section \<open>Histories\<close>

text \<open>Entering a block, leaving it at \<^verbatim>\<open>ETRY\<close>, throwing, and throwing again in a handler.\<close>

datatype 'j exc_op = Enter 'j | Leave | Raise exc_kind | Rethrow

text \<open>
  A step returns the place where a handler is entered, with the answers of its \<^verbatim>\<open>CATCH\<close> tests
  given as the kind that is caught.
\<close>

definition catches :: "'j exc_stack \<Rightarrow> exc_kind \<Rightarrow> bool" where
  "catches g kind \<longleftrightarrow> (\<forall>k. nnc_catch k g = Inr (k = kind))"

definition exc_step :: "'j exc_op \<Rightarrow> 'j exc_stack \<Rightarrow> ('j option \<times> 'j exc_stack) res" where
  "exc_step cmd g =
     (case cmd of
        Enter j \<Rightarrow> bind_res (try_enter j g) (\<lambda>(first, g). Inr (None, g))
      | Leave \<Rightarrow> Inr (None, nnc_try_free g)
      | Raise kind \<Rightarrow> bind_res (nnc_throw kind g) (\<lambda>(j, first, g). Inr (Some j, g))
      | Rethrow \<Rightarrow> bind_res (nnc_rethrow g) (\<lambda>(j, first, g). Inr (Some j, g)))"

fun exc_run :: "'j exc_op list \<Rightarrow> 'j exc_stack \<Rightarrow> ('j option list \<times> 'j exc_stack) res" where
  "exc_run [] g = Inr ([], g)"
| "exc_run (cmd # cmds) g =
     bind_res (exc_step cmd g) (\<lambda>(out, g).
     bind_res (exc_run cmds g) (\<lambda>(outs, g). Inr (out # outs, g)))"

text \<open>The specification: a stack of blocks and the last exception.\<close>

fun spec_step ::
  "'j exc_op \<Rightarrow> 'j list \<Rightarrow> exc_kind option \<Rightarrow> ('j option \<times> 'j list \<times> exc_kind option) option"
where
  "spec_step (Enter j) js t = (if length js < 15 then Some (None, j # js, t) else None)"
| "spec_step Leave (j # js) t = Some (None, js, t)"
| "spec_step (Raise kind) (j # js) t =
     (if kind = NNC_CONTEXT_SAVED then None else Some (Some j, js, Some kind))"
| "spec_step Rethrow (j # js) (Some kind) =
     (if kind = NNC_CONTEXT_SAVED then None else Some (Some j, js, Some kind))"
| "spec_step _ _ _ = None"

fun spec_run ::
  "'j exc_op list \<Rightarrow> 'j list \<Rightarrow> exc_kind option \<Rightarrow> ('j option list \<times> 'j list \<times> exc_kind option) option"
where
  "spec_run [] js t = Some ([], js, t)"
| "spec_run (cmd # cmds) js t =
     (case spec_step cmd js t of None \<Rightarrow> None
      | Some (out, js1, t1) \<Rightarrow> map_option (\<lambda>(outs, r). (out # outs, r)) (spec_run cmds js1 t1))"

lemma try_enter_thrown: "try_enter j g = Inr (b, g') \<Longrightarrow> thrown g' = thrown g"
  by (auto simp: try_enter_def nnc_try_def Let_def split: if_splits)

lemma exc_step_refines:
  assumes "spec_step cmd js t = Some (out, js', t')" "exc_rel g js" "length js < 16" "thrown g = t"
  shows "\<exists>g'. exc_step cmd g = Inr (out, g') \<and> exc_rel g' js' \<and> length js' < 16 \<and> thrown g' = t'"
  using assms
proof (induction cmd js t rule: spec_step.induct)
  case (1 j js t)
  then obtain g1 where "try_enter j g = Inr (True, g1)" "exc_rel g1 (j # js)"
    using try_enter_rel [of g js j] by (auto simp: NNC_EXCEPTION_MAX_DEPTH_def)
  then show ?case using 1 try_enter_thrown [of j g True g1] by (auto simp: exc_step_def split: if_splits)
next
  case (2 j js t)
  then show ?case using try_free_rel [of g j js] by (auto simp: exc_step_def nnc_try_free_def)
next
  case (3 kind j js t)
  then show ?case using nnc_throw_rel [of g j js kind]
    by (auto simp: exc_step_def NNC_EXCEPTION_MAX_DEPTH_def split: if_splits)
next
  case (4 j js kind)
  then show ?case using nnc_throw_rel [of g j js kind]
    by (auto simp: exc_step_def nnc_rethrow_def NNC_EXCEPTION_MAX_DEPTH_def split: if_splits)
qed simp_all

lemma exc_run_refines:
  "spec_run cmds js t = Some (outs, js', t') \<Longrightarrow> exc_rel g js \<Longrightarrow> length js < 16 \<Longrightarrow>
   thrown g = t \<Longrightarrow> \<exists>g'. exc_run cmds g = Inr (outs, g') \<and> exc_rel g' js' \<and> thrown g' = t'"
proof (induction cmds arbitrary: g js t outs)
  case Nil
  then show ?case by simp
next
  case (Cons cmd cmds)
  obtain out js1 t1 outs1 where st: "spec_step cmd js t = Some (out, js1, t1)"
    "spec_run cmds js1 t1 = Some (outs1, js', t')" "outs = out # outs1"
    using Cons.prems(1) by (auto split: option.splits)
  obtain g1 where g1: "exc_step cmd g = Inr (out, g1)" "exc_rel g1 js1" "length js1 < 16" "thrown g1 = t1"
    using exc_step_refines [OF st(1) Cons.prems(2-4)] by blast
  show ?case using Cons.IH [OF st(2) g1(2-4)] g1(1) st(3) by auto
qed

section \<open>Properties\<close>

text \<open>
  C24. With at most 15 blocks open at a time, any sequence of entering, leaving, throwing and
  rethrowing runs as on a stack of blocks: each throw continues at the innermost open block,
  which is closed by it.
\<close>

theorem exc_run_correct:
  assumes "spec_run cmds [] None = Some (outs, js, t)"
  shows "\<exists>g. exc_run cmds exc_init = Inr (outs, g) \<and> depth g = int (length js) \<and> thrown g = t"
  using exc_run_refines [OF assms exc_rel_init] by (auto simp: NNC_EXCEPTION_MAX_DEPTH_def exc_init_def exc_rel_def)

lemma exc_run_correct_witness:
  "\<exists>g. exc_run [Enter (1::nat), Enter 2, Raise NNC_SYNTAX, Rethrow] exc_init = Inr ([None, None, Some 2, Some 1], g)
     \<and> depth g = 0 \<and> thrown g = Some NNC_SYNTAX"
  using exc_run_correct [of "[Enter (1::nat), Enter 2, Raise NNC_SYNTAX, Rethrow]"] by simp

text \<open>
  C31. A throw with \<open>n\<close> blocks open, \<open>n \<le> 15\<close>, reaches the innermost block, whose \<^verbatim>\<open>CATCH\<close>
  clauses accept exactly the thrown kind; with 16 blocks open, which \<open>try_enter\<close> allows, the
  throw aborts the program in \<^verbatim>\<open>nnc_try\<close>; with none open it jumps through an unsaved context.
\<close>

theorem nnc_throw_reaches:
  assumes "exc_rel g js" and "kind \<noteq> NNC_CONTEXT_SAVED"
  shows "case js of
      [] \<Rightarrow> nnc_throw kind g = Inl Crash
    | j # js' \<Rightarrow>
        if length js < 16
        then \<exists>g'. nnc_throw kind g = Inr (j, False, g') \<and> exc_rel g' js' \<and> catches g' kind
        else nnc_throw kind g = Inl Abort"
proof (cases js)
  case Nil
  then show ?thesis using assms(1) by (simp add: nnc_throw_def exc_rel_def in_range_def)
next
  case (Cons j js')
  have "jmp_stack g ! length js' = Some j"
    using assms(1) Cons by (auto simp: exc_rel_def take_Suc_conv_app_nth)
  then have "nnc_throw kind g = Inl Abort" if "\<not> length js < 16"
    using that assms(1) Cons
    by (simp add: nnc_throw_def nnc_try_def exc_rel_def in_range_def NNC_EXCEPTION_MAX_DEPTH_def)
  then show ?thesis using nnc_throw_rel [of g j js' kind] assms Cons
    by (auto simp: catches_def NNC_EXCEPTION_MAX_DEPTH_def)
qed

definition nested_tries :: "nat exc_stack" where
  "nested_tries = \<lparr> depth = 16, jmp_stack = map Some [0..<16],
     exceptions = replicate 16 NNC_CONTEXT_SAVED, thrown = None \<rparr>"

lemma nnc_throw_reaches_witness:
  "nnc_throw NNC_SYNTAX nested_tries = Inl Abort"
  using nnc_throw_reaches [of nested_tries "rev [0..<16]" NNC_SYNTAX]
  by (simp add: exc_rel_def nested_tries_def NNC_EXCEPTION_MAX_DEPTH_def upt_rec)

end
