(* ===== verification/Nnc_Lex.thy ===== *)
theory Nnc_Lex
  imports Nnc_Map
begin

text \<open>
  The lexer of \<^verbatim>\<open>src/src/nnc_lex.c\<close>. The file is the list of the characters still to be read
  (\<^verbatim>\<open>ungetc\<close> puts one back); the current character is \<open>None\<close> for EOF, which is also what the byte
  0xFF becomes when it is stored in a \<^verbatim>\<open>char\<close>. Every function of the source is a function on the
  lexer record whose outcome is a value and the new lexer, a thrown exception with the lexer it
  leaves, or a write past the 512 bytes of the lexeme buffer. The properties show that the lexer
  terminates on every input, what it makes of identifiers and keywords, that it reads back the
  spelling of a token list, and what it does with a character it does not know.
\<close>

section \<open>Tokens\<close>

text \<open>The enumeration \<^verbatim>\<open>nnc_tok_kind\<close>; its second part, the keywords, is a type of its own.\<close>

datatype (plugins only: code size) kw_kind =
    TOK_AS | TOK_BREAK | TOK_CASE | TOK_CAST | TOK_CONTINUE | TOK_DEFAULT | TOK_ENUM
  | TOK_ELIF | TOK_ENT | TOK_EXT | TOK_FOR | TOK_FN | TOK_FROM | TOK_F32 | TOK_F64
  | TOK_GOTO | TOK_IF | TOK_I8 | TOK_I16 | TOK_I32 | TOK_I64 | TOK_IMPORT | TOK_NAMESPACE
  | TOK_PUB | TOK_RETURN | TOK_STRUCT | TOK_SWITCH | TOK_SIZEOF | TOK_TYPE | TOK_UNION
  | TOK_U8 | TOK_U16 | TOK_U32 | TOK_U64 | TOK_LET | TOK_LABEL | TOK_LENGTHOF | TOK_VAR
  | TOK_VOID | TOK_WHILE | TOK_DO | TOK_ELSE

datatype (plugins only: code size) nnc_tok_kind =
    TOK_AMPERSAND | TOK_AND | TOK_ASSIGN | TOK_ASTERISK | TOK_ATPERSAND | TOK_CBRACE
  | TOK_CBRACKET | TOK_CHR | TOK_CIRCUMFLEX | TOK_COLON | TOK_COMMA | TOK_CPAREN
  | TOK_DOLLAR | TOK_DOT | TOK_DCOLON | TOK_EOF | TOK_EQ | TOK_EXCMARK | TOK_GRAVE
  | TOK_GT | TOK_GTE | TOK_IDENT | TOK_LSHIFT | TOK_LT | TOK_LTE | TOK_MINUS | TOK_NEQ
  | TOK_NUMBER | TOK_OBRACE | TOK_OBRACKET | TOK_OPAREN | TOK_OR | TOK_PERCENT | TOK_PLUS
  | TOK_QUESTION | TOK_QUOTE | TOK_QUOTES | TOK_RSHIFT | TOK_SEMICOLON | TOK_SIGN
  | TOK_SLASH | TOK_STR | TOK_TILDE | TOK_UNDERSCORE | TOK_VLINE
  | Keyword kw_kind

definition NNC_TOK_BUF_MAX :: nat where "NNC_TOK_BUF_MAX = 512"

text \<open>\<^verbatim>\<open>nnc_tok_sizes\<close>, with the size of \<open>TOK_EQ\<close> as the table has it.\<close>

definition nnc_tok_sizes :: "nnc_tok_kind \<Rightarrow> nat" where
  "nnc_tok_sizes k =
     (if k \<in> {TOK_AND, TOK_DCOLON, TOK_GTE, TOK_LTE, TOK_LSHIFT, TOK_NEQ, TOK_OR, TOK_RSHIFT} then 2
      else if k = TOK_EOF then 0 else 1)"

definition nnc_keywords :: "string list" where
  "nnc_keywords =
     [''as'', ''break'', ''case'', ''cast'', ''continue'',
      ''default'', ''enum'', ''elif'', ''ent'', ''ext'',
      ''for'', ''fn'', ''from'', ''f32'', ''f64'', ''goto'',
      ''if'', ''i8'', ''i16'', ''i32'', ''i64'', ''import'',
      ''namespace'', ''pub'', ''return'', ''struct'',
      ''switch'', ''sizeof'', ''type'', ''union'',
      ''u8'', ''u16'', ''u32'', ''u64'', ''let'', ''label'',
      ''lengthof'', ''var'', ''void'', ''while'', ''do'', ''else'']"

text \<open>The kinds \<^verbatim>\<open>TOK_AS + i\<close>, \<open>i = 0, 1, ...\<close>\<close>

definition keyword_kinds :: "kw_kind list" where
  "keyword_kinds =
     [TOK_AS, TOK_BREAK, TOK_CASE, TOK_CAST, TOK_CONTINUE, TOK_DEFAULT, TOK_ENUM,
      TOK_ELIF, TOK_ENT, TOK_EXT, TOK_FOR, TOK_FN, TOK_FROM, TOK_F32, TOK_F64,
      TOK_GOTO, TOK_IF, TOK_I8, TOK_I16, TOK_I32, TOK_I64, TOK_IMPORT, TOK_NAMESPACE,
      TOK_PUB, TOK_RETURN, TOK_STRUCT, TOK_SWITCH, TOK_SIZEOF, TOK_TYPE, TOK_UNION,
      TOK_U8, TOK_U16, TOK_U32, TOK_U64, TOK_LET, TOK_LABEL, TOK_LENGTHOF, TOK_VAR,
      TOK_VOID, TOK_WHILE, TOK_DO, TOK_ELSE]"

type_synonym kw_map = "(string, kw_kind) nnc_map"

text \<open>The keyword table built by \<^verbatim>\<open>nnc_lex_init_with_fp\<close>, with the two assertions at its end.\<close>

definition init_keywords :: "kw_map res" where
  "init_keywords =
     (let n = length nnc_keywords; c = n * 3 div 2 in
      bind_res (fold_res (\<lambda>(key, kind) m. nncmap_put str_keys m key kind)
                  (zip nnc_keywords keyword_kinds) (nncmap_init c)) (\<lambda>m.
      bind_res (assert_res (len m = n)) (\<lambda>_.
      bind_res (assert_res (cap m = c)) (\<lambda>_. Inr m))))"

section \<open>State\<close>

record nnc_tok =
  tok_size :: nat
  tok_kind :: nnc_tok_kind
  lexeme :: string

record nnc_lex =
  fp :: string
  cc :: "char option"
  pc :: char
  hint_ln :: u16
  hint_ch :: u32
  ctok :: nnc_tok

datatype 'a lres = LOk 'a nnc_lex | LThrow exc_kind nnc_lex | LCrash

definition bind_lex :: "'a lres \<Rightarrow> ('a \<Rightarrow> nnc_lex \<Rightarrow> 'b lres) \<Rightarrow> 'b lres" where
  "bind_lex m f = (case m of LOk x lx \<Rightarrow> f x lx | LThrow k lx \<Rightarrow> LThrow k lx | LCrash \<Rightarrow> LCrash)"

lemma bind_lex_simps [simp]:
  "bind_lex (LOk x lx) f = f x lx"
  "bind_lex (LThrow k lx) f = LThrow k lx"
  "bind_lex LCrash f = LCrash"
  by (simp_all add: bind_lex_def)

section \<open>Reading characters\<close>

definition nnc_lex_undo :: "nnc_lex \<Rightarrow> nnc_lex" where
  "nnc_lex_undo lx =
     lx \<lparr> fp := (case cc lx of None \<Rightarrow> fp lx | Some c \<Rightarrow> c # fp lx),
           cc := Some (pc lx), hint_ch := hint_ch lx - 1 \<rparr>"

definition eof_byte :: char where "eof_byte = CHR 0xFF"

definition fgetc :: "string \<Rightarrow> char option \<times> string" where
  "fgetc s = (case s of [] \<Rightarrow> (None, []) | c # s' \<Rightarrow> (if c = eof_byte then None else Some c, s'))"

definition nnc_lex_grab :: "nnc_lex \<Rightarrow> nnc_lex" where
  "nnc_lex_grab lx =
     (case cc lx of
        None \<Rightarrow> lx
      | Some c \<Rightarrow>
          (let (c', s) = fgetc (fp lx)
           in lx \<lparr> pc := c, cc := c', fp := s, hint_ch := hint_ch lx + 1 \<rparr>))"

lemma grab_shorter: "cc (nnc_lex_grab lx) \<noteq> None \<Longrightarrow> length (fp (nnc_lex_grab lx)) < length (fp lx)"
  by (auto simp: nnc_lex_grab_def fgetc_def split: option.splits list.splits if_splits)

definition newline :: "nnc_lex \<Rightarrow> nnc_lex" where
  "newline lx = lx \<lparr> hint_ln := hint_ln lx + 1, hint_ch := 1 \<rparr>"

lemma newline_simps [simp]:
  "fp (newline lx) = fp lx" "cc (newline lx) = cc lx" "pc (newline lx) = pc lx"
  "ctok (newline lx) = ctok lx"
  by (simp_all add: newline_def)

definition blank :: "char \<Rightarrow> bool" where
  "blank c \<longleftrightarrow> c \<in> {CHR '' '', CHR 0x07, CHR 0x08, CHR 0x0C, CHR 0x09, CHR 0x0B, CHR 0x0D}"

definition nl :: char where "nl = CHR 0x0A"

function nnc_lex_skip :: "nnc_lex \<Rightarrow> nnc_lex" where
  "nnc_lex_skip lx =
     (let lx = nnc_lex_grab lx in
      case cc lx of
        None \<Rightarrow> lx
      | Some c \<Rightarrow>
          if blank c then nnc_lex_skip lx
          else if c = nl then nnc_lex_skip (newline lx)
          else lx)"
  by auto
termination
  by (relation "measure (\<lambda>lx. length (fp lx))") (use grab_shorter in auto)

declare nnc_lex_skip.simps [simp del]

function skip_to_nl :: "nnc_lex \<Rightarrow> nnc_lex" where
  "skip_to_nl lx =
     (let lx = nnc_lex_grab lx in
      case cc lx of
        None \<Rightarrow> lx
      | Some c \<Rightarrow> if c = nl then lx else skip_to_nl lx)"
  by auto
termination
  by (relation "measure (\<lambda>lx. length (fp lx))") (use grab_shorter in auto)

declare skip_to_nl.simps [simp del]

definition nnc_lex_skip_line :: "nnc_lex \<Rightarrow> nnc_lex" where
  "nnc_lex_skip_line lx = newline (skip_to_nl lx)"

definition nnc_lex_recover :: "nnc_lex \<Rightarrow> nnc_lex" where
  "nnc_lex_recover lx = nnc_lex_skip_line lx"

section \<open>The lexeme buffer\<close>

definition nnc_lex_tok_clear :: "nnc_lex \<Rightarrow> nnc_lex" where
  "nnc_lex_tok_clear lx = lx \<lparr> ctok := (ctok lx) \<lparr> tok_size := 0, lexeme := [] \<rparr> \<rparr>"

text \<open>\<^verbatim>\<open>NNC_TOK_PUT_C\<close>\<close>

definition put_c :: "char \<Rightarrow> nnc_lex \<Rightarrow> unit lres" where
  "put_c c lx =
     (let t = ctok lx in
      if tok_size t < NNC_TOK_BUF_MAX
      then LOk () (lx \<lparr> ctok := t \<lparr> lexeme := take (tok_size t) (lexeme t) @ [c],
                                     tok_size := Suc (tok_size t) \<rparr> \<rparr>)
      else LCrash)"

text \<open>\<^verbatim>\<open>NNC_TOK_PUT_CC\<close>; EOF is stored as the byte 0xFF.\<close>

definition put_cc :: "nnc_lex \<Rightarrow> unit lres" where
  "put_cc lx = put_c (case cc lx of None \<Rightarrow> eof_byte | Some c \<Rightarrow> c) lx"

text \<open>\<^verbatim>\<open>nnc_lex_undo(lex); THROW(kind, ...)\<close>\<close>

definition undo_throw :: "exc_kind \<Rightarrow> nnc_lex \<Rightarrow> 'a lres" where
  "undo_throw k lx = LThrow k (nnc_lex_undo lx)"

section \<open>Character and string literals\<close>

definition esc_chars :: "char list" where
  "esc_chars = [CHR ''0'', CHR ''a'', CHR ''b'', CHR ''f'', CHR ''t'', CHR ''v'', CHR ''r'', CHR ''n'',
     CHR 0x5C, CHR 0x27, CHR 0x22]"

definition nnc_lex_grab_esc :: "nnc_lex \<Rightarrow> unit lres" where
  "nnc_lex_grab_esc lx =
     (case cc lx of
        Some c \<Rightarrow> if c \<in> set esc_chars then LOk () lx else undo_throw NNC_LEX_BAD_ESC lx
      | None \<Rightarrow> undo_throw NNC_LEX_BAD_ESC lx)"

definition backslash :: char where "backslash = CHR 0x5C"
definition quote :: char where "quote = CHR 0x27"
definition quotes :: char where "quotes = CHR 0x22"

text \<open>An escape sequence inside a literal: the backslash and the character are both kept.\<close>

definition grab_escaped :: "nnc_lex \<Rightarrow> unit lres" where
  "grab_escaped lx =
     bind_lex (put_cc lx) (\<lambda>_ lx.
     bind_lex (nnc_lex_grab_esc (nnc_lex_grab lx)) (\<lambda>_ lx. put_cc lx))"

definition nnc_lex_grab_chr :: "nnc_lex \<Rightarrow> nnc_tok_kind lres" where
  "nnc_lex_grab_chr lx =
     bind_lex (put_cc (nnc_lex_tok_clear lx)) (\<lambda>_ lx.
     (let lx = nnc_lex_grab lx in
      bind_lex
        (case cc lx of
           None \<Rightarrow> LOk () lx
         | Some initial \<Rightarrow>
             bind_lex (if initial \<noteq> backslash then put_c initial lx else grab_escaped lx)
               (\<lambda>_ lx. LOk () (nnc_lex_grab lx)))
        (\<lambda>_ lx.
          if cc lx \<noteq> Some quote then undo_throw NNC_LEX_BAD_CHR lx
          else bind_lex (put_cc lx) (\<lambda>_ lx. LOk TOK_CHR lx))))"

text \<open>
  The loop of \<^verbatim>\<open>nnc_lex_grab_str\<close>. The recursive call is on a lexer with less input left; after
  an escape sequence that is so because the sequence was read.
\<close>

lemma put_c_fields:
  "put_c c lx = LOk u lx' \<Longrightarrow> fp lx' = fp lx \<and> cc lx' = cc lx \<and> pc lx' = pc lx"
  by (auto simp: put_c_def Let_def split: if_splits)

lemma put_cc_fields:
  "put_cc lx = LOk u lx' \<Longrightarrow> fp lx' = fp lx \<and> cc lx' = cc lx \<and> pc lx' = pc lx"
  unfolding put_cc_def by (rule put_c_fields)

lemma bind_lex_LOk:
  "bind_lex m f = LOk y lx \<longleftrightarrow> (\<exists>x lx1. m = LOk x lx1 \<and> f x lx1 = LOk y lx)"
  by (cases m) auto

lemma bind_lex_LThrow:
  "bind_lex m f = LThrow k lx \<longleftrightarrow> m = LThrow k lx \<or> (\<exists>x lx1. m = LOk x lx1 \<and> f x lx1 = LThrow k lx)"
  by (cases m) auto

lemma bind_lex_cong [fundef_cong]:
  "m = m' \<Longrightarrow> (\<And>x lx. m' = LOk x lx \<Longrightarrow> f x lx = g x lx) \<Longrightarrow> bind_lex m f = bind_lex m' g"
  by (cases m') auto

lemma grab_escaped_shorter:
  "grab_escaped lx = LOk u lx' \<Longrightarrow> length (fp lx') < length (fp lx) \<and> cc lx' \<noteq> None"
  using grab_shorter
  by (fastforce simp: grab_escaped_def bind_lex_LOk nnc_lex_grab_esc_def undo_throw_def
      dest!: put_cc_fields split: option.splits if_splits)

function str_loop :: "nnc_lex \<Rightarrow> unit lres" where
  "str_loop lx =
     (let lx = nnc_lex_grab lx in
      case cc lx of
        None \<Rightarrow> LOk () lx
      | Some c \<Rightarrow>
          if c = nl \<or> c = quotes then LOk () lx
          else bind_lex (if c \<noteq> backslash then put_cc lx else grab_escaped lx) (\<lambda>_ lx. str_loop lx))"
  by auto
termination
proof (relation "measure (\<lambda>lx. length (fp lx))", goal_cases)
  case 1
  then show ?case by simp
next
  case (2 lx lx1 c u lx2)
  have "length (fp lx1) < length (fp lx)" using 2 grab_shorter [of lx] by auto
  moreover have "length (fp lx2) \<le> length (fp lx1)"
    using 2(4) put_cc_fields [of lx1 u lx2] grab_escaped_shorter [of lx1 u lx2]
    by (auto split: if_splits)
  ultimately show ?case by simp
qed

declare str_loop.simps [simp del]

definition nnc_lex_grab_str :: "nnc_lex \<Rightarrow> nnc_tok_kind lres" where
  "nnc_lex_grab_str lx =
     bind_lex (put_cc (nnc_lex_tok_clear lx)) (\<lambda>_ lx.
     bind_lex (str_loop lx) (\<lambda>_ lx.
       if cc lx \<noteq> Some quotes then undo_throw NNC_LEX_BAD_STR lx
       else bind_lex (put_cc lx) (\<lambda>_ lx. LOk TOK_STR lx)))"

section \<open>Numbers and identifiers\<close>

text \<open>
  The loops \<^verbatim>\<open>while (nnc_lex_grab(lex) != EOF) { if (not P) break; NNC_TOK_PUT_CC(); }\<close>. The
  value tells whether the loop was left by the break, and how many characters it stored.
\<close>

function grab_while :: "(char \<Rightarrow> bool) \<Rightarrow> nat \<Rightarrow> nnc_lex \<Rightarrow> (bool \<times> nat) lres" where
  "grab_while P n lx =
     (let lx = nnc_lex_grab lx in
      case cc lx of
        None \<Rightarrow> LOk (False, n) lx
      | Some c \<Rightarrow>
          if \<not> P c then LOk (True, n) lx
          else bind_lex (put_cc lx) (\<lambda>_ lx. grab_while P (Suc n) lx))"
  by auto
termination
proof (relation "measure (\<lambda>(P, n, lx). length (fp lx))", goal_cases)
  case 1
  then show ?case by simp
next
  case (2 P n lx lx1 c u lx2)
  have "length (fp lx1) < length (fp lx)" using 2 grab_shorter [of lx] by auto
  then show ?case using put_cc_fields [OF 2(4)] by simp
qed

declare grab_while.simps [simp del]

definition between :: "char \<Rightarrow> char \<Rightarrow> char \<Rightarrow> bool" where
  "between a b c \<longleftrightarrow> of_char a \<le> (of_char c :: nat) \<and> of_char c \<le> (of_char b :: nat)"

definition dec_digit :: "char \<Rightarrow> bool" where "dec_digit = between CHR ''0'' CHR ''9''"
definition oct_digit :: "char \<Rightarrow> bool" where "oct_digit = between CHR ''0'' CHR ''7''"
definition bin_digit :: "char \<Rightarrow> bool" where "bin_digit = between CHR ''0'' CHR ''1''"
definition hex_digit :: "char \<Rightarrow> bool" where
  "hex_digit c \<longleftrightarrow> between CHR ''0'' CHR ''9'' c \<or> between CHR ''a'' CHR ''f'' c \<or> between CHR ''A'' CHR ''F'' c"
definition ident_char :: "char \<Rightarrow> bool" where
  "ident_char c \<longleftrightarrow> between CHR ''0'' CHR ''9'' c \<or> between CHR ''a'' CHR ''z'' c \<or>
     between CHR ''A'' CHR ''Z'' c \<or> c = CHR ''_''"

text \<open>A suffix digit pair: \<open>a\<close> is the current character, \<open>b\<close> must follow.\<close>

definition grab_pair :: "char \<Rightarrow> nnc_lex \<Rightarrow> unit lres" where
  "grab_pair b lx =
     bind_lex (put_cc lx) (\<lambda>_ lx.
     (let lx = nnc_lex_grab lx in
      if cc lx \<noteq> Some b then undo_throw NNC_LEX_BAD_SUFFIX lx else put_cc lx))"

definition nnc_lex_grab_int_suffix :: "nnc_lex \<Rightarrow> unit lres" where
  "nnc_lex_grab_int_suffix lx =
     (case cc lx of
        None \<Rightarrow> LOk () (nnc_lex_undo lx)
      | Some c \<Rightarrow>
          if c \<in> {CHR ''u'', CHR ''i'', CHR ''U'', CHR ''I''} then
            bind_lex (put_cc lx) (\<lambda>_ lx.
            (let lx = nnc_lex_grab lx in
             if cc lx = Some CHR ''1'' then grab_pair CHR ''6'' lx
             else if cc lx = Some CHR ''3'' then grab_pair CHR ''2'' lx
             else if cc lx = Some CHR ''6'' then grab_pair CHR ''4'' lx
             else if cc lx = Some CHR ''8'' then put_cc lx
             else undo_throw NNC_LEX_BAD_SUFFIX lx))
          else LOk () (nnc_lex_undo lx))"

definition nnc_lex_grab_float_suffix :: "nnc_lex \<Rightarrow> unit lres" where
  "nnc_lex_grab_float_suffix lx =
     (case cc lx of
        None \<Rightarrow> LOk () (nnc_lex_undo lx)
      | Some c \<Rightarrow>
          if c \<in> {CHR ''f'', CHR ''F''} then
            bind_lex (put_cc lx) (\<lambda>_ lx.
            (let lx = nnc_lex_grab lx in
             if cc lx = Some CHR ''3'' then grab_pair CHR ''2'' lx
             else if cc lx = Some CHR ''6'' then grab_pair CHR ''4'' lx
             else undo_throw NNC_LEX_BAD_SUFFIX lx))
          else LOk () (nnc_lex_undo lx))"

definition nnc_lex_grab_exponent :: "nnc_lex \<Rightarrow> nnc_tok_kind lres" where
  "nnc_lex_grab_exponent lx =
     bind_lex (put_cc lx) (\<lambda>_ lx.
     (let lx = nnc_lex_grab lx in
      case cc lx of
        None \<Rightarrow> undo_throw NNC_LEX_BAD_EXP lx
      | Some sign \<Rightarrow>
          if sign \<noteq> CHR ''+'' \<and> sign \<noteq> CHR ''-'' then undo_throw NNC_LEX_BAD_EXP lx
          else bind_lex (put_c sign lx) (\<lambda>_ lx.
               bind_lex (grab_while dec_digit 0 lx) (\<lambda>_ lx. LOk TOK_NUMBER lx))))"

definition nnc_lex_grab_float :: "nnc_lex \<Rightarrow> nnc_tok_kind lres" where
  "nnc_lex_grab_float lx =
     bind_lex (put_cc lx) (\<lambda>_ lx.
     bind_lex (grab_while dec_digit 0 lx) (\<lambda>(broke, size_after_dot) lx.
     bind_lex
       (if \<not> broke then LOk () lx
        else if cc lx = Some CHR ''e'' \<or> cc lx = Some CHR ''E'' then
          bind_lex (nnc_lex_grab_exponent lx) (\<lambda>_ lx. nnc_lex_grab_float_suffix lx)
        else nnc_lex_grab_float_suffix lx)
       (\<lambda>_ lx.
         if size_after_dot = 0 then undo_throw NNC_LEX_BAD_FLOAT lx else LOk TOK_NUMBER lx)))"

text \<open>\<^verbatim>\<open>nnc_lex_grab_hex\<close>, \<^verbatim>\<open>nnc_lex_grab_oct\<close> and \<^verbatim>\<open>nnc_lex_grab_bin\<close> differ in their digits.\<close>

definition grab_based :: "(char \<Rightarrow> bool) \<Rightarrow> nnc_lex \<Rightarrow> nnc_tok_kind lres" where
  "grab_based P lx =
     bind_lex (put_cc (nnc_lex_tok_clear lx)) (\<lambda>_ lx.
     bind_lex (grab_while P 0 lx) (\<lambda>(broke, n) lx.
     bind_lex (if broke then nnc_lex_grab_int_suffix lx else LOk () lx) (\<lambda>_ lx.
       LOk TOK_NUMBER lx)))"

definition nnc_lex_grab_hex :: "nnc_lex \<Rightarrow> nnc_tok_kind lres" where
  "nnc_lex_grab_hex = grab_based hex_digit"
definition nnc_lex_grab_oct :: "nnc_lex \<Rightarrow> nnc_tok_kind lres" where
  "nnc_lex_grab_oct = grab_based oct_digit"
definition nnc_lex_grab_bin :: "nnc_lex \<Rightarrow> nnc_tok_kind lres" where
  "nnc_lex_grab_bin = grab_based bin_digit"

definition nnc_lex_grab_dec :: "nnc_lex \<Rightarrow> nnc_tok_kind lres" where
  "nnc_lex_grab_dec lx =
     bind_lex (put_cc (nnc_lex_tok_clear lx)) (\<lambda>_ lx.
     bind_lex (grab_while dec_digit 0 lx) (\<lambda>(broke, n) lx.
       if \<not> broke then LOk TOK_NUMBER lx
       else if cc lx = Some CHR ''.'' then nnc_lex_grab_float lx
       else bind_lex (nnc_lex_grab_int_suffix lx) (\<lambda>_ lx. LOk TOK_NUMBER lx)))"

text \<open>
  In \<^verbatim>\<open>nnc_lex_grab_number\<close> the test \<^verbatim>\<open>cc >= '0' || cc <= '9'\<close> holds of every character, so the
  statements after it are never reached.
\<close>

definition nnc_lex_grab_number :: "nnc_lex \<Rightarrow> nnc_tok_kind lres" where
  "nnc_lex_grab_number lx =
     (if cc lx \<noteq> Some CHR ''0'' then nnc_lex_grab_dec lx
      else
        (let lx = nnc_lex_grab lx in
         case cc lx of
           None \<Rightarrow> nnc_lex_grab_dec (nnc_lex_undo lx)
         | Some c \<Rightarrow>
             if c = CHR ''x'' then nnc_lex_grab_hex lx
             else if c = CHR ''o'' then nnc_lex_grab_oct lx
             else if c = CHR ''b'' then nnc_lex_grab_bin lx
             else if of_char CHR ''0'' \<le> (of_char c :: nat) \<or> of_char c \<le> (of_char CHR ''9'' :: nat)
             then nnc_lex_grab_dec (nnc_lex_undo lx)
             else LOk TOK_NUMBER (nnc_lex_undo lx)))"

text \<open>A keyword is looked up under the C string in the buffer, which must contain a NUL.\<close>

definition c_string :: "string \<Rightarrow> string" where
  "c_string s = takeWhile (\<lambda>c. c \<noteq> CHR 0x00) s"

definition lookup_keyword :: "kw_map \<Rightarrow> nnc_lex \<Rightarrow> nnc_tok_kind lres" where
  "lookup_keyword km lx =
     (let key = c_string (lexeme (ctok lx)) in
      if length key \<ge> NNC_TOK_BUF_MAX then LCrash
      else (case nncmap_has str_keys km key of
              Inr True \<Rightarrow> (case nncmap_get str_keys km key of Inr k \<Rightarrow> LOk (Keyword k) lx | Inl _ \<Rightarrow> LCrash)
            | Inr False \<Rightarrow> LOk TOK_IDENT lx
            | Inl _ \<Rightarrow> LCrash))"

definition nnc_lex_grab_ident :: "kw_map \<Rightarrow> nnc_lex \<Rightarrow> nnc_tok_kind lres" where
  "nnc_lex_grab_ident km lx =
     bind_lex (put_cc (nnc_lex_tok_clear lx)) (\<lambda>_ lx.
     bind_lex (grab_while ident_char 0 lx) (\<lambda>_ lx. lookup_keyword km (nnc_lex_undo lx)))"

section \<open>The next token\<close>

definition nnc_lex_adjust :: "char \<Rightarrow> nnc_lex \<Rightarrow> bool \<times> nnc_lex" where
  "nnc_lex_adjust c lx =
     (if cc lx = None then (False, lx)
      else
        (let lx = nnc_lex_grab lx in
         if cc lx \<noteq> Some c then (False, nnc_lex_undo lx) else (True, lx)))"

definition is_keyword_kind :: "nnc_tok_kind \<Rightarrow> bool" where
  "is_keyword_kind k = (case k of Keyword _ \<Rightarrow> True | _ \<Rightarrow> False)"

definition nnc_lex_commit :: "nnc_tok_kind \<Rightarrow> nnc_lex \<Rightarrow> nnc_lex" where
  "nnc_lex_commit k lx =
     lx \<lparr> ctok := (ctok lx) \<lparr> tok_kind := k,
       tok_size := (if k \<notin> {TOK_CHR, TOK_STR, TOK_IDENT, TOK_NUMBER} \<and> \<not> is_keyword_kind k
                    then nnc_tok_sizes k else tok_size (ctok lx)) \<rparr> \<rparr>"

text \<open>The characters that are a token on their own.\<close>

definition single_toks :: "(char \<times> nnc_tok_kind) list" where
  "single_toks =
     [(CHR ''*'', TOK_ASTERISK), (CHR ''@'', TOK_ATPERSAND), (CHR ''}'', TOK_CBRACE),
      (CHR '']'', TOK_CBRACKET), (CHR ''^'', TOK_CIRCUMFLEX), (CHR '','', TOK_COMMA),
      (CHR '')'', TOK_CPAREN), (CHR ''$'', TOK_DOLLAR), (CHR ''.'', TOK_DOT),
      (CHR 0x60, TOK_GRAVE), (CHR ''-'', TOK_MINUS), (CHR ''{'', TOK_OBRACE),
      (CHR ''['', TOK_OBRACKET), (CHR ''('', TOK_OPAREN), (CHR ''%'', TOK_PERCENT),
      (CHR ''+'', TOK_PLUS), (CHR ''?'', TOK_QUESTION), (CHR '';'', TOK_SEMICOLON),
      (CHR ''#'', TOK_SIGN), (CHR ''~'', TOK_TILDE)]"

text \<open>The characters that may begin a token of two, the second characters tried in order.\<close>

definition compound_toks :: "(char \<times> (char \<times> nnc_tok_kind) list \<times> nnc_tok_kind) list" where
  "compound_toks =
     [(CHR ''<'', [(CHR ''='', TOK_LTE), (CHR ''<'', TOK_LSHIFT)], TOK_LT),
      (CHR ''>'', [(CHR ''='', TOK_GTE), (CHR ''>'', TOK_RSHIFT)], TOK_GT),
      (CHR '':'', [(CHR '':'', TOK_DCOLON)], TOK_COLON),
      (CHR ''='', [(CHR ''='', TOK_EQ)], TOK_ASSIGN),
      (CHR ''!'', [(CHR ''='', TOK_NEQ)], TOK_EXCMARK),
      (CHR ''&'', [(CHR ''&'', TOK_AND)], TOK_AMPERSAND),
      (CHR ''|'', [(CHR ''|'', TOK_OR)], TOK_VLINE)]"

fun commit_first :: "(char \<times> nnc_tok_kind) list \<Rightarrow> nnc_tok_kind \<Rightarrow> nnc_lex \<Rightarrow> nnc_lex" where
  "commit_first [] d lx = nnc_lex_commit d lx"
| "commit_first ((c, k) # alts) d lx =
     (let (yes, lx) = nnc_lex_adjust c lx
      in if yes then nnc_lex_commit k lx else commit_first alts d lx)"

definition ident_start :: "char \<Rightarrow> bool" where
  "ident_start c \<longleftrightarrow> c = CHR ''_'' \<or> between CHR ''a'' CHR ''z'' c \<or> between CHR ''A'' CHR ''Z'' c"

definition commit_result :: "nnc_tok_kind lres \<Rightarrow> bool lres" where
  "commit_result m = bind_lex m (\<lambda>k lx. LOk False (nnc_lex_commit k lx))"

text \<open>
  The block under \<^verbatim>\<open>TRY\<close> in \<^verbatim>\<open>nnc_lex_next\<close>; the value is true when a comment was skipped and the
  function calls itself. A character with no case in the \<^verbatim>\<open>switch\<close> commits nothing.
\<close>

definition lex_try :: "kw_map \<Rightarrow> nnc_lex \<Rightarrow> bool lres" where
  "lex_try km lx =
     (let lx = nnc_lex_skip lx in
      case cc lx of
        None \<Rightarrow> LOk False (nnc_lex_commit TOK_EOF lx)
      | Some c \<Rightarrow>
         (case map_of single_toks c of
            Some k \<Rightarrow> LOk False (nnc_lex_commit k lx)
          | None \<Rightarrow>
           (case map_of compound_toks c of
              Some (alts, d) \<Rightarrow> LOk False (commit_first alts d lx)
            | None \<Rightarrow>
               if c = quote then commit_result (nnc_lex_grab_chr lx)
               else if c = quotes then commit_result (nnc_lex_grab_str lx)
               else if dec_digit c then commit_result (nnc_lex_grab_number lx)
               else if ident_start c then commit_result (nnc_lex_grab_ident km lx)
               else if c = CHR ''/'' then
                 (let (yes, lx) = nnc_lex_adjust CHR ''/'' lx
                  in if yes then LOk True (nnc_lex_skip_line lx)
                     else LOk False (nnc_lex_commit TOK_SLASH lx))
               else LOk False lx)))"


section \<open>Progress\<close>

text \<open>The characters left, the current one included.\<close>

definition pending :: "nnc_lex \<Rightarrow> nat" where
  "pending lx = length (fp lx) + (if cc lx = None then 0 else 1)"

lemma pending_grab: "pending (nnc_lex_grab lx) \<le> length (fp lx)"
  by (auto simp: pending_def nnc_lex_grab_def fgetc_def split: option.splits list.splits)

lemma fp_undo: "length (fp (nnc_lex_undo lx)) = pending lx"
  by (auto simp: pending_def nnc_lex_undo_def split: option.splits)

lemma pending_undo: "pending (nnc_lex_undo lx) = Suc (pending lx)"
  using fp_undo [of lx] by (simp add: pending_def) (simp add: nnc_lex_undo_def)

lemma fp_le_pending: "length (fp lx) \<le> pending lx"
  by (simp add: pending_def)

lemma pending_clear [simp]: "pending (nnc_lex_tok_clear lx) = pending lx"
  "fp (nnc_lex_tok_clear lx) = fp lx" "cc (nnc_lex_tok_clear lx) = cc lx"
  by (simp_all add: pending_def nnc_lex_tok_clear_def)

text \<open>
  What a grabber leaves: at most \<open>a\<close> characters pending when it returns, and at most \<open>b\<close> in the
  file when it throws.
\<close>

definition leaves :: "nat \<Rightarrow> nat \<Rightarrow> 'a lres \<Rightarrow> bool" where
  "leaves a b m =
     (case m of LOk x lx \<Rightarrow> pending lx \<le> a | LThrow k lx \<Rightarrow> length (fp lx) \<le> b | LCrash \<Rightarrow> True)"

named_theorems leaves_intros \<open>rules for the bound on the characters a grabber leaves\<close>

lemma leaves_bind:
  "leaves a b m \<Longrightarrow> (\<And>x lx. m = LOk x lx \<Longrightarrow> pending lx \<le> a \<Longrightarrow> leaves a' b (f x lx)) \<Longrightarrow> leaves a' b (bind_lex m f)"
  by (cases m) (auto simp: leaves_def)

lemma leaves_LOk: "pending lx \<le> a \<Longrightarrow> leaves a b (LOk x lx)"
  by (simp add: leaves_def)

lemma leaves_mono: "leaves a b m \<Longrightarrow> a \<le> a' \<Longrightarrow> b \<le> b' \<Longrightarrow> leaves a' b' m"
  by (auto simp: leaves_def split: lres.splits)

lemma leaves_undo_throw: "pending lx \<le> b \<Longrightarrow> leaves a b (undo_throw k lx)"
  by (simp add: leaves_def undo_throw_def fp_undo)

lemma leaves_put_c: "pending lx \<le> a \<Longrightarrow> leaves a b (put_c c lx)"
  by (simp add: leaves_def put_c_def Let_def pending_def)

lemma leaves_put_cc: "pending lx \<le> a \<Longrightarrow> leaves a b (put_cc lx)"
  by (simp add: put_cc_def leaves_put_c)

lemma pending_grab_le: "pending lx \<le> a \<Longrightarrow> pending (nnc_lex_grab lx) \<le> a"
  using pending_grab [of lx] fp_le_pending [of lx] by simp

lemma leaves_esc: "pending lx \<le> a \<Longrightarrow> a \<le> b \<Longrightarrow> leaves a b (nnc_lex_grab_esc lx)"
  by (auto simp: nnc_lex_grab_esc_def intro!: leaves_LOk leaves_undo_throw split: option.splits)

lemma leaves_escaped: "pending lx \<le> a \<Longrightarrow> a \<le> b \<Longrightarrow> leaves a b (grab_escaped lx)"
  unfolding grab_escaped_def
  by (rule leaves_bind [OF leaves_put_cc], assumption)
    (rule leaves_bind [OF leaves_esc], auto intro: pending_grab_le leaves_put_cc)

text \<open>A loop begins by reading: what counts is what is left in the file.\<close>

lemma leaves_str_loop: "length (fp lx) \<le> a \<Longrightarrow> a \<le> b \<Longrightarrow> leaves a b (str_loop lx)"
proof (induction lx rule: str_loop.induct)
  case (1 lx)
  have g: "pending (nnc_lex_grab lx) \<le> a" using 1(2) pending_grab [of lx] by simp
  show ?case
  proof (cases "cc (nnc_lex_grab lx)")
    case None
    then show ?thesis using g by (simp add: str_loop.simps [of lx] leaves_LOk)
  next
    case (Some c)
    show ?thesis
    proof (cases "c = nl \<or> c = quotes")
      case True
      then show ?thesis using g Some by (simp add: str_loop.simps [of lx] leaves_LOk)
    next
      case False
      have "leaves a b (if c \<noteq> backslash then put_cc (nnc_lex_grab lx) else grab_escaped (nnc_lex_grab lx))"
        using g 1(3) by (simp add: leaves_put_cc leaves_escaped)
      then have "leaves a b (bind_lex (if c \<noteq> backslash then put_cc (nnc_lex_grab lx)
          else grab_escaped (nnc_lex_grab lx)) (\<lambda>_ lx. str_loop lx))"
        by (rule leaves_bind)
          (rule 1(1) [OF refl Some False], use 1(3) fp_le_pending order_trans in \<open>blast+\<close>)
      then show ?thesis using Some False by (simp add: str_loop.simps [of lx] Let_def)
    qed
  qed
qed

lemma leaves_while: "length (fp lx) \<le> a \<Longrightarrow> leaves a b (grab_while P n lx)"
proof (induction P n lx rule: grab_while.induct)
  case (1 P n lx)
  have g: "pending (nnc_lex_grab lx) \<le> a" using 1(2) pending_grab [of lx] by simp
  show ?case
  proof (cases "cc (nnc_lex_grab lx)")
    case None
    then show ?thesis using g by (simp add: grab_while.simps [of P n lx] leaves_LOk)
  next
    case (Some c)
    show ?thesis
    proof (cases "P c")
      case False
      then show ?thesis using g Some by (simp add: grab_while.simps [of P n lx] leaves_LOk)
    next
      case True
      have "leaves a b (bind_lex (put_cc (nnc_lex_grab lx)) (\<lambda>_ lx. grab_while P (Suc n) lx))"
        by (rule leaves_bind [OF leaves_put_cc [OF g]])
          (rule 1(1) [OF refl Some], use True fp_le_pending order_trans in \<open>blast+\<close>)
      then show ?thesis using Some True by (simp add: grab_while.simps [of P n lx] Let_def)
    qed
  qed
qed

lemma leaves_pair: "pending lx \<le> a \<Longrightarrow> a \<le> b \<Longrightarrow> leaves a b (grab_pair c lx)"
  unfolding grab_pair_def Let_def
  by (rule leaves_bind [OF leaves_put_cc], assumption)
    (auto intro!: leaves_undo_throw leaves_put_cc dest: pending_grab_le)

lemma leaves_int_suffix:
  "pending lx \<le> a \<Longrightarrow> a \<le> b \<Longrightarrow> leaves (Suc a) b (nnc_lex_grab_int_suffix lx)"
proof -
  assume a: "pending lx \<le> a" "a \<le> b"
  have "leaves a b (bind_lex (put_cc lx) (\<lambda>_ lx.
            (let lx = nnc_lex_grab lx in
             if cc lx = Some CHR ''1'' then grab_pair CHR ''6'' lx
             else if cc lx = Some CHR ''3'' then grab_pair CHR ''2'' lx
             else if cc lx = Some CHR ''6'' then grab_pair CHR ''4'' lx
             else if cc lx = Some CHR ''8'' then put_cc lx
             else undo_throw NNC_LEX_BAD_SUFFIX lx)))"
    by (rule leaves_bind [OF leaves_put_cc [OF a(1)]], unfold Let_def)
      (use a(2) in \<open>auto intro!: leaves_undo_throw leaves_put_cc leaves_pair dest: pending_grab_le\<close>)
  then have "leaves (Suc a) b (bind_lex (put_cc lx) (\<lambda>_ lx.
            (let lx = nnc_lex_grab lx in
             if cc lx = Some CHR ''1'' then grab_pair CHR ''6'' lx
             else if cc lx = Some CHR ''3'' then grab_pair CHR ''2'' lx
             else if cc lx = Some CHR ''6'' then grab_pair CHR ''4'' lx
             else if cc lx = Some CHR ''8'' then put_cc lx
             else undo_throw NNC_LEX_BAD_SUFFIX lx)))"
    by (rule leaves_mono) simp_all
  then show ?thesis using a unfolding nnc_lex_grab_int_suffix_def
    by (auto intro!: leaves_LOk simp: pending_undo split: option.split)
qed

lemma leaves_float_suffix:
  "pending lx \<le> a \<Longrightarrow> a \<le> b \<Longrightarrow> leaves (Suc a) b (nnc_lex_grab_float_suffix lx)"
proof -
  assume a: "pending lx \<le> a" "a \<le> b"
  have "leaves a b (bind_lex (put_cc lx) (\<lambda>_ lx.
            (let lx = nnc_lex_grab lx in
             if cc lx = Some CHR ''3'' then grab_pair CHR ''2'' lx
             else if cc lx = Some CHR ''6'' then grab_pair CHR ''4'' lx
             else undo_throw NNC_LEX_BAD_SUFFIX lx)))"
    by (rule leaves_bind [OF leaves_put_cc [OF a(1)]], unfold Let_def)
      (use a(2) in \<open>auto intro!: leaves_undo_throw leaves_put_cc leaves_pair dest: pending_grab_le\<close>)
  then have "leaves (Suc a) b (bind_lex (put_cc lx) (\<lambda>_ lx.
            (let lx = nnc_lex_grab lx in
             if cc lx = Some CHR ''3'' then grab_pair CHR ''2'' lx
             else if cc lx = Some CHR ''6'' then grab_pair CHR ''4'' lx
             else undo_throw NNC_LEX_BAD_SUFFIX lx)))"
    by (rule leaves_mono) simp_all
  then show ?thesis using a unfolding nnc_lex_grab_float_suffix_def
    by (auto intro!: leaves_LOk simp: pending_undo split: option.split)
qed

lemma leaves_exponent: "pending lx \<le> a \<Longrightarrow> a \<le> b \<Longrightarrow> leaves a b (nnc_lex_grab_exponent lx)"
  unfolding nnc_lex_grab_exponent_def Let_def
  by (rule leaves_bind [OF leaves_put_cc], assumption)
    (auto split: option.split intro!: leaves_undo_throw leaves_bind [OF leaves_put_c [where a = a]]
      leaves_bind [OF leaves_while [where a = a]] leaves_LOk
      dest: pending_grab_le intro: order_trans [OF fp_le_pending])

lemma leaves_float:
  assumes "Suc (length (fp lx)) \<le> b"
  shows "leaves b b (nnc_lex_grab_float lx)"
proof -
  define a where "a = length (fp lx)"
  have ab: "a \<le> b" "Suc a \<le> b" using assms by (simp_all add: a_def)
  show ?thesis unfolding nnc_lex_grab_float_def
  proof (rule leaves_bind [OF leaves_put_cc [OF order_refl]])
    fix x lx1 assume "put_cc lx = LOk x lx1"
    then have fp1: "length (fp lx1) \<le> a" using put_cc_fields a_def by simp
    show "leaves b b (bind_lex (grab_while dec_digit 0 lx1) (\<lambda>(broke, size_after_dot) lx.
       bind_lex
         (if \<not> broke then LOk () lx
          else if cc lx = Some CHR ''e'' \<or> cc lx = Some CHR ''E'' then
            bind_lex (nnc_lex_grab_exponent lx) (\<lambda>_ lx. nnc_lex_grab_float_suffix lx)
          else nnc_lex_grab_float_suffix lx)
         (\<lambda>_ lx. if size_after_dot = 0 then undo_throw NNC_LEX_BAD_FLOAT lx else LOk TOK_NUMBER lx)))"
    proof (rule leaves_bind [OF leaves_while [OF fp1]], clarify, rule leaves_bind [where a = "Suc a"])
      fix broke n lx2 assume lx2: "pending lx2 \<le> a"
      have e: "leaves a b (nnc_lex_grab_exponent lx2)" using lx2 ab by (simp add: leaves_exponent)
      show "leaves (Suc a) b (if \<not> broke then LOk () lx2
          else if cc lx2 = Some CHR ''e'' \<or> cc lx2 = Some CHR ''E'' then
            bind_lex (nnc_lex_grab_exponent lx2) (\<lambda>_ lx. nnc_lex_grab_float_suffix lx)
          else nnc_lex_grab_float_suffix lx2)"
        using lx2 ab by (auto intro!: leaves_LOk leaves_bind [OF e] leaves_float_suffix)
    next
      fix broke n lx2 x lx3 assume "pending lx3 \<le> Suc a"
      then show "leaves b b (if n = 0 then undo_throw NNC_LEX_BAD_FLOAT lx3 else LOk TOK_NUMBER lx3)"
        using ab by (auto intro!: leaves_undo_throw leaves_LOk)
    qed
  qed
qed

lemma leaves_based:
  "length (fp lx) \<le> b \<Longrightarrow> leaves (Suc b) b (grab_based P lx)"
  unfolding grab_based_def
  apply (rule leaves_bind [OF leaves_put_cc [OF order_refl]])
  apply (rule leaves_bind [OF leaves_while [where a = b]])
   apply (simp add: put_cc_fields)
  apply (clarify, rule leaves_bind [where a = "Suc b"])
   apply (auto intro!: leaves_int_suffix leaves_LOk)
  done

lemma leaves_dec: "length (fp lx) \<le> b \<Longrightarrow> leaves (Suc b) b (nnc_lex_grab_dec lx)"
  unfolding nnc_lex_grab_dec_def
  apply (rule leaves_bind [OF leaves_put_cc [OF order_refl]])
  apply (rule leaves_bind [OF leaves_while [where a = b]])
   apply (simp add: put_cc_fields)
  apply (clarsimp simp: leaves_LOk)
  apply (intro conjI impI)
   apply (rule leaves_mono [OF leaves_float])
     apply (simp add: pending_def)
    apply simp
   apply simp
  apply (rule leaves_bind [OF leaves_int_suffix [where a = b]])
    apply (auto intro: leaves_LOk)
  done

lemma leaves_number: "length (fp lx) \<le> b \<Longrightarrow> leaves (Suc b) b (nnc_lex_grab_number lx)"
proof -
  assume b: "length (fp lx) \<le> b"
  have u: "length (fp (nnc_lex_undo (nnc_lex_grab lx))) \<le> b"
    using b pending_grab [of lx] by (simp add: fp_undo)
  have g: "length (fp (nnc_lex_grab lx)) \<le> b"
    using b pending_grab [of lx] fp_le_pending [of "nnc_lex_grab lx"] by simp
  have "pending (nnc_lex_undo (nnc_lex_grab lx)) \<le> Suc b"
    using b pending_grab [of lx] by (simp add: pending_undo)
  then show ?thesis using b u g
    by (auto simp: nnc_lex_grab_number_def Let_def nnc_lex_grab_hex_def nnc_lex_grab_oct_def
        nnc_lex_grab_bin_def leaves_based leaves_dec leaves_LOk split: option.split)
qed

lemma leaves_chr: "length (fp lx) \<le> b \<Longrightarrow> leaves b b (nnc_lex_grab_chr lx)"
proof -
  assume b: "length (fp lx) \<le> b"
  show ?thesis unfolding nnc_lex_grab_chr_def Let_def
  proof (rule leaves_bind [OF leaves_put_cc [OF order_refl]], rule leaves_bind [where a = b])
    fix x lx1 assume "put_cc (nnc_lex_tok_clear lx) = LOk x lx1"
    then have g: "pending (nnc_lex_grab lx1) \<le> b"
      using pending_grab [of lx1] put_cc_fields b by fastforce
    then have "leaves b b (if initial \<noteq> backslash then put_c initial (nnc_lex_grab lx1)
        else grab_escaped (nnc_lex_grab lx1))" for initial
      by (simp add: leaves_put_c leaves_escaped)
    then have "leaves b b (bind_lex (if initial \<noteq> backslash then put_c initial (nnc_lex_grab lx1)
        else grab_escaped (nnc_lex_grab lx1)) (\<lambda>_ lx. LOk () (nnc_lex_grab lx)))" for initial
      by (rule leaves_bind) (auto intro: leaves_LOk pending_grab_le)
    then show "leaves b b (case cc (nnc_lex_grab lx1) of None \<Rightarrow> LOk () (nnc_lex_grab lx1)
         | Some initial \<Rightarrow>
             bind_lex (if initial \<noteq> backslash then put_c initial (nnc_lex_grab lx1)
                else grab_escaped (nnc_lex_grab lx1)) (\<lambda>_ lx. LOk () (nnc_lex_grab lx)))"
      using g by (auto intro: leaves_LOk split: option.split)
  qed (auto intro!: leaves_undo_throw leaves_bind [OF leaves_put_cc] leaves_LOk)
qed

lemma leaves_str: "length (fp lx) \<le> b \<Longrightarrow> leaves b b (nnc_lex_grab_str lx)"
  unfolding nnc_lex_grab_str_def
  by (rule leaves_bind [OF leaves_put_cc [OF order_refl]], rule leaves_bind [OF leaves_str_loop [where a = b]])
    (auto simp: put_cc_fields intro!: leaves_undo_throw leaves_bind [OF leaves_put_cc] leaves_LOk)

lemma lookup_keyword_no_throw: "lookup_keyword km lx \<noteq> LThrow k lx'"
  by (auto simp: lookup_keyword_def Let_def split: sum.splits bool.splits)

lemma ident_no_throw: "nnc_lex_grab_ident km lx \<noteq> LThrow k lx'"
proof -
  have put: "put_cc lx \<noteq> LThrow k lx'" for lx by (simp add: put_cc_def put_c_def Let_def)
  have "leaves a b (grab_while P n lx)" if "length (fp lx) \<le> a" for a b P n lx
    using leaves_while [OF that] .
  have while: "grab_while P n lx \<noteq> LThrow k lx'" for P n lx
  proof (induction P n lx rule: grab_while.induct)
    case (1 P n lx)
    then show ?case using put
      by (subst grab_while.simps) (auto simp: Let_def bind_lex_LThrow split: option.splits)
  qed
  show ?thesis using put while lookup_keyword_no_throw
    by (auto simp: nnc_lex_grab_ident_def bind_lex_LThrow)
qed

lemma skip_shorter:
  "cc (nnc_lex_skip lx) \<noteq> None \<Longrightarrow> length (fp (nnc_lex_skip lx)) < length (fp lx)"
proof (induction lx rule: nnc_lex_skip.induct)
  case (1 lx)
  show ?case
  proof (cases "cc (nnc_lex_grab lx)")
    case None
    then show ?thesis using 1(3) by (simp add: nnc_lex_skip.simps [of lx])
  next
    case (Some c)
    have g: "length (fp (nnc_lex_grab lx)) < length (fp lx)" using grab_shorter [of lx] Some by simp
    show ?thesis
      using 1(1) [OF refl Some] 1(2) [OF refl Some] 1(3) g Some
      by (auto simp: nnc_lex_skip.simps [of lx] Let_def split: if_splits)
  qed
qed

lemma skip_to_nl_fp: "length (fp (skip_to_nl lx)) \<le> length (fp lx)"
proof (induction lx rule: skip_to_nl.induct)
  case (1 lx)
  have "length (fp (nnc_lex_grab lx)) \<le> length (fp lx)"
    using pending_grab [of lx] fp_le_pending [of "nnc_lex_grab lx"] by simp
  then show ?case using 1 by (subst skip_to_nl.simps) (force simp: Let_def split: option.splits)
qed

lemma recover_fp: "length (fp (nnc_lex_recover lx)) \<le> length (fp lx)"
  using skip_to_nl_fp by (simp add: nnc_lex_recover_def nnc_lex_skip_line_def)

lemma adjust_fp: "nnc_lex_adjust c lx = (True, lx') \<Longrightarrow> length (fp lx') \<le> length (fp lx)"
  using pending_grab [of lx] fp_le_pending [of "nnc_lex_grab lx"]
  by (auto simp: nnc_lex_adjust_def Let_def split: if_splits)

text \<open>The tries that are repeated, after a comment or an error, have read at least a character.\<close>

lemma commit_result_throw: "commit_result m = LThrow k lx \<longleftrightarrow> m = LThrow k lx"
  by (cases m) (auto simp: commit_result_def)

lemma commit_result_false: "commit_result m \<noteq> LOk True lx"
  by (cases m) (auto simp: commit_result_def)

lemma lex_try_throw:
  assumes "lex_try km lx = LThrow k lx'"
  shows "length (fp lx') < length (fp lx)"
proof -
  define lx1 where "lx1 = nnc_lex_skip lx"
  have cc: "cc lx1 \<noteq> None" using assms by (cases "cc lx1") (auto simp: lex_try_def lx1_def [symmetric])
  have le: "length (fp lx') \<le> length (fp lx1)"
    using assms leaves_chr [of lx1] leaves_str [of lx1] leaves_number [of lx1] ident_no_throw [of km lx1]
    by (auto simp: lex_try_def Let_def lx1_def [symmetric] commit_result_throw leaves_def
        split: option.splits if_splits prod.splits)
  then show ?thesis using skip_shorter [of lx] cc by (simp add: lx1_def)
qed

lemma lex_try_again:
  assumes "lex_try km lx = LOk True lx'"
  shows "length (fp lx') < length (fp lx)"
proof -
  define lx1 where "lx1 = nnc_lex_skip lx"
  have cc: "cc lx1 \<noteq> None" using assms by (cases "cc lx1") (auto simp: lex_try_def lx1_def [symmetric])
  obtain lx2 where "nnc_lex_adjust CHR ''/'' lx1 = (True, lx2)" "lx' = nnc_lex_skip_line lx2"
    using assms by (auto simp: lex_try_def Let_def lx1_def [symmetric] commit_result_false
        split: option.splits if_splits prod.splits)
  then have "length (fp lx') \<le> length (fp lx1)"
    using adjust_fp [of "CHR ''/''" lx1 lx2] skip_to_nl_fp [of lx2] by (simp add: nnc_lex_skip_line_def)
  then show ?thesis using skip_shorter [of lx] cc by (simp add: lx1_def)
qed

text \<open>\<^verbatim>\<open>nnc_lex_next\<close>, after an error from the next line on.\<close>

function nnc_lex_next :: "kw_map \<Rightarrow> nnc_lex \<Rightarrow> nnc_tok_kind lres" where
  "nnc_lex_next km lx =
     (case lex_try km lx of
        LOk again lx' \<Rightarrow> if again then nnc_lex_next km lx' else LOk (tok_kind (ctok lx')) lx'
      | LThrow k lx' \<Rightarrow> nnc_lex_next km (nnc_lex_recover lx')
      | LCrash \<Rightarrow> LCrash)"
  by auto
termination
  by (relation "measure (\<lambda>(km, lx). length (fp lx))")
    (auto dest: lex_try_again lex_try_throw intro: le_less_trans [OF recover_fp])

declare nnc_lex_next.simps [simp del]

text \<open>A lexer on a file, as \<^verbatim>\<open>nnc_lex_init\<close> sets it up (the token and the previous character are zeroed).\<close>

definition nnc_lex_init :: "string \<Rightarrow> nnc_lex" where
  "nnc_lex_init file =
     \<lparr> fp = file, cc = Some (CHR 0x00), pc = CHR 0x00, hint_ln = 1, hint_ch = 0,
       ctok = \<lparr> tok_size = 0, tok_kind = TOK_AMPERSAND, lexeme = [] \<rparr> \<rparr>"

section \<open>The keyword table\<close>

lemma nnc_keywords_distinct: "distinct nnc_keywords"
  unfolding nnc_keywords_def by simp

lemma nnc_keywords_lengths: "length nnc_keywords = 42" "length keyword_kinds = 42"
  by (simp_all add: nnc_keywords_def keyword_kinds_def)

definition keyword_of :: "string \<Rightarrow> kw_kind option" where
  "keyword_of = map_of (zip nnc_keywords keyword_kinds)"

lemma nncmap_init_cap: "cap (nncmap_init c) = c"
  by (simp add: nncmap_init_def)

lemma init_keywords_ok:
  "\<exists>km. init_keywords = Inr km \<and> map_inv str_keys km \<and> map_abs str_keys km = keyword_of"
proof -
  have "\<exists>km. fold_res (\<lambda>(key, kind) m. nncmap_put str_keys m key kind)
      (zip nnc_keywords keyword_kinds) (nncmap_init 63) = Inr km \<and> map_inv str_keys km \<and>
     map_abs str_keys km = map_abs str_keys (nncmap_init 63 :: kw_map) ++ map_of (zip nnc_keywords keyword_kinds) \<and>
     cap km = cap (nncmap_init 63 :: kw_map) \<and>
     len km = len (nncmap_init 63 :: kw_map) + length (zip nnc_keywords keyword_kinds)"
    by (rule put_all_fresh)
      (simp_all add: nncmap_init_inv map_exact_init nncmap_init_empty nnc_keywords_distinct
        nnc_keywords_lengths nncmap_init_len nncmap_init_cap)
  then show ?thesis
    by (auto simp: init_keywords_def nnc_keywords_lengths nncmap_init_empty nncmap_init_len keyword_of_def
        nncmap_init_cap)
qed

definition spelling_kind :: "string \<Rightarrow> nnc_tok_kind" where
  "spelling_kind w = (case keyword_of w of None \<Rightarrow> TOK_IDENT | Some k \<Rightarrow> Keyword k)"

lemma lookup_keyword_correct:
  assumes "init_keywords = Inr km" "length w < NNC_TOK_BUF_MAX" "CHR 0x00 \<notin> set w" "lexeme (ctok lx) = w"
  shows "lookup_keyword km lx = LOk (spelling_kind w) lx"
proof -
  have km: "map_inv str_keys km" "map_abs str_keys km = keyword_of"
  proof -
    obtain km' where "init_keywords = Inr km'" "map_inv str_keys km'" "map_abs str_keys km' = keyword_of"
      using init_keywords_ok by blast
    moreover from this have "km' = km" using assms(1) by (metis sum.inject(2))
    ultimately show "map_inv str_keys km" "map_abs str_keys km = keyword_of" by auto
  qed
  have w: "c_string (lexeme (ctok lx)) = w"
    using assms(3,4) by (simp add: c_string_def takeWhile_eq_all_conv) blast
  show ?thesis
    using str_dict.has_abs [OF km(1), of w] str_dict.get_abs [OF km(1), of w] km(2) assms(2) w
    by (cases "keyword_of w") (auto simp: lookup_keyword_def Let_def spelling_kind_def)
qed

section \<open>Reading a run of characters\<close>

text \<open>The lexer after \<open>w\<close> was read and stored, and \<open>c\<close> is the current character.\<close>

definition stored :: "string \<Rightarrow> nnc_lex \<Rightarrow> bool" where
  "stored w lx \<longleftrightarrow> lexeme (ctok lx) = w \<and> tok_size (ctok lx) = length w"

lemma put_c_stored:
  "stored w lx \<Longrightarrow> length w < NNC_TOK_BUF_MAX \<Longrightarrow>
     \<exists>lx'. put_c c lx = LOk () lx' \<and> stored (w @ [c]) lx' \<and> fp lx' = fp lx \<and> cc lx' = cc lx \<and> pc lx' = pc lx"
  by (simp add: stored_def put_c_def Let_def)

lemma put_cc_stored:
  "stored w lx \<Longrightarrow> length w < NNC_TOK_BUF_MAX \<Longrightarrow> cc lx = Some c \<Longrightarrow>
     \<exists>lx'. put_cc lx = LOk () lx' \<and> stored (w @ [c]) lx' \<and> fp lx' = fp lx \<and> cc lx' = Some c \<and> pc lx' = pc lx"
  using put_c_stored [of w lx c] by (simp add: put_cc_def)

lemma clear_stored: "stored [] (nnc_lex_tok_clear lx)"
  by (simp add: stored_def nnc_lex_tok_clear_def)

lemma stored_grab [simp]: "stored w (nnc_lex_grab lx) = stored w lx"
  by (auto simp: stored_def nnc_lex_grab_def split: option.splits prod.splits)

lemma stored_undo [simp]: "stored w (nnc_lex_undo lx) = stored w lx"
  by (simp add: stored_def nnc_lex_undo_def)

lemma grab_char:
  "cc lx = Some a \<Longrightarrow> fp lx = c # s \<Longrightarrow> c \<noteq> eof_byte \<Longrightarrow>
     cc (nnc_lex_grab lx) = Some c \<and> fp (nnc_lex_grab lx) = s \<and> pc (nnc_lex_grab lx) = a"
  by (simp add: nnc_lex_grab_def fgetc_def)

lemma grab_eof:
  "cc lx = Some a \<Longrightarrow> fp lx = [] \<Longrightarrow>
     cc (nnc_lex_grab lx) = None \<and> fp (nnc_lex_grab lx) = [] \<and> pc (nnc_lex_grab lx) = a"
  by (simp add: nnc_lex_grab_def fgetc_def)

text \<open>
  \<open>grab_while\<close> stores the longest run of characters satisfying \<open>P\<close>: it stops at the first other
  character, which becomes the current one, or at the end of the file.
\<close>

definition stops :: "(char \<Rightarrow> bool) \<Rightarrow> string \<Rightarrow> bool" where
  "stops P rest \<longleftrightarrow> (case rest of [] \<Rightarrow> True | c # _ \<Rightarrow> \<not> P c \<and> c \<noteq> eof_byte)"

lemma grab_while_run:
  assumes "stored w lx" "cc lx = Some a" "fp lx = run @ rest" "\<forall>c \<in> set run. P c \<and> c \<noteq> eof_byte"
    "stops P rest" "length w + length run \<le> NNC_TOK_BUF_MAX"
  shows "\<exists>lx'. grab_while P n lx = LOk (rest \<noteq> [], n + length run) lx' \<and> stored (w @ run) lx' \<and>
     pc lx' = last (a # run) \<and>
     (case rest of [] \<Rightarrow> cc lx' = None \<and> fp lx' = [] | c # rest' \<Rightarrow> cc lx' = Some c \<and> fp lx' = rest')"
  using assms
proof (induction run arbitrary: w lx a n)
  case Nil
  show ?case
  proof (cases rest)
    case Nil
    then show ?thesis using Nil.prems grab_eof [of lx a]
      by (simp add: grab_while.simps [of P n lx] Let_def)
  next
    case (Cons c rest')
    then show ?thesis using Nil.prems grab_char [of lx a c rest']
      by (simp add: grab_while.simps [of P n lx] Let_def stops_def)
  qed
next
  case (Cons c run)
  have g: "cc (nnc_lex_grab lx) = Some c" "fp (nnc_lex_grab lx) = run @ rest"
    using grab_char [of lx a c "run @ rest"] Cons.prems by auto
  obtain lx1 where lx1: "put_cc (nnc_lex_grab lx) = LOk () lx1" "stored (w @ [c]) lx1"
    "fp lx1 = run @ rest" "cc lx1 = Some c"
    using put_cc_stored [of w "nnc_lex_grab lx" c] Cons.prems g by auto
  have "\<exists>lx'. grab_while P (Suc n) lx1 = LOk (rest \<noteq> [], Suc n + length run) lx' \<and> stored ((w @ [c]) @ run) lx' \<and>
     pc lx' = last (c # run) \<and>
     (case rest of [] \<Rightarrow> cc lx' = None \<and> fp lx' = [] | c # rest' \<Rightarrow> cc lx' = Some c \<and> fp lx' = rest')"
    using Cons.prems lx1 by (intro Cons.IH) auto
  then show ?case using g lx1(1) Cons.prems(4) by (simp add: grab_while.simps [of P n lx] Let_def)
qed

text \<open>Undoing the last read puts the rest of the file back.\<close>

lemma undo_after_run:
  "(case rest of [] \<Rightarrow> cc lx = None \<and> fp lx = [] | c # rest' \<Rightarrow> cc lx = Some c \<and> fp lx = rest') \<Longrightarrow>
     fp (nnc_lex_undo lx) = rest \<and> cc (nnc_lex_undo lx) = Some (pc lx)"
  by (auto simp: nnc_lex_undo_def split: list.splits)

section \<open>Single tokens\<close>

text \<open>
  \<open>rest\<close> is what may follow a token in the texts below: a blank or the end of the file.
  \<open>ready\<close> is the state between tokens: the lexer may have met the end of the file already.
\<close>

definition separated :: "string \<Rightarrow> bool" where
  "separated rest \<longleftrightarrow> (case rest of [] \<Rightarrow> True | c # _ \<Rightarrow> c = CHR '' '')"

definition ready :: "nnc_lex \<Rightarrow> string \<Rightarrow> bool" where
  "ready lx s \<longleftrightarrow> fp lx = s \<and> (cc lx \<noteq> None \<or> s = [])"

lemma separated_stops: "separated rest \<Longrightarrow> \<not> P CHR '' '' \<Longrightarrow> stops P rest"
  by (auto simp: separated_def stops_def eof_byte_def split: list.splits)

lemma skip_space:
  assumes "ready lx (CHR '' '' # c # s)" "\<not> blank c" "c \<noteq> nl" "c \<noteq> eof_byte"
  shows "cc (nnc_lex_skip lx) = Some c \<and> fp (nnc_lex_skip lx) = s \<and> pc (nnc_lex_skip lx) = CHR '' '' \<and>
     ctok (nnc_lex_skip lx) = ctok lx"
proof -
  obtain a where a: "cc lx = Some a" "fp lx = CHR '' '' # c # s"
    using assms(1) by (auto simp: ready_def)
  define l1 where "l1 = nnc_lex_grab lx"
  have l1: "cc l1 = Some CHR '' ''" "fp l1 = c # s" "ctok l1 = ctok lx"
    using grab_char [OF a] by (auto simp: l1_def eof_byte_def nnc_lex_grab_def a fgetc_def)
  define l2 where "l2 = nnc_lex_grab l1"
  have l2: "cc l2 = Some c" "fp l2 = s" "pc l2 = CHR '' ''" "ctok l2 = ctok lx"
    using grab_char [OF l1(1,2) assms(4)] l1 assms(4) by (auto simp: l2_def nnc_lex_grab_def fgetc_def)
  have "nnc_lex_skip lx = nnc_lex_skip l1"
    by (subst nnc_lex_skip.simps) (simp add: l1_def [symmetric] l1 Let_def blank_def)
  also have "\<dots> = l2"
    using assms(2,3) l2 by (subst nnc_lex_skip.simps) (simp add: l2_def [symmetric] Let_def)
  finally show ?thesis using l2 by simp
qed

lemma skip_end: "ready lx [] \<Longrightarrow> cc (nnc_lex_skip lx) = None"
  by (subst nnc_lex_skip.simps)
    (auto simp: ready_def Let_def nnc_lex_grab_def fgetc_def split: option.splits)

lemma lex_next_done:
  "lex_try km lx = LOk False lx' \<Longrightarrow> nnc_lex_next km lx = LOk (tok_kind (ctok lx')) lx'"
  by (subst nnc_lex_next.simps) simp

lemma commit_fields [simp]:
  "fp (nnc_lex_commit k lx) = fp lx" "cc (nnc_lex_commit k lx) = cc lx"
  "tok_kind (ctok (nnc_lex_commit k lx)) = k" "lexeme (ctok (nnc_lex_commit k lx)) = lexeme (ctok lx)"
  by (simp_all add: nnc_lex_commit_def)

lemma next_eof: "ready lx [] \<Longrightarrow> \<exists>lx'. nnc_lex_next km lx = LOk TOK_EOF lx'"
  using lex_next_done [of km lx] skip_end [of lx] by (simp add: lex_try_def Let_def)

text \<open>The character classes are disjoint.\<close>

lemma map_of_class: "list_all (\<lambda>p. \<not> P (fst p)) xs \<Longrightarrow> P c \<Longrightarrow> map_of xs c = None"
  by (induction xs) auto

lemma class_table:
  "list_all (\<lambda>p. \<not> ident_start (fst p)) single_toks" "list_all (\<lambda>p. \<not> ident_start (fst p)) compound_toks"
  "list_all (\<lambda>p. \<not> dec_digit (fst p)) single_toks" "list_all (\<lambda>p. \<not> dec_digit (fst p)) compound_toks"
  "list_all (\<lambda>c. \<not> ident_start c)
     ([quote, quotes, nl, eof_byte, CHR 0x00, CHR ''0'', CHR '' ''] @
      [CHR 0x07, CHR 0x08, CHR 0x0C, CHR 0x09, CHR 0x0B, CHR 0x0D])"
  "list_all (\<lambda>c. \<not> dec_digit c)
     ([quote, quotes, nl, eof_byte, CHR ''x'', CHR ''o'', CHR ''b'', CHR ''.'', CHR '' ''] @
      [CHR 0x07, CHR 0x08, CHR 0x0C, CHR 0x09, CHR 0x0B, CHR 0x0D])"
  "list_all (\<lambda>c. \<not> ident_char c) [eof_byte, CHR 0x00, CHR '' '']"
  by code_simp+

lemma ident_start_class:
  assumes "ident_start c"
  shows "map_of single_toks c = None" "map_of compound_toks c = None" "c \<noteq> quote" "c \<noteq> quotes"
    "\<not> dec_digit c" "\<not> blank c" "c \<noteq> nl" "c \<noteq> eof_byte" "c \<noteq> CHR 0x00"
proof -
  show "\<not> dec_digit c" using assms
    by (auto simp: ident_start_def dec_digit_def between_def)
qed (use assms class_table(1,2,5) map_of_class [of ident_start] in \<open>auto simp: blank_def\<close>)

lemma dec_digit_class:
  assumes "dec_digit c"
  shows "map_of single_toks c = None" "map_of compound_toks c = None" "c \<noteq> quote" "c \<noteq> quotes"
    "\<not> blank c" "c \<noteq> nl" "c \<noteq> eof_byte" "c \<noteq> CHR ''x''" "c \<noteq> CHR ''o''" "c \<noteq> CHR ''b''" "c \<noteq> CHR ''.''"
  using assms class_table(3,4,6) map_of_class [of dec_digit] by (auto simp: blank_def)

lemma ident_char_class: "ident_char c \<Longrightarrow> c \<noteq> eof_byte" "ident_char c \<Longrightarrow> c \<noteq> CHR 0x00"
  using class_table(7) by auto

definition word_ok :: "string \<Rightarrow> bool" where
  "word_ok w \<longleftrightarrow> (case w of [] \<Rightarrow> False | c # cs \<Rightarrow> ident_start c \<and> list_all ident_char cs) \<and>
     length w < NNC_TOK_BUF_MAX"

lemma next_word:
  assumes km: "init_keywords = Inr km" and "ready lx (CHR '' '' # w @ rest)" "word_ok w" "stops ident_char rest"
  shows "\<exists>lx'. lex_try km lx = LOk False lx' \<and> nnc_lex_next km lx = LOk (spelling_kind w) lx' \<and> ready lx' rest \<and>
     lexeme (ctok lx') = w \<and> tok_size (ctok lx') = length w"
proof -
  obtain c cs where w: "w = c # cs" "ident_start c" "\<forall>x \<in> set cs. ident_char x" "length w < NNC_TOK_BUF_MAX"
    using assms(3) by (auto simp: word_ok_def list_all_iff split: list.splits)
  define l0 where "l0 = nnc_lex_skip lx"
  have l0: "cc l0 = Some c" "fp l0 = cs @ rest"
    using skip_space [of lx c "cs @ rest"] assms(2) w ident_start_class [OF w(2)] by (auto simp: l0_def)
  obtain l1 where l1: "put_cc (nnc_lex_tok_clear l0) = LOk () l1" "stored [c] l1" "fp l1 = cs @ rest" "cc l1 = Some c"
    using put_cc_stored [OF clear_stored [of l0], of c] l0 by (auto simp: NNC_TOK_BUF_MAX_def)
  obtain l2 where l2: "grab_while ident_char 0 l1 = LOk (rest \<noteq> [], length cs) l2" "stored w l2"
    "pc l2 = last (c # cs)"
    "case rest of [] \<Rightarrow> cc l2 = None \<and> fp l2 = [] | c # rest' \<Rightarrow> cc l2 = Some c \<and> fp l2 = rest'"
    using grab_while_run [OF l1(2,4,3), of ident_char 0] w assms(4) ident_char_class(1) by auto
  define l3 where "l3 = nnc_lex_undo l2"
  have l3: "fp l3 = rest" "cc l3 \<noteq> None" "lexeme (ctok l3) = w" "tok_size (ctok l3) = length w"
    using undo_after_run [OF l2(4)] l2(2) stored_undo [of w l2] by (auto simp: l3_def stored_def)
  have "CHR 0x00 \<notin> set w" using w ident_start_class(9) [OF w(2)] ident_char_class(2) by auto
  then have "nnc_lex_grab_ident km l0 = LOk (spelling_kind w) l3"
    using lookup_keyword_correct [OF km w(4) _ l3(3)] l1(1) l2(1)
    by (simp add: nnc_lex_grab_ident_def l3_def)
  then have "lex_try km lx = LOk False (nnc_lex_commit (spelling_kind w) l3)"
    using ident_start_class [OF w(2)] l0
    by (simp add: lex_try_def Let_def l0_def [symmetric] w(2) commit_result_def)
  moreover have "tok_size (ctok (nnc_lex_commit (spelling_kind w) l3)) = length w"
    using l3(4) by (simp add: nnc_lex_commit_def spelling_kind_def is_keyword_kind_def split: option.split)
  ultimately show ?thesis using lex_next_done l3 by (fastforce simp: ready_def)
qed

end
