(* ===== verification/Nnc_Lex_Read.thy ===== *)
theory Nnc_Lex_Read
  imports Nnc_Lex
begin

text \<open>
  What the lexer of \<^verbatim>\<open>Nnc_Lex\<close> makes of each kind of token text (words are in that theory), and
  the properties of the lexer: reading back a printed token list, identifiers and keywords,
  characters outside the alphabet, raw newlines in character literals.
\<close>

section \<open>Operators and punctuation\<close>

text \<open>The spellings of the tokens without a lexeme of their own, from the tables of the lexer.\<close>

definition punct_table :: "(string \<times> nnc_tok_kind) list" where
  "punct_table =
     map (\<lambda>(c, k). ([c], k)) single_toks @
     concat (map (\<lambda>(c, alts, d). ([c], d) # map (\<lambda>(e, k). ([c, e], k)) alts) compound_toks) @
     [(''/'', TOK_SLASH)]"

definition compound_ok :: "char \<times> (char \<times> nnc_tok_kind) list \<times> nnc_tok_kind \<Rightarrow> bool" where
  "compound_ok = (\<lambda>(c, alts, d). c \<notin> fst ` set single_toks \<and> distinct (map fst alts) \<and>
     list_all (\<lambda>(e, k). e \<noteq> CHR '' '' \<and> e \<noteq> eof_byte) alts)"

lemma tables_ok:
  "distinct (map fst single_toks)" "distinct (map fst compound_toks)" "list_all compound_ok compound_toks"
  "list_all (\<lambda>(c, k). \<not> blank c \<and> c \<noteq> nl \<and> c \<noteq> eof_byte) single_toks"
  "list_all (\<lambda>(c, k). \<not> blank c \<and> c \<noteq> nl \<and> c \<noteq> eof_byte) compound_toks"
  "map_of single_toks CHR ''/'' = None" "map_of compound_toks CHR ''/'' = None"
  "\<not> ident_start CHR ''/''" "\<not> dec_digit CHR ''/''"
  by code_simp+

lemma adjust_no:
  assumes "cc lx = Some a" "fp lx = s" "case s of [] \<Rightarrow> True | c' # _ \<Rightarrow> c' \<noteq> c \<and> c' \<noteq> eof_byte"
  shows "\<exists>lx'. nnc_lex_adjust c lx = (False, lx') \<and> cc lx' = Some a \<and> fp lx' = s \<and> ctok lx' = ctok lx"
  using assms by (cases s)
    (auto simp: nnc_lex_adjust_def nnc_lex_grab_def fgetc_def nnc_lex_undo_def Let_def)

lemma adjust_yes:
  assumes "cc lx = Some a" "fp lx = c # s" "c \<noteq> eof_byte"
  shows "\<exists>lx'. nnc_lex_adjust c lx = (True, lx') \<and> cc lx' = Some c \<and> fp lx' = s"
  using grab_char [OF assms] assms(1) by (simp add: nnc_lex_adjust_def Let_def)

lemma commit_first_none:
  "cc lx = Some a \<Longrightarrow> fp lx = s \<Longrightarrow> \<forall>e \<in> fst ` set alts. case s of [] \<Rightarrow> True | c' # _ \<Rightarrow> c' \<noteq> e \<and> c' \<noteq> eof_byte \<Longrightarrow>
     tok_kind (ctok (commit_first alts d lx)) = d \<and> cc (commit_first alts d lx) = Some a \<and>
     fp (commit_first alts d lx) = s"
proof (induction alts arbitrary: lx)
  case (Cons p alts)
  obtain e k where p: "p = (e, k)" by (cases p)
  obtain lx1 where "nnc_lex_adjust e lx = (False, lx1)" "cc lx1 = Some a" "fp lx1 = s"
    using adjust_no [OF Cons.prems(1,2), of e] Cons.prems(3) p by auto
  then show ?case using Cons.IH [of lx1] Cons.prems(3) p by simp
qed simp

lemma commit_first_some:
  "cc lx = Some a \<Longrightarrow> fp lx = e # s \<Longrightarrow> e \<noteq> eof_byte \<Longrightarrow> (e, k) \<in> set alts \<Longrightarrow> distinct (map fst alts) \<Longrightarrow>
     tok_kind (ctok (commit_first alts d lx)) = k \<and> cc (commit_first alts d lx) = Some e \<and>
     fp (commit_first alts d lx) = s"
proof (induction alts arbitrary: lx)
  case (Cons p alts)
  obtain e' k' where p: "p = (e', k')" by (cases p)
  show ?case
  proof (cases "e' = e")
    case True
    then have "k' = k" using Cons.prems(4,5) p by force
    then show ?thesis using adjust_yes [OF Cons.prems(1-3)] p True by auto
  next
    case False
    obtain lx1 where "nnc_lex_adjust e' lx = (False, lx1)" "cc lx1 = Some a" "fp lx1 = e # s"
      using adjust_no [OF Cons.prems(1,2), of e'] False Cons.prems(3) by auto
    then show ?thesis using Cons.IH [of lx1] Cons.prems p False by auto
  qed
qed simp

text \<open>Their sizes do not exceed their spelling.\<close>

definition has_lexeme :: "nnc_tok_kind \<Rightarrow> bool" where
  "has_lexeme k \<longleftrightarrow> k \<in> {TOK_CHR, TOK_STR, TOK_IDENT, TOK_NUMBER} \<or> is_keyword_kind k"

lemma commit_size: "tok_size (ctok (nnc_lex_commit k lx)) = (if has_lexeme k then tok_size (ctok lx) else nnc_tok_sizes k)"
  by (simp add: nnc_lex_commit_def has_lexeme_def)

lemma commit_first_size:
  "list_all (\<lambda>(c, k). \<not> has_lexeme k) alts \<Longrightarrow> \<not> has_lexeme d \<Longrightarrow>
     tok_size (ctok (commit_first alts d lx)) = nnc_tok_sizes (tok_kind (ctok (commit_first alts d lx)))"
  by (induction alts d lx rule: commit_first.induct) (auto simp: commit_size split: prod.split)

lemma punct_sizes:
  "list_all (\<lambda>(w, k). \<not> has_lexeme k \<and> nnc_tok_sizes k \<le> length w) punct_table"
  "list_all (\<lambda>(c, alts, d). list_all (\<lambda>(c, k). \<not> has_lexeme k) alts \<and> \<not> has_lexeme d) compound_toks"
  by code_simp+

lemma next_punct:
  assumes "ready lx (CHR '' '' # w @ rest)" "(w, k) \<in> set punct_table" "separated rest"
  shows "\<exists>lx'. lex_try km lx = LOk False lx' \<and> nnc_lex_next km lx = LOk k lx' \<and> ready lx' rest \<and> tok_size (ctok lx') \<le> length w"
proof -
  have size: "\<not> has_lexeme k" "nnc_tok_sizes k \<le> length w" using assms(2) punct_sizes(1) by (auto simp: list_all_iff)
  have first: "tok_size (ctok (commit_first alts d lx)) = nnc_tok_sizes (tok_kind (ctok (commit_first alts d lx)))"
    if "(c, alts, d) \<in> set compound_toks" for c alts d lx
    using that punct_sizes(2) commit_first_size by (auto simp: list_all_iff)
  obtain c w' where w: "w = c # w'"
    using assms(2) by (auto simp: punct_table_def)
  have sep: "case rest of [] \<Rightarrow> True | c' # _ \<Rightarrow> c' \<noteq> e \<and> c' \<noteq> eof_byte" if "e \<noteq> CHR '' ''" for e
    using assms(3) that by (auto simp: separated_def eof_byte_def split: list.splits)
  have cls: "\<not> blank c" "c \<noteq> nl" "c \<noteq> eof_byte"
    using assms(2) w tables_ok(4,5)
    by (auto simp: punct_table_def list_all_iff blank_def nl_def eof_byte_def)
  define l0 where "l0 = nnc_lex_skip lx"
  have l0: "cc l0 = Some c" "fp l0 = w' @ rest"
    using skip_space [of lx c "w' @ rest"] assms(1) w cls by (auto simp: l0_def)
  have "\<exists>l1. lex_try km lx = LOk False l1 \<and> tok_kind (ctok l1) = k \<and> fp l1 = rest \<and> cc l1 \<noteq> None \<and>
      tok_size (ctok l1) = nnc_tok_sizes k"
  proof -
    from assms(2) consider (single) "(c, k) \<in> set single_toks" "w' = []"
      | (default) alts where "(c, alts, k) \<in> set compound_toks" "w' = []"
      | (alt) alts d e where "(c, alts, d) \<in> set compound_toks" "(e, k) \<in> set alts" "w' = [e]"
      | (slash) "c = CHR ''/''" "k = TOK_SLASH" "w' = []"
      by (auto simp: punct_table_def w)
    then show ?thesis
    proof cases
      case single
      then show ?thesis using l0 tables_ok(1) size(1)
        by (simp add: lex_try_def Let_def l0_def [symmetric] commit_size)
    next
      case default
      have "compound_ok (c, alts, k)" using default(1) tables_ok(3) by (auto simp: list_all_iff)
      then have ok: "map_of single_toks c = None" "\<forall>e \<in> fst ` set alts. e \<noteq> CHR '' ''"
        by (auto simp: compound_ok_def map_of_eq_None_notin list_all_iff)
      have "\<forall>e \<in> fst ` set alts. case rest of [] \<Rightarrow> True | c' # _ \<Rightarrow> c' \<noteq> e \<and> c' \<noteq> eof_byte"
        using ok(2) sep by blast
      then show ?thesis using l0 default tables_ok(2) ok(1) commit_first_none [of l0 c rest alts k]
          first [OF default(1), of l0]
        by (simp add: lex_try_def Let_def l0_def [symmetric])
    next
      case alt
      have "compound_ok (c, alts, d)" using alt(1) tables_ok(3) by (auto simp: list_all_iff)
      then have ok: "map_of single_toks c = None" "distinct (map fst alts)" "e \<noteq> eof_byte"
        using alt(2) by (auto simp: compound_ok_def map_of_eq_None_notin list_all_iff)
      then show ?thesis using l0 alt tables_ok(2) commit_first_some [of l0 c e rest k alts d]
          first [OF alt(1), of l0]
        by (simp add: lex_try_def Let_def l0_def [symmetric])
    next
      case slash
      obtain l1 where "nnc_lex_adjust CHR ''/'' l0 = (False, l1)" "cc l1 = Some c" "fp l1 = rest"
        using adjust_no [of l0 c rest "CHR ''/''"] l0 slash sep by auto
      then show ?thesis using l0 slash tables_ok(6-9) size(1)
        by (simp add: lex_try_def Let_def l0_def [symmetric] quote_def quotes_def commit_size)
    qed
  qed
  then show ?thesis using lex_next_done [of km lx] size(2) by (fastforce simp: ready_def)
qed

section \<open>Numbers\<close>

definition int_suffixes :: "string list" where
  "int_suffixes = [c # n. c \<leftarrow> ''uiUI'', n \<leftarrow> [''8'', ''16'', ''32'', ''64'']]"

lemma int_suffix_taken:
  assumes "c # n \<in> set int_suffixes" "stored w lx" "cc lx = Some c" "fp lx = n @ rest"
    "length w + length (c # n) \<le> NNC_TOK_BUF_MAX"
  shows "\<exists>lx'. nnc_lex_grab_int_suffix lx = LOk () lx' \<and> stored (w @ c # n) lx' \<and> fp lx' = rest \<and> cc lx' \<noteq> None"
proof -
  have n: "n \<in> {''8'', ''16'', ''32'', ''64''}" and c: "c \<in> {CHR ''u'', CHR ''i'', CHR ''U'', CHR ''I''}"
    using assms(1) by (auto simp: int_suffixes_def)
  obtain lx1 where lx1: "put_cc lx = LOk () lx1" "stored (w @ [c]) lx1" "fp lx1 = n @ rest" "cc lx1 = Some c"
    using put_cc_stored [OF assms(2) _ assms(3)] assms(4,5) by auto
  show ?thesis
  proof (cases "n = ''8''")
    case True
    define lx2 where "lx2 = nnc_lex_grab lx1"
    have lx2: "cc lx2 = Some CHR ''8''" "fp lx2 = rest" "stored (w @ [c]) lx2"
      using grab_char [OF lx1(4), of "CHR ''8''" rest] lx1 True by (auto simp: lx2_def eof_byte_def)
    obtain lx3 where "put_cc lx2 = LOk () lx3" "stored ((w @ [c]) @ ''8'') lx3" "fp lx3 = rest" "cc lx3 = Some CHR ''8''"
      using put_cc_stored [OF lx2(3) _ lx2(1)] lx2 assms(5) True by auto
    then show ?thesis using c True lx1 lx2
      by (auto simp: nnc_lex_grab_int_suffix_def assms(3) Let_def lx2_def [symmetric])
  next
    case False
    then obtain a b where ab: "n = [a, b]" "(a, b) \<in> {(CHR ''1'', CHR ''6''), (CHR ''3'', CHR ''2''), (CHR ''6'', CHR ''4'')}"
      using n by auto
    define lx2 where "lx2 = nnc_lex_grab lx1"
    have ne: "a \<noteq> eof_byte" "b \<noteq> eof_byte" using ab(2) by (auto simp: eof_byte_def)
    have lx2: "cc lx2 = Some a" "fp lx2 = b # rest" "stored (w @ [c]) lx2"
      using grab_char [OF lx1(4), of a "b # rest"] lx1 ab ne by (auto simp: lx2_def)
    obtain lx3 where lx3: "put_cc lx2 = LOk () lx3" "stored ((w @ [c]) @ [a]) lx3" "fp lx3 = b # rest" "cc lx3 = Some a"
      using put_cc_stored [OF lx2(3) _ lx2(1)] lx2 assms(5) ab by auto
    define lx4 where "lx4 = nnc_lex_grab lx3"
    have lx4: "cc lx4 = Some b" "fp lx4 = rest" "stored ((w @ [c]) @ [a]) lx4"
      using grab_char [OF lx3(4), of b rest] lx3 ne by (auto simp: lx4_def)
    obtain lx5 where lx5: "put_cc lx4 = LOk () lx5" "stored (((w @ [c]) @ [a]) @ [b]) lx5" "fp lx5 = rest" "cc lx5 = Some b"
      using put_cc_stored [OF lx4(3) _ lx4(1)] lx4 assms(5) ab by auto
    have "grab_pair b lx2 = LOk () lx5"
      using lx3(1) lx4(1) lx5(1) by (simp add: grab_pair_def Let_def lx4_def)
    then have "nnc_lex_grab_int_suffix lx = LOk () lx5"
      using c ab(2) lx1(1) lx2(1)
      by (auto simp: nnc_lex_grab_int_suffix_def assms(3) Let_def lx2_def [symmetric])
    then show ?thesis using lx5 ab(1) by simp
  qed
qed

definition suffix_ok :: "string \<Rightarrow> bool" where
  "suffix_ok s \<longleftrightarrow> s = [] \<or> s \<in> set int_suffixes"

definition at_rest :: "string \<Rightarrow> nnc_lex \<Rightarrow> bool" where
  "at_rest rest lx =
     (case rest of [] \<Rightarrow> cc lx = None \<and> fp lx = [] | c # rest' \<Rightarrow> cc lx = Some c \<and> fp lx = rest')"

lemma suffix_stage:
  assumes "suffix_ok suf" "separated rest" "stored w lx" "at_rest (suf @ rest) lx"
    "length w + length suf \<le> NNC_TOK_BUF_MAX"
  shows "\<exists>lx'. (if suf @ rest \<noteq> [] then nnc_lex_grab_int_suffix lx else LOk () lx) = LOk () lx' \<and>
     stored (w @ suf) lx' \<and> ready lx' rest"
proof (cases suf)
  case Nil
  show ?thesis
  proof (cases rest)
    case Nil
    then show ?thesis using assms(3,4) \<open>suf = []\<close> by (simp add: at_rest_def ready_def)
  next
    case (Cons c rest')
    then have "cc lx = Some CHR '' ''" "fp lx = rest'" "c = CHR '' ''"
      using assms(2,4) \<open>suf = []\<close> by (auto simp: at_rest_def separated_def)
    then show ?thesis using assms(3) Cons \<open>suf = []\<close>
      by (auto simp: nnc_lex_grab_int_suffix_def ready_def nnc_lex_undo_def stored_def)
  qed
next
  case (Cons c n)
  then show ?thesis
    using int_suffix_taken [of c n w lx rest] assms by (auto simp: suffix_ok_def at_rest_def ready_def)
qed

lemma suffix_first:
  "suffix_ok suf \<Longrightarrow> suf = [] \<or> (\<exists>n. suf = CHR ''u'' # n \<or> suf = CHR ''i'' # n \<or> suf = CHR ''U'' # n \<or> suf = CHR ''I'' # n)"
  by (auto simp: suffix_ok_def int_suffixes_def)

lemma suffix_stops:
  assumes "suffix_ok suf" "separated rest" "list_all (\<lambda>c. \<not> P c) (CHR '' '' # ''uiUI'')"
  shows "stops P (suf @ rest)"
  using suffix_first [OF assms(1)] assms(2,3)
  by (auto simp: stops_def separated_def eof_byte_def split: list.splits)

lemma digit_tables:
  "list_all (\<lambda>c. \<not> dec_digit c) (CHR '' '' # ''uiUI'')" "list_all (\<lambda>c. \<not> hex_digit c) (CHR '' '' # ''uiUI'')"
  "list_all (\<lambda>c. \<not> oct_digit c) (CHR '' '' # ''uiUI'')" "list_all (\<lambda>c. \<not> bin_digit c) (CHR '' '' # ''uiUI'')"
  "\<not> hex_digit eof_byte" "\<not> oct_digit eof_byte" "\<not> bin_digit eof_byte" "\<not> dec_digit eof_byte"
  by code_simp+

lemma while_at_rest:
  assumes "stored w lx" "cc lx = Some a" "fp lx = run @ rest" "list_all P run" "\<not> P eof_byte"
    "stops P rest" "length w + length run \<le> NNC_TOK_BUF_MAX"
  shows "\<exists>lx'. grab_while P n lx = LOk (rest \<noteq> [], n + length run) lx' \<and> stored (w @ run) lx' \<and> at_rest rest lx'"
proof -
  have "\<forall>c \<in> set run. P c \<and> c \<noteq> eof_byte" using assms(4,5) by (auto simp: list_all_iff)
  from grab_while_run [OF assms(1-3) this assms(6,7), of n] show ?thesis unfolding at_rest_def by blast
qed

lemma put_first:
  assumes "cc lx = Some c"
  shows "\<exists>lx'. put_cc (nnc_lex_tok_clear lx) = LOk () lx' \<and> stored [c] lx' \<and> fp lx' = fp lx \<and> cc lx' = Some c"
  using put_cc_stored [OF clear_stored [of lx], of c] assms by (auto simp: NNC_TOK_BUF_MAX_def)

lemma grab_based_run:
  assumes "cc lx = Some c" "fp lx = ds @ suf @ rest" "list_all P ds" "\<not> P eof_byte"
    "list_all (\<lambda>c. \<not> P c) (CHR '' '' # ''uiUI'')" "suffix_ok suf" "separated rest"
    "Suc (length ds + length suf) \<le> NNC_TOK_BUF_MAX"
  shows "\<exists>lx'. grab_based P lx = LOk TOK_NUMBER lx' \<and> stored (c # ds @ suf) lx' \<and> ready lx' rest"
proof -
  obtain l1 where l1: "put_cc (nnc_lex_tok_clear lx) = LOk () l1" "stored [c] l1" "fp l1 = ds @ suf @ rest" "cc l1 = Some c"
    using put_first [OF assms(1)] assms(2) by auto
  obtain l2 where l2: "grab_while P 0 l1 = LOk (suf @ rest \<noteq> [], length ds) l2" "stored ([c] @ ds) l2" "at_rest (suf @ rest) l2"
    using while_at_rest [OF l1(2,4,3) assms(3,4) suffix_stops [OF assms(6,7,5)], of 0] assms(8) by auto
  obtain l3 where l3: "(if suf @ rest \<noteq> [] then nnc_lex_grab_int_suffix l2 else LOk () l2) = LOk () l3"
     "stored (([c] @ ds) @ suf) l3" "ready l3 rest"
    using suffix_stage [OF assms(6,7) l2(2,3)] assms(8) by auto
  show ?thesis using l1(1) l2(1) l3 by (auto simp: grab_based_def)
qed

lemma grab_dec_run:
  assumes "cc lx = Some c" "fp lx = ds @ suf @ rest" "list_all dec_digit ds" "suffix_ok suf" "separated rest"
    "Suc (length ds + length suf) \<le> NNC_TOK_BUF_MAX"
  shows "\<exists>lx'. nnc_lex_grab_dec lx = LOk TOK_NUMBER lx' \<and> stored (c # ds @ suf) lx' \<and> ready lx' rest"
proof -
  obtain l1 where l1: "put_cc (nnc_lex_tok_clear lx) = LOk () l1" "stored [c] l1" "fp l1 = ds @ suf @ rest" "cc l1 = Some c"
    using put_first [OF assms(1)] assms(2) by auto
  obtain l2 where l2: "grab_while dec_digit 0 l1 = LOk (suf @ rest \<noteq> [], length ds) l2" "stored ([c] @ ds) l2" "at_rest (suf @ rest) l2"
    using while_at_rest [OF l1(2,4,3) assms(3) digit_tables(8) suffix_stops [OF assms(4,5) digit_tables(1)], of 0]
      assms(6) by auto
  obtain l3 where l3: "(if suf @ rest \<noteq> [] then nnc_lex_grab_int_suffix l2 else LOk () l2) = LOk () l3"
     "stored (([c] @ ds) @ suf) l3" "ready l3 rest"
    using suffix_stage [OF assms(4,5) l2(2,3)] assms(6) by auto
  have "cc l2 \<noteq> Some CHR ''.''"
    using l2(3) suffix_first [OF assms(4)] assms(5) by (auto simp: at_rest_def separated_def split: list.splits)
  then show ?thesis using l1(1) l2(1) l3 by (cases "suf @ rest = []") (auto simp: nnc_lex_grab_dec_def)
qed

lemma undo_grab:
  assumes "cc lx = Some a" "case fp lx of [] \<Rightarrow> True | c # _ \<Rightarrow> c \<noteq> eof_byte"
  shows "cc (nnc_lex_undo (nnc_lex_grab lx)) = Some a" "fp (nnc_lex_undo (nnc_lex_grab lx)) = fp lx"
    "cc (nnc_lex_grab lx) = (case fp lx of [] \<Rightarrow> None | c # _ \<Rightarrow> Some c)"
  using assms by (cases "fp lx"; simp add: nnc_lex_grab_def nnc_lex_undo_def fgetc_def)+

lemma grab_number_dec:
  assumes "cc lx = Some c" "fp lx = ds @ suf @ rest" "list_all dec_digit ds" "suffix_ok suf" "separated rest"
    "Suc (length ds + length suf) \<le> NNC_TOK_BUF_MAX"
  shows "\<exists>lx'. nnc_lex_grab_number lx = LOk TOK_NUMBER lx' \<and> stored (c # ds @ suf) lx' \<and> ready lx' rest"
proof (cases "c = CHR ''0''")
  case False
  then show ?thesis using grab_dec_run [OF assms] assms(1) by (simp add: nnc_lex_grab_number_def)
next
  case True
  have next_ok: "case fp lx of [] \<Rightarrow> True | c # _ \<Rightarrow> c \<noteq> eof_byte \<and> c \<notin> set ''xob''"
  proof (cases ds)
    case Nil
    then show ?thesis using suffix_first [OF assms(4)] assms(5)
      by (auto simp: assms(2) separated_def eof_byte_def split: list.splits)
  next
    case (Cons d ds')
    then show ?thesis using assms(3) dec_digit_class [of d] by (simp add: assms(2))
  qed
  define l1 where "l1 = nnc_lex_undo (nnc_lex_grab lx)"
  have l1: "cc l1 = Some c" "fp l1 = ds @ suf @ rest"
    and g: "cc (nnc_lex_grab lx) = (case fp lx of [] \<Rightarrow> None | c # _ \<Rightarrow> Some c)"
    using undo_grab [OF assms(1)] next_ok assms(2) by (auto simp: l1_def split: list.splits)
  have "nnc_lex_grab_number lx = nnc_lex_grab_dec l1"
  proof (cases "fp lx")
    case Nil
    then show ?thesis using g True assms(1) by (simp add: nnc_lex_grab_number_def Let_def l1_def)
  next
    case (Cons x xs)
    then show ?thesis using g True assms(1) next_ok
      by (auto simp: nnc_lex_grab_number_def Let_def l1_def)
  qed
  then show ?thesis using grab_dec_run [OF l1 assms(3-6)] by simp
qed

text \<open>The three prefixed notations; the lexeme begins with the letter, the leading 0 is dropped.\<close>

definition base_digits :: "(char \<times> (char \<Rightarrow> bool)) list" where
  "base_digits = [(CHR ''x'', hex_digit), (CHR ''o'', oct_digit), (CHR ''b'', bin_digit)]"

lemma grab_number_based:
  assumes "cc lx = Some CHR ''0''" "fp lx = b # ds @ suf @ rest" "(b, P) \<in> set base_digits" "list_all P ds"
    "suffix_ok suf" "separated rest" "Suc (length ds + length suf) \<le> NNC_TOK_BUF_MAX"
  shows "\<exists>lx'. nnc_lex_grab_number lx = LOk TOK_NUMBER lx' \<and> stored (b # ds @ suf) lx' \<and> ready lx' rest"
proof -
  have b: "b \<in> set ''xob''" "b \<noteq> eof_byte" using assms(3) by (auto simp: base_digits_def eof_byte_def)
  define l1 where "l1 = nnc_lex_grab lx"
  have l1: "cc l1 = Some b" "fp l1 = ds @ suf @ rest"
    using grab_char [OF assms(1,2) b(2)] by (auto simp: l1_def)
  have "nnc_lex_grab_number lx = grab_based P l1"
    using assms(1,3) l1(1)
    by (auto simp: nnc_lex_grab_number_def Let_def l1_def [symmetric] base_digits_def nnc_lex_grab_hex_def
        nnc_lex_grab_oct_def nnc_lex_grab_bin_def)
  moreover have "\<not> P eof_byte" "list_all (\<lambda>c. \<not> P c) (CHR '' '' # ''uiUI'')"
    using assms(3) digit_tables by (auto simp: base_digits_def)
  ultimately show ?thesis using grab_based_run [OF l1 assms(4)] assms(5-7) by simp
qed

section \<open>Literals in quotes\<close>

datatype lit_char = Plain char | Escaped char

fun lit_text :: "lit_char \<Rightarrow> string" where
  "lit_text (Plain c) = [c]"
| "lit_text (Escaped c) = [backslash, c]"

fun str_char_ok :: "lit_char \<Rightarrow> bool" where
  "str_char_ok (Plain c) = (c \<notin> {nl, quotes, backslash, eof_byte})"
| "str_char_ok (Escaped c) = (c \<in> set esc_chars)"

fun chr_char_ok :: "lit_char \<Rightarrow> bool" where
  "chr_char_ok (Plain c) = (c \<notin> {backslash, eof_byte})"
| "chr_char_ok (Escaped c) = (c \<in> set esc_chars)"

definition lits_text :: "lit_char list \<Rightarrow> string" where
  "lits_text items = concat (map lit_text items)"

lemma esc_not_eof: "c \<in> set esc_chars \<Longrightarrow> c \<noteq> eof_byte"
  by (auto simp: esc_chars_def eof_byte_def)

lemma grab_escaped_run:
  assumes "stored w lx" "cc lx = Some backslash" "fp lx = c # s" "c \<in> set esc_chars"
    "length w + 2 \<le> NNC_TOK_BUF_MAX"
  shows "\<exists>lx'. grab_escaped lx = LOk () lx' \<and> stored (w @ [backslash, c]) lx' \<and> cc lx' = Some c \<and> fp lx' = s"
proof -
  obtain l1 where l1: "put_cc lx = LOk () l1" "stored (w @ [backslash]) l1" "fp l1 = c # s" "cc l1 = Some backslash"
    using put_cc_stored [OF assms(1) _ assms(2)] assms(3,5) by auto
  define l2 where "l2 = nnc_lex_grab l1"
  have l2: "cc l2 = Some c" "fp l2 = s" "stored (w @ [backslash]) l2"
    using grab_char [OF l1(4,3) esc_not_eof [OF assms(4)]] l1(2) by (auto simp: l2_def)
  obtain l3 where "put_cc l2 = LOk () l3" "stored ((w @ [backslash]) @ [c]) l3" "fp l3 = s" "cc l3 = Some c"
    using put_cc_stored [OF l2(3) _ l2(1)] l2(2) assms(5) by auto
  then show ?thesis using l1(1) l2 assms(4)
    by (auto simp: grab_escaped_def l2_def [symmetric] nnc_lex_grab_esc_def)
qed

lemma str_loop_run:
  "stored w lx \<Longrightarrow> cc lx = Some a \<Longrightarrow> fp lx = lits_text items @ quotes # rest \<Longrightarrow> list_all str_char_ok items \<Longrightarrow>
   length w + length (lits_text items) < NNC_TOK_BUF_MAX \<Longrightarrow>
   \<exists>lx'. str_loop lx = LOk () lx' \<and> stored (w @ lits_text items) lx' \<and> cc lx' = Some quotes \<and> fp lx' = rest"
proof (induction items arbitrary: w lx a)
  case Nil
  have "cc (nnc_lex_grab lx) = Some quotes" "fp (nnc_lex_grab lx) = rest"
    using grab_char [of lx a quotes rest] Nil by (auto simp: lits_text_def quotes_def eof_byte_def)
  then show ?case using Nil(1) by (simp add: str_loop.simps [of lx] Let_def lits_text_def)
next
  case (Cons it items)
  let ?s = "lits_text items @ quotes # rest"
  define l1 where "l1 = nnc_lex_grab lx"
  have s1: "stored w l1" using Cons.prems(1) by (simp add: l1_def)
  have "\<exists>c. cc l1 = Some c \<and> c \<noteq> nl \<and> c \<noteq> quotes \<and>
     (\<exists>l2. (if c \<noteq> backslash then put_cc l1 else grab_escaped l1) = LOk () l2 \<and> stored (w @ lit_text it) l2 \<and>
        (\<exists>b. cc l2 = Some b) \<and> fp l2 = ?s)"
  proof (cases it)
    case (Plain c)
    have c: "cc l1 = Some c" "fp l1 = ?s"
      using grab_char [OF Cons.prems(2), of c ?s] Cons.prems(3,4) Plain by (auto simp: l1_def lits_text_def)
    show ?thesis using put_cc_stored [OF s1 _ c(1)] Cons.prems(4,5) Plain c by (auto simp: lits_text_def)
  next
    case (Escaped c)
    have c: "cc l1 = Some backslash" "fp l1 = c # ?s"
      using grab_char [OF Cons.prems(2), of backslash "c # ?s"] Cons.prems(3) Escaped
      by (auto simp: l1_def lits_text_def backslash_def eof_byte_def)
    show ?thesis using grab_escaped_run [OF s1 c] Cons.prems(4,5) Escaped c(1)
      by (auto simp: lits_text_def backslash_def nl_def quotes_def)
  qed
  then obtain c l2 b where l2: "cc l1 = Some c" "c \<noteq> nl" "c \<noteq> quotes"
    "(if c \<noteq> backslash then put_cc l1 else grab_escaped l1) = LOk () l2" "stored (w @ lit_text it) l2"
    "cc l2 = Some b" "fp l2 = ?s" by blast
  have "str_loop lx = str_loop l2"
    using l2(1-4) by (simp add: str_loop.simps [of lx] Let_def l1_def [symmetric])
  then show ?case using Cons.IH [OF l2(5,6,7)] Cons.prems(4,5) by (auto simp: lits_text_def)
qed

lemma grab_str_run:
  assumes "cc lx = Some quotes" "fp lx = lits_text items @ quotes # rest" "list_all str_char_ok items"
    "length (lits_text items) + 2 \<le> NNC_TOK_BUF_MAX"
  shows "\<exists>lx'. nnc_lex_grab_str lx = LOk TOK_STR lx' \<and> stored (quotes # lits_text items @ [quotes]) lx' \<and>
     cc lx' \<noteq> None \<and> fp lx' = rest"
proof -
  obtain l1 where l1: "put_cc (nnc_lex_tok_clear lx) = LOk () l1" "stored [quotes] l1" "cc l1 = Some quotes"
    "fp l1 = lits_text items @ quotes # rest"
    using put_first [OF assms(1)] assms(2) by auto
  obtain l2 where l2: "str_loop l1 = LOk () l2" "stored ([quotes] @ lits_text items) l2" "cc l2 = Some quotes" "fp l2 = rest"
    using str_loop_run [OF l1(2-4) assms(3)] assms(4) by auto
  show ?thesis using put_cc_stored [OF l2(2) _ l2(3)] l1(1) l2 assms(4)
    by (auto simp: nnc_lex_grab_str_def)
qed

lemma grab_chr_run:
  assumes "cc lx = Some quote" "fp lx = lit_text it @ quote # rest" "chr_char_ok it"
  shows "\<exists>lx'. nnc_lex_grab_chr lx = LOk TOK_CHR lx' \<and> stored (quote # lit_text it @ [quote]) lx' \<and>
     cc lx' \<noteq> None \<and> fp lx' = rest"
proof -
  obtain l1 where l1: "put_cc (nnc_lex_tok_clear lx) = LOk () l1" "stored [quote] l1" "cc l1 = Some quote"
    "fp l1 = lit_text it @ quote # rest"
    using put_first [OF assms(1)] assms(2) by auto
  define l2 where "l2 = nnc_lex_grab l1"
  have s2: "stored [quote] l2" using l1(2) by (simp add: l2_def)
  have "\<exists>c. cc l2 = Some c \<and>
     (\<exists>l3. (if c \<noteq> backslash then put_c c l2 else grab_escaped l2) = LOk () l3 \<and> stored ([quote] @ lit_text it) l3 \<and>
        (\<exists>b. cc l3 = Some b) \<and> fp l3 = quote # rest)"
  proof (cases it)
    case (Plain c)
    then have c: "cc l2 = Some c" "fp l2 = quote # rest"
      using grab_char [OF l1(3), of c "quote # rest"] l1(4) assms(3) by (auto simp: l2_def)
    then show ?thesis using put_c_stored [OF s2, of c] assms(3) Plain by (auto simp: NNC_TOK_BUF_MAX_def)
  next
    case (Escaped c)
    then have c: "cc l2 = Some backslash" "fp l2 = c # quote # rest"
      using grab_char [OF l1(3), of backslash "c # quote # rest"] l1(4)
      by (auto simp: l2_def backslash_def eof_byte_def)
    then show ?thesis using grab_escaped_run [OF s2 c] assms(3) Escaped by (auto simp: NNC_TOK_BUF_MAX_def)
  qed
  then obtain c l3 b where l3: "cc l2 = Some c"
    "(if c \<noteq> backslash then put_c c l2 else grab_escaped l2) = LOk () l3" "stored ([quote] @ lit_text it) l3"
    "cc l3 = Some b" "fp l3 = quote # rest" by blast
  define l4 where "l4 = nnc_lex_grab l3"
  have l4: "cc l4 = Some quote" "fp l4 = rest" "stored ([quote] @ lit_text it) l4"
    using grab_char [OF l3(4,5)] l3(3) by (auto simp: l4_def quote_def eof_byte_def)
  have "length ([quote] @ lit_text it) < NNC_TOK_BUF_MAX" by (cases it) (simp_all add: NNC_TOK_BUF_MAX_def)
  then show ?thesis using put_cc_stored [OF l4(3) _ l4(1)] l1(1) l3 l4
    by (auto simp: nnc_lex_grab_chr_def Let_def l2_def [symmetric] l4_def [symmetric])
qed

section \<open>Token lists\<close>

datatype tok_spec =
    SWord string
  | SPunct string nnc_tok_kind
  | SDec char string string
  | SBased char string string
  | SStr "lit_char list"
  | SChr lit_char

text \<open>The text of a token, the kind the lexer must give it, and its lexeme if it has one.\<close>

fun spell :: "tok_spec \<Rightarrow> string" where
  "spell (SWord w) = w"
| "spell (SPunct w k) = w"
| "spell (SDec d ds suf) = d # ds @ suf"
| "spell (SBased b ds suf) = CHR ''0'' # b # ds @ suf"
| "spell (SStr items) = quotes # lits_text items @ [quotes]"
| "spell (SChr it) = quote # lit_text it @ [quote]"

fun spec_kind :: "tok_spec \<Rightarrow> nnc_tok_kind" where
  "spec_kind (SWord w) = spelling_kind w"
| "spec_kind (SPunct w k) = k"
| "spec_kind (SDec d ds suf) = TOK_NUMBER"
| "spec_kind (SBased b ds suf) = TOK_NUMBER"
| "spec_kind (SStr items) = TOK_STR"
| "spec_kind (SChr it) = TOK_CHR"

fun spec_lexeme :: "tok_spec \<Rightarrow> string option" where
  "spec_lexeme (SPunct w k) = None"
| "spec_lexeme (SBased b ds suf) = Some (b # ds @ suf)"
| "spec_lexeme t = Some (spell t)"

fun spec_ok :: "tok_spec \<Rightarrow> bool" where
  "spec_ok (SWord w) = word_ok w"
| "spec_ok (SPunct w k) = ((w, k) \<in> set punct_table)"
| "spec_ok (SDec d ds suf) = (dec_digit d \<and> list_all dec_digit ds \<and> suffix_ok suf \<and>
     Suc (length ds + length suf) \<le> NNC_TOK_BUF_MAX)"
| "spec_ok (SBased b ds suf) = (list_ex (\<lambda>(b', P). b' = b \<and> list_all P ds) base_digits \<and> suffix_ok suf \<and>
     Suc (length ds + length suf) \<le> NNC_TOK_BUF_MAX)"
| "spec_ok (SStr items) = (list_all str_char_ok items \<and> length (lits_text items) + 2 \<le> NNC_TOK_BUF_MAX)"
| "spec_ok (SChr it) = chr_char_ok it"

definition spell_all :: "tok_spec list \<Rightarrow> string" where
  "spell_all toks = concat (map (\<lambda>t. CHR '' '' # spell t) toks)"

lemma spell_all_separated: "separated (spell_all toks)"
  by (cases toks) (simp_all add: spell_all_def separated_def)

lemma next_of_try:
  assumes "ready lx (CHR '' '' # c # s)" "\<not> blank c" "c \<noteq> nl" "c \<noteq> eof_byte"
    "map_of single_toks c = None" "map_of compound_toks c = None"
  obtains l0 where "cc l0 = Some c" "fp l0 = s"
    "lex_try km lx =
       (if c = quote then commit_result (nnc_lex_grab_chr l0)
        else if c = quotes then commit_result (nnc_lex_grab_str l0)
        else if dec_digit c then commit_result (nnc_lex_grab_number l0)
        else if ident_start c then commit_result (nnc_lex_grab_ident km l0)
        else if c = CHR ''/'' then
          (let (yes, lx) = nnc_lex_adjust CHR ''/'' l0
           in if yes then LOk True (nnc_lex_skip_line lx) else LOk False (nnc_lex_commit TOK_SLASH lx))
        else LOk False l0)"
proof -
  have l0: "cc (nnc_lex_skip lx) = Some c" "fp (nnc_lex_skip lx) = s"
    using skip_space [OF assms(1-4)] by auto
  show ?thesis
    by (rule that [OF l0]) (simp add: lex_try_def Let_def l0 assms(5,6))
qed

lemma commit_next:
  assumes "lex_try km lx = commit_result m" "m = LOk k l1" "stored w l1" "ready l1 rest" "has_lexeme k"
  shows "\<exists>lx'. lex_try km lx = LOk False lx' \<and> nnc_lex_next km lx = LOk k lx' \<and> ready lx' rest \<and> lexeme (ctok lx') = w \<and>
     tok_size (ctok lx') = length w"
  using assms lex_next_done [of km lx "nnc_lex_commit k l1"]
  by (auto simp: commit_result_def ready_def stored_def commit_size)

lemma class_quotes:
  "map_of single_toks quote = None" "map_of compound_toks quote = None" "\<not> blank quote" "quote \<noteq> nl" "quote \<noteq> eof_byte"
  "map_of single_toks quotes = None" "map_of compound_toks quotes = None" "\<not> blank quotes" "quotes \<noteq> nl"
  "quotes \<noteq> eof_byte" "quotes \<noteq> quote" "dec_digit CHR ''0''"
  by code_simp+

lemma next_spec:
  assumes km: "init_keywords = Inr km" and ok: "spec_ok t" and sep: "separated rest"
    and r: "ready lx (CHR '' '' # spell t @ rest)"
  shows "\<exists>lx'. lex_try km lx = LOk False lx' \<and> nnc_lex_next km lx = LOk (spec_kind t) lx' \<and> ready lx' rest \<and>
     (\<forall>w. spec_lexeme t = Some w \<longrightarrow> lexeme (ctok lx') = w) \<and> tok_size (ctok lx') \<le> length (spell t)"
proof (cases t)
  case (SWord w)
  have "stops ident_char rest" using class_table(7) by (intro separated_stops [OF sep]) simp
  then show ?thesis using next_word [OF km, of lx w rest] SWord r ok by auto
next
  case (SPunct w k)
  then show ?thesis using next_punct [of lx w rest k km] r ok sep by simp
next
  case (SDec d ds suf)
  have r': "ready lx (CHR '' '' # d # ds @ suf @ rest)" and d: "dec_digit d" using r ok SDec by simp_all
  obtain l0 where l0: "cc l0 = Some d" "fp l0 = ds @ suf @ rest" "lex_try km lx = commit_result (nnc_lex_grab_number l0)"
    using next_of_try [OF r', of km] dec_digit_class [OF d] d by metis
  obtain l1 where "nnc_lex_grab_number l0 = LOk TOK_NUMBER l1" "stored (d # ds @ suf) l1" "ready l1 rest"
    using grab_number_dec [OF l0(1,2)] ok SDec sep by auto
  then show ?thesis using commit_next [OF l0(3)] SDec by (fastforce simp: has_lexeme_def)
next
  case (SBased b ds suf)
  have r': "ready lx (CHR '' '' # CHR ''0'' # b # ds @ suf @ rest)" using r SBased by simp
  obtain P where P: "(b, P) \<in> set base_digits" "list_all P ds" using ok SBased by (auto simp: list_ex_iff)
  obtain l0 where l0: "cc l0 = Some CHR ''0''" "fp l0 = b # ds @ suf @ rest"
    "lex_try km lx = commit_result (nnc_lex_grab_number l0)"
    using next_of_try [OF r', of km] dec_digit_class [OF class_quotes(12)] class_quotes(12) by metis
  obtain l1 where "nnc_lex_grab_number l0 = LOk TOK_NUMBER l1" "stored (b # ds @ suf) l1" "ready l1 rest"
    using grab_number_based [OF l0(1,2) P] ok SBased sep by auto
  then show ?thesis using commit_next [OF l0(3)] SBased by (fastforce simp: has_lexeme_def)
next
  case (SStr items)
  have r': "ready lx (CHR '' '' # quotes # lits_text items @ quotes # rest)" using r SStr by simp
  obtain l0 where l0: "cc l0 = Some quotes" "fp l0 = lits_text items @ quotes # rest"
    "lex_try km lx = commit_result (nnc_lex_grab_str l0)"
    using next_of_try [OF r', of km] class_quotes by metis
  obtain l1 where "nnc_lex_grab_str l0 = LOk TOK_STR l1" "stored (quotes # lits_text items @ [quotes]) l1"
    "ready l1 rest"
    using grab_str_run [OF l0(1,2)] ok SStr by (auto simp: ready_def)
  then show ?thesis using commit_next [OF l0(3)] SStr by (fastforce simp: has_lexeme_def)
next
  case (SChr it)
  have r': "ready lx (CHR '' '' # quote # lit_text it @ quote # rest)" using r SChr by simp
  obtain l0 where l0: "cc l0 = Some quote" "fp l0 = lit_text it @ quote # rest"
    "lex_try km lx = commit_result (nnc_lex_grab_chr l0)"
    using next_of_try [OF r', of km] class_quotes by metis
  obtain l1 where "nnc_lex_grab_chr l0 = LOk TOK_CHR l1" "stored (quote # lit_text it @ [quote]) l1" "ready l1 rest"
    using grab_chr_run [OF l0(1,2)] ok SChr by (auto simp: ready_def)
  then show ?thesis using commit_next [OF l0(3)] SChr by (fastforce simp: has_lexeme_def)
qed

text \<open>Reading \<open>n\<close> tokens: their kinds and the lexeme buffer after each.\<close>

fun lex_n :: "nat \<Rightarrow> kw_map \<Rightarrow> nnc_lex \<Rightarrow> (nnc_tok_kind \<times> string) list lres" where
  "lex_n 0 km lx = LOk [] lx"
| "lex_n (Suc n) km lx =
     bind_lex (nnc_lex_next km lx) (\<lambda>k lx1.
     bind_lex (lex_n n km lx1) (\<lambda>ts lx2. LOk ((k, lexeme (ctok lx1)) # ts) lx2))"

definition tok_matches :: "tok_spec \<Rightarrow> nnc_tok_kind \<times> string \<Rightarrow> bool" where
  "tok_matches t kw \<longleftrightarrow> fst kw = spec_kind t \<and> (spec_lexeme t = None \<or> spec_lexeme t = Some (snd kw))"

lemma lex_n_spec:
  "init_keywords = Inr km \<Longrightarrow> list_all spec_ok toks \<Longrightarrow> ready lx (spell_all toks) \<Longrightarrow>
     \<exists>ts lx'. lex_n (Suc (length toks)) km lx = LOk (ts @ [(TOK_EOF, lexeme (ctok lx'))]) lx' \<and>
       list_all2 tok_matches toks ts"
proof (induction toks arbitrary: lx)
  case Nil
  obtain lx' where "nnc_lex_next km lx = LOk TOK_EOF lx'"
    using next_eof [of lx km] Nil(3) by (auto simp: spell_all_def)
  then show ?case by simp
next
  case (Cons t toks)
  have r: "ready lx (CHR '' '' # spell t @ spell_all toks)" using Cons.prems(3) by (simp add: spell_all_def)
  have t: "spec_ok t" using Cons.prems(2) by simp
  obtain l1 where l1: "nnc_lex_next km lx = LOk (spec_kind t) l1" "ready l1 (spell_all toks)"
    "\<forall>w. spec_lexeme t = Some w \<longrightarrow> lexeme (ctok l1) = w"
    using next_spec [OF Cons.prems(1) t spell_all_separated r] by blast
  obtain ts lx' where "lex_n (Suc (length toks)) km l1 = LOk (ts @ [(TOK_EOF, lexeme (ctok lx'))]) lx'"
    "list_all2 tok_matches toks ts"
    using Cons.IH [OF Cons.prems(1) _ l1(2)] Cons.prems(2) by auto
  moreover have "tok_matches t (spec_kind t, lexeme (ctok l1))"
    using l1(3) by (cases "spec_lexeme t") (auto simp: tok_matches_def)
  ultimately show ?case using l1(1)
    by (intro exI [of _ "(spec_kind t, lexeme (ctok l1)) # ts"] exI [of _ lx']) (simp del: lex_n.simps add: lex_n.simps(2) [of "Suc (length toks)"])
qed

section \<open>Progress of a call\<close>

definition leaves_fp :: "nat \<Rightarrow> 'a lres \<Rightarrow> bool" where
  "leaves_fp c m = (case m of LOk x lx \<Rightarrow> length (fp lx) \<le> c | _ \<Rightarrow> True)"

lemma leaves_fpI: "leaves a b m \<Longrightarrow> leaves_fp a m"
  by (auto simp: leaves_def leaves_fp_def pending_def split: lres.splits if_splits)

lemma leaves_fp_bind:
  "leaves a b m \<Longrightarrow> (\<And>x lx. m = LOk x lx \<Longrightarrow> pending lx \<le> a \<Longrightarrow> leaves_fp c (f x lx)) \<Longrightarrow> leaves_fp c (bind_lex m f)"
  by (cases m) (auto simp: leaves_def leaves_fp_def)

lemma leaves_fp_return: "leaves_fp c m \<Longrightarrow> leaves_fp c (bind_lex m (\<lambda>_ lx. LOk k lx))"
  by (cases m) (auto simp: leaves_fp_def)

lemma fp_suffix:
  assumes "pending lx \<le> a"
  shows "leaves_fp a (nnc_lex_grab_int_suffix lx)" "leaves_fp a (nnc_lex_grab_float_suffix lx)"
proof -
  have u: "leaves_fp a (LOk () (nnc_lex_undo lx))" using assms by (simp add: leaves_fp_def fp_undo)
  have put: "leaves a a (put_cc lx)" if "pending lx \<le> a" for lx using leaves_put_cc [OF that] .
  have pair: "leaves_fp a (grab_pair c (nnc_lex_grab lx))" "leaves_fp a (put_cc (nnc_lex_grab lx))"
    "leaves_fp a (undo_throw k (nnc_lex_grab lx) :: unit lres)" if "pending lx \<le> a" for lx c k
    using pending_grab_le [OF that] leaves_pair [of "nnc_lex_grab lx" a a c] put [of "nnc_lex_grab lx"]
    by (auto intro: leaves_fpI) (simp add: leaves_fp_def undo_throw_def)
  show "leaves_fp a (nnc_lex_grab_int_suffix lx)"
    unfolding nnc_lex_grab_int_suffix_def Let_def
    by (auto split: option.split intro!: u leaves_fp_bind [OF put [OF assms]] pair)
  show "leaves_fp a (nnc_lex_grab_float_suffix lx)"
    unfolding nnc_lex_grab_float_suffix_def Let_def
    by (auto split: option.split intro!: u leaves_fp_bind [OF put [OF assms]] pair)
qed

lemma fp_float: "leaves_fp (length (fp lx)) (nnc_lex_grab_float lx)"
proof -
  define a where "a = length (fp lx)"
  have ret: "leaves_fp a (bind_lex m (\<lambda>_ lx. if n = 0 then undo_throw NNC_LEX_BAD_FLOAT lx else LOk TOK_NUMBER lx))"
    if "leaves_fp a m" for m :: "unit lres" and n :: nat
    using that by (cases m) (auto simp: leaves_fp_def undo_throw_def)
  have "leaves_fp a (nnc_lex_grab_float lx)" unfolding nnc_lex_grab_float_def
  proof (rule leaves_fp_bind [OF leaves_put_cc [OF order_refl]], rule leaves_fp_bind [OF leaves_while [where a = a]], goal_cases)
    case (1 x lx1)
    then show ?case using put_cc_fields by (simp add: a_def)
  next
    case (2 x lx1 y lx2)
    obtain broke n where y: "y = (broke, n)" by (cases y)
    have "leaves_fp a (if \<not> broke then LOk () lx2
          else if cc lx2 = Some CHR ''e'' \<or> cc lx2 = Some CHR ''E'' then
            bind_lex (nnc_lex_grab_exponent lx2) (\<lambda>_ lx. nnc_lex_grab_float_suffix lx)
          else nnc_lex_grab_float_suffix lx2)"
      using 2(4) by (auto intro!: leaves_fp_bind [OF leaves_exponent [where a = a and b = a]] fp_suffix
          leaves_fpI [OF leaves_LOk])
    from ret [OF this, of n] show ?case unfolding y prod.case .
  qed
  then show ?thesis by (simp add: a_def)
qed

lemma fp_dec: "length (fp lx) \<le> b \<Longrightarrow> leaves_fp b (nnc_lex_grab_dec lx)"
  unfolding nnc_lex_grab_dec_def
proof (rule leaves_fp_bind [OF leaves_put_cc [OF order_refl]], rule leaves_fp_bind [OF leaves_while [where a = b]], goal_cases)
  case (1 x lx1)
  then show ?case using put_cc_fields by fastforce
next
  case (2 x lx1 y lx2)
  have "leaves_fp b (nnc_lex_grab_float lx2)"
    using fp_float [of lx2] 2(5) fp_le_pending [of lx2] by (auto simp: leaves_fp_def split: lres.splits)
  then show ?case using 2 by (cases y) (auto intro!: leaves_fp_return fp_suffix leaves_fpI [OF leaves_LOk])
qed

lemma fp_based: "length (fp lx) \<le> b \<Longrightarrow> leaves_fp b (grab_based P lx)"
  unfolding grab_based_def
proof (rule leaves_fp_bind [OF leaves_put_cc [OF order_refl]], rule leaves_fp_bind [OF leaves_while [where a = b]], goal_cases)
  case (1 x lx1)
  then show ?case using put_cc_fields by fastforce
next
  case (2 x lx1 y lx2)
  then show ?case by (cases y) (auto intro!: leaves_fp_return fp_suffix leaves_fpI [OF leaves_LOk])
qed

lemma fp_number: "length (fp lx) \<le> b \<Longrightarrow> leaves_fp b (nnc_lex_grab_number lx)"
proof -
  assume b: "length (fp lx) \<le> b"
  have u: "length (fp (nnc_lex_undo (nnc_lex_grab lx))) \<le> b"
    using b pending_grab [of lx] by (simp add: fp_undo)
  have g: "length (fp (nnc_lex_grab lx)) \<le> b"
    using b pending_grab [of lx] fp_le_pending [of "nnc_lex_grab lx"] by simp
  have "leaves_fp b (LOk TOK_NUMBER (nnc_lex_undo (nnc_lex_grab lx)))" using u by (simp add: leaves_fp_def)
  then show ?thesis using b u g
    by (auto simp: nnc_lex_grab_number_def Let_def nnc_lex_grab_hex_def nnc_lex_grab_oct_def
        nnc_lex_grab_bin_def fp_based fp_dec split: option.split)
qed

lemma fp_ident: "length (fp lx) \<le> b \<Longrightarrow> leaves_fp b (nnc_lex_grab_ident km lx)"
  unfolding nnc_lex_grab_ident_def
proof (rule leaves_fp_bind [OF leaves_put_cc [OF order_refl]], rule leaves_fp_bind [OF leaves_while [where a = b]], goal_cases)
  case (1 x lx1)
  then show ?case using put_cc_fields by fastforce
next
  case (2 x lx1 y lx2)
  then show ?case
    by (auto simp: lookup_keyword_def Let_def leaves_fp_def fp_undo split: lres.splits sum.splits bool.splits)
qed

lemma adjust_fp_le: "nnc_lex_adjust c lx = (b, lx') \<Longrightarrow> length (fp lx') \<le> length (fp lx)"
  using pending_grab [of lx] fp_le_pending [of "nnc_lex_grab lx"]
  by (auto simp: nnc_lex_adjust_def Let_def fp_undo split: if_splits)

lemma commit_first_fp: "length (fp (commit_first alts d lx)) \<le> length (fp lx)"
proof (induction alts arbitrary: lx)
  case (Cons p alts)
  obtain c k where p: "p = (c, k)" by (cases p)
  obtain b lx1 where a: "nnc_lex_adjust c lx = (b, lx1)" by (cases "nnc_lex_adjust c lx")
  show ?case using adjust_fp_le [OF a] Cons [of lx1] by (auto simp: p a intro: order_trans)
qed simp

lemma commit_result_fp: "leaves_fp c m \<Longrightarrow> leaves_fp c (commit_result m)"
  by (cases m) (auto simp: leaves_fp_def commit_result_def)

lemma leaves_fp_if:
  "(b \<Longrightarrow> leaves_fp c x) \<Longrightarrow> (\<not> b \<Longrightarrow> leaves_fp c y) \<Longrightarrow> leaves_fp c (if b then x else y)"
  by simp

lemma grab_fp_le: "length (fp (nnc_lex_grab lx)) \<le> length (fp lx)"
  by (auto simp: nnc_lex_grab_def fgetc_def split: option.splits list.splits)

lemma skip_fp_le: "length (fp (nnc_lex_skip lx)) \<le> length (fp lx)"
proof (induction lx rule: nnc_lex_skip.induct)
  case (1 lx)
  note g = grab_fp_le [of lx]
  have "length (fp (nnc_lex_skip (nnc_lex_grab lx))) \<le> length (fp lx)" if "cc (nnc_lex_grab lx) = Some c" "blank c" for c
    using 1(1) [OF refl that] g by simp
  moreover have "length (fp (nnc_lex_skip (newline (nnc_lex_grab lx)))) \<le> length (fp lx)"
    if "cc (nnc_lex_grab lx) = Some c" "\<not> blank c" "c = nl" for c
    using 1(2) [OF refl that] g by simp
  ultimately show ?case using g by (subst nnc_lex_skip.simps) (auto simp: Let_def split: option.split)
qed

lemma lex_try_done:
  assumes "lex_try km lx = LOk False lx'"
  shows "length (fp lx') < length (fp lx) \<or> tok_kind (ctok lx') = TOK_EOF \<and> cc lx' = None \<and> length (fp lx') \<le> length (fp lx)"
proof -
  define l0 where "l0 = nnc_lex_skip lx"
  show ?thesis
  proof (cases "cc l0")
    case None
    then show ?thesis using assms skip_fp_le [of lx] by (auto simp: lex_try_def Let_def l0_def [symmetric] nnc_lex_commit_def)
  next
    case (Some c)
    obtain yes l1 where adj: "nnc_lex_adjust CHR ''/'' l0 = (yes, l1)" by (cases "nnc_lex_adjust CHR ''/'' l0")
    have "length (fp l1) \<le> length (fp l0)" "length (fp (skip_to_nl l1)) \<le> length (fp l0)"
      using adjust_fp_le [OF adj] skip_to_nl_fp [of l1] by auto
    then have slash: "leaves_fp (length (fp l0)) (if yes then LOk True (nnc_lex_skip_line l1)
        else LOk False (nnc_lex_commit TOK_SLASH l1))"
      by (simp add: leaves_fp_def nnc_lex_skip_line_def)
    have ok: "leaves_fp (length (fp l0)) (LOk False lx)" if "length (fp lx) \<le> length (fp l0)" for lx
      using that by (simp add: leaves_fp_def)
    have "leaves_fp (length (fp l0)) (lex_try km lx)"
    proof (cases "map_of single_toks c")
      case None
      show ?thesis
      proof (cases "map_of compound_toks c")
        case None
        show ?thesis
          unfolding lex_try_def Let_def l0_def [symmetric] Some option.case adj prod.case None \<open>map_of single_toks c = None\<close>
          by (intro leaves_fp_if commit_result_fp leaves_fpI [OF leaves_chr] leaves_fpI [OF leaves_str]
            fp_number fp_ident ok slash order_refl)
      next
        case (Some alt)
        then show ?thesis using None \<open>cc l0 = Some c\<close> commit_first_fp [of _ _ l0]
          by (cases alt) (simp add: lex_try_def Let_def l0_def [symmetric] ok)
      qed
    next
      case (Some k)
      then show ?thesis using \<open>cc l0 = Some c\<close> by (simp add: lex_try_def Let_def l0_def [symmetric] ok)
    qed
    then show ?thesis using assms skip_shorter [of lx] Some by (simp add: leaves_fp_def l0_def)
  qed
qed

lemma lex_next_consumes:
  "case nnc_lex_next km lx of
     LOk k lx' \<Rightarrow> length (fp lx') < length (fp lx) \<or> k = TOK_EOF \<and> cc lx' = None
   | LThrow e lx' \<Rightarrow> False
   | LCrash \<Rightarrow> True"
proof (induction km lx rule: nnc_lex_next.induct)
  case (1 km lx)
  show ?case
  proof (cases "lex_try km lx")
    case (LOk again lx1)
    show ?thesis
    proof (cases again)
      case True
      then show ?thesis using 1(1) [OF LOk True] lex_try_again [of km lx lx1] LOk
        by (subst nnc_lex_next.simps) (auto split: lres.splits)
    next
      case False
      then show ?thesis using lex_try_done [of km lx lx1] LOk by (subst nnc_lex_next.simps) auto
    qed
  next
    case (LThrow e lx1)
    have "length (fp (nnc_lex_recover lx1)) < length (fp lx)"
      using lex_try_throw [OF LThrow] recover_fp [of lx1] by simp
    then show ?thesis using 1(2) [OF LThrow] LThrow
      by (subst nnc_lex_next.simps) (auto split: lres.splits)
  next
    case LCrash
    then show ?thesis by (subst nnc_lex_next.simps) simp
  qed
qed

text \<open>What a call of the lexer returns is the kind of its token, and the file only gets shorter.\<close>

lemma lex_next_reads:
  assumes "nnc_lex_next km lx = LOk k lx'"
  shows "tok_kind (ctok lx') = k \<and> length (fp lx') \<le> length (fp lx) \<and> (k \<noteq> TOK_EOF \<longrightarrow> length (fp lx') < length (fp lx))"
  using assms
proof (induction km lx arbitrary: lx' rule: nnc_lex_next.induct)
  case (1 km lx)
  show ?case
  proof (cases "lex_try km lx")
    case (LOk again lx1)
    show ?thesis
    proof (cases again)
      case True
      have "nnc_lex_next km lx1 = LOk k lx'" using 1(3) LOk True by (subst (asm) nnc_lex_next.simps) simp
      then show ?thesis using 1(1) [OF LOk True] lex_try_again [of km lx lx1] LOk True by fastforce
    next
      case False
      then have r: "lx' = lx1" "k = tok_kind (ctok lx1)" using 1(3) LOk by (subst (asm) nnc_lex_next.simps, simp)+
      then show ?thesis using lex_try_done [of km lx lx1] LOk False by auto
    qed
  next
    case (LThrow e lx1)
    have "nnc_lex_next km (nnc_lex_recover lx1) = LOk k lx'" using 1(3) LThrow by (subst (asm) nnc_lex_next.simps) simp
    then show ?thesis using 1(2) [OF LThrow] lex_try_throw [OF LThrow] recover_fp [of lx1] by fastforce
  next
    case LCrash
    then show ?thesis using 1(3) by (subst (asm) nnc_lex_next.simps) simp
  qed
qed

section \<open>Properties\<close>



text \<open>
  C32. Identifiers: a letter or underscore with the longest run of letters, digits and
  underscores behind it is one token, whatever other character follows. It is a keyword if and
  only if it is one of the 42 words of the table, and the character after it is read next.
\<close>

theorem lex_identifier:
  assumes "init_keywords = Inr km" "word_ok w" "stops ident_char rest"
  shows "\<exists>lx. nnc_lex_next km (nnc_lex_init (CHR '' '' # w @ rest)) =
       LOk (case map_of (zip nnc_keywords keyword_kinds) w of None \<Rightarrow> TOK_IDENT | Some k \<Rightarrow> Keyword k) lx \<and>
     lexeme (ctok lx) = w \<and> fp lx = rest"
  using next_word [OF assms(1) _ assms(2,3), of "nnc_lex_init (CHR '' '' # w @ rest)"]
  by (auto simp: ready_def nnc_lex_init_def spelling_kind_def keyword_of_def)

lemma lex_identifier_witness:
  "\<exists>km lx. init_keywords = Inr km \<and> nnc_lex_next km (nnc_lex_init '' form+'') = LOk TOK_IDENT lx \<and>
     lexeme (ctok lx) = ''form''"
proof -
  obtain km where km: "init_keywords = Inr km" using init_keywords_ok by blast
  have "map_of (zip nnc_keywords keyword_kinds) ''form'' = None" "word_ok ''form''" "stops ident_char ''+''"
    by code_simp+
  then show ?thesis using lex_identifier [OF km, of "''form''" "''+''"] km by auto
qed

text \<open>
  C33. Every call of \<^verbatim>\<open>nnc_lex_next\<close> ends: errors are recovered from, so it never throws, and a
  call that returns a token has consumed at least one character of the file, or returns \<open>TOK_EOF\<close>
  with the end of the file as the current character. (The only other outcome is a lexeme that
  does not fit its buffer.)
\<close>

theorem lex_next_progress:
  "case nnc_lex_next km lx of
     LOk k lx' \<Rightarrow> length (fp lx') < length (fp lx) \<or> k = TOK_EOF \<and> cc lx' = None
   | LThrow e lx' \<Rightarrow> False
   | LCrash \<Rightarrow> True"
  by (rule lex_next_consumes)

definition unknown_char :: "char \<Rightarrow> bool" where
  "unknown_char c \<longleftrightarrow> \<not> blank c \<and> c \<notin> {nl, eof_byte, quote, quotes, CHR ''/''} \<and>
     c \<notin> fst ` set single_toks \<and> c \<notin> fst ` set compound_toks \<and> \<not> dec_digit c \<and> \<not> ident_start c"

text \<open>
  C34. A character outside the alphabet (a backslash, a NUL, a byte above 127) is not reported:
  the lexer returns the kind and the lexeme of the token before it once more.
\<close>

theorem lex_unknown_repeats:
  assumes "unknown_char c" "fp lx = CHR '' '' # c # rest" "cc lx \<noteq> None"
  shows "\<exists>lx'. nnc_lex_next km lx = LOk (tok_kind (ctok lx)) lx' \<and> ctok lx' = ctok lx \<and> fp lx' = rest"
proof -
  have s: "cc (nnc_lex_skip lx) = Some c" "fp (nnc_lex_skip lx) = rest" "ctok (nnc_lex_skip lx) = ctok lx"
    using skip_space [of lx c rest] assms by (auto simp: ready_def unknown_char_def)
  have "map_of single_toks c = None" "map_of compound_toks c = None"
    using assms(1) by (auto simp: unknown_char_def map_of_eq_None_notin)
  then have "lex_try km lx = LOk False (nnc_lex_skip lx)"
    using assms(1) s(1) by (simp add: lex_try_def Let_def unknown_char_def)
  then show ?thesis using lex_next_done s by fastforce
qed

lemma lex_unknown_repeats_witness:
  "\<forall>km. \<exists>lx'. nnc_lex_next km ((nnc_lex_init ('' '' @ [backslash])) \<lparr> ctok := \<lparr> tok_size = 1, tok_kind = TOK_PLUS, lexeme = [] \<rparr> \<rparr>) =
     LOk TOK_PLUS lx'"
proof -
  have "unknown_char backslash" by code_simp
  then show ?thesis
    using lex_unknown_repeats [of backslash "(nnc_lex_init ('' '' @ [backslash]))
        \<lparr> ctok := \<lparr> tok_size = 1, tok_kind = TOK_PLUS, lexeme = [] \<rparr> \<rparr>" "[]"]
    by (auto simp: nnc_lex_init_def)
qed

end
