(* ===== verification/Nnc_Literal.thy ===== *)
theory Nnc_Literal
  imports Nnc_Lex_Read
begin

text \<open>
  Literals: \<^verbatim>\<open>src/src/nnc_literal.c\<close>. A token's lexeme becomes an integer with its base and
  suffix, a character or a string. \<^verbatim>\<open>strtoll\<close> and \<^verbatim>\<open>strtoull\<close> are modelled on digit strings, the
  only input they get; of a floating-point literal the suffix, the cut and the test of the bounds are
  modelled on the bit pattern that \<^verbatim>\<open>strtod\<close>, a parameter, gives. The properties show that an integer literal the lexer accepts denotes its digits'
  value or overflows exactly beyond the bounds of its suffix, and which string literals keep
  their escapes.
\<close>

section \<open>Escapes\<close>

definition nnc_get_esc_chr :: "char \<Rightarrow> char res" where
  "nnc_get_esc_chr c =
     (if c = CHR ''0'' then Inr (CHR 0x00) else if c = CHR ''a'' then Inr (CHR 0x07)
      else if c = CHR ''b'' then Inr (CHR 0x08) else if c = CHR ''f'' then Inr (CHR 0x0C)
      else if c = CHR ''t'' then Inr (CHR 0x09) else if c = CHR ''v'' then Inr (CHR 0x0B)
      else if c = CHR ''r'' then Inr (CHR 0x0D) else if c = CHR ''n'' then Inr (CHR 0x0A)
      else if c = backslash then Inr backslash else if c = quote then Inr quote
      else if c = quotes then Inr quotes else Inl Abort)"

section \<open>Suffixes\<close>

datatype nnc_int_suffix =
  SUFFIX_U8 | SUFFIX_U16 | SUFFIX_U32 | SUFFIX_U64 | SUFFIX_I8 | SUFFIX_I16 | SUFFIX_I32 | SUFFIX_I64

datatype nnc_dbl_suffix = SUFFIX_F32 | SUFFIX_F64

text \<open>
  The loop that reads at most three characters from the end of the text (\<open>r\<close> is the text
  reversed) into the array \<open>suf\<close>, until one of \<open>marks\<close> is met.
\<close>

fun suffix_loop :: "char list \<Rightarrow> nat \<Rightarrow> string \<Rightarrow> string \<Rightarrow> bool \<Rightarrow> string \<times> bool" where
  "suffix_loop marks i [] suf met = (suf, met)"
| "suffix_loop marks i (c # r) suf met =
     (if met \<or> 2 < i then (suf, met)
      else suffix_loop marks (Suc i) r (suf[2 - i := c]) (c \<in> set marks))"

definition suffix_at :: "string \<Rightarrow> nat \<Rightarrow> char res" where
  "suffix_at suf i = (if i < length suf then Inr (suf ! i) else Inl Crash)"

text \<open>\<open>None\<close> is \<^verbatim>\<open>SUFFIX_NONE\<close>; \<open>k\<close> is the offset of \<^verbatim>\<open>suffix_ptr\<close> in the array.\<close>

definition nnc_get_int_suffix :: "string \<Rightarrow> nnc_int_suffix option res" where
  "nnc_get_int_suffix repr =
     (let (suf, met) = suffix_loop ''iIuU'' 0 (rev repr) (replicate 3 (CHR 0x00)) False in
      if \<not> met then Inr None
      else
        (let k = (if suf ! 0 = CHR 0x00 then 1 else 0);
             u = (suf ! k = CHR ''u'' \<or> suf ! k = CHR ''U'');
             c1 = suf ! (k + 1)
         in if c1 = CHR ''8'' then Inr (Some (if u then SUFFIX_U8 else SUFFIX_I8))
            else if c1 \<notin> set ''136'' then Inl Abort
            else bind_res (suffix_at suf (k + 2)) (\<lambda>c2.
              if c1 = CHR ''1'' \<and> c2 = CHR ''6'' then Inr (Some (if u then SUFFIX_U16 else SUFFIX_I16))
              else if c1 = CHR ''3'' \<and> c2 = CHR ''2'' then Inr (Some (if u then SUFFIX_U32 else SUFFIX_I32))
              else if c1 = CHR ''6'' \<and> c2 = CHR ''4'' then Inr (Some (if u then SUFFIX_U64 else SUFFIX_I64))
              else Inl Abort)))"

definition nnc_get_dbl_suffix :: "string \<Rightarrow> nnc_dbl_suffix option res" where
  "nnc_get_dbl_suffix repr =
     (let (suf, met) = suffix_loop ''fF'' 0 (rev repr) (replicate 3 (CHR 0x00)) False in
      if \<not> met then Inr None
      else if suf ! 1 = CHR ''3'' \<and> suf ! 2 = CHR ''2'' then Inr (Some SUFFIX_F32)
      else if suf ! 1 = CHR ''6'' \<and> suf ! 2 = CHR ''4'' then Inr (Some SUFFIX_F64)
      else Inl Abort)"

section \<open>Integers\<close>

record nnc_int_literal =
  int_base :: nat
  is_signed :: bool
  int_suffix :: nnc_int_suffix
  int_exact :: u64

definition digit_val :: "char \<Rightarrow> nat option" where
  "digit_val c =
     (let n = of_char c :: nat in
      if 48 \<le> n \<and> n \<le> 57 then Some (n - 48)
      else if 97 \<le> n \<and> n \<le> 122 then Some (n - 87)
      else if 65 \<le> n \<and> n \<le> 90 then Some (n - 55) else None)"

definition is_digit :: "nat \<Rightarrow> char \<Rightarrow> bool" where
  "is_digit base c = (case digit_val c of None \<Rightarrow> False | Some d \<Rightarrow> d < base)"

definition digits_value :: "nat \<Rightarrow> string \<Rightarrow> nat" where
  "digits_value base s = foldl (\<lambda>n c. n * base + the (digit_val c)) 0 s"

text \<open>
  \<^verbatim>\<open>strtoll\<close> and \<^verbatim>\<open>strtoull\<close> on a text that begins with a digit or is empty: the value of the
  longest prefix of digits, and whether \<^verbatim>\<open>ERANGE\<close> is set.
\<close>

definition strto_max :: "nat \<Rightarrow> nat \<Rightarrow> string \<Rightarrow> u64 \<times> bool" where
  "strto_max limit base s =
     (let n = digits_value base (takeWhile (is_digit base) s)
      in if limit < n then (of_nat limit, True) else (of_nat n, False))"

definition strtoll :: "nat \<Rightarrow> string \<Rightarrow> u64 \<times> bool" where
  "strtoll = strto_max (2 ^ 63 - 1)"

definition strtoull :: "nat \<Rightarrow> string \<Rightarrow> u64 \<times> bool" where
  "strtoull = strto_max (2 ^ 64 - 1)"

text \<open>The table of bounds, as integers.\<close>

fun int_bounds :: "nnc_int_suffix \<Rightarrow> int \<times> int" where
  "int_bounds SUFFIX_I8 = (- 128, 127)"
| "int_bounds SUFFIX_I16 = (- 32768, 32767)"
| "int_bounds SUFFIX_I32 = (- 2147483648, 2147483647)"
| "int_bounds SUFFIX_I64 = (- 9223372036854775808, 9223372036854775807)"
| "int_bounds SUFFIX_U8 = (0, 255)"
| "int_bounds SUFFIX_U16 = (0, 65535)"
| "int_bounds SUFFIX_U32 = (0, 4294967295)"
| "int_bounds SUFFIX_U64 = (0, 18446744073709551615)"

definition nnc_int_check_overflow :: "nnc_int_literal \<Rightarrow> nnc_int_literal res" where
  "nnc_int_check_overflow l =
     (let (lo, hi) = int_bounds (int_suffix l);
          x = (if is_signed l then sint (int_exact l) else uint (int_exact l))
      in if lo > x \<or> hi < x then Inl (Throw NNC_OVERFLOW) else Inr l)"

definition signed_suffix :: "nnc_int_suffix \<Rightarrow> bool" where
  "signed_suffix s \<longleftrightarrow> s \<in> {SUFFIX_I8, SUFFIX_I16, SUFFIX_I32, SUFFIX_I64}"

definition base_of :: "string \<Rightarrow> nat" where
  "base_of repr =
     (case repr of [] \<Rightarrow> 10
      | c # _ \<Rightarrow> if c = CHR ''x'' then 16 else if c = CHR ''o'' then 8 else if c = CHR ''b'' then 2 else 10)"

definition nnc_int_new :: "string \<Rightarrow> nnc_int_literal res" where
  "nnc_int_new repr =
     bind_res (nnc_get_int_suffix repr) (\<lambda>suf.
     (let base = base_of repr;
          repr = (if base \<noteq> 10 then drop 1 repr else repr);
          cut = (case suf of None \<Rightarrow> 0 | Some s \<Rightarrow> if s = SUFFIX_I8 \<or> s = SUFFIX_U8 then 2 else 3)
      in if length repr < cut then Inl Crash
         else
           (let repr_buf = take (length repr - cut) repr;
                suffix = (case suf of None \<Rightarrow> SUFFIX_I32 | Some s \<Rightarrow> s);
                (v, erange) = (if signed_suffix suffix then strtoll base repr_buf else strtoull base repr_buf)
            in if erange then Inl (Throw NNC_OVERFLOW)
               else nnc_int_check_overflow
                 \<lparr> int_base = base, is_signed = signed_suffix suffix, int_suffix = suffix, int_exact = v \<rparr>)))"

section \<open>Floating-point numbers\<close>

text \<open>
  A double is its bit pattern. The order of two doubles that are numbers is that of the patterns
  without their sign bit, with the sign of the number; the value of a text, \<^verbatim>\<open>strtod\<close>, is a parameter.
\<close>

record nnc_dbl_literal =
  dbl_suffix :: nnc_dbl_suffix
  dbl_exact :: u64

definition dbl_is_nan :: "u64 \<Rightarrow> bool" where
  "dbl_is_nan w \<longleftrightarrow> 0x7FF0000000000000 < w AND 0x7FFFFFFFFFFFFFFF"

definition dbl_order :: "u64 \<Rightarrow> int" where
  "dbl_order w = (let m = uint (w AND 0x7FFFFFFFFFFFFFFF) in if w AND 0x8000000000000000 = 0 then m else - m)"

definition dbl_less :: "u64 \<Rightarrow> u64 \<Rightarrow> bool" where
  "dbl_less v w \<longleftrightarrow> \<not> dbl_is_nan v \<and> \<not> dbl_is_nan w \<and> dbl_order v < dbl_order w"

text \<open>The bounds 0.0, \<^verbatim>\<open>FLT_MAX\<close> and \<^verbatim>\<open>DBL_MAX\<close>.\<close>

fun dbl_bounds :: "nnc_dbl_suffix \<Rightarrow> u64 \<times> u64" where
  "dbl_bounds SUFFIX_F32 = (0, 0x47EFFFFFE0000000)"
| "dbl_bounds SUFFIX_F64 = (0, 0x7FEFFFFFFFFFFFFF)"

definition nnc_dbl_check_overflow :: "nnc_dbl_literal \<Rightarrow> nnc_dbl_literal res" where
  "nnc_dbl_check_overflow l =
     (let (lo, hi) = dbl_bounds (dbl_suffix l) in
      if dbl_less (dbl_exact l) lo \<or> dbl_less hi (dbl_exact l) then Inl (Throw NNC_OVERFLOW) else Inr l)"

text \<open>The text without its suffix is copied into a buffer of 512 bytes that has to keep a NUL.\<close>

definition nnc_dbl_new :: "(string \<Rightarrow> u64) \<Rightarrow> string \<Rightarrow> nnc_dbl_literal res" where
  "nnc_dbl_new strtod repr =
     bind_res (nnc_get_dbl_suffix repr) (\<lambda>suf.
     (let cut = (case suf of None \<Rightarrow> 0 | Some s \<Rightarrow> 3);
          suffix = (case suf of None \<Rightarrow> SUFFIX_F64 | Some s \<Rightarrow> s)
      in if length repr < cut \<or> 512 \<le> length repr - cut then Inl Crash
         else nnc_dbl_check_overflow \<lparr>dbl_suffix = suffix, dbl_exact = strtod (take (length repr - cut) repr)\<rparr>))"

section \<open>Characters and strings\<close>

definition nnc_chr_new :: "string \<Rightarrow> char res" where
  "nnc_chr_new repr =
     (if length repr < 1 then Inl Abort
      else
        (let at = (\<lambda>i. if i < length repr then repr ! i else CHR 0x00) in
         if at 1 \<noteq> backslash then Inr (at 1) else nnc_get_esc_chr (at 2)))"

text \<open>
  The loop of \<^verbatim>\<open>nnc_str_zip\<close> over the characters between the quotes; \<open>esc\<close> is \<^verbatim>\<open>esc_chr_met\<close> and
  the result is what is stored in \<^verbatim>\<open>exact\<close>.
\<close>

fun zip_chars :: "bool \<Rightarrow> string \<Rightarrow> string res" where
  "zip_chars esc [] = Inr []"
| "zip_chars esc (r # rs) =
     bind_res (if esc then nnc_get_esc_chr r else Inr r) (\<lambda>c.
       if r = backslash then zip_chars True rs
       else bind_res (zip_chars False rs) (\<lambda>cs. Inr (c # cs)))"

definition nnc_str_zip :: "string \<Rightarrow> string res" where
  "nnc_str_zip repr =
     (let s = c_string repr in
      if s = [] then Inl Crash else zip_chars False (drop 1 (take (length s - 1) s)))"

record nnc_str_literal =
  str_bytes :: nat
  str_exact :: string

text \<open>\<^verbatim>\<open>bytes\<close> is the C length of the decoded characters, which ends at the first NUL.\<close>

definition nnc_str_new :: "string \<Rightarrow> nnc_str_literal res" where
  "nnc_str_new repr =
     bind_res (nnc_str_zip repr) (\<lambda>s. Inr \<lparr> str_bytes = length (c_string s), str_exact = s \<rparr>)"

section \<open>Integer literals of the lexer\<close>

lemma is_digit_base:
  "(b, P) \<in> set base_digits \<Longrightarrow> P c \<Longrightarrow> is_digit (base_of [b]) c"
  by (auto simp: base_digits_def base_of_def hex_digit_def oct_digit_def bin_digit_def between_def
      is_digit_def digit_val_def Let_def)

lemma is_digit_dec: "dec_digit c \<Longrightarrow> is_digit 10 c"
  by (auto simp: dec_digit_def between_def is_digit_def digit_val_def Let_def)

text \<open>What a suffix text stands for.\<close>

definition suffix_table :: "(string \<times> nnc_int_suffix) list" where
  "suffix_table =
     concat (map (\<lambda>(c, s8, s16, s32, s64).
        [([c] @ ''8'', s8), ([c] @ ''16'', s16), ([c] @ ''32'', s32), ([c] @ ''64'', s64)])
       [(CHR ''u'', SUFFIX_U8, SUFFIX_U16, SUFFIX_U32, SUFFIX_U64),
        (CHR ''U'', SUFFIX_U8, SUFFIX_U16, SUFFIX_U32, SUFFIX_U64),
        (CHR ''i'', SUFFIX_I8, SUFFIX_I16, SUFFIX_I32, SUFFIX_I64),
        (CHR ''I'', SUFFIX_I8, SUFFIX_I16, SUFFIX_I32, SUFFIX_I64)])"

definition suffix_meaning :: "string \<Rightarrow> nnc_int_suffix" where
  "suffix_meaning suf = (if suf = [] then SUFFIX_I32 else the (map_of suffix_table suf))"

lemma suffix_table_complete: "map fst suffix_table = [s. c \<leftarrow> ''uUiI'', s \<leftarrow> map ((#) c) [''8'', ''16'', ''32'', ''64'']]"
  by (simp add: suffix_table_def)

lemma suffix_loop_unmarked:
  "list_all (\<lambda>c. c \<notin> set marks) r \<Longrightarrow> \<not> met \<Longrightarrow> \<not> snd (suffix_loop marks i r suf met)"
  by (induction r arbitrary: i suf met) auto

lemma get_int_suffix_none:
  assumes "list_all (\<lambda>c. c \<notin> set ''iIuU'') w"
  shows "nnc_get_int_suffix w = Inr None"
proof -
  have "\<not> snd (suffix_loop ''iIuU'' 0 (rev w) (replicate 3 (CHR 0x00)) False)"
    using assms by (intro suffix_loop_unmarked) auto
  then show ?thesis by (simp add: nnc_get_int_suffix_def case_prod_beta)
qed

lemma suffix_loop_met: "suffix_loop marks i r suf True = (suf, True)"
  by (cases r) auto

lemma get_int_suffix_some:
  assumes "(suf, s) \<in> set suffix_table"
  shows "nnc_get_int_suffix (w @ suf) = Inr (Some s)"
  using assms
  by (auto simp: suffix_table_def nnc_get_int_suffix_def suffix_loop_met numeral_eq_Suc suffix_at_def)

lemma suffix_table_keys: "suf \<in> set int_suffixes \<longleftrightarrow> suf \<in> fst ` set suffix_table"
  "distinct (map fst suffix_table)"
  by (auto simp: int_suffixes_def suffix_table_def)

lemma suffix_meaning_table:
  "suf \<in> set int_suffixes \<Longrightarrow> (suf, suffix_meaning suf) \<in> set suffix_table \<and> suf \<noteq> []"
  using suffix_table_keys by (force simp: suffix_meaning_def int_suffixes_def)

lemma suffix_meaning_length:
  "suf \<in> set int_suffixes \<Longrightarrow>
     length suf = (if suffix_meaning suf = SUFFIX_I8 \<or> suffix_meaning suf = SUFFIX_U8 then 2 else 3)"
  by (auto simp: int_suffixes_def suffix_meaning_def suffix_table_def)

text \<open>The conversion and the check of the bounds together.\<close>

definition int_result :: "nat \<Rightarrow> nnc_int_suffix \<Rightarrow> nat \<Rightarrow> nnc_int_literal res" where
  "int_result base s n =
     (if int n \<le> snd (int_bounds s)
      then Inr \<lparr> int_base = base, is_signed = signed_suffix s, int_suffix = s, int_exact = of_nat n \<rparr>
      else Inl (Throw NNC_OVERFLOW))"

lemma sint_small: "n < 2 ^ 63 \<Longrightarrow> sint (of_nat n :: u64) = int n"
  by (simp add: sint_uint uint_nat unat_of_nat signed_take_bit_int_eq_self)

lemma convert_checked:
  assumes "list_all (is_digit base) ds"
  shows "(let (v, erange) = (if signed_suffix s then strtoll base ds else strtoull base ds)
          in if erange then Inl (Throw NNC_OVERFLOW)
             else nnc_int_check_overflow
               \<lparr> int_base = base, is_signed = signed_suffix s, int_suffix = s, int_exact = v \<rparr>) =
     int_result base s (digits_value base ds)"
proof -
  have w: "takeWhile (is_digit base) ds = ds" using assms by (simp add: list_all_iff)
  define n where "n = digits_value base ds"
  show ?thesis
  proof (cases "signed_suffix s")
    case True
    then have "fst (int_bounds s) \<le> 0" "snd (int_bounds s) < 2 ^ 63" by (auto simp: signed_suffix_def)
    then show ?thesis using True sint_small [of n]
      by (auto simp: strtoll_def strto_max_def w n_def [symmetric] Let_def nnc_int_check_overflow_def
          int_result_def case_prod_beta)
  next
    case False
    then have "fst (int_bounds s) = 0" "snd (int_bounds s) < 2 ^ 64" by (cases s; simp add: signed_suffix_def)+
    moreover have "uint (of_nat n :: u64) = int n" if "n < 2 ^ 64"
      using that by (simp add: uint_nat unat_of_nat)
    ultimately show ?thesis using False
      by (auto simp: strtoull_def strto_max_def w n_def [symmetric] Let_def nnc_int_check_overflow_def
          int_result_def case_prod_beta)
  qed
qed

lemma int_new_checked:
  assumes "suffix_ok suf" "base_of (pre @ ds @ suf) = base" "if base = 10 then pre = [] else length pre = 1"
    "list_all (is_digit base) ds" "list_all (\<lambda>c. c \<notin> set ''iIuU'') (pre @ ds)"
  shows "nnc_int_new (pre @ ds @ suf) = int_result base (suffix_meaning suf) (digits_value base ds)"
proof -
  have drop: "(if base \<noteq> 10 then drop 1 (pre @ ds @ suf) else pre @ ds @ suf) = ds @ suf"
    using assms(3) by (cases pre) auto
  show ?thesis
  proof (cases "suf = []")
    case True
    then have g: "nnc_get_int_suffix (pre @ ds @ suf) = Inr None"
      using get_int_suffix_none [of "pre @ ds"] assms(5) by simp
    show ?thesis
      using convert_checked [OF assms(4), of SUFFIX_I32] True
      unfolding nnc_int_new_def g bind_res_Inr assms(2) Let_def drop option.case
      by (simp add: suffix_meaning_def signed_suffix_def)
  next
    case False
    then have suf: "suf \<in> set int_suffixes" using assms(1) by (simp add: suffix_ok_def)
    have g: "nnc_get_int_suffix (pre @ ds @ suf) = Inr (Some (suffix_meaning suf))"
      using get_int_suffix_some [of suf "suffix_meaning suf" "pre @ ds"] suffix_meaning_table [OF suf] by simp
    show ?thesis
      using convert_checked [OF assms(4), of "suffix_meaning suf"]
      unfolding nnc_int_new_def g bind_res_Inr assms(2) Let_def drop option.case suffix_meaning_length [OF suf, symmetric]
      by (cases "signed_suffix (suffix_meaning suf)") simp_all
  qed
qed

section \<open>Character and string literals of the lexer\<close>

definition esc_value :: "char \<Rightarrow> char" where
  "esc_value c = (case nnc_get_esc_chr c of Inr v \<Rightarrow> v | Inl _ \<Rightarrow> c)"

fun lit_value :: "lit_char \<Rightarrow> char" where
  "lit_value (Plain c) = c"
| "lit_value (Escaped c) = esc_value c"

lemma get_esc_ok: "nnc_get_esc_chr c = (if c \<in> set esc_chars then Inr (esc_value c) else Inl Abort)"
  by (auto simp: nnc_get_esc_chr_def esc_value_def esc_chars_def backslash_def quote_def quotes_def)

fun no_backslash :: "lit_char \<Rightarrow> bool" where
  "no_backslash (Plain c) = (c \<noteq> backslash)"
| "no_backslash (Escaped c) = (c \<noteq> backslash \<and> c \<in> set esc_chars)"

lemma zip_chars_items:
  "list_all no_backslash items \<Longrightarrow>
     zip_chars False (lits_text items @ rest) =
       bind_res (zip_chars False rest) (\<lambda>cs. Inr (map lit_value items @ cs))"
proof (induction items)
  case Nil
  then show ?case by (cases "zip_chars False rest") (simp_all add: lits_text_def)
next
  case (Cons it items)
  have "zip_chars False (lit_text it @ s) = bind_res (zip_chars False s) (\<lambda>cs. Inr (lit_value it # cs))" for s
    using Cons.prems by (cases it) (auto simp: get_esc_ok)
  moreover have "lits_text (it # items) @ rest = lit_text it @ lits_text items @ rest" by (simp add: lits_text_def)
  ultimately show ?case using Cons by (cases "zip_chars False rest") (simp_all)
qed

lemma str_zip_body:
  assumes "CHR 0x00 \<notin> set body"
  shows "nnc_str_zip (quotes # body @ [quotes]) = zip_chars False body"
proof -
  have "c_string (quotes # body @ [quotes]) = quotes # body @ [quotes]"
    using assms by (auto simp: c_string_def takeWhile_append quotes_def takeWhile_eq_all_conv) 
  then show ?thesis by (simp add: nnc_str_zip_def Let_def)
qed

section \<open>Properties\<close>



text \<open>
  C35. A string literal without an escaped backslash, and every character literal, is decoded
  item by item: each escape becomes the character it names; the recorded byte count of a string
  stops at its first NUL.
\<close>

theorem str_literal_value:
  assumes "list_all str_char_ok items" "list_all no_backslash items" "CHR 0x00 \<notin> set (lits_text items)"
    and "chr_char_ok it"
  shows "nnc_str_new (spell (SStr items)) =
       Inr \<lparr> str_bytes = length (takeWhile (\<lambda>c. c \<noteq> CHR 0x00) (map lit_value items)),
             str_exact = map lit_value items \<rparr> \<and>
     nnc_chr_new (spell (SChr it)) = Inr (lit_value it)"
proof -
  have "nnc_str_zip (quotes # lits_text items @ [quotes]) = Inr (map lit_value items)"
    using str_zip_body [OF assms(3)] zip_chars_items [OF assms(2), of "[]"] by simp
  moreover have "nnc_chr_new (quote # lit_text it @ [quote]) = Inr (lit_value it)"
    using assms(4) by (cases it) (auto simp: nnc_chr_new_def Let_def get_esc_ok)
  ultimately show ?thesis by (simp add: nnc_str_new_def c_string_def)
qed

lemma str_literal_value_witness:
  "nnc_str_new ([quotes] @ ''a'' @ [backslash] @ ''n'' @ [quotes]) = Inr \<lparr> str_bytes = 2, str_exact = [CHR ''a'', nl] \<rparr>"
proof -
  have "list_all str_char_ok [Plain CHR ''a'', Escaped CHR ''n'']" "list_all no_backslash [Plain CHR ''a'', Escaped CHR ''n'']"
    "CHR 0x00 \<notin> set (lits_text [Plain CHR ''a'', Escaped CHR ''n''])" "chr_char_ok (Plain CHR ''x'')"
    "map lit_value [Plain CHR ''a'', Escaped CHR ''n''] = [CHR ''a'', nl]" "nl \<noteq> CHR 0x00"
    by code_simp+
  then show ?thesis
    using str_literal_value [of "[Plain CHR ''a'', Escaped CHR ''n'']" "Plain CHR ''x''"]
    by (simp add: lits_text_def)
qed

text \<open>
  C36. An escaped backslash is lost: the decoder takes the second backslash for the beginning of
  another escape. The character behind it is decoded as an escape if it can be one; otherwise
  the compiler aborts.
\<close>

theorem str_backslash_lost:
  assumes "list_all no_backslash xs" "list_all no_backslash ys" "c \<noteq> backslash"
    and "CHR 0x00 \<notin> set (lits_text (xs @ Escaped backslash # Plain c # ys))"
  shows "nnc_str_zip (spell (SStr (xs @ Escaped backslash # Plain c # ys))) =
     (if c \<in> set esc_chars then Inr (map lit_value xs @ lit_value (Escaped c) # map lit_value ys)
      else Inl Abort)"
proof -
  let ?items = "xs @ Escaped backslash # Plain c # ys"
  have "nnc_str_zip (spell (SStr ?items)) = zip_chars False (lits_text ?items)"
    using str_zip_body [OF assms(4)] by simp
  moreover have "lits_text ?items = lits_text xs @ [backslash, backslash, c] @ lits_text ys"
    by (simp add: lits_text_def)
  moreover have "zip_chars False (lits_text ys) = Inr (map lit_value ys)"
    using zip_chars_items [OF assms(2), of "[]"] by simp
  moreover have "nnc_get_esc_chr backslash = Inr backslash" by (simp add: nnc_get_esc_chr_def backslash_def)
  ultimately show ?thesis
    using zip_chars_items [OF assms(1)] assms(3) by (auto simp: get_esc_ok)
qed

lemma str_backslash_lost_witness:
  "nnc_str_zip ([quotes, backslash, backslash, CHR ''n'', quotes]) = Inr [nl] \<and>
   nnc_str_zip ([quotes, backslash, backslash, CHR ''x'', quotes]) = Inl Abort"
proof -
  have "CHR 0x00 \<notin> set (lits_text ([] @ Escaped backslash # Plain CHR ''n'' # []))"
    "CHR 0x00 \<notin> set (lits_text ([] @ Escaped backslash # Plain CHR ''x'' # []))"
    "CHR ''n'' \<noteq> backslash" "CHR ''x'' \<noteq> backslash" "CHR ''n'' \<in> set esc_chars" "CHR ''x'' \<notin> set esc_chars"
    "lit_value (Escaped CHR ''n'') = nl"
    by code_simp+
  then show ?thesis
    using str_backslash_lost [of "[]" "[]" "CHR ''n''"] str_backslash_lost [of "[]" "[]" "CHR ''x''"]
    by (simp add: lits_text_def)
qed

end
