(* ===== verification/Nnc_Type.thy ===== *)
theory Nnc_Type
  imports Nnc_Literal "HOL-Library.Monad_Syntax"
begin

text \<open>
  The types of the compiled language and their checks: \<^verbatim>\<open>src/src/nnc_type.h\<close>,
  \<^verbatim>\<open>src/src/nnc_type.c\<close> and the predicates and implicit casts of
  \<^verbatim>\<open>src/src/nnc_typecheck.c\<close>. Types are allocated objects that refer to each other, possibly in
  a cycle (a structure with a pointer to itself), and structures are compared by address; so the
  model has a store, the list of the allocated types, and an address is a position in it. A
  function on addresses returns \<open>None\<close> when the C function does not return: it follows a NULL
  or dangling pointer, or runs round a cycle of aliases for ever.
\<close>

section \<open>The store of types\<close>

datatype (plugins only: code size) nnc_type_kind =
    T_ARRAY | T_POINTER | T_PRIMITIVE_I8 | T_PRIMITIVE_U8 | T_PRIMITIVE_I16 | T_PRIMITIVE_U16
  | T_PRIMITIVE_I32 | T_PRIMITIVE_U32 | T_PRIMITIVE_I64 | T_PRIMITIVE_U64 | T_PRIMITIVE_F32
  | T_PRIMITIVE_F64 | T_ENUM | T_UNION | T_STRUCT | T_FUNCTION | T_NAMESPACE | T_ALIAS
  | T_INCOMPLETE | T_VOID | T_UNKNOWN

type_synonym tref = nat

record nnc_type =
  tkind :: nnc_type_kind
  trepr :: "string option"
  tsize :: u64
  tbase :: "tref option"
  fn_ret :: "tref option"
  fn_params :: "tref list"
  members :: "(string \<times> tref) list"

type_synonym types = "nnc_type list"

definition tget :: "types \<Rightarrow> tref \<Rightarrow> nnc_type option" where
  "tget ts t = (if t < length ts then Some (ts ! t) else None)"

text \<open>The static objects of \<^verbatim>\<open>nnc_type.h\<close> lie at the first addresses.\<close>

definition base_type :: "nnc_type_kind \<Rightarrow> string \<Rightarrow> u64 \<Rightarrow> tref option \<Rightarrow> nnc_type" where
  "base_type k r n b = \<lparr>tkind = k, trepr = Some r, tsize = n, tbase = b, fn_ret = None,
     fn_params = [], members = []\<rparr>"

definition static_types :: types where
  "static_types =
    [base_type T_UNKNOWN ''unknown'' 0 None,
     base_type T_PRIMITIVE_I8 ''i8'' 1 (Some 0), base_type T_PRIMITIVE_U8 ''u8'' 1 (Some 0),
     base_type T_PRIMITIVE_I16 ''i16'' 2 (Some 0), base_type T_PRIMITIVE_U16 ''u16'' 2 (Some 0),
     base_type T_PRIMITIVE_I32 ''i32'' 4 (Some 0), base_type T_PRIMITIVE_U32 ''u32'' 4 (Some 0),
     base_type T_PRIMITIVE_F32 ''f32'' 4 (Some 0), base_type T_PRIMITIVE_I64 ''i64'' 8 (Some 0),
     base_type T_PRIMITIVE_U64 ''u64'' 8 (Some 0), base_type T_PRIMITIVE_F64 ''f64'' 8 (Some 0),
     base_type T_VOID ''void'' 0 None]"

abbreviation (input) unknown_type :: tref where "unknown_type \<equiv> 0"
abbreviation (input) i8_type :: tref where "i8_type \<equiv> 1"
abbreviation (input) u8_type :: tref where "u8_type \<equiv> 2"
abbreviation (input) i16_type :: tref where "i16_type \<equiv> 3"
abbreviation (input) u16_type :: tref where "u16_type \<equiv> 4"
abbreviation (input) i32_type :: tref where "i32_type \<equiv> 5"
abbreviation (input) u32_type :: tref where "u32_type \<equiv> 6"
abbreviation (input) f32_type :: tref where "f32_type \<equiv> 7"
abbreviation (input) i64_type :: tref where "i64_type \<equiv> 8"
abbreviation (input) u64_type :: tref where "u64_type \<equiv> 9"
abbreviation (input) f64_type :: tref where "f64_type \<equiv> 10"
abbreviation (input) void_type :: tref where "void_type \<equiv> 11"

section \<open>Allocation\<close>

text \<open>Each constructor returns the store with the new type and its address.\<close>

definition nnc_type_new :: "string option \<Rightarrow> nnc_type" where
  "nnc_type_new r = \<lparr>tkind = T_INCOMPLETE, trepr = r, tsize = 0, tbase = None, fn_ret = None,
     fn_params = [], members = []\<rparr>"

definition alloc_type :: "types \<Rightarrow> nnc_type \<Rightarrow> types \<times> tref" where
  "alloc_type ts ty = (ts @ [ty], length ts)"

definition nnc_ptr_type_new :: "types \<Rightarrow> tref \<Rightarrow> (types \<times> tref) option" where
  "nnc_ptr_type_new ts b =
     do { ty \<leftarrow> tget ts b;
          Some (alloc_type ts ((nnc_type_new (trepr ty))\<lparr>tkind := T_POINTER, tbase := Some b, tsize := 8\<rparr>)) }"

definition nnc_arr_type_new :: "types \<Rightarrow> tref \<Rightarrow> (types \<times> tref) option" where
  "nnc_arr_type_new ts b =
     do { ty \<leftarrow> tget ts b;
          Some (alloc_type ts ((nnc_type_new (trepr ty))\<lparr>tkind := T_ARRAY, tbase := Some b\<rparr>)) }"

definition nnc_fn_type_new :: "types \<Rightarrow> types \<times> tref" where
  "nnc_fn_type_new ts = alloc_type ts ((nnc_type_new None)\<lparr>tkind := T_FUNCTION, tsize := 8\<rparr>)"

definition nnc_enum_type_new :: "types \<Rightarrow> types \<times> tref" where
  "nnc_enum_type_new ts = alloc_type ts ((nnc_type_new None)\<lparr>tkind := T_ENUM, tsize := 8\<rparr>)"

definition nnc_union_type_new :: "types \<Rightarrow> types \<times> tref" where
  "nnc_union_type_new ts = alloc_type ts ((nnc_type_new None)\<lparr>tkind := T_UNION, tsize := 0\<rparr>)"

definition nnc_alias_type_new :: "types \<Rightarrow> types \<times> tref" where
  "nnc_alias_type_new ts = alloc_type ts ((nnc_type_new None)\<lparr>tkind := T_ALIAS\<rparr>)"

definition nnc_struct_type_new :: "types \<Rightarrow> types \<times> tref" where
  "nnc_struct_type_new ts = alloc_type ts ((nnc_type_new None)\<lparr>tkind := T_STRUCT, tsize := 0\<rparr>)"

definition nnc_namespace_type_new :: "types \<Rightarrow> types \<times> tref" where
  "nnc_namespace_type_new ts = alloc_type ts ((nnc_type_new None)\<lparr>tkind := T_NAMESPACE\<rparr>)"

section \<open>Aliases\<close>

partial_function (option) nnc_unalias :: "types \<Rightarrow> tref \<Rightarrow> tref option" where
  "nnc_unalias ts t =
     do { ty \<leftarrow> tget ts t;
          if tkind ty = T_ALIAS then do { b \<leftarrow> tbase ty; nnc_unalias ts b } else Some t }"

text \<open>The kind found behind the aliases, on which every predicate looks.\<close>

definition kind_of :: "types \<Rightarrow> tref \<Rightarrow> nnc_type_kind option" where
  "kind_of ts t = do { u \<leftarrow> nnc_unalias ts t; ty \<leftarrow> tget ts u; Some (tkind ty) }"

definition kind_in :: "types \<Rightarrow> tref \<Rightarrow> nnc_type_kind list \<Rightarrow> bool option" where
  "kind_in ts t ks = do { k \<leftarrow> kind_of ts t; Some (k \<in> set ks) }"

definition nnc_incomplete_type :: "types \<Rightarrow> tref \<Rightarrow> bool option" where
  "nnc_incomplete_type ts t = kind_in ts t [T_VOID, T_UNKNOWN, T_INCOMPLETE]"

definition nnc_fn_type :: "types \<Rightarrow> tref \<Rightarrow> bool option" where
  "nnc_fn_type ts t = kind_in ts t [T_FUNCTION]"

definition nnc_ptr_type :: "types \<Rightarrow> tref \<Rightarrow> bool option" where
  "nnc_ptr_type ts t = kind_in ts t [T_POINTER]"

definition nnc_arr_type :: "types \<Rightarrow> tref \<Rightarrow> bool option" where
  "nnc_arr_type ts t = kind_in ts t [T_ARRAY]"

definition nnc_namespace_type :: "types \<Rightarrow> tref \<Rightarrow> bool option" where
  "nnc_namespace_type ts t = kind_in ts t [T_NAMESPACE]"

definition nnc_arr_or_ptr_type :: "types \<Rightarrow> tref \<Rightarrow> bool option" where
  "nnc_arr_or_ptr_type ts t = kind_in ts t [T_POINTER, T_ARRAY]"

definition nnc_struct_or_union_type :: "types \<Rightarrow> tref \<Rightarrow> bool option" where
  "nnc_struct_or_union_type ts t = kind_in ts t [T_STRUCT, T_UNION]"

definition integral_kinds :: "nnc_type_kind list" where
  "integral_kinds = [T_ENUM, T_PRIMITIVE_I8, T_PRIMITIVE_U8, T_PRIMITIVE_I16, T_PRIMITIVE_U16,
     T_PRIMITIVE_I32, T_PRIMITIVE_U32, T_PRIMITIVE_I64, T_PRIMITIVE_U64]"

definition real_kinds :: "nnc_type_kind list" where
  "real_kinds = [T_PRIMITIVE_F32, T_PRIMITIVE_F64]"

definition signed_kinds :: "nnc_type_kind list" where
  "signed_kinds = [T_ENUM, T_PRIMITIVE_I8, T_PRIMITIVE_I16, T_PRIMITIVE_I32, T_PRIMITIVE_I64]"

definition nnc_primitive_type :: "types \<Rightarrow> tref \<Rightarrow> bool option" where
  "nnc_primitive_type ts t = kind_in ts t
     [T_PRIMITIVE_I8, T_PRIMITIVE_U8, T_PRIMITIVE_I16, T_PRIMITIVE_U16, T_PRIMITIVE_I32,
      T_PRIMITIVE_U32, T_PRIMITIVE_I64, T_PRIMITIVE_U64, T_PRIMITIVE_F32, T_PRIMITIVE_F64]"

definition nnc_integral_type :: "types \<Rightarrow> tref \<Rightarrow> bool option" where
  "nnc_integral_type ts t = kind_in ts t integral_kinds"

definition nnc_real_type :: "types \<Rightarrow> tref \<Rightarrow> bool option" where
  "nnc_real_type ts t = kind_in ts t real_kinds"

definition nnc_signed_type :: "types \<Rightarrow> tref \<Rightarrow> bool option" where
  "nnc_signed_type ts t = kind_in ts t signed_kinds"

definition nnc_numeric_type :: "types \<Rightarrow> tref \<Rightarrow> bool option" where
  "nnc_numeric_type ts t =
     do { u \<leftarrow> nnc_unalias ts t; i \<leftarrow> nnc_integral_type ts u;
          if i then Some True
          else do { r \<leftarrow> nnc_real_type ts u; if r then Some True else kind_in ts u [T_ENUM] } }"

definition nnc_same_types :: "types \<Rightarrow> tref \<Rightarrow> tref \<Rightarrow> bool option" where
  "nnc_same_types ts t1 t2 = do { u1 \<leftarrow> nnc_unalias ts t1; u2 \<leftarrow> nnc_unalias ts t2; Some (u1 = u2) }"

text \<open>\<^verbatim>\<open>nnc_sizeof\<close> (\<^verbatim>\<open>nnc_resolve.c\<close>); a failed assertion is a call that does not return.\<close>

definition nnc_sizeof :: "types \<Rightarrow> tref \<Rightarrow> u64 option" where
  "nnc_sizeof ts t =
     do { i \<leftarrow> nnc_incomplete_type ts t;
          if i then None else do { u \<leftarrow> nnc_unalias ts t; ty \<leftarrow> tget ts u; Some (tsize ty) } }"

section \<open>Implicit casts\<close>

fun hierarchy :: "nnc_type_kind \<Rightarrow> nat" where
  "hierarchy T_PRIMITIVE_I8 = 0" | "hierarchy T_PRIMITIVE_U8 = 1"
| "hierarchy T_PRIMITIVE_I16 = 2" | "hierarchy T_PRIMITIVE_U16 = 3"
| "hierarchy T_PRIMITIVE_I32 = 4" | "hierarchy T_PRIMITIVE_U32 = 5"
| "hierarchy T_PRIMITIVE_I64 = 6" | "hierarchy T_ENUM = 6" | "hierarchy T_PRIMITIVE_U64 = 7"
| "hierarchy T_PRIMITIVE_F32 = 8" | "hierarchy T_PRIMITIVE_F64 = 9" | "hierarchy _ = 0"

definition nnc_can_imp_cast_arith :: "types \<Rightarrow> tref \<Rightarrow> tref \<Rightarrow> bool option" where
  "nnc_can_imp_cast_arith ts from_t to_t =
     do { rt \<leftarrow> nnc_unalias ts to_t; rf \<leftarrow> nnc_unalias ts from_t;
          nt \<leftarrow> nnc_numeric_type ts rt; nf \<leftarrow> nnc_numeric_type ts rf;
          if \<not> nt \<or> \<not> nf then
            do { st \<leftarrow> nnc_struct_or_union_type ts rt; sf \<leftarrow> nnc_struct_or_union_type ts rf;
                 if \<not> st \<or> \<not> sf then Some False else nnc_same_types ts rt rf }
          else do { kf \<leftarrow> kind_of ts rf; kt \<leftarrow> kind_of ts rt; Some (hierarchy kf \<le> hierarchy kt) } }"

text \<open>
  \<^verbatim>\<open>nnc_rank\<close>: the loop condition looks behind the aliases of \<open>t\<close>, its step takes
  the base of \<open>t\<close> itself.
\<close>

partial_function (option) rank_loop :: "types \<Rightarrow> tref \<Rightarrow> nat \<Rightarrow> nat option" where
  "rank_loop ts t n =
     do { b \<leftarrow> nnc_arr_or_ptr_type ts t;
          if b then do { ty \<leftarrow> tget ts t; t' \<leftarrow> tbase ty; rank_loop ts t' (Suc n) } else Some n }"

definition nnc_rank :: "types \<Rightarrow> tref \<Rightarrow> nat option" where
  "nnc_rank ts t = do { u \<leftarrow> nnc_unalias ts t; rank_loop ts u 0 }"

partial_function (option) strip_ptrs :: "types \<Rightarrow> tref \<Rightarrow> tref option" where
  "strip_ptrs ts t =
     do { ty \<leftarrow> tget ts t;
          if tkind ty \<in> {T_ARRAY, T_ALIAS, T_POINTER} then do { b \<leftarrow> tbase ty; strip_ptrs ts b }
          else Some t }"

definition nnc_can_imp_cast_ptrs :: "types \<Rightarrow> tref \<Rightarrow> tref \<Rightarrow> bool option" where
  "nnc_can_imp_cast_ptrs ts from_t to_t =
     do { nf \<leftarrow> nnc_rank ts from_t; nt \<leftarrow> nnc_rank ts to_t;
          if nf \<noteq> nt then Some False
          else do { rt \<leftarrow> strip_ptrs ts to_t; rf \<leftarrow> strip_ptrs ts from_t;
                    tyt \<leftarrow> tget ts rt; tyf \<leftarrow> tget ts rf;
                    if tkind tyt = T_VOID \<or> tkind tyf = T_VOID then Some True
                    else nnc_can_imp_cast_arith ts rf rt } }"

text \<open>The loop over the parameters of two function types, with the cast check as argument.\<close>

fun params_cast :: "(tref \<Rightarrow> tref \<Rightarrow> bool option) \<Rightarrow> (tref \<times> tref) list \<Rightarrow> bool option" where
  "params_cast f [] = Some True"
| "params_cast f (p # ps) = do { b \<leftarrow> f (fst p) (snd p); if b then params_cast f ps else Some False }"

lemma params_cast_mono [partial_function_mono]:
  assumes "\<And>x y. mono_option (\<lambda>f. g f x y)"
  shows "mono_option (\<lambda>f. params_cast (g f) ps)"
proof (induction ps)
  case Nil
  show ?case by (simp add: option.const_mono)
next
  case (Cons p ps)
  show ?case unfolding params_cast.simps
    by (intro bind_mono [OF assms] if_mono [OF Cons] option.const_mono)
qed

text \<open>
  \<^verbatim>\<open>nnc_can_imp_cast_fns\<close>, with the check of one parameter or result (\<open>cast\<close>) as argument
  because it calls back the function it is called by.
\<close>

definition nnc_can_imp_cast_fns ::
    "(tref \<Rightarrow> tref \<Rightarrow> bool option) \<Rightarrow> types \<Rightarrow> tref \<Rightarrow> tref \<Rightarrow> bool option" where
  "nnc_can_imp_cast_fns cast ts t1 t2 =
     do { r1 \<leftarrow> nnc_unalias ts t1; r2 \<leftarrow> nnc_unalias ts t2;
          ty1 \<leftarrow> tget ts r1; ty2 \<leftarrow> tget ts r2;
          if tkind ty1 \<noteq> T_FUNCTION \<or> tkind ty2 \<noteq> T_FUNCTION then None
          else if length (fn_params ty1) \<noteq> length (fn_params ty2) then Some False
          else do { ps \<leftarrow> params_cast cast (zip (fn_params ty2) (fn_params ty1));
                    if \<not> ps then Some False
                    else do { ret1 \<leftarrow> fn_ret ty1; ret2 \<leftarrow> fn_ret ty2; cast ret2 ret1 } } }"

lemma nnc_can_imp_cast_fns_mono [partial_function_mono]:
  assumes "\<And>x y. mono_option (\<lambda>f. g f x y)"
  shows "mono_option (\<lambda>f. nnc_can_imp_cast_fns (g f) ts t1 t2)"
  unfolding nnc_can_imp_cast_fns_def
  by (intro bind_mono if_mono option.const_mono params_cast_mono assms)

partial_function (option) nnc_can_imp_cast_assign :: "types \<Rightarrow> tref \<Rightarrow> tref \<Rightarrow> bool option" where
  "nnc_can_imp_cast_assign ts from_t to_t =
     do { rt \<leftarrow> nnc_unalias ts to_t; rf \<leftarrow> nnc_unalias ts from_t;
          a \<leftarrow> nnc_can_imp_cast_arith ts rf rt;
          if a then Some True
          else do { ft \<leftarrow> nnc_fn_type ts rt; ff \<leftarrow> nnc_fn_type ts rf;
            if ft \<and> ff then nnc_can_imp_cast_fns (nnc_can_imp_cast_assign ts) ts rt rf
            else do { pf \<leftarrow> nnc_ptr_type ts rf;
              if ft \<and> pf then Some True
              else do { pt \<leftarrow> nnc_ptr_type ts rt; apf \<leftarrow> nnc_arr_or_ptr_type ts rf;
                if pt \<and> apf then nnc_can_imp_cast_ptrs ts rf rt else Some False } } } }"

definition nnc_can_exp_cast :: "types \<Rightarrow> tref \<Rightarrow> tref \<Rightarrow> bool option" where
  "nnc_can_exp_cast ts from_t to_t =
     do { rt \<leftarrow> nnc_unalias ts to_t; rf \<leftarrow> nnc_unalias ts from_t; kt \<leftarrow> kind_of ts rt;
          if kt = T_ARRAY \<or> kt = T_VOID then Some False
          else do { st \<leftarrow> nnc_struct_or_union_type ts rt; sf \<leftarrow> nnc_struct_or_union_type ts rf;
                    if st \<or> sf then nnc_same_types ts rt rf else Some True } }"

text \<open>
  The inferring versions answer the type or throw \<^verbatim>\<open>NNC_SEMANTIC\<close>. (The text of the message,
  built by \<^verbatim>\<open>nnc_type_tostr\<close>, is not part of the model.)
\<close>

definition nnc_cast_imp_arith :: "types \<Rightarrow> tref \<Rightarrow> tref \<Rightarrow> tref res option" where
  "nnc_cast_imp_arith ts from_t to_t =
     do { b \<leftarrow> nnc_can_imp_cast_arith ts from_t to_t;
          Some (if b then Inr to_t else Inl (Throw NNC_SEMANTIC)) }"

definition nnc_infer_imp :: "types \<Rightarrow> tref \<Rightarrow> tref \<Rightarrow> tref res option" where
  "nnc_infer_imp ts t1 t2 =
     do { b \<leftarrow> nnc_can_imp_cast_arith ts t1 t2;
          if b then nnc_cast_imp_arith ts t1 t2
          else do { c \<leftarrow> nnc_can_imp_cast_arith ts t2 t1;
                    if c then nnc_cast_imp_arith ts t2 t1 else Some (Inl (Throw NNC_SEMANTIC)) } }"

definition nnc_infer_imp_assign :: "types \<Rightarrow> tref \<Rightarrow> tref \<Rightarrow> tref res option" where
  "nnc_infer_imp_assign ts from_t to_t =
     do { b \<leftarrow> nnc_can_imp_cast_assign ts from_t to_t;
          Some (if b then Inr to_t else Inl (Throw NNC_SEMANTIC)) }"

definition nnc_exp_cast :: "types \<Rightarrow> tref \<Rightarrow> tref \<Rightarrow> tref res option" where
  "nnc_exp_cast ts from_t to_t =
     do { b \<leftarrow> nnc_can_exp_cast ts from_t to_t;
          Some (if b then Inr to_t else Inl (Throw NNC_SEMANTIC)) }"

section \<open>Types of literals and of binary operators\<close>

fun nnc_int_infer_type :: "nnc_int_suffix \<Rightarrow> tref" where
  "nnc_int_infer_type SUFFIX_I8 = i8_type" | "nnc_int_infer_type SUFFIX_U8 = u8_type"
| "nnc_int_infer_type SUFFIX_I16 = i16_type" | "nnc_int_infer_type SUFFIX_U16 = u16_type"
| "nnc_int_infer_type SUFFIX_I32 = i32_type" | "nnc_int_infer_type SUFFIX_U32 = u32_type"
| "nnc_int_infer_type SUFFIX_I64 = i64_type" | "nnc_int_infer_type SUFFIX_U64 = u64_type"

fun nnc_dbl_infer_type :: "nnc_dbl_suffix \<Rightarrow> tref" where
  "nnc_dbl_infer_type SUFFIX_F32 = f32_type" | "nnc_dbl_infer_type SUFFIX_F64 = f64_type"

definition nnc_str_infer_type :: "types \<Rightarrow> (types \<times> tref) option" where
  "nnc_str_infer_type ts = nnc_ptr_type_new ts u8_type"

section \<open>Behind the aliases\<close>

named_theorems type_simps \<open>evaluation of the checks from the kinds behind the aliases\<close>

lemma nnc_unalias_result:
  "nnc_unalias ts t = Some u \<Longrightarrow> \<exists>ty. tget ts u = Some ty \<and> tkind ty \<noteq> T_ALIAS"
proof (rule nnc_unalias.raw_induct
    [where P = "\<lambda>ts t u. \<exists>ty. tget ts u = Some ty \<and> tkind ty \<noteq> T_ALIAS"])
  fix f ts t u
  assume IH: "\<And>ts t u. f ts t = Some u \<Longrightarrow> \<exists>ty. tget ts u = Some ty \<and> tkind ty \<noteq> T_ALIAS"
    and step: "do { ty \<leftarrow> tget ts t;
      if tkind ty = T_ALIAS then do { b \<leftarrow> tbase ty; f ts b } else Some t } = Some u"
  show "\<exists>ty. tget ts u = Some ty \<and> tkind ty \<noteq> T_ALIAS"
    using step IH by (auto split: bind_splits if_splits)
qed

lemma nnc_unalias_fix:
  "tget ts u = Some ty \<Longrightarrow> tkind ty \<noteq> T_ALIAS \<Longrightarrow> nnc_unalias ts u = Some u"
  by (subst nnc_unalias.simps) simp

lemma nnc_unalias_idem [type_simps]:
  "nnc_unalias ts t = Some u \<Longrightarrow> nnc_unalias ts u = Some u"
  using nnc_unalias_result nnc_unalias_fix by blast

lemma nnc_unalias_alias:
  "tget ts t = Some ty \<Longrightarrow> tkind ty = T_ALIAS \<Longrightarrow> tbase ty = Some b \<Longrightarrow>
    nnc_unalias ts t = nnc_unalias ts b"
  by (subst nnc_unalias.simps) simp

lemma kind_of_unalias [type_simps]:
  "nnc_unalias ts t = Some u \<Longrightarrow> kind_of ts u = kind_of ts t"
  by (simp add: kind_of_def nnc_unalias_idem)

lemma kind_ofE:
  assumes "kind_of ts t = Some k"
  obtains u ty where "nnc_unalias ts t = Some u" "tget ts u = Some ty" "tkind ty = k" "k \<noteq> T_ALIAS"
  using assms nnc_unalias_result by (fastforce simp: kind_of_def split: bind_splits)

lemma kind_of_here:
  "tget ts t = Some ty \<Longrightarrow> tkind ty \<noteq> T_ALIAS \<Longrightarrow> kind_of ts t = Some (tkind ty)"
  by (simp add: kind_of_def nnc_unalias_fix)

lemma kind_of_static:
  "t < length static_types \<Longrightarrow> kind_of (static_types @ ts) t = Some (tkind (static_types ! t))"
proof -
  assume t: "t < length static_types"
  have "\<forall>ty \<in> set static_types. tkind ty \<noteq> T_ALIAS" by (simp add: static_types_def base_type_def)
  then have "tkind (static_types ! t) \<noteq> T_ALIAS" using t nth_mem by blast
  then show ?thesis using t by (intro kind_of_here) (auto simp: tget_def nth_append)
qed

lemma kind_in_kind [type_simps]: "kind_of ts t = Some k \<Longrightarrow> kind_in ts t ks = Some (k \<in> set ks)"
  by (simp add: kind_in_def)

lemmas kind_preds = nnc_incomplete_type_def nnc_fn_type_def nnc_ptr_type_def nnc_arr_type_def
  nnc_namespace_type_def nnc_arr_or_ptr_type_def nnc_struct_or_union_type_def
  nnc_primitive_type_def nnc_integral_type_def nnc_real_type_def nnc_signed_type_def

definition numeric_kind :: "nnc_type_kind \<Rightarrow> bool" where
  "numeric_kind k \<longleftrightarrow> k \<in> set (integral_kinds @ real_kinds)"

definition aggregate_kind :: "nnc_type_kind \<Rightarrow> bool" where
  "aggregate_kind k \<longleftrightarrow> k = T_STRUCT \<or> k = T_UNION"

lemma numeric_type_kind [type_simps]:
  assumes "kind_of ts t = Some k"
  shows "nnc_numeric_type ts t = Some (numeric_kind k)"
proof -
  obtain u where u: "nnc_unalias ts t = Some u" using assms by (elim kind_ofE)
  have k: "kind_of ts u = Some k" using assms u by (simp add: kind_of_unalias)
  show ?thesis
    by (simp add: nnc_numeric_type_def u kind_preds kind_in_kind [OF k] numeric_kind_def integral_kinds_def)
qed

lemma same_types_unalias [type_simps]:
  "nnc_unalias ts t1 = Some u1 \<Longrightarrow> nnc_unalias ts t2 = Some u2 \<Longrightarrow> nnc_same_types ts t1 t2 = Some (u1 = u2)"
  by (simp add: nnc_same_types_def)

lemma cast_arith_kinds:
  assumes "kind_of ts t1 = Some k1" "kind_of ts t2 = Some k2"
  shows "nnc_can_imp_cast_arith ts t1 t2 = Some
    (if numeric_kind k1 \<and> numeric_kind k2 then hierarchy k1 \<le> hierarchy k2
     else aggregate_kind k1 \<and> aggregate_kind k2 \<and> nnc_unalias ts t1 = nnc_unalias ts t2)"
proof -
  obtain u1 where u1: "nnc_unalias ts t1 = Some u1" using assms(1) by (elim kind_ofE)
  obtain u2 where u2: "nnc_unalias ts t2 = Some u2" using assms(2) by (elim kind_ofE)
  have k: "kind_of ts u1 = Some k1" "kind_of ts u2 = Some k2"
    using assms u1 u2 by (simp_all add: kind_of_unalias)
  show ?thesis
    using k by (auto simp: nnc_can_imp_cast_arith_def u1 u2 numeric_type_kind nnc_struct_or_union_type_def
        kind_in_kind same_types_unalias nnc_unalias_idem [OF u1] nnc_unalias_idem [OF u2] aggregate_kind_def)
qed

lemma infer_imp_kinds:
  assumes "kind_of ts t1 = Some k1" "kind_of ts t2 = Some k2"
  shows "nnc_infer_imp ts t1 t2 = Some
    (if numeric_kind k1 \<and> numeric_kind k2 then Inr (if hierarchy k1 \<le> hierarchy k2 then t2 else t1)
     else if aggregate_kind k1 \<and> aggregate_kind k2 \<and> nnc_unalias ts t1 = nnc_unalias ts t2 then Inr t2
     else Inl (Throw NNC_SEMANTIC))"
  using cast_arith_kinds [OF assms] cast_arith_kinds [OF assms(2,1)]
  by (auto simp: nnc_infer_imp_def nnc_cast_imp_arith_def)

lemma numeric_not_aggregate: "numeric_kind k \<Longrightarrow> \<not> aggregate_kind k"
  by (auto simp: numeric_kind_def aggregate_kind_def integral_kinds_def real_kinds_def)

lemma numeric_kind_examples:
  "numeric_kind T_PRIMITIVE_U8" "numeric_kind T_PRIMITIVE_F32" "numeric_kind T_ENUM"
  "numeric_kind T_PRIMITIVE_I64" "numeric_kind T_PRIMITIVE_I32"
  by (simp_all add: numeric_kind_def integral_kinds_def real_kinds_def)

section \<open>The type of a binary operation\<close>

text \<open>
  C23. The type inferred for two operands of numeric types (through any aliases) is one of
  the two, both cast implicitly to it, and it is the least such type; two operands of one
  structure or union type keep it, and every other pair throws.
\<close>

theorem infer_imp_join:
  assumes "kind_of ts t1 = Some k1" "kind_of ts t2 = Some k2"
  shows "if numeric_kind k1 \<and> numeric_kind k2
    then \<exists>r. nnc_infer_imp ts t1 t2 = Some (Inr r) \<and> (r = t1 \<or> r = t2)
      \<and> nnc_can_imp_cast_arith ts t1 r = Some True \<and> nnc_can_imp_cast_arith ts t2 r = Some True
      \<and> (\<forall>t3. nnc_can_imp_cast_arith ts t1 t3 = Some True \<and> nnc_can_imp_cast_arith ts t2 t3 = Some True \<longrightarrow>
           nnc_can_imp_cast_arith ts r t3 = Some True)
    else nnc_infer_imp ts t1 t2 = Some
      (if aggregate_kind k1 \<and> aggregate_kind k2 \<and> nnc_unalias ts t1 = nnc_unalias ts t2 then Inr t2
       else Inl (Throw NNC_SEMANTIC))"
proof (cases "numeric_kind k1 \<and> numeric_kind k2")
  case True
  define r where "r = (if hierarchy k1 \<le> hierarchy k2 then t2 else t1)"
  have i: "nnc_infer_imp ts t1 t2 = Some (Inr r)"
    using True by (simp add: infer_imp_kinds [OF assms] r_def)
  have casts: "nnc_can_imp_cast_arith ts t1 r = Some True" "nnc_can_imp_cast_arith ts t2 r = Some True"
    using True assms by (auto simp: cast_arith_kinds r_def)
  have "r = t1 \<or> r = t2" by (simp add: r_def)
  moreover from this have "\<forall>t3. nnc_can_imp_cast_arith ts t1 t3 = Some True \<and>
      nnc_can_imp_cast_arith ts t2 t3 = Some True \<longrightarrow> nnc_can_imp_cast_arith ts r t3 = Some True"
    by auto
  ultimately show ?thesis using True i casts by auto
next
  case False
  then show ?thesis using infer_imp_kinds [OF assms] by (auto dest: numeric_not_aggregate)
qed

theorem infer_imp_join_witness:
  "\<exists>r. nnc_infer_imp static_types u8_type f32_type = Some (Inr r) \<and> (r = u8_type \<or> r = f32_type)
      \<and> nnc_can_imp_cast_arith static_types u8_type r = Some True"
proof -
  have "kind_of static_types u8_type = Some T_PRIMITIVE_U8" "kind_of static_types f32_type = Some T_PRIMITIVE_F32"
    using kind_of_static [of _ "[]"] by (simp_all add: static_types_def base_type_def)
  from infer_imp_join [OF this] have "\<exists>r. nnc_infer_imp static_types u8_type f32_type = Some (Inr r) \<and>
      (r = u8_type \<or> r = f32_type) \<and> nnc_can_imp_cast_arith static_types u8_type r = Some True \<and>
      nnc_can_imp_cast_arith static_types f32_type r = Some True \<and>
      (\<forall>t3. nnc_can_imp_cast_arith static_types u8_type t3 = Some True \<and>
        nnc_can_imp_cast_arith static_types f32_type t3 = Some True \<longrightarrow>
        nnc_can_imp_cast_arith static_types r t3 = Some True)"
    by (simp only: numeric_kind_examples simp_thms if_True)
  then show ?thesis by blast
qed

text \<open>
  C37. The kind of the inferred type does not depend on the order of the operands, except for
  an enumeration and an \<^verbatim>\<open>i64\<close>, which have one rank: there the right operand wins.
\<close>

theorem infer_imp_order:
  assumes "kind_of ts t1 = Some k1" "kind_of ts t2 = Some k2" "numeric_kind k1" "numeric_kind k2"
  shows "\<exists>r r'. nnc_infer_imp ts t1 t2 = Some (Inr r) \<and> nnc_infer_imp ts t2 t1 = Some (Inr r') \<and>
    (kind_of ts r = kind_of ts r' \<longleftrightarrow> {k1, k2} \<noteq> {T_ENUM, T_PRIMITIVE_I64}) \<and>
    ({k1, k2} = {T_ENUM, T_PRIMITIVE_I64} \<longrightarrow> r = t2 \<and> r' = t1)"
proof -
  define r where "r = (if hierarchy k1 \<le> hierarchy k2 then t2 else t1)"
  define r' where "r' = (if hierarchy k2 \<le> hierarchy k1 then t1 else t2)"
  have inf: "nnc_infer_imp ts t1 t2 = Some (Inr r)" "nnc_infer_imp ts t2 t1 = Some (Inr r')"
    using assms by (simp_all add: infer_imp_kinds r_def r'_def)
  have eq: "{k1, k2} = {T_ENUM, T_PRIMITIVE_I64} \<longleftrightarrow> hierarchy k1 = hierarchy k2 \<and> k1 \<noteq> k2"
    using assms(3,4) by (auto simp: numeric_kind_def integral_kinds_def real_kinds_def doubleton_eq_iff)
  have "kind_of ts r = kind_of ts r' \<longleftrightarrow> \<not> (hierarchy k1 = hierarchy k2 \<and> k1 \<noteq> k2)"
    using assms(1,2) by (auto simp: r_def r'_def)
  moreover have "hierarchy k1 = hierarchy k2 \<longrightarrow> r = t2 \<and> r' = t1" by (simp add: r_def r'_def)
  ultimately show ?thesis unfolding eq
    by (intro exI [of _ r] exI [of _ r'] conjI inf) simp_all
qed

theorem infer_imp_order_witness:
  "\<exists>ts e r r'. nnc_enum_type_new static_types = (ts, e) \<and> nnc_infer_imp ts e i64_type = Some (Inr r) \<and>
     nnc_infer_imp ts i64_type e = Some (Inr r') \<and> r = i64_type \<and> r' = e"
proof -
  define ts where "ts = fst (nnc_enum_type_new static_types)"
  have ts: "ts = static_types @ [(nnc_type_new None)\<lparr>tkind := T_ENUM, tsize := 8\<rparr>]"
    by (simp add: ts_def nnc_enum_type_new_def alloc_type_def)
  have new: "nnc_enum_type_new static_types = (ts, 12)"
    by (simp add: ts nnc_enum_type_new_def alloc_type_def) (simp add: static_types_def)
  have "kind_of ts i64_type = Some T_PRIMITIVE_I64"
    unfolding ts by (subst kind_of_static) (simp_all add: static_types_def base_type_def)
  moreover have "kind_of ts 12 = Some T_ENUM"
    by (subst kind_of_here [of ts 12 "ts ! 12"]) (simp_all add: ts tget_def static_types_def nnc_type_new_def)
  ultimately show ?thesis
    using infer_imp_order [of ts 12 T_ENUM i64_type T_PRIMITIVE_I64] new numeric_kind_examples by simp
qed


section \<open>Ranks\<close>

text \<open>
  \<open>base_path ts t ps e\<close>: from \<open>t\<close> the bases lead through the arrays, pointers and aliases
  \<open>ps\<close> to \<open>e\<close>.
\<close>

definition base_step :: "types \<Rightarrow> tref \<Rightarrow> tref option" where
  "base_step ts t =
     do { ty \<leftarrow> tget ts t; if tkind ty \<in> {T_ARRAY, T_POINTER, T_ALIAS} then tbase ty else None }"

fun base_path :: "types \<Rightarrow> tref \<Rightarrow> tref list \<Rightarrow> tref \<Rightarrow> bool" where
  "base_path ts t [] e \<longleftrightarrow> t = e"
| "base_path ts t (p # ps) e \<longleftrightarrow>
     p = t \<and> (case base_step ts t of None \<Rightarrow> False | Some b \<Rightarrow> base_path ts b ps e)"

definition is_alias :: "types \<Rightarrow> tref \<Rightarrow> bool" where
  "is_alias ts t \<longleftrightarrow> (case tget ts t of None \<Rightarrow> False | Some ty \<Rightarrow> tkind ty = T_ALIAS)"

lemma base_step_cases:
  assumes "base_step ts t = Some b"
  obtains ty where "tget ts t = Some ty" "tbase ty = Some b" "is_alias ts t" "tkind ty = T_ALIAS"
    "nnc_unalias ts t = nnc_unalias ts b" "kind_of ts t = kind_of ts b"
  | ty where "tget ts t = Some ty" "tbase ty = Some b" "\<not> is_alias ts t" "tkind ty \<in> {T_ARRAY, T_POINTER}"
    "nnc_unalias ts t = Some t" "kind_of ts t = Some (tkind ty)"
proof -
  obtain ty where ty: "tget ts t = Some ty" "tkind ty \<in> {T_ARRAY, T_POINTER, T_ALIAS}" "tbase ty = Some b"
    using assms by (auto simp: base_step_def split: bind_splits if_splits)
  show ?thesis
  proof (cases "tkind ty = T_ALIAS")
    case True
    have u: "nnc_unalias ts t = nnc_unalias ts b" using nnc_unalias_alias ty True by blast
    show ?thesis using ty True u that(1) by (simp add: is_alias_def kind_of_def)
  next
    case False
    have "nnc_unalias ts t = Some t" "kind_of ts t = Some (tkind ty)"
      using ty(1) False by (simp_all add: nnc_unalias_fix kind_of_here)
    then show ?thesis using ty False that(2) by (simp add: is_alias_def)
  qed
qed

lemma kind_of_path_ptr:
  assumes "base_path ts t ps e" "ps \<noteq> []" "\<not> is_alias ts (last ps)"
  shows "\<exists>k. kind_of ts t = Some k \<and> k \<in> {T_ARRAY, T_POINTER}"
  using assms
proof (induction ps arbitrary: t)
  case Nil
  then show ?case by simp
next
  case (Cons p ps)
  obtain b where b: "base_step ts t = Some b" "base_path ts b ps e" "p = t"
    using Cons.prems(1) by (auto split: option.splits)
  show ?case
    using b(1)
  proof (cases rule: base_step_cases)
    case (1 ty)
    then have "ps \<noteq> []" using Cons.prems(3) b(3) by auto
    then show ?thesis using Cons.IH [OF b(2)] Cons.prems(3) 1 by simp
  next
    case (2 ty)
    then show ?thesis by simp
  qed
qed

lemma rank_loop_path:
  assumes "base_path ts t ps e" "ps = [] \<or> \<not> is_alias ts (last ps)"
    and "kind_of ts e = Some k" "k \<notin> {T_ARRAY, T_POINTER}"
  shows "rank_loop ts t n = Some (n + length ps)"
  using assms(1,2)
proof (induction ps arbitrary: t n)
  case Nil
  then show ?case using assms(3,4)
    by (subst rank_loop.simps) (simp add: nnc_arr_or_ptr_type_def kind_in_def)
next
  case (Cons p ps)
  obtain b where b: "base_step ts t = Some b" "base_path ts b ps e" "p = t"
    using Cons.prems(1) by (auto split: option.splits)
  obtain ty where ty: "tget ts t = Some ty" "tbase ty = Some b" using b(1) by (elim base_step_cases) auto
  have "ps = [] \<or> \<not> is_alias ts (last ps)" using Cons.prems(2) by auto
  from Cons.IH [OF b(2) this, of "Suc n"] have IH: "rank_loop ts b (Suc n) = Some (Suc n + length ps)" .
  have "nnc_arr_or_ptr_type ts t = Some True"
    using kind_of_path_ptr [OF Cons.prems(1)] Cons.prems(2)
    by (auto simp: nnc_arr_or_ptr_type_def kind_in_def)
  then show ?case using ty IH by (subst rank_loop.simps) simp
qed

lemma rank_path:
  assumes "base_path ts t ps e" "ps = [] \<or> \<not> is_alias ts (last ps)"
    and "tget ts e = Some tye" "tkind tye \<notin> {T_ARRAY, T_POINTER, T_ALIAS}"
  shows "nnc_rank ts t = Some (length (dropWhile (is_alias ts) ps))"
  using assms(1,2)
proof (induction ps arbitrary: t)
  case Nil
  have k: "kind_of ts e = Some (tkind tye)" using assms(3,4) by (simp add: kind_of_here)
  have "rank_loop ts t 0 = Some 0" using rank_loop_path [OF Nil(1) _ k, of 0] assms(4) by simp
  then show ?case using Nil assms(3,4) by (simp add: nnc_rank_def nnc_unalias_fix)
next
  case (Cons p ps)
  have k: "kind_of ts e = Some (tkind tye)" using assms(3,4) by (simp add: kind_of_here)
  obtain b where b: "base_step ts t = Some b" "base_path ts b ps e" "p = t"
    using Cons.prems(1) by (auto split: option.splits)
  show ?case
    using b(1)
  proof (cases rule: base_step_cases)
    case (1 ty)
    then have "ps = [] \<or> \<not> is_alias ts (last ps)" using Cons.prems(2) b(3) by auto
    then show ?thesis using Cons.IH [OF b(2)] 1 b(3) by (simp add: nnc_rank_def)
  next
    case (2 ty)
    have "rank_loop ts t 0 = Some (length (p # ps))"
      using rank_loop_path [OF Cons.prems k, of 0] assms(4) by simp
    then show ?thesis using 2 b(3) by (simp add: nnc_rank_def)
  qed
qed

lemma strip_path:
  assumes "base_path ts t ps e" "tget ts e = Some tye" "tkind tye \<notin> {T_ARRAY, T_POINTER, T_ALIAS}"
  shows "strip_ptrs ts t = Some e"
  using assms(1)
proof (induction ps arbitrary: t)
  case Nil
  then show ?case using assms(2,3) by (subst strip_ptrs.simps) simp
next
  case (Cons p ps)
  then show ?case
    by (subst strip_ptrs.simps) (auto simp: base_step_def split: option.splits bind_splits if_splits)
qed

text \<open>
  C38. \<^verbatim>\<open>nnc_rank\<close> counts, behind the leading aliases, every pointer and array level and also
  every alias between two levels. So a pointer to one base is assigned to a pointer to the
  same base exactly when these counts agree, and naming an inner pointer type by an alias
  makes the assignment fail.
\<close>

theorem pointer_cast_counts_aliases:
  assumes "base_path ts t1 ps1 e" "base_path ts t2 ps2 e"
    and "ps1 \<noteq> []" "\<not> is_alias ts (last ps1)" "\<not> is_alias ts (hd ps1)"
    and "ps2 \<noteq> []" "\<not> is_alias ts (last ps2)" "\<not> is_alias ts (hd ps2)"
    and "nnc_ptr_type ts t2 = Some True"
    and "tget ts e = Some tye" "numeric_kind (tkind tye)"
  shows "nnc_rank ts t1 = Some (length ps1) \<and> nnc_rank ts t2 = Some (length ps2) \<and>
    nnc_can_imp_cast_assign ts t1 t2 = Some (length ps1 = length ps2)"
proof -
  have e: "tkind tye \<notin> {T_ARRAY, T_POINTER, T_ALIAS}" "tkind tye \<noteq> T_VOID" "tkind tye \<noteq> T_ALIAS"
    using assms(11) by (auto simp: numeric_kind_def integral_kinds_def real_kinds_def)
  have r1: "nnc_rank ts t1 = Some (length ps1)" using rank_path [OF assms(1) _ assms(10) e(1)] assms(3-5)
    by (cases ps1) auto
  have r2: "nnc_rank ts t2 = Some (length ps2)" using rank_path [OF assms(2) _ assms(10) e(1)] assms(6-8)
    by (cases ps2) auto
  obtain b1 where b1: "base_step ts t1 = Some b1" "hd ps1 = t1" using assms(1,3)
    by (cases ps1) (auto split: option.splits)
  obtain b2 where b2: "base_step ts t2 = Some b2" "hd ps2 = t2" using assms(2,6)
    by (cases ps2) (auto split: option.splits)
  obtain k1 where k1: "nnc_unalias ts t1 = Some t1" "kind_of ts t1 = Some k1" "k1 \<in> {T_ARRAY, T_POINTER}"
    using b1 assms(5) by (elim base_step_cases) auto
  obtain k2 where u2: "nnc_unalias ts t2 = Some t2" "kind_of ts t2 = Some k2" "k2 = T_POINTER"
    using b2 assms(8,9) by (elim base_step_cases) (auto simp: nnc_ptr_type_def kind_in_def)
  have ar: "nnc_can_imp_cast_arith ts t1 t2 = Some False"
    using cast_arith_kinds [OF k1(2) u2(2)] k1(3) u2(3)
    by (auto simp: numeric_kind_def integral_kinds_def real_kinds_def aggregate_kind_def)
  have ee: "nnc_can_imp_cast_arith ts e e = Some True"
    using cast_arith_kinds [of ts e "tkind tye" e "tkind tye"] assms(10,11) e(3) by (simp add: kind_of_here)
  have "nnc_can_imp_cast_ptrs ts t1 t2 = Some (length ps1 = length ps2)"
    using strip_path [OF assms(1,10) e(1)] strip_path [OF assms(2,10) e(1)] e ee
    by (simp add: nnc_can_imp_cast_ptrs_def r1 r2 assms(10))
  then have "nnc_can_imp_cast_assign ts t1 t2 = Some (length ps1 = length ps2)"
    using k1 u2 ar by (subst nnc_can_imp_cast_assign.simps)
      (auto simp: nnc_fn_type_def nnc_ptr_type_def nnc_arr_or_ptr_type_def kind_in_def)
  then show ?thesis using r1 r2 by simp
qed

text \<open>With \<open>type i32* as p\<close>: an \<open>i32**\<close> is not assignable to a \<open>p*\<close>.\<close>

definition alias_store :: types where
  "alias_store =
     static_types @
     [(nnc_type_new (Some ''i32''))\<lparr>tkind := T_POINTER, tbase := Some i32_type, tsize := 8\<rparr>,
      (nnc_type_new (Some ''p''))\<lparr>tkind := T_ALIAS, tbase := Some 12\<rparr>,
      (nnc_type_new (Some ''p''))\<lparr>tkind := T_POINTER, tbase := Some 13, tsize := 8\<rparr>,
      (nnc_type_new (Some ''i32''))\<lparr>tkind := T_POINTER, tbase := Some 12, tsize := 8\<rparr>]"

theorem pointer_cast_counts_aliases_witness:
  "nnc_rank alias_store 15 = Some 2 \<and> nnc_rank alias_store 14 = Some 3 \<and>
   nnc_can_imp_cast_assign alias_store 15 14 = Some False"
proof -
  have "base_path alias_store 15 [15, 12] i32_type" "base_path alias_store 14 [14, 13, 12] i32_type"
    "\<not> is_alias alias_store 15" "\<not> is_alias alias_store 12" "\<not> is_alias alias_store 14"
    by (simp_all add: base_step_def is_alias_def alias_store_def static_types_def tget_def nnc_type_new_def)
  moreover have "kind_of alias_store 14 = Some T_POINTER"
    by (subst kind_of_here [of _ _ "alias_store ! 14"])
      (simp_all add: alias_store_def static_types_def tget_def nnc_type_new_def)
  moreover have "tget alias_store i32_type = Some (static_types ! i32_type)"
    "tkind (static_types ! i32_type) = T_PRIMITIVE_I32"
    by (simp_all add: alias_store_def static_types_def tget_def base_type_def)
  ultimately show ?thesis
    using pointer_cast_counts_aliases [of alias_store 15 "[15, 12]" i32_type 14 "[14, 13, 12]" "static_types ! i32_type"]
    by (simp add: nnc_ptr_type_def kind_in_def numeric_kind_examples)
qed


section \<open>The checks return\<close>

text \<open>
  A store is ranked by \<open>m\<close> when bases, parameters and results are allocated types of a smaller
  measure: no alias, pointer, array or function type contains itself without a structure in
  between. Structures may contain pointers to themselves.
\<close>

definition smaller :: "types \<Rightarrow> (tref \<Rightarrow> nat) \<Rightarrow> tref \<Rightarrow> tref \<Rightarrow> bool" where
  "smaller ts m t b \<longleftrightarrow> b < length ts \<and> m b < m t"

definition ranked_at :: "types \<Rightarrow> (tref \<Rightarrow> nat) \<Rightarrow> tref \<Rightarrow> bool" where
  "ranked_at ts m t =
     (let ty = ts ! t in
      (tkind ty \<in> {T_ALIAS, T_POINTER, T_ARRAY} \<longrightarrow> (case tbase ty of None \<Rightarrow> False | Some b \<Rightarrow> smaller ts m t b)) \<and>
      (tkind ty = T_FUNCTION \<longrightarrow> list_all (smaller ts m t) (fn_params ty) \<and>
         (case fn_ret ty of None \<Rightarrow> False | Some b \<Rightarrow> smaller ts m t b)))"

definition ranked :: "types \<Rightarrow> (tref \<Rightarrow> nat) \<Rightarrow> bool" where
  "ranked ts m = list_all (ranked_at ts m) [0..<length ts]"

lemma rankedD: "ranked ts m \<Longrightarrow> t < length ts \<Longrightarrow> ranked_at ts m t"
  by (simp add: ranked_def list_all_iff)

lemma ranked_base:
  assumes "ranked ts m" "t < length ts" "tkind (ts ! t) \<in> {T_ALIAS, T_POINTER, T_ARRAY}"
  obtains b where "tbase (ts ! t) = Some b" "b < length ts" "m b < m t"
  using rankedD [OF assms(1,2)] assms(3)
  by (auto simp: ranked_at_def Let_def smaller_def split: option.splits)

lemma unalias_returns:
  assumes "ranked ts m" "t < length ts"
  shows "\<exists>u. nnc_unalias ts t = Some u \<and> u < length ts \<and> m u \<le> m t \<and> tkind (ts ! u) \<noteq> T_ALIAS"
  using assms(2)
proof (induction "m t" arbitrary: t rule: less_induct)
  case less
  show ?case
  proof (cases "tkind (ts ! t) = T_ALIAS")
    case True
    then obtain b where "tbase (ts ! t) = Some b" "b < length ts" "m b < m t"
      using ranked_base [OF assms(1) less.prems] by auto
    then show ?thesis using less.hyps [of b] True less.prems
      by (subst nnc_unalias.simps) (auto simp: tget_def)
  next
    case False
    then show ?thesis using less.prems by (subst nnc_unalias.simps) (simp add: tget_def)
  qed
qed

lemma kind_returns: "ranked ts m \<Longrightarrow> t < length ts \<Longrightarrow> \<exists>k. kind_of ts t = Some k"
  using unalias_returns by (fastforce simp: kind_of_def tget_def)

lemma strip_returns:
  assumes "ranked ts m" "t < length ts"
  shows "\<exists>e. strip_ptrs ts t = Some e \<and> e < length ts"
  using assms(2)
proof (induction "m t" arbitrary: t rule: less_induct)
  case less
  show ?case
  proof (cases "tkind (ts ! t) \<in> {T_ALIAS, T_POINTER, T_ARRAY}")
    case True
    then obtain b where "tbase (ts ! t) = Some b" "b < length ts" "m b < m t"
      using ranked_base [OF assms(1) less.prems] by auto
    then show ?thesis using less.hyps [of b] True less.prems
      by (subst strip_ptrs.simps) (auto simp: tget_def)
  next
    case False
    then show ?thesis using less.prems by (subst strip_ptrs.simps) (simp add: tget_def)
  qed
qed

lemma rank_loop_returns:
  assumes "ranked ts m" "t < length ts"
  shows "\<exists>r. rank_loop ts t n = Some r"
  using assms(2)
proof (induction "m t" arbitrary: t n rule: less_induct)
  case less
  obtain k where k: "kind_of ts t = Some k" using kind_returns [OF assms(1) less.prems] ..
  show ?case
  proof (cases "k \<in> {T_POINTER, T_ARRAY}")
    case True
    have "tkind (ts ! t) \<in> {T_ALIAS, T_POINTER, T_ARRAY}"
    proof (rule ccontr)
      assume n: "tkind (ts ! t) \<notin> {T_ALIAS, T_POINTER, T_ARRAY}"
      then show False using k True less.prems kind_of_here [of ts t "ts ! t"] by (auto simp: tget_def)
    qed
    then obtain b where b: "tbase (ts ! t) = Some b" "b < length ts" "m b < m t"
      using ranked_base [OF assms(1) less.prems] by auto
    then show ?thesis using less.hyps [of b "Suc n"] True less.prems k
      by (subst rank_loop.simps) (auto simp: tget_def nnc_arr_or_ptr_type_def kind_in_def)
  next
    case False
    then show ?thesis using k
      by (subst rank_loop.simps) (auto simp: nnc_arr_or_ptr_type_def kind_in_def)
  qed
qed

lemma cast_arith_returns:
  "ranked ts m \<Longrightarrow> t1 < length ts \<Longrightarrow> t2 < length ts \<Longrightarrow> \<exists>b. nnc_can_imp_cast_arith ts t1 t2 = Some b"
  using kind_returns cast_arith_kinds by blast

lemma cast_ptrs_returns:
  assumes "ranked ts m" "t1 < length ts" "t2 < length ts"
  shows "\<exists>b. nnc_can_imp_cast_ptrs ts t1 t2 = Some b"
proof -
  obtain u1 u2 where u: "nnc_unalias ts t1 = Some u1" "u1 < length ts" "nnc_unalias ts t2 = Some u2" "u2 < length ts"
    using unalias_returns assms by meson
  obtain r1 r2 where r: "nnc_rank ts t1 = Some r1" "nnc_rank ts t2 = Some r2"
    using rank_loop_returns [OF assms(1)] u by (fastforce simp: nnc_rank_def)
  obtain e1 e2 where e: "strip_ptrs ts t1 = Some e1" "e1 < length ts" "strip_ptrs ts t2 = Some e2" "e2 < length ts"
    using strip_returns assms by meson
  obtain b where "nnc_can_imp_cast_arith ts e1 e2 = Some b" using cast_arith_returns [OF assms(1) e(2,4)] ..
  then show ?thesis using r e by (simp add: nnc_can_imp_cast_ptrs_def tget_def ex_bool_eq)
qed

lemma params_cast_returns:
  assumes "\<And>p. p \<in> set ps \<Longrightarrow> \<exists>b. f (fst p) (snd p) = Some b"
  shows "\<exists>b. params_cast f ps = Some b"
  using assms
proof (induction ps)
  case Nil
  then show ?case by (simp add: ex_bool_eq)
next
  case (Cons p ps)
  obtain b where b: "f (fst p) (snd p) = Some b" using Cons.prems [of p] by auto
  have "\<exists>b. params_cast f ps = Some b" by (rule Cons.IH, rule Cons.prems) simp
  then show ?case using b by (auto simp: ex_bool_eq)
qed

lemma cast_fns_returns:
  assumes "ranked ts m" "t1 < length ts" "t2 < length ts"
    and "tkind (ts ! t1) = T_FUNCTION" "tkind (ts ! t2) = T_FUNCTION"
    and f: "\<And>a b. a < length ts \<Longrightarrow> b < length ts \<Longrightarrow> m a < m t2 \<Longrightarrow> m b < m t1 \<Longrightarrow> \<exists>c. f a b = Some c"
  shows "\<exists>b. nnc_can_imp_cast_fns f ts t1 t2 = Some b"
proof -
  have u: "nnc_unalias ts t1 = Some t1" "nnc_unalias ts t2 = Some t2"
    using assms(2-5) by (simp_all add: nnc_unalias_fix tget_def)
  obtain r1 where r1: "fn_ret (ts ! t1) = Some r1" "smaller ts m t1 r1" "\<forall>p \<in> set (fn_params (ts ! t1)). smaller ts m t1 p"
    using rankedD [OF assms(1,2)] assms(4) by (auto simp: ranked_at_def Let_def list_all_iff split: option.splits)
  obtain r2 where r2: "fn_ret (ts ! t2) = Some r2" "smaller ts m t2 r2" "\<forall>p \<in> set (fn_params (ts ! t2)). smaller ts m t2 p"
    using rankedD [OF assms(1,3)] assms(5) by (auto simp: ranked_at_def Let_def list_all_iff split: option.splits)
  have "\<exists>b. params_cast f (zip (fn_params (ts ! t2)) (fn_params (ts ! t1))) = Some b"
  proof (rule params_cast_returns)
    fix p assume "p \<in> set (zip (fn_params (ts ! t2)) (fn_params (ts ! t1)))"
    then have "fst p \<in> set (fn_params (ts ! t2)) \<and> snd p \<in> set (fn_params (ts ! t1))"
      by (metis prod.collapse set_zip_leftD set_zip_rightD)
    then show "\<exists>b. f (fst p) (snd p) = Some b" using f r1 r2 by (auto simp: smaller_def)
  qed
  moreover have "\<exists>c. f r2 r1 = Some c" using f r1 r2 by (auto simp: smaller_def)
  ultimately show ?thesis using u r1 r2 assms(2-5)
    by (auto simp: nnc_can_imp_cast_fns_def tget_def ex_bool_eq)
qed

text \<open>
  C27. In a ranked store every check of an implicit or explicit cast between allocated types
  returns an answer.
\<close>

theorem casts_return:
  assumes "ranked ts m" "t1 < length ts" "t2 < length ts"
  shows "(\<exists>b. nnc_can_imp_cast_assign ts t1 t2 = Some b) \<and> (\<exists>b. nnc_can_exp_cast ts t1 t2 = Some b)"
proof -
  have assign: "\<exists>b. nnc_can_imp_cast_assign ts t1 t2 = Some b"
    using assms(2,3)
  proof (induction "m t2" arbitrary: t1 t2 rule: less_induct)
    case less
    obtain u1 where u1: "nnc_unalias ts t1 = Some u1" "u1 < length ts" "m u1 \<le> m t1" "tkind (ts ! u1) \<noteq> T_ALIAS"
      using unalias_returns [OF assms(1) less.prems(1)] by auto
    obtain u2 where u2: "nnc_unalias ts t2 = Some u2" "u2 < length ts" "m u2 \<le> m t2" "tkind (ts ! u2) \<noteq> T_ALIAS"
      using unalias_returns [OF assms(1) less.prems(2)] by auto
    have k: "kind_of ts u1 = Some (tkind (ts ! u1))" "kind_of ts u2 = Some (tkind (ts ! u2))"
      using u1 u2 by (simp_all add: kind_of_here tget_def)
    obtain a where a: "nnc_can_imp_cast_arith ts u1 u2 = Some a" using cast_arith_returns [OF assms(1) u1(2) u2(2)] ..
    obtain p where p: "nnc_can_imp_cast_ptrs ts u1 u2 = Some p" using cast_ptrs_returns [OF assms(1) u1(2) u2(2)] ..
    have fns: "\<exists>b. nnc_can_imp_cast_fns (nnc_can_imp_cast_assign ts) ts u2 u1 = Some b"
      if "tkind (ts ! u2) = T_FUNCTION" "tkind (ts ! u1) = T_FUNCTION"
    proof (rule cast_fns_returns [OF assms(1) u2(2) u1(2) that])
      fix a b assume "a < length ts" "b < length ts" "m b < m u2"
      then show "\<exists>c. nnc_can_imp_cast_assign ts a b = Some c" using less.hyps [of b a] u2(3) by simp
    qed
    show ?case
    proof (cases "tkind (ts ! u2) = T_FUNCTION \<and> tkind (ts ! u1) = T_FUNCTION")
      case True
      then obtain b where "nnc_can_imp_cast_fns (nnc_can_imp_cast_assign ts) ts u2 u1 = Some b" using fns by blast
      then show ?thesis using u1(1) u2(1) k a True
        by (subst nnc_can_imp_cast_assign.simps) (simp add: nnc_fn_type_def kind_in_def ex_bool_eq)
    next
      case False
      then have "\<not> (nnc_fn_type ts u2 = Some True \<and> nnc_fn_type ts u1 = Some True)"
        using k by (simp add: nnc_fn_type_def kind_in_def)
      then show ?thesis using u1(1) u2(1) k a p
        by (subst nnc_can_imp_cast_assign.simps)
          (auto simp: nnc_fn_type_def nnc_ptr_type_def nnc_arr_or_ptr_type_def kind_in_def ex_bool_eq)
    qed
  qed
  obtain u1 u2 where u: "nnc_unalias ts t1 = Some u1" "nnc_unalias ts t2 = Some u2" "u1 < length ts" "u2 < length ts"
    using unalias_returns assms by meson
  obtain k1 k2 where k: "kind_of ts u1 = Some k1" "kind_of ts u2 = Some k2"
    using kind_returns [OF assms(1)] u by meson
  have "\<exists>b. nnc_can_exp_cast ts t1 t2 = Some b"
    using u k by (simp add: nnc_can_exp_cast_def nnc_struct_or_union_type_def kind_in_def nnc_same_types_def nnc_unalias_idem ex_bool_eq)
  with assign show ?thesis by simp
qed

text \<open>Two function types of a store with a self-referential structure.\<close>

definition list_store :: types where
  "list_store =
     static_types @
     [(nnc_type_new (Some ''list''))\<lparr>tkind := T_STRUCT, tsize := 8, members := [(''rest'', 13)]\<rparr>,
      (nnc_type_new (Some ''list''))\<lparr>tkind := T_POINTER, tbase := Some 12, tsize := 8\<rparr>,
      (nnc_type_new None)\<lparr>tkind := T_FUNCTION, tsize := 8, fn_params := [13], fn_ret := Some 13\<rparr>,
      (nnc_type_new None)\<lparr>tkind := T_FUNCTION, tsize := 8, fn_params := [5], fn_ret := Some 13\<rparr>]"

theorem casts_return_witness:
  "(\<exists>b. nnc_can_imp_cast_assign list_store 14 15 = Some b) \<and> (\<exists>b. nnc_can_exp_cast list_store 14 15 = Some b)"
proof (rule casts_return [where m = "\<lambda>t. t"])
  show "ranked list_store (\<lambda>t. t)" by code_simp
qed (simp_all add: list_store_def static_types_def)


end
