(* ===== verification/Nnc_IR.thy ===== *)
theory Nnc_IR
  imports Nnc_Type "HOL-Library.Signed_Division"
begin

text \<open>
  The intermediate code, \<^verbatim>\<open>src/src/nnc_3a.h\<close>: quads of an operator, a result and two arguments.
  The union in an address is kept as its first eight bytes (\<open>exact\<close>: the number of a
  compiler-generated temporary, the value of an integer constant, the bits of a floating point
  constant, the address of a string, the first field of a name), because the optimizer compares
  these bytes without looking at the kind of the address; the name itself is a field of its own.
\<close>

section \<open>Quads\<close>

datatype (plugins only: code size) nnc_3a_op_kind =
    OP_NONE
  | OP_ADD | OP_SUB | OP_MUL | OP_DIV | OP_MOD | OP_SHR | OP_SHL | OP_SAL | OP_SAR
  | OP_BW_OR | OP_BW_AND | OP_BW_XOR
  | OP_PLUS | OP_MINUS | OP_BW_NOT
  | OP_UJUMP | OP_CJUMPT | OP_CJUMPF | OP_CJUMPLT | OP_CJUMPGT | OP_CJUMPLTE | OP_CJUMPGTE
  | OP_CJUMPE | OP_CJUMPNE
  | OP_COPY | OP_CAST | OP_ARG | OP_PCALL | OP_FCALL | OP_RETP | OP_RETF | OP_REF | OP_DEREF
  | OP_DEREF_COPY
  | OP_HINT_DECL_CALL | OP_HINT_DECL_LOCAL | OP_HINT_DECL_GLOBAL | OP_HINT_DECL_STRING

datatype nnc_3a_addr_kind = ADDR_NONE | ADDR_NAME | ADDR_SCONST | ADDR_ICONST | ADDR_FCONST | ADDR_CGT

record nnc_3a_addr =
  akind :: nnc_3a_addr_kind
  atype :: "tref option"
  exact :: u64
  aname :: string

record nnc_quad =
  qlabel :: u32
  qop :: nnc_3a_op_kind
  qres :: nnc_3a_addr
  arg1 :: nnc_3a_addr
  arg2 :: nnc_3a_addr
  hint :: nat

text \<open>The zeroed address and quad of a C initializer.\<close>

definition no_addr :: nnc_3a_addr where
  "no_addr = \<lparr>akind = ADDR_NONE, atype = None, exact = 0, aname = []\<rparr>"

definition no_quad :: nnc_quad where
  "no_quad = \<lparr>qlabel = 0, qop = OP_NONE, qres = no_addr, arg1 = no_addr, arg2 = no_addr, hint = 0\<rparr>"

definition nnc_3a_mki2 :: "u64 \<Rightarrow> tref option \<Rightarrow> nnc_3a_addr" where
  "nnc_3a_mki2 x t = \<lparr>akind = ADDR_ICONST, atype = t, exact = x, aname = []\<rparr>"

definition nnc_3a_mki3 :: "u64 \<Rightarrow> nnc_3a_addr" where
  "nnc_3a_mki3 x = \<lparr>akind = ADDR_ICONST, atype = Some u32_type, exact = x, aname = []\<rparr>"

definition nnc_3a_mkf2 :: "u64 \<Rightarrow> tref option \<Rightarrow> nnc_3a_addr" where
  "nnc_3a_mkf2 x t = \<lparr>akind = ADDR_FCONST, atype = t, exact = x, aname = []\<rparr>"

definition cgt_addr :: "u64 \<Rightarrow> tref option \<Rightarrow> nnc_3a_addr" where
  "cgt_addr c t = \<lparr>akind = ADDR_CGT, atype = t, exact = c, aname = []\<rparr>"

text \<open>
  A local name (\<open>IDENT_DEFAULT\<close> is 1); the padding behind the first field is zero.
\<close>

definition local_addr :: "string \<Rightarrow> tref option \<Rightarrow> nnc_3a_addr" where
  "local_addr x t = \<lparr>akind = ADDR_NAME, atype = t, exact = 1, aname = x\<rparr>"

definition quad3 :: "nnc_3a_op_kind \<Rightarrow> nnc_3a_addr \<Rightarrow> nnc_3a_addr \<Rightarrow> nnc_3a_addr \<Rightarrow> nnc_quad" where
  "quad3 o' r a b = \<lparr>qlabel = 0, qop = o', qres = r, arg1 = a, arg2 = b, hint = 0\<rparr>"

abbreviation quad2 :: "nnc_3a_op_kind \<Rightarrow> nnc_3a_addr \<Rightarrow> nnc_3a_addr \<Rightarrow> nnc_quad" where
  "quad2 o' r a \<equiv> quad3 o' r a no_addr"

definition label_quad :: "u32 \<Rightarrow> nnc_quad" where
  "label_quad l = no_quad\<lparr>qlabel := l\<rparr>"

text \<open>The groups of operators that \<^verbatim>\<open>nnc_3a.h\<close> defines as macros.\<close>

definition OP_UNARY :: "nnc_3a_op_kind list" where
  "OP_UNARY = [OP_PLUS, OP_MINUS, OP_BW_NOT]"

definition OP_UNARY_JUMP :: "nnc_3a_op_kind list" where
  "OP_UNARY_JUMP = [OP_CJUMPF, OP_CJUMPT]"

definition OP_BINARY :: "nnc_3a_op_kind list" where
  "OP_BINARY = [OP_ADD, OP_SUB, OP_MUL, OP_DIV, OP_MOD, OP_SHR, OP_SHL, OP_SAL, OP_SAR,
     OP_BW_OR, OP_BW_AND, OP_BW_XOR]"

definition OP_BINARY_JUMP :: "nnc_3a_op_kind list" where
  "OP_BINARY_JUMP = [OP_CJUMPLT, OP_CJUMPGT, OP_CJUMPLTE, OP_CJUMPGTE, OP_CJUMPE, OP_CJUMPNE]"

section \<open>What quads mean\<close>

text \<open>
  An abstract machine for the quads, against which the optimizer is judged: temporaries are 64
  bit registers, names are words of a memory (so that \<open>OP_REF\<close> and \<open>OP_DEREF\<close> make sense),
  and everything quads do outside of both (calls, arguments, declarations) is a parameter that
  gets the quad, the values of its arguments, the memory and the state of the outside world.
  Signed and unsigned operators are told apart by the type of the result, the field in which
  \<^verbatim>\<open>nnc_3a.c\<close> puts the type of the operation.
\<close>

record 'w mstate =
  tmps :: "u64 \<Rightarrow> u64"
  mem :: "u64 \<Rightarrow> u64"
  world :: 'w

record 'w machine =
  place :: "string \<Rightarrow> u64"
  signed_at :: "tref option \<Rightarrow> bool"
  cast_at :: "tref option \<Rightarrow> u64 \<Rightarrow> u64"
  outside :: "nnc_quad \<Rightarrow> u64 \<Rightarrow> u64 \<Rightarrow> (u64 \<Rightarrow> u64) \<Rightarrow> 'w \<Rightarrow> u64 \<times> (u64 \<Rightarrow> u64) \<times> 'w"

definition aval :: "'w machine \<Rightarrow> 'w mstate \<Rightarrow> nnc_3a_addr \<Rightarrow> u64" where
  "aval M s a = (case akind a of ADDR_CGT \<Rightarrow> tmps s (exact a) | ADDR_NAME \<Rightarrow> mem s (place M (aname a))
     | ADDR_NONE \<Rightarrow> 0 | _ \<Rightarrow> exact a)"

definition aput :: "'w machine \<Rightarrow> nnc_3a_addr \<Rightarrow> u64 \<Rightarrow> 'w mstate \<Rightarrow> 'w mstate" where
  "aput M a v s = (case akind a of ADDR_CGT \<Rightarrow> s\<lparr>tmps := (tmps s)(exact a := v)\<rparr>
     | ADDR_NAME \<Rightarrow> s\<lparr>mem := (mem s)(place M (aname a) := v)\<rparr> | _ \<Rightarrow> s)"

definition un_val :: "nnc_3a_op_kind \<Rightarrow> u64 \<Rightarrow> u64" where
  "un_val o' v = (case o' of OP_MINUS \<Rightarrow> - v | OP_BW_NOT \<Rightarrow> NOT v | _ \<Rightarrow> v)"

text \<open>\<open>None\<close> is a trap of the processor.\<close>

definition bin_val :: "bool \<Rightarrow> nnc_3a_op_kind \<Rightarrow> u64 \<Rightarrow> u64 \<Rightarrow> u64 option" where
  "bin_val sg o' a b = (case o' of
     OP_ADD \<Rightarrow> Some (a + b) | OP_SUB \<Rightarrow> Some (a - b) | OP_MUL \<Rightarrow> Some (a * b)
   | OP_DIV \<Rightarrow> if b = 0 then None
       else Some (if sg then word_of_int (sint a sdiv sint b) else a div b)
   | OP_MOD \<Rightarrow> if b = 0 then None
       else Some (if sg then word_of_int (sint a smod sint b) else a mod b)
   | OP_SHR \<Rightarrow> Some (if sg then signed_drop_bit (unat b mod 64) a else drop_bit (unat b mod 64) a)
   | OP_SAR \<Rightarrow> Some (signed_drop_bit (unat b mod 64) a)
   | OP_BW_OR \<Rightarrow> Some (a OR b) | OP_BW_AND \<Rightarrow> Some (a AND b) | OP_BW_XOR \<Rightarrow> Some (a XOR b)
   | _ \<Rightarrow> Some (push_bit (unat b mod 64) a))"

definition cmp_val :: "bool \<Rightarrow> nnc_3a_op_kind \<Rightarrow> u64 \<Rightarrow> u64 \<Rightarrow> bool" where
  "cmp_val sg o' a b = (case o' of
     OP_CJUMPE \<Rightarrow> a = b | OP_CJUMPNE \<Rightarrow> a \<noteq> b
   | OP_CJUMPLT \<Rightarrow> if sg then a <s b else a < b
   | OP_CJUMPGT \<Rightarrow> if sg then b <s a else b < a
   | OP_CJUMPLTE \<Rightarrow> if sg then a \<le>s b else a \<le> b
   | OP_CJUMPGTE \<Rightarrow> if sg then b \<le>s a else b \<le> a
   | _ \<Rightarrow> False)"

datatype 'w outcome = Next "'w mstate" | Goto u32 "'w mstate" | Done u64 "'w mstate" | Trap

definition jump_label :: "nnc_quad \<Rightarrow> u32" where
  "jump_label q = ucast (exact (qres q))"

text \<open>The effect of a quad, given the values of its arguments and of its result.\<close>

definition exec_op :: "'w machine \<Rightarrow> nnc_quad \<Rightarrow> u64 \<Rightarrow> u64 \<Rightarrow> u64 \<Rightarrow> 'w mstate \<Rightarrow> 'w outcome" where
  "exec_op M q a b r s =
     (let o' = qop q; sg = signed_at M (atype (qres q));
          branch = (\<lambda>c. if c then Goto (jump_label q) s else Next s) in
      if o' = OP_NONE then Next s
      else if o' = OP_COPY then Next (aput M (qres q) a s)
      else if o' \<in> set OP_UNARY then Next (aput M (qres q) (un_val o' a) s)
      else if o' = OP_CAST then Next (aput M (qres q) (cast_at M (atype (qres q)) a) s)
      else if o' \<in> set OP_BINARY then
        (case bin_val sg o' a b of None \<Rightarrow> Trap | Some v \<Rightarrow> Next (aput M (qres q) v s))
      else if o' = OP_UJUMP then branch True
      else if o' = OP_CJUMPT then branch (a \<noteq> 0)
      else if o' = OP_CJUMPF then branch (a = 0)
      else if o' \<in> set OP_BINARY_JUMP then branch (cmp_val sg o' a b)
      else if o' = OP_RETP then Done 0 s
      else if o' = OP_RETF then Done a s
      else if o' = OP_REF then Next (aput M (qres q) (place M (aname (arg1 q))) s)
      else if o' = OP_DEREF then Next (aput M (qres q) (mem s a) s)
      else if o' = OP_DEREF_COPY then Next (s\<lparr>mem := (mem s)(r := a)\<rparr>)
      else (case outside M q a b (mem s) (world s) of (v, m', w') \<Rightarrow>
              Next (aput M (qres q) v (s\<lparr>mem := m', world := w'\<rparr>))))"

definition exec1 :: "'w machine \<Rightarrow> nnc_quad \<Rightarrow> 'w mstate \<Rightarrow> 'w outcome" where
  "exec1 M q s = exec_op M q (aval M s (arg1 q)) (aval M s (arg2 q)) (aval M s (qres q)) s"

fun exec :: "'w machine \<Rightarrow> nnc_quad list \<Rightarrow> 'w mstate \<Rightarrow> 'w outcome" where
  "exec M [] s = Next s"
| "exec M (q # qs) s = (case exec1 M q s of Next s' \<Rightarrow> exec M qs s' | r \<Rightarrow> r)"

text \<open>A run of a whole procedure, following at most \<open>n\<close> jumps.\<close>

definition from_label :: "u32 \<Rightarrow> nnc_quad list \<Rightarrow> nnc_quad list" where
  "from_label l = dropWhile (\<lambda>q. qlabel q \<noteq> l)"

fun run :: "nat \<Rightarrow> 'w machine \<Rightarrow> nnc_quad list \<Rightarrow> nnc_quad list \<Rightarrow> 'w mstate \<Rightarrow> 'w outcome" where
  "run 0 M us qs s = exec M qs s"
| "run (Suc n) M us qs s =
     (case exec M qs s of Goto l s' \<Rightarrow> run n M us (from_label l us) s' | r \<Rightarrow> r)"

section \<open>Control flow of a list of quads\<close>

lemmas op_groups = OP_UNARY_def OP_UNARY_JUMP_def OP_BINARY_def OP_BINARY_JUMP_def

definition is_jump :: "nnc_quad \<Rightarrow> bool" where
  "is_jump q \<longleftrightarrow> qop q \<in> set (OP_UJUMP # OP_UNARY_JUMP @ OP_BINARY_JUMP)"

definition stops :: "nnc_quad \<Rightarrow> bool" where
  "stops q \<longleftrightarrow> qop q \<in> {OP_UJUMP, OP_RETP, OP_RETF}"

lemma exec_append: "exec M (xs @ ys) s = (case exec M xs s of Next t \<Rightarrow> exec M ys t | r \<Rightarrow> r)"
  by (induction xs arbitrary: s) (auto split: outcome.split)

definition jump_taken :: "'w machine \<Rightarrow> nnc_quad \<Rightarrow> u64 \<Rightarrow> u64 \<Rightarrow> bool" where
  "jump_taken M q a b = (if qop q = OP_UJUMP then True else if qop q = OP_CJUMPT then a \<noteq> 0
     else if qop q = OP_CJUMPF then a = 0 else cmp_val (signed_at M (atype (qres q))) (qop q) a b)"

lemma exec_op_jump:
  assumes "is_jump q"
  shows "exec_op M q a b r s = (if jump_taken M q a b then Goto (jump_label q) s else Next s)"
proof -
  have "qop q \<in> set (OP_UJUMP # OP_UNARY_JUMP @ OP_BINARY_JUMP)" using assms by (simp add: is_jump_def)
  then show ?thesis
    by (simp only: op_groups append_Cons append_Nil list.set insert_iff empty_iff simp_thms)
      (elim disjE; simp add: exec_op_def jump_taken_def op_groups)
qed

lemma exec_goto: "exec M qs s = Goto l t \<Longrightarrow> \<exists>q \<in> set qs. is_jump q \<and> l = jump_label q"
proof (induction qs arbitrary: s)
  case Nil
  then show ?case by simp
next
  case (Cons q qs)
  show ?case
  proof (cases "exec1 M q s")
    case (Next s1)
    then show ?thesis using Cons by auto
  next
    case (Goto l' s1)
    have "is_jump q"
    proof (rule ccontr)
      assume n: "\<not> is_jump q"
      then have "qop q \<notin> set (OP_UJUMP # OP_UNARY_JUMP @ OP_BINARY_JUMP)" by (simp add: is_jump_def)
      then show False using Goto
        by (auto simp: exec1_def exec_op_def Let_def op_groups split: if_splits option.splits prod.splits)
    qed
    then have "l' = jump_label q" using Goto by (auto simp: exec1_def exec_op_jump split: if_splits)
    then show ?thesis using \<open>is_jump q\<close> Goto Cons.prems by auto
  qed (use Cons.prems in auto)
qed

lemma exec_falls:
  assumes "exec M qs s = Next t" "qs \<noteq> []"
  shows "\<not> stops (last qs)"
proof
  assume st: "stops (last qs)"
  have last: "exec M [q] u \<noteq> Next v" if "stops q" for q u v
  proof (cases "qop q = OP_UJUMP")
    case True
    then show ?thesis by (simp add: exec1_def exec_op_jump is_jump_def jump_taken_def)
  next
    case False
    then show ?thesis using that by (auto simp: exec1_def exec_op_def stops_def op_groups)
  qed
  have "exec M (butlast qs @ [last qs]) s = Next t" using assms by simp
  then show False using last [OF st] unfolding exec_append by (auto split: outcome.splits)
qed

end
