(* ===== verification/Nnc_Opt.thy ===== *)
theory Nnc_Opt
  imports Nnc_IR
begin

text \<open>
  The peephole optimizer, \<^verbatim>\<open>src/src/nnc_3a_optimizer.c\<close>: the patterns, the rewritings, one pass
  and the repetition of passes until nothing shrinks. \<open>us\<close> is the array \<^verbatim>\<open>unopt\<close>; a read
  behind its end is a \<open>Crash\<close>, like a division by zero and an oversized shift of the folded
  constants. Arithmetic on \<^verbatim>\<open>double\<close> is a parameter.
\<close>

section \<open>Patterns\<close>

datatype (plugins only: code size) nnc_3a_peep_pattern =
    OPT_REF_SUBST | OPT_COPY_UNARY_SUBST | OPT_COPY_UNARY_EX_SUBST | OPT_COPY_BINARY_SUBST
  | OPT_COPY_BINARY_L_SUBST | OPT_COPY_BINARY_R_SUBST | OPT_INDEX_CONST_FOLD
  | OPT_UNARY_CONST_FOLD | OPT_BINARY_CONST_FOLD | OPT_ALG_MUL_ONE | OPT_ALG_MUL_ZERO
  | OPT_ALG_ADD_ZERO | OPT_ALG_MUL_POW_TWO | OPT_ALG_MOD_POW_TWO | OPT_NONE

record f64_ops =
  f_neg :: "u64 \<Rightarrow> u64"
  f_add :: "u64 \<Rightarrow> u64 \<Rightarrow> u64"
  f_sub :: "u64 \<Rightarrow> u64 \<Rightarrow> u64"
  f_mul :: "u64 \<Rightarrow> u64 \<Rightarrow> u64"
  f_div :: "u64 \<Rightarrow> u64 \<Rightarrow> u64"
  f_eq :: "u64 \<Rightarrow> u64 \<Rightarrow> bool"
  f_lt :: "u64 \<Rightarrow> u64 \<Rightarrow> bool"
  f_le :: "u64 \<Rightarrow> u64 \<Rightarrow> bool"
  f_of_u64 :: "u64 \<Rightarrow> u64"
  f_to_f32 :: "u64 \<Rightarrow> u64"

definition quad_at :: "nnc_quad list \<Rightarrow> nat \<Rightarrow> nnc_quad res" where
  "quad_at us i = (if i < length us then Inr (us ! i) else Inl Crash)"

definition const_kind :: "nnc_3a_addr \<Rightarrow> bool" where
  "const_kind a \<longleftrightarrow> akind a = ADDR_ICONST \<or> akind a = ADDR_FCONST"

definition is_cgt :: "nnc_3a_addr \<Rightarrow> bool" where
  "is_cgt a \<longleftrightarrow> akind a = ADDR_CGT"

text \<open>Comparison of the numbers of temporaries, whatever the addresses are.\<close>

definition same_cgt :: "nnc_3a_addr \<Rightarrow> nnc_3a_addr \<Rightarrow> bool" where
  "same_cgt a b \<longleftrightarrow> exact a = exact b"

definition nnc_3a_op_ref_pat :: "nnc_quad list \<Rightarrow> nat \<Rightarrow> nnc_3a_peep_pattern res" where
  "nnc_3a_op_ref_pat us i =
     (if length us \<le> i then Inr OPT_NONE
      else bind_res (quad_at us i) (\<lambda>q1. bind_res (quad_at us (i + 1)) (\<lambda>q2.
        Inr (if qop q2 = OP_DEREF_COPY \<and> is_cgt (qres q1) \<and> is_cgt (qres q2) \<and> same_cgt (qres q1) (qres q2)
             then OPT_REF_SUBST else OPT_NONE))))"

definition nnc_3a_op_copy_pat_part1 :: "nnc_quad list \<Rightarrow> nat \<Rightarrow> nnc_3a_peep_pattern res" where
  "nnc_3a_op_copy_pat_part1 us i =
     (if length us \<le> i + 2 then Inr OPT_NONE
      else bind_res (quad_at us i) (\<lambda>q1. bind_res (quad_at us (i + 1)) (\<lambda>q2. bind_res (quad_at us (i + 2)) (\<lambda>q3.
        Inr (if is_cgt (qres q1) \<and> is_cgt (arg1 q2) \<and> same_cgt (qres q1) (arg1 q2)
               \<and> qop q2 \<in> {OP_COPY, OP_DEREF_COPY}
               \<and> is_cgt (arg1 q3) \<and> qop q3 \<in> {OP_COPY, OP_DEREF_COPY} \<and> same_cgt (qres q1) (arg1 q3)
             then OPT_COPY_UNARY_EX_SUBST else OPT_NONE)))))"

definition nnc_3a_op_copy_pat_part2 :: "nnc_quad list \<Rightarrow> nat \<Rightarrow> nnc_3a_peep_pattern res" where
  "nnc_3a_op_copy_pat_part2 us i =
     bind_res (quad_at us i) (\<lambda>q1.
       if is_cgt (qres q1) \<and> const_kind (arg1 q1) then
         bind_res (quad_at us (i + 1)) (\<lambda>q2.
           Inr (if qop q2 \<in> set (OP_CAST # OP_UNARY_JUMP @ OP_UNARY) \<and> same_cgt (qres q1) (arg1 q2)
                then OPT_UNARY_CONST_FOLD else OPT_NONE))
       else Inr OPT_NONE)"

definition nnc_3a_op_copy_pat_part3 :: "nnc_quad list \<Rightarrow> nat \<Rightarrow> nnc_3a_peep_pattern res" where
  "nnc_3a_op_copy_pat_part3 us i =
     (if length us \<le> i + 2 then Inr OPT_NONE
      else bind_res (quad_at us i) (\<lambda>q1. bind_res (quad_at us (i + 1)) (\<lambda>q2. bind_res (quad_at us (i + 2)) (\<lambda>q3.
        Inr (if is_cgt (qres q1) \<and> is_cgt (qres q2) \<and> const_kind (arg1 q1) \<and> const_kind (arg1 q2)
               \<and> qop q3 \<in> set (OP_BINARY_JUMP @ OP_BINARY)
               \<and> same_cgt (arg1 q3) (qres q1) \<and> same_cgt (arg2 q3) (qres q2)
             then OPT_BINARY_CONST_FOLD else OPT_NONE)))))"

definition nnc_3a_op_copy_pat_part4 :: "nnc_quad list \<Rightarrow> nat \<Rightarrow> nnc_3a_peep_pattern res" where
  "nnc_3a_op_copy_pat_part4 us i =
     bind_res (quad_at us i) (\<lambda>q1.
       if is_cgt (qres q1) then
         bind_res (quad_at us (i + 1)) (\<lambda>q2.
           Inr (if is_cgt (arg1 q2) \<and> akind (arg1 q1) = ADDR_ICONST \<and> akind (arg2 q2) = ADDR_ICONST
                  \<and> qop q2 \<in> {OP_ADD, OP_MUL} \<and> same_cgt (qres q1) (arg1 q2)
                then OPT_INDEX_CONST_FOLD else OPT_NONE))
       else Inr OPT_NONE)"

definition nnc_3a_op_copy_pat_part5 :: "nnc_quad list \<Rightarrow> nat \<Rightarrow> nnc_3a_peep_pattern res" where
  "nnc_3a_op_copy_pat_part5 us i =
     (if length us \<le> i + 2 then Inr OPT_NONE
      else bind_res (quad_at us i) (\<lambda>q1. bind_res (quad_at us (i + 1)) (\<lambda>q2. bind_res (quad_at us (i + 2)) (\<lambda>q3.
        Inr (if akind (arg1 q1) \<noteq> ADDR_ICONST \<and> akind (arg1 q2) = ADDR_ICONST
               \<and> qop q3 \<in> {OP_ADD, OP_MUL} \<and> exact (arg1 q2) = 0
               \<and> same_cgt (qres q2) (arg2 q3) \<and> same_cgt (qres q1) (arg1 q3)
             then (if qop q3 = OP_MUL then OPT_ALG_MUL_ZERO else OPT_ALG_ADD_ZERO) else OPT_NONE)))))"

definition nnc_pow2 :: "u64 \<Rightarrow> bool" where
  "nnc_pow2 x \<longleftrightarrow> x \<noteq> 0 \<and> x AND (x - 1) = 0"

text \<open>The signedness test of part 6 reads the type of the result; \<open>sgd\<close> is \<^verbatim>\<open>nnc_signed_type\<close>.\<close>

definition nnc_3a_op_copy_pat_part6 :: "(tref option \<Rightarrow> bool res) \<Rightarrow> nnc_quad list \<Rightarrow> nat \<Rightarrow> nnc_3a_peep_pattern res" where
  "nnc_3a_op_copy_pat_part6 sgd us i =
     (if length us \<le> i + 2 then Inr OPT_NONE
      else bind_res (quad_at us i) (\<lambda>q1. bind_res (quad_at us (i + 1)) (\<lambda>q2. bind_res (quad_at us (i + 2)) (\<lambda>q3.
        if qop q3 \<noteq> OP_MUL \<and> qop q3 \<noteq> OP_MOD then Inr OPT_NONE
        else if akind (arg1 q1) \<noteq> ADDR_ICONST \<and> akind (arg1 q2) \<noteq> ADDR_ICONST then Inr OPT_NONE
        else
          (let one = (exact (arg1 q1) = 1 \<or> exact (arg1 q2) = 1);
               pow = (nnc_pow2 (exact (arg1 q1)) \<or> nnc_pow2 (exact (arg1 q2)));
               met = (same_cgt (qres q1) (arg1 q3) \<or> same_cgt (qres q2) (arg2 q3))
           in if one \<and> met \<and> qop q3 = OP_MUL then Inr OPT_ALG_MUL_ONE
              else if pow \<and> met then
                bind_res (sgd (atype (qres q3))) (\<lambda>sg.
                  Inr (if sg then OPT_NONE
                       else if qop q3 = OP_MUL then OPT_ALG_MUL_POW_TWO
                       else if akind (arg1 q2) = ADDR_ICONST \<and> qop q3 = OP_MOD then OPT_ALG_MOD_POW_TWO
                       else OPT_NONE))
              else Inr OPT_NONE)))))"

definition nnc_3a_op_copy_pat_part7 :: "nnc_quad list \<Rightarrow> nat \<Rightarrow> nnc_3a_peep_pattern res" where
  "nnc_3a_op_copy_pat_part7 us i =
     bind_res (quad_at us i) (\<lambda>q1.
       if qop q1 \<noteq> OP_COPY \<and> length us \<le> i + 1 then Inl Crash
       else if length us \<le> i + 2 then Inr OPT_NONE
       else bind_res (quad_at us (i + 1)) (\<lambda>q2. bind_res (quad_at us (i + 2)) (\<lambda>q3.
         if qop q1 \<noteq> OP_COPY \<and> qop q2 \<noteq> OP_COPY then Inr OPT_NONE
         else if is_cgt (qres q1) \<and> is_cgt (qres q2) \<and> qop q3 \<in> set (OP_BINARY_JUMP @ OP_BINARY) then
           (let l = (qop q1 = OP_COPY \<and> is_cgt (arg1 q3) \<and> same_cgt (arg1 q3) (qres q1));
                r = (qop q2 = OP_COPY \<and> is_cgt (arg2 q3) \<and> same_cgt (arg2 q3) (qres q2))
            in Inr (if l \<and> r then OPT_COPY_BINARY_SUBST else if r then OPT_COPY_BINARY_R_SUBST
                    else if l then OPT_COPY_BINARY_L_SUBST else OPT_NONE))
         else Inr OPT_NONE)))"

definition part8_ops :: "nnc_3a_op_kind list" where
  "part8_ops = [OP_COPY, OP_CAST, OP_DEREF, OP_CJUMPE, OP_CJUMPNE, OP_DEREF_COPY] @ OP_UNARY"

definition nnc_3a_op_copy_pat_part8 :: "nnc_quad list \<Rightarrow> nat \<Rightarrow> nnc_3a_peep_pattern res" where
  "nnc_3a_op_copy_pat_part8 us i =
     bind_res (quad_at us i) (\<lambda>q1.
       if qop q1 = OP_COPY \<and> is_cgt (qres q1) then
         bind_res (quad_at us (i + 1)) (\<lambda>q2.
           Inr (if qop q2 \<in> set part8_ops \<and> is_cgt (arg1 q2) \<and> same_cgt (arg1 q2) (qres q1)
                then OPT_COPY_UNARY_SUBST else OPT_NONE))
       else Inr OPT_NONE)"

text \<open>The table of the enabled patterns, tried in this order.\<close>

fun first_pat :: "(nnc_quad list \<Rightarrow> nat \<Rightarrow> nnc_3a_peep_pattern res) list \<Rightarrow> nnc_quad list \<Rightarrow> nat \<Rightarrow>
    nnc_3a_peep_pattern res" where
  "first_pat [] us i = Inr OPT_NONE"
| "first_pat (f # fs) us i =
     bind_res (f us i) (\<lambda>p. if p \<noteq> OPT_NONE then Inr p else first_pat fs us i)"

definition pat_fns :: "(nnc_quad list \<Rightarrow> nat \<Rightarrow> nnc_3a_peep_pattern res) list" where
  "pat_fns = [nnc_3a_op_copy_pat_part2, nnc_3a_op_copy_pat_part3, nnc_3a_op_copy_pat_part4,
     nnc_3a_op_copy_pat_part5, nnc_3a_op_copy_pat_part8]"

definition nnc_3a_op_copy_pat :: "nnc_quad list \<Rightarrow> nat \<Rightarrow> nnc_3a_peep_pattern res" where
  "nnc_3a_op_copy_pat us i = (if length us \<le> i then Inr OPT_NONE else first_pat pat_fns us i)"

definition nnc_3a_search_peep_pattern :: "nnc_quad list \<Rightarrow> nat \<Rightarrow> nnc_3a_peep_pattern res" where
  "nnc_3a_search_peep_pattern us i =
     bind_res (quad_at us i) (\<lambda>q.
       if qop q = OP_REF then nnc_3a_op_ref_pat us i
       else if qop q = OP_COPY then nnc_3a_op_copy_pat us i else Inr OPT_NONE)"

section \<open>Rewritings\<close>

text \<open>
  A rewriting returns the array (one of them changes it), the quads added to \<^verbatim>\<open>opt\<close> and the
  number of quads it skips.
\<close>

type_synonym rewriting = "nnc_quad list \<times> nnc_quad list \<times> nat"

definition nnc_3a_opt_ref_subst :: "nnc_quad list \<Rightarrow> nat \<Rightarrow> rewriting res" where
  "nnc_3a_opt_ref_subst us i =
     bind_res (quad_at us i) (\<lambda>q1. bind_res (quad_at us (i + 1)) (\<lambda>q2.
       Inr (us, [quad2 OP_COPY (arg1 q1) (arg1 q2)], 2)))"

definition nnc_3a_opt_unary_subst :: "nnc_quad list \<Rightarrow> nat \<Rightarrow> rewriting res" where
  "nnc_3a_opt_unary_subst us i =
     bind_res (quad_at us i) (\<lambda>q1. bind_res (quad_at us (i + 1)) (\<lambda>q2.
       Inr (us, [q2\<lparr>arg1 := arg1 q1\<rparr>], 2)))"

definition nnc_3a_opt_unary_ex_subst :: "nnc_quad list \<Rightarrow> nat \<Rightarrow> rewriting res" where
  "nnc_3a_opt_unary_ex_subst us i =
     bind_res (quad_at us i) (\<lambda>q1. bind_res (quad_at us (i + 1)) (\<lambda>q2. bind_res (quad_at us (i + 2)) (\<lambda>q3.
       Inr (us[i + 2 := q3\<lparr>arg1 := arg1 q1\<rparr>], [q2\<lparr>arg1 := arg1 q1\<rparr>], 2))))"

definition nnc_3a_opt_binary_subst :: "nnc_3a_peep_pattern \<Rightarrow> nnc_quad list \<Rightarrow> nat \<Rightarrow> rewriting res" where
  "nnc_3a_opt_binary_subst p us i =
     bind_res (quad_at us i) (\<lambda>q1. bind_res (quad_at us (i + 1)) (\<lambda>q2. bind_res (quad_at us (i + 2)) (\<lambda>q3.
       case p of
         OPT_COPY_BINARY_L_SUBST \<Rightarrow> Inr (us, [q2, q3\<lparr>arg1 := arg1 q1\<rparr>], 3)
       | OPT_COPY_BINARY_R_SUBST \<Rightarrow> Inr (us, [q1, q3\<lparr>arg2 := arg1 q2\<rparr>], 3)
       | OPT_COPY_BINARY_SUBST \<Rightarrow> Inr (us, [q3\<lparr>arg1 := arg1 q1, arg2 := arg1 q2\<rparr>], 3)
       | _ \<Rightarrow> Inl Abort)))"

text \<open>The kind of a type itself, and the checks behind its aliases; a NULL type crashes.\<close>

definition type_kind :: "types \<Rightarrow> tref option \<Rightarrow> nnc_type_kind res" where
  "type_kind ts t = (case t of None \<Rightarrow> Inl Crash
     | Some r \<Rightarrow> (case tget ts r of None \<Rightarrow> Inl Crash | Some ty \<Rightarrow> Inr (tkind ty)))"

definition type_check :: "(types \<Rightarrow> tref \<Rightarrow> bool option) \<Rightarrow> types \<Rightarrow> tref option \<Rightarrow> bool res" where
  "type_check f ts t = (case t of None \<Rightarrow> Inl Crash
     | Some r \<Rightarrow> (case f ts r of None \<Rightarrow> Inl Crash | Some b \<Rightarrow> Inr b))"

definition const_f64 :: "f64_ops \<Rightarrow> nnc_3a_addr \<Rightarrow> u64" where
  "const_f64 fo a = (if akind a = ADDR_ICONST then f_of_u64 fo (exact a) else exact a)"

definition nnc_3a_opt_unary_fconst_fold :: "f64_ops \<Rightarrow> types \<Rightarrow> nnc_quad list \<Rightarrow> nat \<Rightarrow> rewriting res" where
  "nnc_3a_opt_unary_fconst_fold fo ts us i =
     bind_res (quad_at us i) (\<lambda>q1. bind_res (quad_at us (i + 1)) (\<lambda>q2.
       let v = const_f64 fo (arg1 q1); t = atype (qres q2);
           fold = (\<lambda>v. Inr (us, [quad2 OP_COPY (qres q2) (nnc_3a_mkf2 v t)], 2)) in
       case qop q2 of
         OP_PLUS \<Rightarrow> fold v
       | OP_MINUS \<Rightarrow> fold (f_neg fo v)
       | OP_CAST \<Rightarrow> bind_res (type_kind ts t) (\<lambda>k.
           case k of T_PRIMITIVE_F32 \<Rightarrow> fold (f_to_f32 fo v) | T_PRIMITIVE_F64 \<Rightarrow> fold v | _ \<Rightarrow> Inl Abort)
       | _ \<Rightarrow> Inl Abort))"

definition nnc_3a_opt_unary_branch_fold :: "nnc_quad list \<Rightarrow> nat \<Rightarrow> rewriting res" where
  "nnc_3a_opt_unary_branch_fold us i =
     bind_res (quad_at us i) (\<lambda>q1. bind_res (quad_at us (i + 1)) (\<lambda>q2.
       let v = exact (arg1 q1);
           fold = (\<lambda>c. Inr (us, if c then [quad3 OP_UJUMP (qres q2) no_addr no_addr] else [], 2)) in
       case qop q2 of OP_CJUMPT \<Rightarrow> fold (v \<noteq> 0) | OP_CJUMPF \<Rightarrow> fold (v = 0) | _ \<Rightarrow> Inl Abort))"

text \<open>The conversion of a constant to an integer type and back to 64 bits.\<close>

definition cast_const :: "nnc_type_kind \<Rightarrow> u64 \<Rightarrow> u64 option" where
  "cast_const k v = (case k of
     T_PRIMITIVE_I8 \<Rightarrow> Some (scast (ucast v :: u8)) | T_PRIMITIVE_U8 \<Rightarrow> Some (ucast (ucast v :: u8))
   | T_PRIMITIVE_U16 \<Rightarrow> Some (ucast (ucast v :: u16)) | T_PRIMITIVE_I16 \<Rightarrow> Some (scast (ucast v :: u16))
   | T_PRIMITIVE_U32 \<Rightarrow> Some (ucast (ucast v :: u32)) | T_PRIMITIVE_I32 \<Rightarrow> Some (scast (ucast v :: u32))
   | T_PRIMITIVE_U64 \<Rightarrow> Some v | T_PRIMITIVE_I64 \<Rightarrow> Some v | _ \<Rightarrow> None)"

definition nnc_3a_opt_unary_iconst_fold :: "types \<Rightarrow> nnc_quad list \<Rightarrow> nat \<Rightarrow> rewriting res" where
  "nnc_3a_opt_unary_iconst_fold ts us i =
     bind_res (quad_at us i) (\<lambda>q1. bind_res (quad_at us (i + 1)) (\<lambda>q2.
       let v = exact (arg1 q1); t = atype (qres q2);
           fold = (\<lambda>v. Inr (us, [quad2 OP_COPY (qres q2) (nnc_3a_mki2 v t)], 2)) in
       case qop q2 of
         OP_PLUS \<Rightarrow> fold v
       | OP_MINUS \<Rightarrow> fold (- v)
       | OP_BW_NOT \<Rightarrow> fold (NOT v)
       | OP_CAST \<Rightarrow> bind_res (assert_res (akind (arg1 q1) = ADDR_ICONST)) (\<lambda>_.
           bind_res (type_kind ts t) (\<lambda>k. case cast_const k v of None \<Rightarrow> Inl Abort | Some w \<Rightarrow> fold w))
       | OP_CJUMPT \<Rightarrow> nnc_3a_opt_unary_branch_fold us i
       | OP_CJUMPF \<Rightarrow> nnc_3a_opt_unary_branch_fold us i
       | _ \<Rightarrow> Inl Abort))"

definition nnc_3a_opt_unary_const_fold :: "f64_ops \<Rightarrow> types \<Rightarrow> nnc_quad list \<Rightarrow> nat \<Rightarrow> rewriting res" where
  "nnc_3a_opt_unary_const_fold fo ts us i =
     bind_res (quad_at us (i + 1)) (\<lambda>q2.
       bind_res (type_check nnc_real_type ts (atype (qres q2))) (\<lambda>r.
         if r then nnc_3a_opt_unary_fconst_fold fo ts us i
         else bind_res (type_check nnc_integral_type ts (atype (qres q2))) (\<lambda>n.
           if n then nnc_3a_opt_unary_iconst_fold ts us i else Inr (us, [], 2))))"

definition branch_fold :: "nnc_quad list \<Rightarrow> nnc_quad \<Rightarrow> bool \<Rightarrow> rewriting res" where
  "branch_fold us q3 c = Inr (us, if c then [quad3 OP_UJUMP (qres q3) no_addr no_addr] else [], 3)"

definition nnc_3a_opt_binary_fconst_branch_fold :: "f64_ops \<Rightarrow> nnc_quad list \<Rightarrow> nat \<Rightarrow> rewriting res" where
  "nnc_3a_opt_binary_fconst_branch_fold fo us i =
     bind_res (quad_at us i) (\<lambda>q1. bind_res (quad_at us (i + 1)) (\<lambda>q2. bind_res (quad_at us (i + 2)) (\<lambda>q3.
       let l = const_f64 fo (arg1 q1); r = const_f64 fo (arg1 q2) in
       case qop q3 of
         OP_CJUMPE \<Rightarrow> branch_fold us q3 (f_eq fo l r) | OP_CJUMPNE \<Rightarrow> branch_fold us q3 (\<not> f_eq fo l r)
       | OP_CJUMPLT \<Rightarrow> branch_fold us q3 (f_lt fo l r) | OP_CJUMPGT \<Rightarrow> branch_fold us q3 (f_lt fo r l)
       | OP_CJUMPLTE \<Rightarrow> branch_fold us q3 (f_le fo l r) | OP_CJUMPGTE \<Rightarrow> branch_fold us q3 (f_le fo r l)
       | _ \<Rightarrow> Inl Abort)))"

definition nnc_3a_opt_binary_fconst_fold :: "f64_ops \<Rightarrow> nnc_quad list \<Rightarrow> nat \<Rightarrow> rewriting res" where
  "nnc_3a_opt_binary_fconst_fold fo us i =
     bind_res (quad_at us i) (\<lambda>q1. bind_res (quad_at us (i + 1)) (\<lambda>q2. bind_res (quad_at us (i + 2)) (\<lambda>q3.
       let l = const_f64 fo (arg1 q1); r = const_f64 fo (arg1 q2);
           fold = (\<lambda>v. Inr (us, [quad2 OP_COPY (qres q3) (nnc_3a_mkf2 v (atype (qres q3)))], 3)) in
       if qop q3 \<in> set OP_BINARY_JUMP then nnc_3a_opt_binary_fconst_branch_fold fo us i
       else case qop q3 of
         OP_ADD \<Rightarrow> fold (f_add fo l r) | OP_SUB \<Rightarrow> fold (f_sub fo l r)
       | OP_MUL \<Rightarrow> fold (f_mul fo l r) | OP_DIV \<Rightarrow> fold (f_div fo l r) | _ \<Rightarrow> Inl Abort)))"

definition nnc_3a_opt_binary_iconst_branch_fold :: "nnc_quad list \<Rightarrow> nat \<Rightarrow> rewriting res" where
  "nnc_3a_opt_binary_iconst_branch_fold us i =
     bind_res (quad_at us i) (\<lambda>q1. bind_res (quad_at us (i + 1)) (\<lambda>q2. bind_res (quad_at us (i + 2)) (\<lambda>q3.
       let l = exact (arg1 q1); r = exact (arg1 q2) in
       case qop q3 of
         OP_CJUMPE \<Rightarrow> branch_fold us q3 (l = r) | OP_CJUMPNE \<Rightarrow> branch_fold us q3 (l \<noteq> r)
       | OP_CJUMPLT \<Rightarrow> branch_fold us q3 (l < r) | OP_CJUMPGT \<Rightarrow> branch_fold us q3 (l > r)
       | OP_CJUMPLTE \<Rightarrow> branch_fold us q3 (l \<le> r) | OP_CJUMPGTE \<Rightarrow> branch_fold us q3 (l \<ge> r)
       | _ \<Rightarrow> Inl Abort)))"

text \<open>The folding of two integer constants, on unsigned 64 bit numbers for every type.\<close>

definition fold_iconst :: "nnc_3a_op_kind \<Rightarrow> u64 \<Rightarrow> u64 \<Rightarrow> u64 res" where
  "fold_iconst o' l r = (case o' of
     OP_ADD \<Rightarrow> Inr (l + r) | OP_SUB \<Rightarrow> Inr (l - r) | OP_MUL \<Rightarrow> Inr (l * r)
   | OP_DIV \<Rightarrow> if r = 0 then Inl Crash else Inr (l div r)
   | OP_MOD \<Rightarrow> if r = 0 then Inl Crash else Inr (l mod r)
   | OP_SHR \<Rightarrow> if 64 \<le> r then Inl Crash else Inr (drop_bit (unat r) l)
   | OP_SHL \<Rightarrow> if 64 \<le> r then Inl Crash else Inr (push_bit (unat r) l)
   | OP_BW_OR \<Rightarrow> Inr (l OR r) | OP_BW_AND \<Rightarrow> Inr (l AND r) | OP_BW_XOR \<Rightarrow> Inr (l XOR r)
   | _ \<Rightarrow> Inl Abort)"

definition nnc_3a_opt_binary_iconst_fold :: "nnc_quad list \<Rightarrow> nat \<Rightarrow> rewriting res" where
  "nnc_3a_opt_binary_iconst_fold us i =
     bind_res (quad_at us i) (\<lambda>q1. bind_res (quad_at us (i + 1)) (\<lambda>q2. bind_res (quad_at us (i + 2)) (\<lambda>q3.
       if qop q3 \<in> set OP_BINARY_JUMP then nnc_3a_opt_binary_iconst_branch_fold us i
       else bind_res (fold_iconst (qop q3) (exact (arg1 q1)) (exact (arg1 q2))) (\<lambda>v.
         Inr (us, [quad2 OP_COPY (qres q3) (nnc_3a_mki2 v (atype (qres q3)))], 3)))))"

definition nnc_3a_opt_binary_const_fold :: "f64_ops \<Rightarrow> types \<Rightarrow> nnc_quad list \<Rightarrow> nat \<Rightarrow> rewriting res" where
  "nnc_3a_opt_binary_const_fold fo ts us i =
     bind_res (quad_at us (i + 2)) (\<lambda>q3.
       bind_res (type_check nnc_real_type ts (atype (qres q3))) (\<lambda>r.
         if r then nnc_3a_opt_binary_fconst_fold fo us i
         else bind_res (type_check nnc_integral_type ts (atype (qres q3))) (\<lambda>n.
           if n then nnc_3a_opt_binary_iconst_fold us i else Inl Abort)))"

definition nnc_3a_opt_index_const_fold :: "nnc_quad list \<Rightarrow> nat \<Rightarrow> rewriting res" where
  "nnc_3a_opt_index_const_fold us i =
     bind_res (quad_at us i) (\<lambda>q1. bind_res (quad_at us (i + 1)) (\<lambda>q2.
       let l = exact (arg1 q1); r = exact (arg2 q2);
           fold = (\<lambda>v. Inr (us, [quad2 OP_COPY (qres q2) (nnc_3a_mki3 v)], 2)) in
       case qop q2 of OP_ADD \<Rightarrow> fold (l + r) | OP_MUL \<Rightarrow> fold (l * r) | _ \<Rightarrow> Inl Abort))"

text \<open>The number of halvings until zero: \<open>pow\<close> in the code; 64 of them are enough.\<close>

fun halvings :: "nat \<Rightarrow> u64 \<Rightarrow> nat" where
  "halvings 0 v = 0"
| "halvings (Suc n) v = (if v = 0 then 0 else Suc (halvings n (v div 2)))"

definition nnc_3a_opt_algebraic :: "nnc_3a_peep_pattern \<Rightarrow> nnc_quad list \<Rightarrow> nat \<Rightarrow> rewriting res" where
  "nnc_3a_opt_algebraic p us i =
     bind_res (quad_at us i) (\<lambda>q1. bind_res (quad_at us (i + 1)) (\<lambda>q2. bind_res (quad_at us (i + 2)) (\<lambda>q3.
       let (c, x) = (if akind (arg1 q1) = ADDR_ICONST then (arg1 q1, arg1 q2) else (arg1 q2, arg1 q1));
           add = (\<lambda>o' a b. Inr (us, [quad3 o' (qres q3) a b], 3)) in
       case p of
         OPT_ALG_MUL_ONE \<Rightarrow> add OP_COPY x no_addr
       | OPT_ALG_ADD_ZERO \<Rightarrow> add OP_COPY x no_addr
       | OPT_ALG_MUL_ZERO \<Rightarrow> add OP_COPY (nnc_3a_mki3 0) no_addr
       | OPT_ALG_MUL_POW_TWO \<Rightarrow>
           add OP_SHL x (nnc_3a_mki3 (ucast ((of_nat (halvings 64 (exact c)) - 1) :: u32)))
       | OPT_ALG_MOD_POW_TWO \<Rightarrow> add OP_BW_AND x (nnc_3a_mki3 (exact c - 1))
       | _ \<Rightarrow> Inl Abort)))"

definition nnc_3a_opt_none :: "nnc_quad list \<Rightarrow> nat \<Rightarrow> rewriting res" where
  "nnc_3a_opt_none us i = bind_res (quad_at us i) (\<lambda>q. Inr (us, [q], 1))"

definition nnc_3a_optimize_peep :: "f64_ops \<Rightarrow> types \<Rightarrow> nnc_quad list \<Rightarrow> nat \<Rightarrow> rewriting res" where
  "nnc_3a_optimize_peep fo ts us i =
     bind_res (nnc_3a_search_peep_pattern us i) (\<lambda>p.
       case p of
         OPT_REF_SUBST \<Rightarrow> nnc_3a_opt_ref_subst us i
       | OPT_COPY_UNARY_SUBST \<Rightarrow> nnc_3a_opt_unary_subst us i
       | OPT_COPY_UNARY_EX_SUBST \<Rightarrow> nnc_3a_opt_unary_ex_subst us i
       | OPT_COPY_BINARY_SUBST \<Rightarrow> nnc_3a_opt_binary_subst p us i
       | OPT_COPY_BINARY_L_SUBST \<Rightarrow> nnc_3a_opt_binary_subst p us i
       | OPT_COPY_BINARY_R_SUBST \<Rightarrow> nnc_3a_opt_binary_subst p us i
       | OPT_UNARY_CONST_FOLD \<Rightarrow> nnc_3a_opt_unary_const_fold fo ts us i
       | OPT_BINARY_CONST_FOLD \<Rightarrow> nnc_3a_opt_binary_const_fold fo ts us i
       | OPT_INDEX_CONST_FOLD \<Rightarrow> nnc_3a_opt_index_const_fold us i
       | OPT_ALG_MUL_ONE \<Rightarrow> nnc_3a_opt_algebraic p us i
       | OPT_ALG_ADD_ZERO \<Rightarrow> nnc_3a_opt_algebraic p us i
       | OPT_ALG_MUL_ZERO \<Rightarrow> nnc_3a_opt_algebraic p us i
       | OPT_ALG_MUL_POW_TWO \<Rightarrow> nnc_3a_opt_algebraic p us i
       | OPT_ALG_MOD_POW_TWO \<Rightarrow> nnc_3a_opt_algebraic p us i
       | OPT_NONE \<Rightarrow> nnc_3a_opt_none us i)"

section \<open>Passes\<close>

text \<open>
  The loop of a pass. Every rewriting skips at least one quad, so the length of the array is
  enough fuel (\<open>pass_fuel\<close> below).
\<close>

fun pass_loop :: "nat \<Rightarrow> f64_ops \<Rightarrow> types \<Rightarrow> nnc_quad list \<Rightarrow> nat \<Rightarrow> nnc_quad list res" where
  "pass_loop n fo ts us i =
     (if length us \<le> i then Inr []
      else case n of 0 \<Rightarrow> Inl NoFuel
      | Suc n' \<Rightarrow> bind_res (nnc_3a_optimize_peep fo ts us i) (\<lambda>(us', os, k).
          bind_res (pass_loop n' fo ts us' (i + k)) (\<lambda>os'. Inr (os @ os'))))"

declare pass_loop.simps [simp del]

definition nnc_3a_optimization_pass :: "f64_ops \<Rightarrow> types \<Rightarrow> nnc_quad list \<Rightarrow> (nnc_quad list \<times> nat) res" where
  "nnc_3a_optimization_pass fo ts us =
     bind_res (pass_loop (length us) fo ts us 0) (\<lambda>os. Inr (os, length us - length os))"

text \<open>
  The passes, until one removes nothing; every other pass shortens the code, so its length is
  enough fuel. The result comes with the number of quads removed.
\<close>

fun opt_loop :: "nat \<Rightarrow> f64_ops \<Rightarrow> types \<Rightarrow> nnc_quad list \<Rightarrow> nat \<Rightarrow> (nnc_quad list \<times> nat) res" where
  "opt_loop n fo ts us reduced =
     bind_res (nnc_3a_optimization_pass fo ts us) (\<lambda>(os, k).
       if k = 0 then Inr (os, reduced)
       else case n of 0 \<Rightarrow> Inl NoFuel | Suc n' \<Rightarrow> opt_loop n' fo ts os (reduced + k))"

declare opt_loop.simps [simp del]

definition nnc_3a_optimize :: "f64_ops \<Rightarrow> types \<Rightarrow> nnc_quad list \<Rightarrow> (nnc_quad list \<times> nat) res" where
  "nnc_3a_optimize fo ts us = (if us = [] then Inr ([], 0) else opt_loop (length us) fo ts us 0)"

section \<open>Which patterns are found\<close>

lemma quad_at_Inr [simp]: "i < length us \<Longrightarrow> quad_at us i = Inr (us ! i)"
  by (simp add: quad_at_def)

lemma quad_at_Inr_iff: "quad_at us i = Inr q \<longleftrightarrow> i < length us \<and> q = us ! i"
  by (auto simp: quad_at_def)

lemma ref_patD:
  assumes "nnc_3a_op_ref_pat us i = Inr p" "p \<noteq> OPT_NONE"
  shows "p = OPT_REF_SUBST \<and> i + 1 < length us \<and> qop (us ! (i + 1)) = OP_DEREF_COPY \<and> is_cgt (qres (us ! i))
    \<and> is_cgt (qres (us ! (i + 1))) \<and> same_cgt (qres (us ! i)) (qres (us ! (i + 1)))"
  using assms by (auto simp: nnc_3a_op_ref_pat_def bind_res_eq_Inr quad_at_Inr_iff split: if_splits)

lemma part2D:
  assumes "nnc_3a_op_copy_pat_part2 us i = Inr p" "p \<noteq> OPT_NONE"
  shows "p = OPT_UNARY_CONST_FOLD \<and> i + 1 < length us \<and> is_cgt (qres (us ! i)) \<and> const_kind (arg1 (us ! i))
    \<and> qop (us ! (i + 1)) \<in> set (OP_CAST # OP_UNARY_JUMP @ OP_UNARY) \<and> same_cgt (qres (us ! i)) (arg1 (us ! (i + 1)))"
  using assms by (auto simp: nnc_3a_op_copy_pat_part2_def bind_res_eq_Inr quad_at_Inr_iff split: if_splits)

lemma part3D:
  assumes "nnc_3a_op_copy_pat_part3 us i = Inr p" "p \<noteq> OPT_NONE"
  shows "p = OPT_BINARY_CONST_FOLD \<and> i + 2 < length us \<and> is_cgt (qres (us ! i)) \<and> is_cgt (qres (us ! (i + 1)))
    \<and> const_kind (arg1 (us ! i)) \<and> const_kind (arg1 (us ! (i + 1)))
    \<and> qop (us ! (i + 2)) \<in> set (OP_BINARY_JUMP @ OP_BINARY)
    \<and> same_cgt (arg1 (us ! (i + 2))) (qres (us ! i)) \<and> same_cgt (arg2 (us ! (i + 2))) (qres (us ! (i + 1)))"
  using assms unfolding nnc_3a_op_copy_pat_part3_def
  by (simp only: bind_res_eq_Inr quad_at_Inr_iff split: if_splits) auto

lemma part4D:
  assumes "nnc_3a_op_copy_pat_part4 us i = Inr p" "p \<noteq> OPT_NONE"
  shows "p = OPT_INDEX_CONST_FOLD \<and> i + 1 < length us \<and> is_cgt (qres (us ! i)) \<and> is_cgt (arg1 (us ! (i + 1)))
    \<and> akind (arg1 (us ! i)) = ADDR_ICONST \<and> akind (arg2 (us ! (i + 1))) = ADDR_ICONST
    \<and> qop (us ! (i + 1)) \<in> {OP_ADD, OP_MUL} \<and> same_cgt (qres (us ! i)) (arg1 (us ! (i + 1)))"
  using assms by (auto simp: nnc_3a_op_copy_pat_part4_def bind_res_eq_Inr quad_at_Inr_iff split: if_splits)

lemma part5D:
  assumes "nnc_3a_op_copy_pat_part5 us i = Inr p" "p \<noteq> OPT_NONE"
  shows "p = (if qop (us ! (i + 2)) = OP_MUL then OPT_ALG_MUL_ZERO else OPT_ALG_ADD_ZERO) \<and> i + 2 < length us
    \<and> akind (arg1 (us ! i)) \<noteq> ADDR_ICONST \<and> akind (arg1 (us ! (i + 1))) = ADDR_ICONST
    \<and> qop (us ! (i + 2)) \<in> {OP_ADD, OP_MUL} \<and> exact (arg1 (us ! (i + 1))) = 0
    \<and> same_cgt (qres (us ! (i + 1))) (arg2 (us ! (i + 2))) \<and> same_cgt (qres (us ! i)) (arg1 (us ! (i + 2)))"
  using assms unfolding nnc_3a_op_copy_pat_part5_def
  by (simp only: bind_res_eq_Inr quad_at_Inr_iff split: if_splits) auto

lemma part8D:
  assumes "nnc_3a_op_copy_pat_part8 us i = Inr p" "p \<noteq> OPT_NONE"
  shows "p = OPT_COPY_UNARY_SUBST \<and> i + 1 < length us \<and> is_cgt (qres (us ! i))
    \<and> qop (us ! (i + 1)) \<in> set part8_ops \<and> is_cgt (arg1 (us ! (i + 1))) \<and> same_cgt (arg1 (us ! (i + 1))) (qres (us ! i))"
  using assms by (auto simp: nnc_3a_op_copy_pat_part8_def bind_res_eq_Inr quad_at_Inr_iff split: if_splits)

lemma part8_after_part2:
  assumes "nnc_3a_op_copy_pat_part8 us i = Inr p" "p \<noteq> OPT_NONE" "nnc_3a_op_copy_pat_part2 us i = Inr OPT_NONE"
  shows "const_kind (arg1 (us ! i)) \<longrightarrow> qop (us ! (i + 1)) \<notin> set (OP_CAST # OP_UNARY)"
  using assms(3) part8D [OF assms(1,2)]
  by (auto simp: nnc_3a_op_copy_pat_part2_def same_cgt_def is_cgt_def split: if_splits)

lemma search_cases:
  assumes "nnc_3a_search_peep_pattern us i = Inr p" "p \<noteq> OPT_NONE"
  shows "i < length us \<and>
    (qop (us ! i) = OP_REF \<and> nnc_3a_op_ref_pat us i = Inr p
   \<or> qop (us ! i) = OP_COPY \<and> (nnc_3a_op_copy_pat_part2 us i = Inr p \<or> nnc_3a_op_copy_pat_part3 us i = Inr p
      \<or> nnc_3a_op_copy_pat_part4 us i = Inr p \<or> nnc_3a_op_copy_pat_part5 us i = Inr p
      \<or> nnc_3a_op_copy_pat_part8 us i = Inr p \<and> nnc_3a_op_copy_pat_part2 us i = Inr OPT_NONE))"
  using assms by (auto simp: nnc_3a_search_peep_pattern_def nnc_3a_op_copy_pat_def pat_fns_def
      bind_res_eq_Inr quad_at_Inr_iff split: if_splits)

lemma search_range:
  assumes "nnc_3a_search_peep_pattern us i = Inr p"
  shows "i < length us \<and> p \<in> {OPT_NONE, OPT_REF_SUBST, OPT_COPY_UNARY_SUBST, OPT_UNARY_CONST_FOLD, OPT_BINARY_CONST_FOLD,
    OPT_INDEX_CONST_FOLD, OPT_ALG_MUL_ZERO, OPT_ALG_ADD_ZERO}"
proof (cases "p = OPT_NONE")
  case True
  then show ?thesis using assms by (auto simp: nnc_3a_search_peep_pattern_def bind_res_eq_Inr quad_at_Inr_iff)
next
  case False
  with search_cases [OF assms False] show ?thesis
    by (auto dest: ref_patD part2D part3D part4D part5D part8D)
qed

section \<open>What a rewriting returns\<close>

text \<open>What holds of the value if there is one.\<close>

definition gives :: "('a \<Rightarrow> bool) \<Rightarrow> 'a res \<Rightarrow> bool" where
  "gives P r \<longleftrightarrow> (case r of Inl _ \<Rightarrow> True | Inr x \<Rightarrow> P x)"

lemma gives_simps [simp]: "gives P (Inl e)" "gives P (Inr x) = P x"
  by (simp_all add: gives_def)

lemma gives_bind: "(\<And>x. m = Inr x \<Longrightarrow> gives P (f x)) \<Longrightarrow> gives P (bind_res m f)"
  by (cases m) simp_all

lemma gives_if: "(c \<Longrightarrow> gives P x) \<Longrightarrow> (\<not> c \<Longrightarrow> gives P y) \<Longrightarrow> gives P (if c then x else y)"
  by simp

lemma givesD: "gives P r \<Longrightarrow> r = Inr x \<Longrightarrow> P x"
  by simp

text \<open>A rewriting replaces two or three quads by at most one, which has no label or that of the second.\<close>

definition shrinks :: "nnc_quad list \<Rightarrow> nat \<Rightarrow> nat \<Rightarrow> rewriting \<Rightarrow> bool" where
  "shrinks us i n r \<longleftrightarrow> (case r of (us', os, k) \<Rightarrow> us' = us \<and> k = n \<and> i + k \<le> length us \<and> length os \<le> 1 \<and>
       list_all (\<lambda>q. qlabel q \<in> {0, qlabel (us ! (i + 1))}) os)"

lemma shrinks_simp [simp]: "shrinks us i n (us', os, k) \<longleftrightarrow> us' = us \<and> k = n \<and> i + k \<le> length us \<and> length os \<le> 1 \<and>
       list_all (\<lambda>q. qlabel q \<in> {0, qlabel (us ! (i + 1))}) os"
  by (simp add: shrinks_def)

lemmas shrinks_rules = gives_bind gives_if

lemma opt_ref_subst_shrinks: "gives (shrinks us i 2) (nnc_3a_opt_ref_subst us i)"
  unfolding nnc_3a_opt_ref_subst_def by (intro gives_bind) (simp add: quad_at_Inr_iff quad3_def)

lemma opt_unary_subst_shrinks: "gives (shrinks us i 2) (nnc_3a_opt_unary_subst us i)"
  unfolding nnc_3a_opt_unary_subst_def by (intro gives_bind) (simp add: quad_at_Inr_iff quad3_def)

lemma opt_index_shrinks: "gives (shrinks us i 2) (nnc_3a_opt_index_const_fold us i)"
  unfolding nnc_3a_opt_index_const_fold_def Let_def
  by (intro gives_bind) (simp add: quad_at_Inr_iff quad3_def split: nnc_3a_op_kind.split)

lemma opt_algebraic_shrinks: "gives (shrinks us i 3) (nnc_3a_opt_algebraic p us i)"
  unfolding nnc_3a_opt_algebraic_def Let_def
  by (intro gives_bind) (simp add: quad_at_Inr_iff quad3_def split: nnc_3a_peep_pattern.split prod.split)

lemma opt_unary_branch_shrinks: "gives (shrinks us i 2) (nnc_3a_opt_unary_branch_fold us i)"
  unfolding nnc_3a_opt_unary_branch_fold_def Let_def
  by (intro gives_bind) (simp add: quad_at_Inr_iff quad3_def split: nnc_3a_op_kind.split)

lemma opt_unary_iconst_shrinks: "gives (shrinks us i 2) (nnc_3a_opt_unary_iconst_fold ts us i)"
  unfolding nnc_3a_opt_unary_iconst_fold_def Let_def
  by (intro gives_bind)
    (auto intro!: gives_bind simp: quad_at_Inr_iff quad3_def opt_unary_branch_shrinks split: nnc_3a_op_kind.split option.split)

lemma opt_unary_fconst_shrinks: "gives (shrinks us i 2) (nnc_3a_opt_unary_fconst_fold fo ts us i)"
  unfolding nnc_3a_opt_unary_fconst_fold_def Let_def
  by (intro gives_bind)
    (auto intro!: gives_bind simp: quad_at_Inr_iff quad3_def split: nnc_3a_op_kind.split nnc_type_kind.split)

lemma opt_unary_shrinks: "gives (shrinks us i 2) (nnc_3a_opt_unary_const_fold fo ts us i)"
  unfolding nnc_3a_opt_unary_const_fold_def
  by (intro gives_bind gives_if opt_unary_fconst_shrinks opt_unary_iconst_shrinks) (simp add: quad_at_Inr_iff quad3_def)

lemma branch_fold_shrinks: "i + 3 \<le> length us \<Longrightarrow> gives (shrinks us i 3) (branch_fold us q c)"
  by (simp add: branch_fold_def quad3_def)

lemma opt_binary_iconst_shrinks: "gives (shrinks us i 3) (nnc_3a_opt_binary_iconst_fold us i)"
  unfolding nnc_3a_opt_binary_iconst_fold_def nnc_3a_opt_binary_iconst_branch_fold_def Let_def
  by (intro gives_bind gives_if) (simp_all add: quad_at_Inr_iff quad3_def branch_fold_shrinks split: nnc_3a_op_kind.split)

lemma opt_binary_fconst_shrinks: "gives (shrinks us i 3) (nnc_3a_opt_binary_fconst_fold fo us i)"
  unfolding nnc_3a_opt_binary_fconst_fold_def nnc_3a_opt_binary_fconst_branch_fold_def Let_def
  by (intro gives_bind gives_if) (simp_all add: quad_at_Inr_iff quad3_def branch_fold_shrinks split: nnc_3a_op_kind.split)

lemma opt_binary_shrinks: "gives (shrinks us i 3) (nnc_3a_opt_binary_const_fold fo ts us i)"
  unfolding nnc_3a_opt_binary_const_fold_def
  by (intro gives_bind gives_if opt_binary_fconst_shrinks opt_binary_iconst_shrinks) simp

lemmas rewritings_shrink = opt_ref_subst_shrinks opt_unary_subst_shrinks opt_index_shrinks
  opt_algebraic_shrinks opt_unary_shrinks opt_binary_shrinks

definition skips :: "nnc_3a_peep_pattern \<Rightarrow> nat" where
  "skips p = (if p \<in> {OPT_BINARY_CONST_FOLD, OPT_ALG_MUL_ZERO, OPT_ALG_ADD_ZERO} then 3 else 2)"

lemma peep_result:
  assumes "nnc_3a_optimize_peep fo ts us i = Inr r"
  obtains "i < length us" "nnc_3a_search_peep_pattern us i = Inr OPT_NONE" "r = (us, [us ! i], 1)"
  | p where "i < length us" "nnc_3a_search_peep_pattern us i = Inr p" "p \<noteq> OPT_NONE" "shrinks us i (skips p) r"
proof -
  obtain p where p: "nnc_3a_search_peep_pattern us i = Inr p"
    using assms by (auto simp: nnc_3a_optimize_peep_def bind_res_eq_Inr)
  have i: "i < length us" using search_range [OF p] by simp
  show ?thesis
  proof (cases "p = OPT_NONE")
    case True
    then show ?thesis using assms p i that(1) by (simp add: nnc_3a_optimize_peep_def nnc_3a_opt_none_def)
  next
    case False
    have "gives (shrinks us i (skips p)) (nnc_3a_optimize_peep fo ts us i)"
      using search_range [OF p] p False
      by (auto simp: nnc_3a_optimize_peep_def rewritings_shrink skips_def)
    then show ?thesis using assms p i False that(2) by simp
  qed
qed

section \<open>The passes end\<close>

definition fuelled :: "'a res \<Rightarrow> bool" where
  "fuelled r \<longleftrightarrow> (case r of Inl e \<Rightarrow> e \<noteq> NoFuel | Inr _ \<Rightarrow> True)"

lemma fuelled_simps [simp]: "fuelled (Inl e) \<longleftrightarrow> e \<noteq> NoFuel" "fuelled (Inr x)"
  by (simp_all add: fuelled_def)

lemma fuelled_bind: "fuelled m \<Longrightarrow> (\<And>x. m = Inr x \<Longrightarrow> fuelled (f x)) \<Longrightarrow> fuelled (bind_res m f)"
  by (cases m) simp_all

lemma fuelled_if: "fuelled x \<Longrightarrow> fuelled y \<Longrightarrow> fuelled (if c then x else y)"
  by simp

lemma fuelled_basic: "fuelled (quad_at us i)" "fuelled (type_kind ts t)" "fuelled (type_check f ts t)"
  "fuelled (assert_res b)" "fuelled (branch_fold us q c)" "fuelled (fold_iconst o' l r)"
  by (simp_all add: quad_at_def type_kind_def type_check_def assert_res_def branch_fold_def fold_iconst_def
      split: option.split nnc_3a_op_kind.split)

lemmas fuel_rules = fuelled_bind fuelled_if fuelled_basic

lemma search_fuel: "fuelled (nnc_3a_search_peep_pattern us i)"
proof -
  have parts: "fuelled (nnc_3a_op_copy_pat_part2 us i)" "fuelled (nnc_3a_op_copy_pat_part3 us i)"
    "fuelled (nnc_3a_op_copy_pat_part4 us i)" "fuelled (nnc_3a_op_copy_pat_part5 us i)"
    "fuelled (nnc_3a_op_copy_pat_part8 us i)" "fuelled (nnc_3a_op_ref_pat us i)"
    unfolding nnc_3a_op_copy_pat_part2_def nnc_3a_op_copy_pat_part3_def nnc_3a_op_copy_pat_part4_def
      nnc_3a_op_copy_pat_part5_def nnc_3a_op_copy_pat_part8_def nnc_3a_op_ref_pat_def
    by (intro fuel_rules fuelled_simps(2))+
  have "fuelled (first_pat fs us i)" if "\<And>f. f \<in> set fs \<Longrightarrow> fuelled (f us i)" for fs
    using that by (induction fs) (auto intro!: fuel_rules)
  from this [of pat_fns] have "fuelled (first_pat pat_fns us i)" using parts by (auto simp: pat_fns_def)
  then show ?thesis using parts unfolding nnc_3a_search_peep_pattern_def nnc_3a_op_copy_pat_def
    by (intro fuel_rules) simp_all
qed

lemma opt_unary_fuel: "fuelled (nnc_3a_opt_unary_const_fold fo ts us i)"
proof -
  have b: "fuelled (nnc_3a_opt_unary_branch_fold us i)"
    unfolding nnc_3a_opt_unary_branch_fold_def Let_def
    by (intro fuel_rules) (simp split: nnc_3a_op_kind.split)
  have f: "fuelled (nnc_3a_opt_unary_fconst_fold fo ts us i)"
    unfolding nnc_3a_opt_unary_fconst_fold_def Let_def
    by (intro fuel_rules) (auto intro!: fuel_rules split: nnc_3a_op_kind.split nnc_type_kind.split)
  have n: "fuelled (nnc_3a_opt_unary_iconst_fold ts us i)"
    unfolding nnc_3a_opt_unary_iconst_fold_def Let_def
    by (intro fuel_rules) (auto intro!: fuel_rules simp: b split: nnc_3a_op_kind.split option.split)
  show ?thesis unfolding nnc_3a_opt_unary_const_fold_def by (intro fuel_rules f n) simp
qed

lemma opt_binary_fuel: "fuelled (nnc_3a_opt_binary_const_fold fo ts us i)"
proof -
  have f: "fuelled (nnc_3a_opt_binary_fconst_fold fo us i)"
    unfolding nnc_3a_opt_binary_fconst_fold_def nnc_3a_opt_binary_fconst_branch_fold_def Let_def
    by (intro fuel_rules) (simp_all add: fuelled_basic split: nnc_3a_op_kind.split)
  have n: "fuelled (nnc_3a_opt_binary_iconst_fold us i)"
    unfolding nnc_3a_opt_binary_iconst_fold_def nnc_3a_opt_binary_iconst_branch_fold_def Let_def
    by (intro fuel_rules) (simp_all add: fuelled_basic split: nnc_3a_op_kind.split)
  show ?thesis unfolding nnc_3a_opt_binary_const_fold_def by (intro fuel_rules f n) simp
qed

lemma peep_fuel: "fuelled (nnc_3a_optimize_peep fo ts us i)"
proof -
  have r: "fuelled (nnc_3a_opt_ref_subst us i)" "fuelled (nnc_3a_opt_unary_subst us i)"
    "fuelled (nnc_3a_opt_none us i)"
    unfolding nnc_3a_opt_ref_subst_def nnc_3a_opt_unary_subst_def nnc_3a_opt_none_def
    by (intro fuel_rules fuelled_simps(2))+
  have x: "fuelled (nnc_3a_opt_index_const_fold us i)"
    unfolding nnc_3a_opt_index_const_fold_def Let_def by (intro fuel_rules) (simp split: nnc_3a_op_kind.split)
  have a: "fuelled (nnc_3a_opt_algebraic p us i)" for p
    unfolding nnc_3a_opt_algebraic_def Let_def
    by (intro fuel_rules) (simp split: nnc_3a_peep_pattern.split prod.split)
  show ?thesis unfolding nnc_3a_optimize_peep_def
  proof (rule fuelled_bind [OF search_fuel])
    fix p assume "nnc_3a_search_peep_pattern us i = Inr p"
    from search_range [OF this] show "fuelled (case p of
         OPT_REF_SUBST \<Rightarrow> nnc_3a_opt_ref_subst us i
       | OPT_COPY_UNARY_SUBST \<Rightarrow> nnc_3a_opt_unary_subst us i
       | OPT_COPY_UNARY_EX_SUBST \<Rightarrow> nnc_3a_opt_unary_ex_subst us i
       | OPT_COPY_BINARY_SUBST \<Rightarrow> nnc_3a_opt_binary_subst p us i
       | OPT_COPY_BINARY_L_SUBST \<Rightarrow> nnc_3a_opt_binary_subst p us i
       | OPT_COPY_BINARY_R_SUBST \<Rightarrow> nnc_3a_opt_binary_subst p us i
       | OPT_UNARY_CONST_FOLD \<Rightarrow> nnc_3a_opt_unary_const_fold fo ts us i
       | OPT_BINARY_CONST_FOLD \<Rightarrow> nnc_3a_opt_binary_const_fold fo ts us i
       | OPT_INDEX_CONST_FOLD \<Rightarrow> nnc_3a_opt_index_const_fold us i
       | OPT_ALG_MUL_ONE \<Rightarrow> nnc_3a_opt_algebraic p us i
       | OPT_ALG_ADD_ZERO \<Rightarrow> nnc_3a_opt_algebraic p us i
       | OPT_ALG_MUL_ZERO \<Rightarrow> nnc_3a_opt_algebraic p us i
       | OPT_ALG_MUL_POW_TWO \<Rightarrow> nnc_3a_opt_algebraic p us i
       | OPT_ALG_MOD_POW_TWO \<Rightarrow> nnc_3a_opt_algebraic p us i
       | OPT_NONE \<Rightarrow> nnc_3a_opt_none us i)"
      by (auto simp: r x a opt_unary_fuel opt_binary_fuel)
  qed
qed

lemma peep_step:
  assumes "nnc_3a_optimize_peep fo ts us i = Inr (us', os, k)"
  shows "us' = us \<and> i < length us \<and> 1 \<le> k \<and> length os \<le> k \<and> i + k \<le> length us \<and>
    (length os = k \<longrightarrow> k = 1 \<and> os = [us ! i] \<and> nnc_3a_search_peep_pattern us i = Inr OPT_NONE)"
  using assms by (cases rule: peep_result) (auto simp: skips_def split: if_splits)

lemma pass_fuel: "length us \<le> n + i \<Longrightarrow> fuelled (pass_loop n fo ts us i)"
proof (induction n arbitrary: i)
  case 0
  then show ?case by (subst pass_loop.simps) simp
next
  case (Suc n)
  show ?case
  proof (cases "length us \<le> i")
    case True
    then show ?thesis by (subst pass_loop.simps) simp
  next
    case False
    have "fuelled (bind_res (nnc_3a_optimize_peep fo ts us i) (\<lambda>(us', os, k).
          bind_res (pass_loop n fo ts us' (i + k)) (\<lambda>os'. Inr (os @ os'))))"
    proof (rule fuelled_bind [OF peep_fuel])
      fix x assume x: "nnc_3a_optimize_peep fo ts us i = Inr x"
      obtain us' os k where xd: "x = (us', os, k)" by (cases x)
      have "us' = us" "1 \<le> k" using peep_step [OF x [unfolded xd]] by simp_all
      then show "fuelled (case x of (us', os, k) \<Rightarrow> bind_res (pass_loop n fo ts us' (i + k)) (\<lambda>os'. Inr (os @ os')))"
        using Suc.IH [of "i + k"] Suc.prems xd by (auto intro!: fuelled_bind)
    qed
    then show ?thesis using False by (subst pass_loop.simps) simp
  qed
qed

lemma pass_loop_step:
  assumes "pass_loop n fo ts us i = Inr os" "i < length us"
  obtains n' os1 k os2 where "n = Suc n'" "nnc_3a_optimize_peep fo ts us i = Inr (us, os1, k)"
    "pass_loop n' fo ts us (i + k) = Inr os2" "os = os1 @ os2" "1 \<le> k" "length os1 \<le> k"
proof -
  obtain n' where n: "n = Suc n'" using assms by (subst (asm) pass_loop.simps) (auto split: nat.splits)
  obtain us' os1 k os2 where p: "nnc_3a_optimize_peep fo ts us i = Inr (us', os1, k)"
    "pass_loop n' fo ts us' (i + k) = Inr os2" "os = os1 @ os2"
    using assms n by (subst (asm) pass_loop.simps) (auto simp: bind_res_eq_Inr)
  have u: "us' = us" "1 \<le> k" "length os1 \<le> k" using peep_step [OF p(1)] by simp_all
  show ?thesis by (rule that [OF n p(1) [unfolded u(1)] p(2) [unfolded u(1)] p(3) u(2,3)])
qed

lemma pass_loop_end: "length us \<le> i \<Longrightarrow> pass_loop n fo ts us i = Inr []"
  by (subst pass_loop.simps) simp

definition settled :: "nnc_quad list \<Rightarrow> nat \<Rightarrow> bool" where
  "settled us i \<longleftrightarrow> nnc_3a_search_peep_pattern us i = Inr OPT_NONE"

lemma pass_loop_length:
  assumes "pass_loop n fo ts us i = Inr os" "i \<le> length us"
  shows "length os \<le> length us - i \<and>
    (length os = length us - i \<longrightarrow> os = drop i us \<and> list_all (settled us) [i..<length us])"
  using assms
proof (induction "length us - i" arbitrary: n i os rule: less_induct)
  case less
  show ?case
  proof (cases "i < length us")
    case False
    then show ?thesis using less.prems pass_loop_end [of us i n fo ts] by simp
  next
    case True
    obtain n' os1 k os2 where s: "n = Suc n'" "nnc_3a_optimize_peep fo ts us i = Inr (us, os1, k)"
      "pass_loop n' fo ts us (i + k) = Inr os2" "os = os1 @ os2" "1 \<le> k" "length os1 \<le> k"
      using pass_loop_step [OF less.prems(1) True] .
    show ?thesis
    proof (cases "i + k \<le> length us")
      case False
      then show ?thesis using peep_step [OF s(2)] by simp
    next
      case le: True
      have IH: "length os2 \<le> length us - (i + k) \<and>
          (length os2 = length us - (i + k) \<longrightarrow> os2 = drop (i + k) us \<and> list_all (settled us) [i + k..<length us])"
        using less.hyps [of "i + k" n' os2] s(3,5) le True by simp
      have "length os1 + length os2 \<le> k + (length us - (i + k))" using IH s(6) by (intro add_mono) simp_all
      then have "length os \<le> length us - i" using s(4) le by simp
      moreover have "os = drop i us \<and> list_all (settled us) [i..<length us]" if "length os = length us - i"
      proof -
        have "length os1 + length os2 = k + (length us - (i + k))" using that s(4) le by simp
        then have l: "length os1 = k" "length os2 = length us - (i + k)" using IH s(6) by linarith+
        have one: "k = 1 \<and> os1 = [us ! i] \<and> settled us i" using peep_step [OF s(2)] l(1) by (simp add: settled_def)
        have "[i..<length us] = i # [i + 1..<length us]" using True by (simp add: upt_rec)
        then show ?thesis using one l IH s(4) True by (simp add: Cons_nth_drop_Suc)
      qed
      ultimately show ?thesis by blast
    qed
  qed
qed

lemma pass_result:
  assumes "nnc_3a_optimization_pass fo ts us = Inr (os, k)"
  shows "length os + k = length us \<and> (k = 0 \<longrightarrow> os = us \<and> list_all (settled us) [0..<length us])"
proof -
  have p: "pass_loop (length us) fo ts us 0 = Inr os" "k = length us - length os"
    using assms by (auto simp: nnc_3a_optimization_pass_def bind_res_eq_Inr)
  show ?thesis using pass_loop_length [OF p(1)] p(2) by auto
qed

lemma opt_loop_result:
  assumes "length us \<le> n"
  shows "case opt_loop n fo ts us r of Inl e \<Rightarrow> e \<noteq> NoFuel
    | Inr (os, k) \<Rightarrow> length os + k = length us + r \<and> list_all (settled os) [0..<length os]"
  using assms
proof (induction n arbitrary: us r)
  case 0
  have "opt_loop 0 fo ts [] r = Inr ([], r)"
    by (subst opt_loop.simps) (simp add: nnc_3a_optimization_pass_def pass_loop_end)
  then show ?case using 0 by simp
next
  case (Suc n)
  show ?case
  proof (cases "nnc_3a_optimization_pass fo ts us")
    case (Inl e)
    have "fuelled (nnc_3a_optimization_pass fo ts us)"
      unfolding nnc_3a_optimization_pass_def by (intro fuelled_bind pass_fuel) simp_all
    then show ?thesis using Inl by (subst opt_loop.simps) simp
  next
    case (Inr x)
    obtain os k where x: "x = (os, k)" by (cases x)
    have res: "length os + k = length us" "k = 0 \<longrightarrow> os = us \<and> list_all (settled us) [0..<length us]"
      using pass_result Inr x by blast+
    show ?thesis
    proof (cases "k = 0")
      case True
      then show ?thesis using Inr x res by (subst opt_loop.simps) simp
    next
      case False
      then have "length os \<le> n" using Suc.prems res by simp
      from Suc.IH [OF this, of "r + k"] show ?thesis
        using Inr x False res by (subst opt_loop.simps) (auto split: sum.splits)
    qed
  qed
qed



section \<open>Reading behind the code\<close>

lemma search_in_bounds:
  assumes "i < length us" "i + 1 < length us \<or> qop (us ! i) \<notin> {OP_COPY, OP_REF}"
  shows "\<exists>p. nnc_3a_search_peep_pattern us i = Inr p"
proof -
  have "\<exists>p. nnc_3a_op_ref_pat us i = Inr p" "\<exists>p. nnc_3a_op_copy_pat_part2 us i = Inr p"
    "\<exists>p. nnc_3a_op_copy_pat_part3 us i = Inr p" "\<exists>p. nnc_3a_op_copy_pat_part4 us i = Inr p"
    "\<exists>p. nnc_3a_op_copy_pat_part5 us i = Inr p" "\<exists>p. nnc_3a_op_copy_pat_part8 us i = Inr p"
    if "i + 1 < length us"
    unfolding nnc_3a_op_copy_pat_part2_def nnc_3a_op_copy_pat_part3_def nnc_3a_op_copy_pat_part4_def
      nnc_3a_op_copy_pat_part5_def nnc_3a_op_copy_pat_part8_def nnc_3a_op_ref_pat_def
    using that by simp_all
  note parts = this
  have "\<exists>p. first_pat fs us i = Inr p" if "\<And>f. f \<in> set fs \<Longrightarrow> \<exists>p. f us i = Inr p" for fs
    using that
  proof (induction fs)
    case Nil
    then show ?case by simp
  next
    case (Cons f fs)
    obtain p where p: "f us i = Inr p" using Cons.prems [of f] by auto
    have "\<exists>p. first_pat fs us i = Inr p" using Cons by simp
    then show ?case using p by (cases "p = OPT_NONE") simp_all
  qed
  from this [of pat_fns] have "\<exists>p. first_pat pat_fns us i = Inr p" if "i + 1 < length us"
    using parts [OF that] by (auto simp: pat_fns_def)
  then show ?thesis using parts assms
    by (auto simp: nnc_3a_search_peep_pattern_def nnc_3a_op_copy_pat_def)
qed

lemma pattern_before_return:
  assumes "nnc_3a_optimize_peep fo ts us i = Inr (us, os, k)" "qop (last us) \<in> {OP_RETP, OP_RETF}"
  shows "i + k < length us \<or> i + k = length us \<and> os = [last us]"
  using assms(1)
proof (cases rule: peep_result)
  case 1
  have "us ! i = last us" if "i + 1 = length us"
    using that 1(1) by (metis add_diff_cancel_right' last_conv_nth list.size(3) not_less_zero)
  then show ?thesis using 1 by (cases "i + 1 = length us") auto
next
  case (2 p)
  have l: "qop (us ! (length us - 1)) \<in> {OP_RETP, OP_RETF}"
    using assms(2) 2(1) by (metis last_conv_nth length_0_conv not_less_zero)
  have "i + k \<noteq> length us"
  proof
    assume e: "i + k = length us"
    have k: "k = skips p" using 2(4) by simp
    have le: "length us - 1 = i + (k - 1)" using e k by (auto simp: skips_def)
    have "qop (us ! (i + (skips p - 1))) \<notin> {OP_RETP, OP_RETF}"
      using search_cases [OF 2(2,3)] 2(3)
      by (auto dest!: ref_patD part2D part3D part4D part5D part8D
          simp: OP_UNARY_JUMP_def OP_UNARY_def part8_ops_def OP_BINARY_JUMP_def OP_BINARY_def skips_def
          split: if_splits)
    then show False using l le k by simp
  qed
  then show ?thesis using 2(4) by simp
qed

lemma pass_keeps_return:
  assumes "pass_loop n fo ts us i = Inr os" "i < length us" "qop (last us) \<in> {OP_RETP, OP_RETF}"
  shows "os \<noteq> [] \<and> last os = last us"
  using assms(1,2)
proof (induction "length us - i" arbitrary: n i os rule: less_induct)
  case less
  obtain n' os1 k os2 where s: "n = Suc n'" "nnc_3a_optimize_peep fo ts us i = Inr (us, os1, k)"
    "pass_loop n' fo ts us (i + k) = Inr os2" "os = os1 @ os2" "1 \<le> k"
    using pass_loop_step [OF less.prems] by metis
  show ?case
  proof (cases "i + k < length us")
    case True
    then have "os2 \<noteq> [] \<and> last os2 = last us" using less.hyps [of "i + k" n' os2] s(3,5) by simp
    then show ?thesis using s(4) by simp
  next
    case False
    then show ?thesis using pattern_before_return [OF s(2) assms(3)] s(3,4) pass_loop_end [of us "i + k" n' fo ts]
      by simp
  qed
qed

text \<open>
  C39. On code that ends with a return no pattern reads behind the end of the array, and the
  code after the pass ends with the same return, so neither does any later pass.
\<close>

theorem pass_in_bounds:
  assumes "us \<noteq> []" "qop (last us) \<in> {OP_RETP, OP_RETF}"
  shows "(\<forall>i<length us. \<exists>p. nnc_3a_search_peep_pattern us i = Inr p) \<and>
    (\<forall>os k. nnc_3a_optimization_pass fo ts us = Inr (os, k) \<longrightarrow> os \<noteq> [] \<and> last os = last us)"
proof (intro conjI allI impI)
  fix i assume i: "i < length us"
  have "qop (us ! (length us - 1)) \<in> {OP_RETP, OP_RETF}" using assms by (metis last_conv_nth)
  then have "i + 1 < length us \<or> qop (us ! i) \<notin> {OP_COPY, OP_REF}"
    using i by (cases "i = length us - 1") auto
  then show "\<exists>p. nnc_3a_search_peep_pattern us i = Inr p" by (rule search_in_bounds [OF i])
next
  fix os k assume "nnc_3a_optimization_pass fo ts us = Inr (os, k)"
  then have "pass_loop (length us) fo ts us 0 = Inr os"
    by (auto simp: nnc_3a_optimization_pass_def bind_res_eq_Inr)
  from pass_keeps_return [OF this _ assms(2)] assms(1) show "os \<noteq> []" "last os = last us" by auto
qed

definition safe_example :: "nnc_quad list" where
  "safe_example = [quad2 OP_COPY (cgt_addr 1 (Some i32_type)) (nnc_3a_mki2 7 (Some i32_type)),
     quad2 OP_RETF no_addr (cgt_addr 1 (Some i32_type))]"

theorem pass_in_bounds_witness:
  "list_all (\<lambda>i. \<exists>p. nnc_3a_search_peep_pattern safe_example i = Inr p) [0..<length safe_example]"
proof -
  have "safe_example \<noteq> []" "qop (last safe_example) \<in> {OP_RETP, OP_RETF}"
    by (simp_all add: safe_example_def quad3_def)
  from pass_in_bounds [OF this] show ?thesis by (auto simp: list_all_iff)
qed


end
