(* ===== verification/Nnc_Opt_Sem.thy ===== *)
theory Nnc_Opt_Sem
  imports Nnc_Opt
begin

text \<open>
  What a pass of the optimizer preserves. The rewritings drop the definitions of temporaries
  and compare the numbers of temporaries without looking at the kinds of addresses, and they
  fold with unsigned arithmetic; \<open>passable\<close> says when none of this does harm, and for such code
  the optimized code has the same runs, up to temporaries that are not live.
\<close>

section \<open>Liveness\<close>

definition reads :: "nnc_quad \<Rightarrow> u64 list" where
  "reads q = map exact (filter is_cgt ([arg1 q, arg2 q] @ (if qop q = OP_DEREF_COPY then [qres q] else [])))"

definition writes :: "nnc_quad \<Rightarrow> u64 list" where
  "writes q = (if is_jump q \<or> qop q \<in> {OP_NONE, OP_RETP, OP_RETF, OP_DEREF_COPY} \<or> \<not> is_cgt (qres q)
     then [] else [exact (qres q)])"

text \<open>
  \<open>L None\<close> are the temporaries used behind the end of the code, \<open>L (Some l)\<close> those used from
  label \<open>l\<close> on.
\<close>

type_synonym live_at = "u32 option \<Rightarrow> u64 \<Rightarrow> bool"

fun live :: "live_at \<Rightarrow> u64 \<Rightarrow> nnc_quad list \<Rightarrow> bool" where
  "live L c [] \<longleftrightarrow> L None c"
| "live L c (q # qs) \<longleftrightarrow> c \<in> set (reads q) \<or> is_jump q \<and> L (Some (jump_label q)) c \<or>
     c \<notin> set (writes q) \<and> \<not> stops q \<and> live L c qs"

definition agree :: "(u64 \<Rightarrow> bool) \<Rightarrow> 'w mstate \<Rightarrow> 'w mstate \<Rightarrow> bool" where
  "agree A s s' \<longleftrightarrow> mem s = mem s' \<and> world s = world s' \<and> (\<forall>c. A c \<longrightarrow> tmps s c = tmps s' c)"

fun agree_res :: "(u64 \<Rightarrow> bool) \<Rightarrow> live_at \<Rightarrow> 'w outcome \<Rightarrow> 'w outcome \<Rightarrow> bool" where
  "agree_res A L (Next s) (Next s') \<longleftrightarrow> agree A s s'"
| "agree_res A L (Goto l s) (Goto l' s') \<longleftrightarrow> l = l' \<and> agree (L (Some l)) s s'"
| "agree_res A L (Done v s) (Done v' s') \<longleftrightarrow> v = v' \<and> agree (\<lambda>c. False) s s'"
| "agree_res A L Trap Trap \<longleftrightarrow> True"
| "agree_res A L _ _ \<longleftrightarrow> False"

lemma agree_mono: "agree B s s' \<Longrightarrow> (\<And>c. A c \<Longrightarrow> B c) \<Longrightarrow> agree A s s'"
  by (auto simp: agree_def)

lemma agree_refl [simp]: "agree A s s"
  by (simp add: agree_def)

lemma agree_aval:
  assumes "agree A s s'" "is_cgt a \<Longrightarrow> A (exact a)"
  shows "aval M s a = aval M s' a"
  using assms by (auto simp: agree_def aval_def is_cgt_def split: nnc_3a_addr_kind.splits)

lemma agree_aput:
  assumes "agree B s s'" "\<And>c. A c \<Longrightarrow> B c \<or> is_cgt a \<and> c = exact a"
  shows "agree A (aput M a v s) (aput M a v s')"
  using assms by (auto simp: agree_def aput_def is_cgt_def split: nnc_3a_addr_kind.splits)

text \<open>One quad on two states that agree on enough temporaries.\<close>

lemma exec_op_agree:
  assumes "agree B s s'"
    and "\<And>c. A c \<Longrightarrow> \<not> stops q \<Longrightarrow> B c \<or> c \<in> set (writes q)"
    and "\<And>c. is_jump q \<Longrightarrow> L (Some (jump_label q)) c \<Longrightarrow> B c"
  shows "agree_res A L (exec_op M q a b r s) (exec_op M q a b r s')"
proof -
  have jump: "agree_res A L (if c then Goto (jump_label q) s else Next s) (if c then Goto (jump_label q) s' else Next s')"
    if "is_jump q" "c \<or> \<not> stops q" for c
    using assms that by (auto simp: writes_def agree_def)
  have dom: "B c \<or> is_cgt (qres q) \<and> c = exact (qres q)"
    if "\<not> is_jump q" "qop q \<notin> {OP_NONE, OP_RETP, OP_RETF, OP_DEREF_COPY}" "A c" for c
  proof -
    have "\<not> stops q" using that by (auto simp: stops_def is_jump_def)
    then show ?thesis using assms(2) [OF that(3)] that by (auto simp: writes_def split: if_splits)
  qed
  have put: "agree_res A L (Next (aput M (qres q) v s)) (Next (aput M (qres q) v s'))"
    if "\<not> is_jump q" "qop q \<notin> {OP_NONE, OP_RETP, OP_RETF, OP_DEREF_COPY}" for v
    using agree_aput [OF assms(1), of A "qres q"] dom [OF that] by auto
  have m: "mem s = mem s'" "world s = world s'" using assms(1) by (simp_all add: agree_def)
  consider "is_jump q" | "qop q \<in> {OP_NONE, OP_RETP, OP_RETF, OP_DEREF_COPY}"
    | "\<not> is_jump q" "qop q \<notin> {OP_NONE, OP_RETP, OP_RETF, OP_DEREF_COPY}" by blast
  then show ?thesis
  proof cases
    case 1
    have "jump_taken M q a b \<or> \<not> stops q" using 1 by (auto simp: jump_taken_def stops_def is_jump_def op_groups)
    then show ?thesis using jump [OF 1] by (simp add: exec_op_jump [OF 1])
  next
    case 2
    have "writes q = []" using 2 by (simp add: writes_def)
    then have sub: "A c \<Longrightarrow> \<not> stops q \<Longrightarrow> B c" for c using assms(2) [of c] by simp
    have ns: "qop q \<in> {OP_NONE, OP_DEREF_COPY} \<Longrightarrow> \<not> stops q" by (auto simp: stops_def)
    show ?thesis
    proof (cases "qop q \<in> {OP_NONE, OP_DEREF_COPY}")
      case True
      have "agree A s s'" using agree_mono [OF assms(1)] sub ns [OF True] by blast
      then show ?thesis using True by (auto simp: exec_op_def op_groups agree_def)
    next
      case False
      then show ?thesis using 2 assms(1) by (auto simp: exec_op_def op_groups agree_def)
    qed
  next
    case 3
    have out: "agree_res A L (case outside M q a b (mem s) (world s) of (v, m', w') \<Rightarrow>
              Next (aput M (qres q) v (s\<lparr>mem := m', world := w'\<rparr>)))
        (case outside M q a b (mem s) (world s) of (v, m', w') \<Rightarrow>
              Next (aput M (qres q) v (s'\<lparr>mem := m', world := w'\<rparr>)))"
    proof -
      obtain v m' w' where o': "outside M q a b (mem s) (world s) = (v, m', w')" by (cases "outside M q a b (mem s) (world s)")
      have "agree B (s\<lparr>mem := m', world := w'\<rparr>) (s'\<lparr>mem := m', world := w'\<rparr>)" using assms(1) by (simp add: agree_def)
      then show ?thesis using o' m agree_aput [of B _ _ A "qres q"] dom [OF 3] by auto
    qed
    have s: "qop q \<notin> set OP_UNARY_JUMP" "qop q \<notin> set OP_BINARY_JUMP" "qop q \<noteq> OP_UJUMP"
      using 3(1) by (auto simp: is_jump_def)
    then have s': "qop q \<noteq> OP_CJUMPT" "qop q \<noteq> OP_CJUMPF" by (auto simp: op_groups)
    show ?thesis using 3(2) s s' put [OF 3] out m
      by (auto simp: exec_op_def Let_def split: option.split)
  qed
qed

section \<open>Code on which a pass does no harm\<close>

definition folds :: "nnc_quad \<Rightarrow> bool" where
  "folds q \<longleftrightarrow> qop q \<in> set (OP_CAST # OP_UNARY @ OP_UNARY_JUMP @ OP_BINARY @ OP_BINARY_JUMP)"

definition sign_sensitive :: "nnc_3a_op_kind list" where
  "sign_sensitive = [OP_DIV, OP_MOD, OP_SHR, OP_CJUMPLT, OP_CJUMPGT, OP_CJUMPLTE, OP_CJUMPGTE]"

text \<open>
  Computations have integral types, unsigned ones where signedness matters; no quad reads a
  temporary twice; only names have their address taken; labels stand on empty quads of their own.
\<close>

definition quad_ok :: "types \<Rightarrow> nnc_quad \<Rightarrow> bool" where
  "quad_ok ts q \<longleftrightarrow>
     (folds q \<longrightarrow> type_check nnc_real_type ts (atype (qres q)) = Inr False \<and>
        type_check nnc_integral_type ts (atype (qres q)) = Inr True) \<and>
     (qop q \<in> set sign_sensitive \<longrightarrow> type_check nnc_signed_type ts (atype (qres q)) = Inr False) \<and>
     distinct (reads q) \<and>
     (qop q = OP_REF \<longrightarrow> akind (arg1 q) = ADDR_NAME) \<and>
     (qlabel q \<noteq> 0 \<longrightarrow> qop q = OP_NONE \<and> akind (arg1 q) = ADDR_NONE) \<and>
     (is_jump q \<longrightarrow> jump_label q \<noteq> 0)"

definition cgt_copy :: "nnc_quad \<Rightarrow> bool" where
  "cgt_copy q \<longleftrightarrow> qop q = OP_COPY \<and> is_cgt (qres q)"

text \<open>No number of a temporary is compared with something that is no temporary.\<close>

definition no_pun2 :: "nnc_quad \<Rightarrow> nnc_quad \<Rightarrow> bool" where
  "no_pun2 q q2 \<longleftrightarrow>
     (cgt_copy q \<and> folds q2 \<longrightarrow> (same_cgt (qres q) (arg1 q2) \<longrightarrow> is_cgt (arg1 q2)) \<and>
        (same_cgt (qres q) (arg2 q2) \<longrightarrow> is_cgt (arg2 q2))) \<and>
     (const_kind (arg1 q) \<and> \<not> cgt_copy q \<longrightarrow> \<not> same_cgt (qres q) (arg2 q2))"

definition no_pun3 :: "nnc_quad \<Rightarrow> nnc_quad \<Rightarrow> bool" where
  "no_pun3 q q3 \<longleftrightarrow>
     (cgt_copy q \<and> folds q3 \<longrightarrow> same_cgt (qres q) (arg1 q3) \<longrightarrow> is_cgt (arg1 q3)) \<and>
     (qop q = OP_COPY \<and> \<not> is_cgt (qres q) \<longrightarrow> \<not> same_cgt (qres q) (arg1 q3))"

text \<open>A temporary that a copy defines is not used again after one of the next two quads read it.\<close>

definition live_after :: "live_at \<Rightarrow> u64 \<Rightarrow> nnc_quad \<Rightarrow> nnc_quad list \<Rightarrow> bool" where
  "live_after L c q rest \<longleftrightarrow> is_jump q \<and> L (Some (jump_label q)) c \<or> \<not> stops q \<and> live L c rest"

definition spent :: "live_at \<Rightarrow> nnc_quad \<Rightarrow> nnc_quad \<Rightarrow> nnc_quad list \<Rightarrow> bool" where
  "spent L q q' rest \<longleftrightarrow>
     (qop q \<in> {OP_COPY, OP_REF} \<and> is_cgt (qres q) \<and> exact (qres q) \<in> set (reads q') \<longrightarrow>
      exact (qres q) \<in> set (writes q') \<or> \<not> live_after L (exact (qres q)) q' rest)"

fun passable :: "types \<Rightarrow> live_at \<Rightarrow> nnc_quad list \<Rightarrow> bool" where
  "passable ts L [] \<longleftrightarrow> True"
| "passable ts L [q] \<longleftrightarrow> quad_ok ts q"
| "passable ts L [q, q2] \<longleftrightarrow> quad_ok ts q \<and> no_pun2 q q2 \<and> spent L q q2 [] \<and> passable ts L [q2]"
| "passable ts L (q # q2 # q3 # qs) \<longleftrightarrow> quad_ok ts q \<and> no_pun2 q q2 \<and> spent L q q2 (q3 # qs) \<and>
     no_pun3 q q3 \<and> spent L q q3 qs \<and> passable ts L (q2 # q3 # qs)"

lemma passable_Cons: "passable ts L (q # qs) \<Longrightarrow> quad_ok ts q \<and> passable ts L qs"
  by (cases "(ts, L, q # qs)" rule: passable.cases) auto

lemma passable_drop: "passable ts L us \<Longrightarrow> passable ts L (drop n us)"
proof (induction n arbitrary: us)
  case 0
  then show ?case by simp
next
  case (Suc n)
  then show ?case by (cases us) (auto dest: passable_Cons)
qed

lemma passable2: "passable ts L (q # q2 # qs) \<Longrightarrow> quad_ok ts q2 \<and> no_pun2 q q2 \<and> spent L q q2 qs"
  by (cases qs) (auto dest: passable_Cons)

lemma passable3: "passable ts L (q # q2 # q3 # qs) \<Longrightarrow>
    quad_ok ts q3 \<and> no_pun2 q q2 \<and> no_pun2 q2 q3 \<and> no_pun3 q q3 \<and> spent L q q3 qs \<and> spent L q2 q3 qs"
  using passable2 [of ts L q2 q3 qs] by simp

section \<open>The machine of the types\<close>

definition const_cast :: "types \<Rightarrow> tref option \<Rightarrow> u64 \<Rightarrow> u64" where
  "const_cast ts t v = (case type_kind ts t of Inl _ \<Rightarrow> v
     | Inr k \<Rightarrow> (case cast_const k v of None \<Rightarrow> v | Some w \<Rightarrow> w))"

definition nnc_machine :: "types \<Rightarrow> (string \<Rightarrow> u64) \<Rightarrow>
    (nnc_quad \<Rightarrow> u64 \<Rightarrow> u64 \<Rightarrow> (u64 \<Rightarrow> u64) \<Rightarrow> 'w \<Rightarrow> u64 \<times> (u64 \<Rightarrow> u64) \<times> 'w) \<Rightarrow> 'w machine" where
  "nnc_machine ts plc out = \<lparr>place = plc, signed_at = (\<lambda>t. type_check nnc_signed_type ts t = Inr True),
     cast_at = const_cast ts, outside = out\<rparr>"

locale typed_machine =
  fixes ts :: types and M :: "'w machine"
  assumes cast_law: "type_kind ts t = Inr k \<Longrightarrow> cast_const k v = Some w \<Longrightarrow> cast_at M t v = w"
    and sign_law: "signed_at M t \<longleftrightarrow> type_check nnc_signed_type ts t = Inr True"
begin

lemma exec1_def_cgt:
  assumes "qop q = OP_COPY" "is_cgt (qres q)"
  shows "exec1 M q s = Next (s\<lparr>tmps := (tmps s)(exact (qres q) := aval M s (arg1 q))\<rparr>)"
  using assms by (simp add: exec1_def exec_op_def aput_def is_cgt_def)

lemma exec1_ref_cgt:
  assumes "qop q = OP_REF" "is_cgt (qres q)"
  shows "exec1 M q s = Next (s\<lparr>tmps := (tmps s)(exact (qres q) := place M (aname (arg1 q)))\<rparr>)"
  using assms by (simp add: exec1_def exec_op_def aput_def is_cgt_def op_groups)

lemma exec_single: "exec M [q] s = exec1 M q s"
  by (simp split: outcome.split)

text \<open>Leaving out the definition of one temporary.\<close>

lemma drop_one:
  assumes ag: "agree (\<lambda>x. live L x (q1 # q2 # rest)) s s'"
    and q1: "qop q1 \<in> {OP_COPY, OP_REF}" "is_cgt (qres q1)" "exact (qres q1) = c"
    and sp: "spent L q1 q2 rest" "c \<in> set (reads q2)"
    and s1: "s1 = s\<lparr>tmps := (tmps s)(c := v)\<rparr>"
  shows "agree (\<lambda>x. x \<noteq> c \<and> live L x (q2 # rest)) s1 s'"
    and "agree_res (\<lambda>x. live L x rest) L (exec_op M q2 a b r s1) (exec_op M q2 a b r s')"
proof -
  have w: "writes q1 = [c]" "\<not> is_jump q1" "\<not> stops q1"
    using q1 by (auto simp: writes_def is_jump_def stops_def op_groups)
  show B: "agree (\<lambda>x. x \<noteq> c \<and> live L x (q2 # rest)) s1 s'"
    using ag w by (auto simp: agree_def s1)
  show "agree_res (\<lambda>x. live L x rest) L (exec_op M q2 a b r s1) (exec_op M q2 a b r s')"
  proof (rule exec_op_agree [OF B])
    fix x assume "live L x rest" "\<not> stops q2"
    then show "x \<noteq> c \<and> live L x (q2 # rest) \<or> x \<in> set (writes q2)"
      using sp q1 by (auto simp: spent_def live_after_def)
  next
    fix x assume j: "is_jump q2" "L (Some (jump_label q2)) x"
    then have "writes q2 = []" by (simp add: writes_def)
    then show "x \<noteq> c \<and> live L x (q2 # rest)" using j sp q1 by (auto simp: spent_def live_after_def)
  qed
qed

text \<open>Leaving out two definitions.\<close>

lemma drop_two:
  assumes ag: "agree (\<lambda>x. live L x (q1 # q2 # q3 # rest)) s s'"
    and q1: "qop q1 = OP_COPY" "is_cgt (qres q1)" "exact (qres q1) = c1"
    and q2: "qop q2 = OP_COPY" "is_cgt (qres q2)" "exact (qres q2) = c2"
    and sp: "spent L q1 q3 rest" "c1 \<in> set (reads q3)" "spent L q2 q3 rest" "c2 \<in> set (reads q3)"
    and s2: "s2 = s\<lparr>tmps := (tmps s)(c1 := v1, c2 := v2)\<rparr>"
  shows "agree (\<lambda>x. x \<noteq> c1 \<and> x \<noteq> c2 \<and> live L x (q3 # rest)) s2 s'"
    and "agree_res (\<lambda>x. live L x rest) L (exec_op M q3 a b r s2) (exec_op M q3 a b r s')"
proof -
  have w: "writes q1 = [c1]" "\<not> is_jump q1" "\<not> stops q1" "writes q2 = [c2]" "\<not> is_jump q2" "\<not> stops q2"
    using q1 q2 by (auto simp: writes_def is_jump_def stops_def op_groups)
  show B: "agree (\<lambda>x. x \<noteq> c1 \<and> x \<noteq> c2 \<and> live L x (q3 # rest)) s2 s'"
    using ag w by (auto simp: agree_def s2)
  show "agree_res (\<lambda>x. live L x rest) L (exec_op M q3 a b r s2) (exec_op M q3 a b r s')"
  proof (rule exec_op_agree [OF B])
    fix x assume "live L x rest" "\<not> stops q3"
    then show "x \<noteq> c1 \<and> x \<noteq> c2 \<and> live L x (q3 # rest) \<or> x \<in> set (writes q3)"
      using sp q1 q2 by (auto simp: spent_def live_after_def)
  next
    fix x assume j: "is_jump q3" "L (Some (jump_label q3)) x"
    then have "writes q3 = []" by (simp add: writes_def)
    then show "x \<noteq> c1 \<and> x \<noteq> c2 \<and> live L x (q3 # rest)" using j sp q1 q2 by (auto simp: spent_def live_after_def)
  qed
qed

end

interpretation nm: typed_machine ts "nnc_machine ts plc out" for ts plc out
  by unfold_locales (simp_all add: nnc_machine_def const_cast_def)


section \<open>Each rewriting\<close>

lemma reads_arg1: "is_cgt (arg1 q) \<Longrightarrow> exact (arg1 q) \<in> set (reads q)"
  and reads_arg2: "is_cgt (arg2 q) \<Longrightarrow> exact (arg2 q) \<in> set (reads q)"
  and reads_res: "qop q = OP_DEREF_COPY \<Longrightarrow> is_cgt (qres q) \<Longrightarrow> exact (qres q) \<in> set (reads q)"
  by (auto simp: reads_def)

lemma distinct_args: "distinct (reads q) \<Longrightarrow> is_cgt (arg1 q) \<Longrightarrow> is_cgt (arg2 q) \<Longrightarrow> exact (arg1 q) \<noteq> exact (arg2 q)"
  and distinct_arg1_res: "distinct (reads q) \<Longrightarrow> qop q = OP_DEREF_COPY \<Longrightarrow> is_cgt (arg1 q) \<Longrightarrow>
    is_cgt (qres q) \<Longrightarrow> exact (arg1 q) \<noteq> exact (qres q)"
  by (auto simp: reads_def split: if_splits)

lemma aval_cgt: "is_cgt a \<Longrightarrow> aval M s a = tmps s (exact a)"
  by (simp add: aval_def is_cgt_def)

lemma aval_const: "const_kind a \<Longrightarrow> aval M s a = exact a"
  by (auto simp: aval_def const_kind_def)

context typed_machine
begin

lemma subst_sound:
  assumes ag: "agree (\<lambda>x. live L x (q1 # q2 # rest)) s s'"
    and q1: "qop q1 = OP_COPY" "is_cgt (qres q1)"
    and q2: "qop q2 \<in> set part8_ops" "is_cgt (arg1 q2)" "exact (arg1 q2) = exact (qres q1)"
    and ok: "distinct (reads q2)" "spent L q1 q2 rest"
  shows "agree_res (\<lambda>x. live L x rest) L (exec M [q1, q2] s) (exec M [q2\<lparr>arg1 := arg1 q1\<rparr>] s')"
proof -
  define c where "c = exact (qres q1)"
  define v where "v = aval M s (arg1 q1)"
  define s1 where "s1 = s\<lparr>tmps := (tmps s)(c := v)\<rparr>"
  have c: "c \<in> set (reads q2)" using reads_arg1 [OF q2(2)] q2(3) by (simp add: c_def)
  note drop = drop_one [OF ag _ q1(2) c_def [symmetric] ok(2) c s1_def]
  have B: "agree (\<lambda>x. x \<noteq> c \<and> live L x (q2 # rest)) s1 s'" using drop(1) q1(1) by simp
  have a1: "aval M s1 (arg1 q2) = v" using q2 by (simp add: aval_cgt s1_def c_def)
  have v: "aval M s' (arg1 q1) = v"
    using agree_aval [OF ag, of "arg1 q1" M] reads_arg1 [of q1] by (auto simp: v_def)
  have a2: "aval M s1 (arg2 q2) = aval M s' (arg2 q2)"
    using agree_aval [OF B, of "arg2 q2" M] reads_arg2 [of q2] distinct_args [OF ok(1) q2(2)] q2(3)
    by (fastforce simp: c_def)
  have r: "aval M s1 (qres q2) = aval M s' (qres q2)" if "qop q2 = OP_DEREF_COPY"
    using agree_aval [OF B, of "qres q2" M] reads_res [OF that] distinct_arg1_res [OF ok(1) that q2(2)] q2(3)
    by (fastforce simp: c_def)
  have e: "exec M [q1, q2] s = exec_op M q2 v (aval M s' (arg2 q2)) (aval M s1 (qres q2)) s1"
    using q1 a1 a2 by (simp add: exec1_def_cgt exec1_def [of M q2] s1_def v_def c_def split: outcome.split)
  have op: "exec_op M (q2\<lparr>arg1 := arg1 q1\<rparr>) v b (aval M s' (qres q2)) s' = exec_op M q2 v b (aval M s1 (qres q2)) s'" for b
    using q2(1) r by (auto simp: exec_op_def part8_ops_def op_groups Let_def jump_label_def)
  have e': "exec M [q2\<lparr>arg1 := arg1 q1\<rparr>] s' = exec_op M q2 v (aval M s' (arg2 q2)) (aval M s1 (qres q2)) s'"
    using v op by (simp add: exec1_def split: outcome.split)
  show ?thesis unfolding e e' using drop(2) q1(1) by simp
qed

lemma ref_sound:
  assumes ag: "agree (\<lambda>x. live L x (q1 # q2 # rest)) s s'"
    and q1: "qop q1 = OP_REF" "is_cgt (qres q1)" "akind (arg1 q1) = ADDR_NAME"
    and q2: "qop q2 = OP_DEREF_COPY" "is_cgt (qres q2)" "exact (qres q1) = exact (qres q2)"
    and ok: "distinct (reads q2)" "spent L q1 q2 rest"
  shows "agree_res (\<lambda>x. live L x rest) L (exec M [q1, q2] s) (exec M [quad2 OP_COPY (arg1 q1) (arg1 q2)] s')"
proof -
  define c where "c = exact (qres q1)"
  define v where "v = place M (aname (arg1 q1))"
  define s1 where "s1 = s\<lparr>tmps := (tmps s)(c := v)\<rparr>"
  have c: "c \<in> set (reads q2)" using reads_res [OF q2(1,2)] q2(3) by (simp add: c_def)
  note drop = drop_one [OF ag _ q1(2) c_def [symmetric] ok(2) c s1_def]
  have B: "agree (\<lambda>x. x \<noteq> c \<and> live L x (q2 # rest)) s1 s'" using drop(1) q1(1) by simp
  have a1: "aval M s1 (arg1 q2) = aval M s' (arg1 q2)"
    using agree_aval [OF B, of "arg1 q2" M] reads_arg1 [of q2] distinct_arg1_res [OF ok(1) q2(1)] q2 by (auto simp: c_def)
  have r: "aval M s1 (qres q2) = v" using q2 by (simp add: aval_cgt s1_def c_def)
  have e: "exec M [q1, q2] s = exec_op M q2 (aval M s' (arg1 q2)) (aval M s1 (arg2 q2)) v s1"
    using q1 a1 r by (simp add: exec1_ref_cgt exec1_def [of M q2] s1_def v_def c_def split: outcome.split)
  have e': "exec M [quad2 OP_COPY (arg1 q1) (arg1 q2)] s' = exec_op M q2 (aval M s' (arg1 q2)) (aval M s1 (arg2 q2)) v s'"
    using q1(3) q2(1) by (simp add: exec1_def exec_op_def aput_def v_def quad3_def op_groups)
  show ?thesis unfolding e e' using drop(2) q1(1) by simp
qed

text \<open>A fold of one or of two constants computes what the quad computes.\<close>

lemma exec_const_copy: "exec M [quad2 OP_COPY r (nnc_3a_mki2 w t)] s = Next (aput M r w s)"
  "exec M [quad2 OP_COPY r (nnc_3a_mki3 w)] s = Next (aput M r w s)"
  by (simp_all add: exec1_def exec_op_def quad3_def aval_def nnc_3a_mki2_def nnc_3a_mki3_def)

lemma exec_ujump: "exec M [quad3 OP_UJUMP (qres q) a b] s = Goto (jump_label q) s"
  by (simp add: exec1_def exec_op_def quad3_def op_groups jump_label_def)

lemma unary_fold_value:
  assumes f: "nnc_3a_opt_unary_const_fold fo ts us i = Inr (us', os, k)"
    and i: "i + 1 < length us" "q1 = us ! i" "q2 = us ! (i + 1)"
    and ok: "quad_ok ts q2" "folds q2"
  shows "exec M os s = exec_op M q2 (exact (arg1 q1)) b r s"
proof -
  have n: "nnc_3a_opt_unary_iconst_fold ts us i = Inr (us', os, k)"
    using f i ok by (simp add: nnc_3a_opt_unary_const_fold_def quad_ok_def)
  have "qop q2 \<in> {OP_PLUS, OP_MINUS, OP_BW_NOT, OP_CAST, OP_CJUMPT, OP_CJUMPF}"
    using n i by (auto simp: nnc_3a_opt_unary_iconst_fold_def Let_def split: nnc_3a_op_kind.splits)
  then consider "qop q2 \<in> {OP_PLUS, OP_MINUS, OP_BW_NOT}" | "qop q2 = OP_CAST" | "qop q2 \<in> {OP_CJUMPT, OP_CJUMPF}"
    by blast
  then show ?thesis
  proof cases
    case 1
    then show ?thesis using n i
      by (auto simp: nnc_3a_opt_unary_iconst_fold_def Let_def exec_const_copy exec_op_def un_val_def op_groups
          simp del: exec.simps)
  next
    case 2
    then obtain kd w where k: "type_kind ts (atype (qres q2)) = Inr kd" "cast_const kd (exact (arg1 q1)) = Some w"
      "os = [quad2 OP_COPY (qres q2) (nnc_3a_mki2 w (atype (qres q2)))]"
      using n i by (auto simp: nnc_3a_opt_unary_iconst_fold_def Let_def bind_res_eq_Inr split: option.splits)
    then show ?thesis using 2 cast_law [OF k(1,2)]
      by (simp add: exec_const_copy exec_op_def op_groups del: exec.simps)
  next
    case 3
    have "nnc_3a_opt_unary_branch_fold us i = Inr (us', os, k)"
      using n i 3 by (auto simp: nnc_3a_opt_unary_iconst_fold_def)
    then have os: "os = (if jump_taken M q2 (exact (arg1 q1)) b then [quad3 OP_UJUMP (qres q2) no_addr no_addr] else [])"
      using i 3 unfolding nnc_3a_opt_unary_branch_fold_def Let_def
      by (elim insertE) (auto simp: jump_taken_def)
    have "is_jump q2" using 3 by (auto simp: is_jump_def op_groups)
    then show ?thesis unfolding os by (simp add: exec_op_jump exec_ujump del: exec.simps(2))
  qed
qed

lemma fold_iconst_value:
  assumes "fold_iconst o' l r = Inr v" "o' \<in> {OP_DIV, OP_MOD, OP_SHR} \<longrightarrow> \<not> sg"
  shows "bin_val sg o' l r = Some v \<and> o' \<in> set OP_BINARY"
proof -
  have "o' \<in> {OP_ADD, OP_SUB, OP_MUL, OP_DIV, OP_MOD, OP_SHR, OP_SHL, OP_BW_OR, OP_BW_AND, OP_BW_XOR}"
    using assms(1) by (cases o') (simp_all add: fold_iconst_def)
  then consider "o' \<in> {OP_ADD, OP_SUB, OP_MUL, OP_BW_OR, OP_BW_AND, OP_BW_XOR}" | "o' = OP_DIV" | "o' = OP_MOD"
    | "o' = OP_SHR \<or> o' = OP_SHL" by blast
  then show ?thesis
  proof cases
    case 4
    have le: "\<not> 64 \<le> r" using assms(1) 4 by (auto simp: fold_iconst_def split: if_splits)
    then have "unat r mod 64 = unat r" by (simp add: word_le_nat_alt)
    then show ?thesis using assms 4 le by (auto simp: fold_iconst_def bin_val_def op_groups)
  qed (use assms in \<open>auto simp: fold_iconst_def bin_val_def op_groups split: if_splits\<close>)
qed

end


context typed_machine
begin

lemma unsigned_at:
  "quad_ok ts q \<Longrightarrow> qop q \<in> set sign_sensitive \<Longrightarrow> \<not> signed_at M (atype (qres q))"
  by (simp add: quad_ok_def sign_law)

lemma binary_branch_value:
  assumes f: "nnc_3a_opt_binary_iconst_branch_fold us i = Inr (us', os, k)"
    and i: "i + 2 < length us" "q1 = us ! i" "q2 = us ! (i + 1)" "q3 = us ! (i + 2)"
    and op: "qop q3 \<in> set OP_BINARY_JUMP"
    and un: "qop q3 \<in> set sign_sensitive \<Longrightarrow> \<not> signed_at M (atype (qres q3))"
  shows "os = (if jump_taken M q3 (exact (arg1 q1)) (exact (arg1 q2)) then [quad3 OP_UJUMP (qres q3) no_addr no_addr] else [])"
proof -
  have "qop q3 \<in> {OP_CJUMPE, OP_CJUMPNE} \<or> qop q3 \<in> {OP_CJUMPLT, OP_CJUMPGT, OP_CJUMPLTE, OP_CJUMPGTE}"
    using op by (auto simp: op_groups)
  then show ?thesis
  proof
    assume "qop q3 \<in> {OP_CJUMPE, OP_CJUMPNE}"
    then show ?thesis using f i unfolding nnc_3a_opt_binary_iconst_branch_fold_def branch_fold_def Let_def
      by (elim insertE) (auto simp: jump_taken_def cmp_val_def)
  next
    assume o': "qop q3 \<in> {OP_CJUMPLT, OP_CJUMPGT, OP_CJUMPLTE, OP_CJUMPGTE}"
    then have "\<not> signed_at M (atype (qres q3))" using un by (auto simp: sign_sensitive_def)
    then show ?thesis using o' f i unfolding nnc_3a_opt_binary_iconst_branch_fold_def branch_fold_def Let_def
      by (elim insertE) (auto simp: jump_taken_def cmp_val_def)
  qed
qed

lemma binary_fold_value:
  assumes f: "nnc_3a_opt_binary_const_fold fo ts us i = Inr (us', os, k)"
    and i: "i + 2 < length us" "q1 = us ! i" "q2 = us ! (i + 1)" "q3 = us ! (i + 2)"
    and ok: "quad_ok ts q3" "folds q3"
  shows "exec M os s = exec_op M q3 (exact (arg1 q1)) (exact (arg1 q2)) r s"
proof -
  have n: "nnc_3a_opt_binary_iconst_fold us i = Inr (us', os, k)"
    using f i ok by (simp add: nnc_3a_opt_binary_const_fold_def quad_ok_def)
  note un = unsigned_at [OF ok(1)]
  show ?thesis
  proof (cases "qop q3 \<in> set OP_BINARY_JUMP")
    case True
    have b: "nnc_3a_opt_binary_iconst_branch_fold us i = Inr (us', os, k)"
      using n i True by (simp add: nnc_3a_opt_binary_iconst_fold_def)
    have "is_jump q3" using True by (simp add: is_jump_def)
    have os: "os = (if jump_taken M q3 (exact (arg1 q1)) (exact (arg1 q2)) then [quad3 OP_UJUMP (qres q3) no_addr no_addr] else [])"
      by (rule binary_branch_value [OF b i True]) (rule un)
    then show ?thesis using \<open>is_jump q3\<close> unfolding os
      by (simp add: exec_op_jump exec_ujump del: exec.simps(2))
  next
    case False
    obtain v where v: "fold_iconst (qop q3) (exact (arg1 q1)) (exact (arg1 q2)) = Inr v"
      "os = [quad2 OP_COPY (qres q3) (nnc_3a_mki2 v (atype (qres q3)))]"
      using n i False by (auto simp: nnc_3a_opt_binary_iconst_fold_def bind_res_eq_Inr)
    have "bin_val (signed_at M (atype (qres q3))) (qop q3) (exact (arg1 q1)) (exact (arg1 q2)) = Some v \<and> qop q3 \<in> set OP_BINARY"
      using un by (intro fold_iconst_value [OF v(1)]) (auto simp: sign_sensitive_def)
    then show ?thesis unfolding v(2) exec_const_copy
      by (auto simp: exec_op_def op_groups)
  qed
qed

lemma index_fold_value:
  assumes f: "nnc_3a_opt_index_const_fold us i = Inr (us', os, k)"
    and i: "i + 1 < length us" "q1 = us ! i" "q2 = us ! (i + 1)" "qop q2 \<in> {OP_ADD, OP_MUL}"
  shows "exec M os s = exec_op M q2 (exact (arg1 q1)) (exact (arg2 q2)) r s"
proof -
  have "os = [quad2 OP_COPY (qres q2) (nnc_3a_mki3 (if qop q2 = OP_ADD then exact (arg1 q1) + exact (arg2 q2)
      else exact (arg1 q1) * exact (arg2 q2)))]"
    using f i unfolding nnc_3a_opt_index_const_fold_def Let_def by (elim insertE) auto
  then show ?thesis using i(4) by (auto simp: exec_const_copy exec_op_def bin_val_def op_groups simp del: exec.simps)
qed

lemma algebraic_value:
  assumes f: "nnc_3a_opt_algebraic p us i = Inr (us', os, k)"
    and i: "i + 2 < length us" "q1 = us ! i" "q3 = us ! (i + 2)"
    and p: "p = (if qop q3 = OP_MUL then OPT_ALG_MUL_ZERO else OPT_ALG_ADD_ZERO)" "qop q3 \<in> {OP_ADD, OP_MUL}"
      "akind (arg1 q1) \<noteq> ADDR_ICONST"
  shows "exec M os s = exec_op M q3 (aval M s (arg1 q1)) 0 r s"
proof -
  have os: "os = [quad2 OP_COPY (qres q3) (if qop q3 = OP_MUL then nnc_3a_mki3 0 else arg1 q1)]"
    using f i p unfolding nnc_3a_opt_algebraic_def Let_def by (auto split: if_splits)
  have "exec M [quad2 OP_COPY (qres q3) a] s = Next (aput M (qres q3) (aval M s a) s)" for a
    by (simp add: exec1_def exec_op_def quad3_def)
  moreover have "aval M s (nnc_3a_mki3 0) = 0" by (simp add: aval_def nnc_3a_mki3_def)
  ultimately show ?thesis unfolding os using p(2)
    by (auto simp: exec_op_def bin_val_def op_groups simp del: exec.simps)
qed

text \<open>Two quads of which the first defines a constant.\<close>

lemma fold2_sound:
  assumes ag: "agree (\<lambda>x. live L x (q1 # q2 # rest)) s s'"
    and q1: "cgt_copy q1" "const_kind (arg1 q1)"
    and q2: "is_cgt (arg1 q2)" "exact (qres q1) = exact (arg1 q2)" "qop q2 \<noteq> OP_DEREF_COPY"
    and ok: "distinct (reads q2)" "spent L q1 q2 rest"
    and val: "\<And>r s1. exec M os s' = exec_op M q2 (exact (arg1 q1)) (aval M s1 (arg2 q2)) r s'"
  shows "agree_res (\<lambda>x. live L x rest) L (exec M [q1, q2] s) (exec M os s')"
proof -
  define c where "c = exact (qres q1)"
  define s1 where "s1 = s\<lparr>tmps := (tmps s)(c := exact (arg1 q1))\<rparr>"
  have q1': "qop q1 = OP_COPY" "is_cgt (qres q1)" using q1(1) by (simp_all add: cgt_copy_def)
  have c: "c \<in> set (reads q2)" using reads_arg1 [OF q2(1)] q2(2) by (simp add: c_def)
  note drop = drop_one [OF ag _ q1'(2) c_def [symmetric] ok(2) c s1_def]
  have a1: "aval M s1 (arg1 q2) = exact (arg1 q1)" using q2 by (simp add: aval_cgt s1_def c_def)
  have e: "exec M [q1, q2] s = exec_op M q2 (exact (arg1 q1)) (aval M s1 (arg2 q2)) (aval M s1 (qres q2)) s1"
    using a1 by (simp add: aval_const [OF q1(2)] exec1_def_cgt [OF q1'] exec1_def [of M q2] s1_def c_def split: outcome.split)
  show ?thesis unfolding e val [of s1 "aval M s1 (qres q2)"] using drop(2) q1'(1) by simp
qed

text \<open>Three quads of which the first two define the operands of the third.\<close>

lemma fold3_sound:
  assumes ag: "agree (\<lambda>x. live L x (q1 # q2 # q3 # rest)) s s'"
    and q1: "cgt_copy q1" and q2: "cgt_copy q2" "const_kind (arg1 q2)"
    and q3: "is_cgt (arg1 q3)" "is_cgt (arg2 q3)" "exact (arg1 q3) = exact (qres q1)" "exact (arg2 q3) = exact (qres q2)"
    and ok: "distinct (reads q3)" "spent L q1 q3 rest" "spent L q2 q3 rest"
    and val: "\<And>r. exec M os s' = exec_op M q3 (aval M s' (arg1 q1)) (exact (arg1 q2)) r s'"
  shows "agree_res (\<lambda>x. live L x rest) L (exec M [q1, q2, q3] s) (exec M os s')"
proof -
  define c1 where "c1 = exact (qres q1)"
  define c2 where "c2 = exact (qres q2)"
  define s2 where "s2 = s\<lparr>tmps := (tmps s)(c1 := aval M s (arg1 q1), c2 := exact (arg1 q2))\<rparr>"
  have q1': "qop q1 = OP_COPY" "is_cgt (qres q1)" using q1 by (simp_all add: cgt_copy_def)
  have q2': "qop q2 = OP_COPY" "is_cgt (qres q2)" using q2 by (simp_all add: cgt_copy_def)
  have c: "c1 \<in> set (reads q3)" "c2 \<in> set (reads q3)" "c1 \<noteq> c2"
    using reads_arg1 [OF q3(1)] reads_arg2 [OF q3(2)] distinct_args [OF ok(1) q3(1,2)] q3(3,4)
    by (simp_all add: c1_def c2_def)
  note drop = drop_two [OF ag q1' c1_def [symmetric] q2' c2_def [symmetric] ok(2) c(1) ok(3) c(2) s2_def]
  have v: "aval M s' (arg1 q1) = aval M s (arg1 q1)"
    using agree_aval [OF ag, of "arg1 q1" M] reads_arg1 [of q1] by auto
  have a: "aval M s2 (arg1 q3) = aval M s (arg1 q1)" "aval M s2 (arg2 q3) = exact (arg1 q2)"
    using q3 c(3) by (simp_all add: aval_cgt s2_def c1_def c2_def)
  have e: "exec M [q1, q2, q3] s = exec_op M q3 (aval M s (arg1 q1)) (exact (arg1 q2)) (aval M s2 (qres q3)) s2"
    using a by (simp add: aval_const [OF q2(2)] exec1_def_cgt [OF q1'] exec1_def_cgt [OF q2'] exec1_def [of M q3] s2_def c1_def c2_def split: outcome.split)
  show ?thesis unfolding e val [of "aval M s2 (qres q3)"] v using drop(2) by simp
qed

end


lemma drop_two_quads: "i + 1 < length us \<Longrightarrow> drop i us = us ! i # us ! (i + 1) # drop (i + 2) us"
  by (simp add: Cons_nth_drop_Suc)

lemma drop_three_quads:
  "i + 2 < length us \<Longrightarrow> drop i us = us ! i # us ! (i + 1) # us ! (i + 2) # drop (i + 3) us"
  using drop_two_quads [of i us] Cons_nth_drop_Suc [of "i + 2" us] by (simp add: numeral_3_eq_3)

lemma folds_ops:
  "qop q \<in> set (OP_CAST # OP_UNARY_JUMP @ OP_UNARY) \<Longrightarrow> folds q"
  "qop q \<in> set (OP_BINARY_JUMP @ OP_BINARY) \<Longrightarrow> folds q"
  "qop q \<in> {OP_ADD, OP_MUL} \<Longrightarrow> folds q"
  by (auto simp: folds_def op_groups)

context typed_machine
begin

text \<open>What each search result says of the quads, for passable code.\<close>

lemma ref_pattern_sound:
  assumes ps: "passable ts L (drop i us)" and ag: "agree (\<lambda>x. live L x (drop i us)) s s'"
    and pat: "nnc_3a_op_ref_pat us i = Inr p" "p \<noteq> OPT_NONE" "qop (us ! i) = OP_REF"
    and res: "nnc_3a_optimize_peep fo ts us i = Inr (us, os, k)" "nnc_3a_search_peep_pattern us i = Inr p"
  shows "k = 2 \<and> agree_res (\<lambda>x. live L x (drop (i + 2) us)) L (exec M (take 2 (drop i us)) s) (exec M os s')"
proof -
  note P = ref_patD [OF pat(1,2)]
  have d: "drop i us = us ! i # us ! (i + 1) # drop (i + 2) us" using drop_two_quads P by blast
  have os: "k = 2" "os = [quad2 OP_COPY (arg1 (us ! i)) (arg1 (us ! (i + 1)))]"
    using res P by (simp_all add: nnc_3a_optimize_peep_def nnc_3a_opt_ref_subst_def)
  have ok: "quad_ok ts (us ! i)" "quad_ok ts (us ! (i + 1))" "spent L (us ! i) (us ! (i + 1)) (drop (i + 2) us)"
    using ps passable2 [of ts L] passable_Cons [of ts L] unfolding d by blast+
  have "akind (arg1 (us ! i)) = ADDR_NAME" "distinct (reads (us ! (i + 1)))" using ok pat(3) by (simp_all add: quad_ok_def)
  then show ?thesis unfolding os d
    using ref_sound [OF ag [unfolded d] pat(3)] P ok(3) by (simp add: same_cgt_def del: exec.simps)
qed

lemma part8_sound:
  assumes ps: "passable ts L (drop i us)" and ag: "agree (\<lambda>x. live L x (drop i us)) s s'"
    and pat: "nnc_3a_op_copy_pat_part8 us i = Inr p" "p \<noteq> OPT_NONE" "qop (us ! i) = OP_COPY"
    and res: "nnc_3a_optimize_peep fo ts us i = Inr (us, os, k)" "nnc_3a_search_peep_pattern us i = Inr p"
  shows "k = 2 \<and> agree_res (\<lambda>x. live L x (drop (i + 2) us)) L (exec M (take 2 (drop i us)) s) (exec M os s')"
proof -
  note P = part8D [OF pat(1,2)]
  have d: "drop i us = us ! i # us ! (i + 1) # drop (i + 2) us" using drop_two_quads P by blast
  have os: "k = 2" "os = [(us ! (i + 1))\<lparr>arg1 := arg1 (us ! i)\<rparr>]"
    using res P by (simp_all add: nnc_3a_optimize_peep_def nnc_3a_opt_unary_subst_def)
  have ok: "quad_ok ts (us ! (i + 1))" "spent L (us ! i) (us ! (i + 1)) (drop (i + 2) us)"
    using ps passable2 [of ts L] unfolding d by blast+
  have "distinct (reads (us ! (i + 1)))" using ok by (simp add: quad_ok_def)
  then show ?thesis unfolding os d
    using subst_sound [OF ag [unfolded d] pat(3)] P ok(2) by (simp add: same_cgt_def del: exec.simps)
qed

lemma part2_sound:
  assumes ps: "passable ts L (drop i us)" and ag: "agree (\<lambda>x. live L x (drop i us)) s s'"
    and pat: "nnc_3a_op_copy_pat_part2 us i = Inr p" "p \<noteq> OPT_NONE" "qop (us ! i) = OP_COPY"
    and res: "nnc_3a_optimize_peep fo ts us i = Inr (us, os, k)" "nnc_3a_search_peep_pattern us i = Inr p"
  shows "k = 2 \<and> agree_res (\<lambda>x. live L x (drop (i + 2) us)) L (exec M (take 2 (drop i us)) s) (exec M os s')"
proof -
  note P = part2D [OF pat(1,2)]
  have d: "drop i us = us ! i # us ! (i + 1) # drop (i + 2) us" using drop_two_quads P by blast
  have f: "nnc_3a_opt_unary_const_fold fo ts us i = Inr (us, os, k)"
    using res P by (simp add: nnc_3a_optimize_peep_def)
  have k: "k = 2" using givesD [OF opt_unary_shrinks f] by simp
  have ok: "quad_ok ts (us ! (i + 1))" "spent L (us ! i) (us ! (i + 1)) (drop (i + 2) us)" "no_pun2 (us ! i) (us ! (i + 1))"
    using ps passable2 [of ts L] unfolding d by blast+
  have fo: "folds (us ! (i + 1))" using folds_ops P by blast
  have cc: "cgt_copy (us ! i)" using pat(3) P by (simp add: cgt_copy_def)
  have ca: "is_cgt (arg1 (us ! (i + 1)))" using ok(3) cc fo P by (simp add: no_pun2_def)
  have nd: "qop (us ! (i + 1)) \<noteq> OP_DEREF_COPY" using fo by (auto simp: folds_def op_groups)
  have dist: "distinct (reads (us ! (i + 1)))" using ok by (simp add: quad_ok_def)
  have val: "exec M os s' = exec_op M (us ! (i + 1)) (exact (arg1 (us ! i))) b r s'" for b r
    by (rule unary_fold_value [OF f _ _ _ ok(1) fo]) (use P in simp_all)
  show ?thesis unfolding d using k P
      fold2_sound [OF ag [unfolded d] cc _ ca _ nd dist ok(2) val] by (simp add: same_cgt_def del: exec.simps)
qed

lemma part4_sound:
  assumes ps: "passable ts L (drop i us)" and ag: "agree (\<lambda>x. live L x (drop i us)) s s'"
    and pat: "nnc_3a_op_copy_pat_part4 us i = Inr p" "p \<noteq> OPT_NONE" "qop (us ! i) = OP_COPY"
    and res: "nnc_3a_optimize_peep fo ts us i = Inr (us, os, k)" "nnc_3a_search_peep_pattern us i = Inr p"
  shows "k = 2 \<and> agree_res (\<lambda>x. live L x (drop (i + 2) us)) L (exec M (take 2 (drop i us)) s) (exec M os s')"
proof -
  note P = part4D [OF pat(1,2)]
  have d: "drop i us = us ! i # us ! (i + 1) # drop (i + 2) us" using drop_two_quads P by blast
  have f: "nnc_3a_opt_index_const_fold us i = Inr (us, os, k)"
    using res P by (simp add: nnc_3a_optimize_peep_def)
  have k: "k = 2" using givesD [OF opt_index_shrinks f] by simp
  have ok: "quad_ok ts (us ! (i + 1))" "spent L (us ! i) (us ! (i + 1)) (drop (i + 2) us)"
    using ps passable2 [of ts L] unfolding d by blast+
  have cc: "cgt_copy (us ! i)" using pat(3) P by (simp add: cgt_copy_def)
  have op: "qop (us ! (i + 1)) \<in> {OP_ADD, OP_MUL}" and nd: "qop (us ! (i + 1)) \<noteq> OP_DEREF_COPY" using P by auto
  have dist: "distinct (reads (us ! (i + 1)))" using ok by (simp add: quad_ok_def)
  have c1: "const_kind (arg1 (us ! i))" using P by (simp add: const_kind_def)
  have c2: "aval M t (arg2 (us ! (i + 1))) = exact (arg2 (us ! (i + 1)))" for t
    using P by (simp add: aval_const const_kind_def)
  have val: "exec M os s' = exec_op M (us ! (i + 1)) (exact (arg1 (us ! i))) (aval M t (arg2 (us ! (i + 1)))) r s'" for t r
    unfolding c2 by (rule index_fold_value [OF f _ _ _ op]) (use P in simp_all)
  show ?thesis unfolding d using k P
      fold2_sound [OF ag [unfolded d] cc c1 _ _ nd dist ok(2) val] by (simp add: same_cgt_def del: exec.simps)
qed

text \<open>The second quad of a pattern of three is a copy of a constant to a temporary.\<close>

lemma second_copy:
  assumes "no_pun2 q2 q3" "const_kind (arg1 q2)" "same_cgt (qres q2) (arg2 q3)"
  shows "cgt_copy q2"
  using assms by (auto simp: no_pun2_def)

lemma part3_sound:
  assumes ps: "passable ts L (drop i us)" and ag: "agree (\<lambda>x. live L x (drop i us)) s s'"
    and pat: "nnc_3a_op_copy_pat_part3 us i = Inr p" "p \<noteq> OPT_NONE" "qop (us ! i) = OP_COPY"
    and res: "nnc_3a_optimize_peep fo ts us i = Inr (us, os, k)" "nnc_3a_search_peep_pattern us i = Inr p"
  shows "k = 3 \<and> agree_res (\<lambda>x. live L x (drop (i + 3) us)) L (exec M (take 3 (drop i us)) s) (exec M os s')"
proof -
  define q1 where "q1 = us ! i"
  define q2 where "q2 = us ! (i + 1)"
  define q3 where "q3 = us ! (i + 2)"
  note P = part3D [OF pat(1,2), folded q1_def q2_def q3_def]
  have d: "drop i us = q1 # q2 # q3 # drop (i + 3) us" using drop_three_quads P unfolding q1_def q2_def q3_def by blast
  have f: "nnc_3a_opt_binary_const_fold fo ts us i = Inr (us, os, k)"
    using res P by (simp add: nnc_3a_optimize_peep_def)
  have k: "k = 3" using givesD [OF opt_binary_shrinks f] by simp
  have ok: "quad_ok ts q3" "no_pun2 q2 q3" "no_pun3 q1 q3" "spent L q1 q3 (drop (i + 3) us)" "spent L q2 q3 (drop (i + 3) us)"
    using ps passable3 [of ts L] unfolding d by blast+
  have fo: "folds q3" using folds_ops P by blast
  have cc1: "cgt_copy q1" using pat(3) P by (simp add: cgt_copy_def q1_def)
  have cc2: "cgt_copy q2" using second_copy [OF ok(2)] P by (simp add: same_cgt_def)
  have ca: "is_cgt (arg1 q3)" "is_cgt (arg2 q3)" using ok(2,3) cc1 cc2 fo P by (simp_all add: no_pun2_def no_pun3_def same_cgt_def)
  have dist: "distinct (reads q3)" using ok by (simp add: quad_ok_def)
  have v1: "aval M s' (arg1 q1) = exact (arg1 q1)" and c2: "const_kind (arg1 q2)" using P by (simp_all add: aval_const)
  have val: "exec M os s' = exec_op M q3 (aval M s' (arg1 q1)) (exact (arg1 q2)) r s'" for r
    unfolding v1 by (rule binary_fold_value [OF f _ q1_def q2_def q3_def ok(1) fo]) (use P in simp)
  have e: "exact (arg1 q3) = exact (qres q1)" "exact (arg2 q3) = exact (qres q2)" using P by (simp_all add: same_cgt_def)
  show ?thesis unfolding d using k fold3_sound [OF ag [unfolded d] cc1 cc2 c2 ca e dist ok(4,5) val]
    by (simp add: numeral_3_eq_3 del: exec.simps)
qed

lemma part5_sound:
  assumes ps: "passable ts L (drop i us)" and ag: "agree (\<lambda>x. live L x (drop i us)) s s'"
    and pat: "nnc_3a_op_copy_pat_part5 us i = Inr p" "p \<noteq> OPT_NONE" "qop (us ! i) = OP_COPY"
    and res: "nnc_3a_optimize_peep fo ts us i = Inr (us, os, k)" "nnc_3a_search_peep_pattern us i = Inr p"
  shows "k = 3 \<and> agree_res (\<lambda>x. live L x (drop (i + 3) us)) L (exec M (take 3 (drop i us)) s) (exec M os s')"
proof -
  define q1 where "q1 = us ! i"
  define q2 where "q2 = us ! (i + 1)"
  define q3 where "q3 = us ! (i + 2)"
  note P = part5D [OF pat(1,2), folded q1_def q2_def q3_def]
  have d: "drop i us = q1 # q2 # q3 # drop (i + 3) us" using drop_three_quads P unfolding q1_def q2_def q3_def by blast
  have f: "nnc_3a_opt_algebraic p us i = Inr (us, os, k)"
    using res P by (auto simp: nnc_3a_optimize_peep_def split: if_splits)
  have k: "k = 3" using givesD [OF opt_algebraic_shrinks f] by simp
  have ok: "quad_ok ts q3" "no_pun2 q2 q3" "no_pun3 q1 q3" "spent L q1 q3 (drop (i + 3) us)" "spent L q2 q3 (drop (i + 3) us)"
    using ps passable3 [of ts L] unfolding d by blast+
  have fo: "folds q3" using folds_ops(3) P by blast
  have c2: "const_kind (arg1 q2)" using P by (simp add: const_kind_def)
  have cc1: "cgt_copy q1" using ok(3) pat(3) P by (auto simp: cgt_copy_def q1_def no_pun3_def)
  have cc2: "cgt_copy q2" using second_copy [OF ok(2) c2] P by simp
  have ca: "is_cgt (arg1 q3)" "is_cgt (arg2 q3)" using ok(2,3) cc1 cc2 fo P by (simp_all add: no_pun2_def no_pun3_def)
  have dist: "distinct (reads q3)" using ok by (simp add: quad_ok_def)
  have z: "exact (arg1 q2) = 0" using P by simp
  have val: "exec M os s' = exec_op M q3 (aval M s' (arg1 q1)) (exact (arg1 q2)) r s'" for r
    unfolding z by (rule algebraic_value [OF f _ q1_def q3_def]) (use P in simp_all)
  have e: "exact (arg1 q3) = exact (qres q1)" "exact (arg2 q3) = exact (qres q2)" using P by (simp_all add: same_cgt_def)
  show ?thesis unfolding d using k fold3_sound [OF ag [unfolded d] cc1 cc2 c2 ca e dist ok(4,5) val]
    by (simp add: numeral_3_eq_3 del: exec.simps)
qed

lemma pattern_sound:
  assumes ps: "passable ts L (drop i us)" and ag: "agree (\<lambda>x. live L x (drop i us)) s s'"
    and res: "nnc_3a_optimize_peep fo ts us i = Inr (us, os, k)" "nnc_3a_search_peep_pattern us i = Inr p" "p \<noteq> OPT_NONE"
  shows "agree_res (\<lambda>x. live L x (drop (i + k) us)) L (exec M (take k (drop i us)) s) (exec M os s')"
  using search_cases [OF res(2,3)] ref_pattern_sound [OF ps ag _ res(3) _ res(1,2)] part8_sound [OF ps ag _ res(3) _ res(1,2)]
    part2_sound [OF ps ag _ res(3) _ res(1,2)] part3_sound [OF ps ag _ res(3) _ res(1,2)]
    part4_sound [OF ps ag _ res(3) _ res(1,2)] part5_sound [OF ps ag _ res(3) _ res(1,2)]
  by metis

end


section \<open>A whole pass\<close>

lemma agree_res_bind:
  assumes "agree_res A L x y" "\<And>t t'. agree A t t' \<Longrightarrow> agree_res B L (f t) (g t')"
  shows "agree_res B L (case x of Next t \<Rightarrow> f t | r \<Rightarrow> r) (case y of Next t \<Rightarrow> g t | r \<Rightarrow> r)"
  using assms by (cases x; cases y) auto

lemma unlabelled_pattern:
  assumes "passable ts L (drop i us)" "nnc_3a_optimize_peep fo ts us i = Inr (us, os, k)"
    and "nnc_3a_search_peep_pattern us i = Inr p" "p \<noteq> OPT_NONE"
  shows "list_all (\<lambda>q. qlabel q = 0) (take k (drop i us)) \<and> list_all (\<lambda>q. qlabel q = 0) os"
proof -
  have ok: "quad_ok ts (us ! j)" if "i \<le> j" "j < length us" for j
  proof -
    have "passable ts L (drop (j - i) (drop i us))" using assms(1) by (rule passable_drop)
    moreover have "drop (j - i) (drop i us) = us ! j # drop (Suc j) us" using that by (simp add: Cons_nth_drop_Suc)
    ultimately show ?thesis by (metis passable_Cons)
  qed
  have lab: "qlabel (us ! j) = 0" if "i \<le> j" "j < length us" "qop (us ! j) \<noteq> OP_NONE \<or> akind (arg1 (us ! j)) \<noteq> ADDR_NONE" for j
    using ok [OF that(1,2)] that(3) by (auto simp: quad_ok_def)
  from assms(2) have sh: "shrinks us i (skips p) (us, os, k)"
    by (cases rule: peep_result) (use assms(3,4) in auto)
  then have k: "k = skips p" "i + k \<le> length us" by simp_all
  note s = search_cases [OF assms(3,4)]
  have q1: "qlabel (us ! i) = 0" using s lab [of i] by auto
  have q2: "qlabel (us ! (i + 1)) = 0"
    by (rule lab) (use s k assms(4) in \<open>auto dest!: ref_patD part2D part3D part4D part5D part8D
      simp: skips_def op_groups part8_ops_def const_kind_def split: if_splits\<close>)
  have q3: "qlabel (us ! (i + 2)) = 0" if "k = 3"
    by (rule lab) (use s k that assms(4) in \<open>auto dest!: ref_patD part2D part3D part4D part5D part8D
      simp: skips_def op_groups part8_ops_def const_kind_def split: if_splits\<close>)
  have "list_all (\<lambda>q. qlabel q = 0) (take k (drop i us))"
  proof (cases "k = 3")
    case True
    then have "drop i us = us ! i # us ! (i + 1) # us ! (i + 2) # drop (i + 3) us" using k by (intro drop_three_quads) simp
    then show ?thesis using q1 q2 q3 True by (simp add: numeral_3_eq_3)
  next
    case False
    then have k2: "k = 2" using k by (simp add: skips_def split: if_splits)
    then have "drop i us = us ! i # us ! (i + 1) # drop (i + 2) us" using k by (intro drop_two_quads) simp
    then show ?thesis using q1 q2 k2 by simp
  qed
  moreover have "list_all (\<lambda>q. qlabel q = 0) os" using sh q2 by (auto simp: list_all_iff)
  ultimately show ?thesis by simp
qed

lemma from_label_skip: "list_all (\<lambda>q. qlabel q = 0) xs \<Longrightarrow> l \<noteq> 0 \<Longrightarrow> from_label l (xs @ ys) = from_label l ys"
  by (induction xs) (simp_all add: from_label_def)

lemma drop_split: "i + k \<le> length us \<Longrightarrow> drop i us = take k (drop i us) @ drop (i + k) us"
  by (metis add.commute append_take_drop_id drop_drop)

lemma pass_loop_label:
  assumes "pass_loop n fo ts us i = Inr os" "i \<le> length us" "passable ts L (drop i us)" "l \<noteq> 0"
  shows "\<exists>j n'. j \<le> length us \<and> i \<le> j \<and> from_label l (drop i us) = drop j us \<and> pass_loop n' fo ts us j = Inr (from_label l os)"
  using assms(1-3)
proof (induction "length us - i" arbitrary: n i os rule: less_induct)
  case less
  show ?case
  proof (cases "i < length us")
    case False
    then show ?thesis using less.prems pass_loop_end [of us i n fo ts]
      by (intro exI [of _ i] exI [of _ n]) (simp add: from_label_def)
  next
    case True
    obtain n' os1 k os2 where s: "n = Suc n'" "nnc_3a_optimize_peep fo ts us i = Inr (us, os1, k)"
      "pass_loop n' fo ts us (i + k) = Inr os2" "os = os1 @ os2" "1 \<le> k" "length os1 \<le> k"
      using pass_loop_step [OF less.prems(1) True] .
    have k: "i + k \<le> length us" using peep_step [OF s(2)] by simp
    have ps: "passable ts L (drop (i + k) us)"
      using passable_drop [OF less.prems(3), of k] by (simp add: add.commute)
    have lt: "length us - (i + k) < length us - i" using True s(5) by linarith
    obtain j m where IH: "j \<le> length us" "i + k \<le> j" "from_label l (drop (i + k) us) = drop j us"
      "pass_loop m fo ts us j = Inr (from_label l os2)"
      using less.hyps [OF lt s(3) k ps] by auto
    have rest: ?thesis if "list_all (\<lambda>q. qlabel q = 0) (take k (drop i us))" "list_all (\<lambda>q. qlabel q = 0) os1"
    proof -
      have "from_label l (drop i us) = drop j us"
        using from_label_skip [OF that(1) assms(4), of "drop (i + k) us"] drop_split [OF k] IH(3) by simp
      moreover have "from_label l os = from_label l os2" using from_label_skip [OF that(2) assms(4)] s(4) by simp
      ultimately show ?thesis using IH by (intro exI [of _ j] exI [of _ m]) simp
    qed
    show ?thesis
      using s(2)
    proof (cases rule: peep_result)
      case 1
      have d: "drop i us = us ! i # drop (i + 1) us" using True by (simp add: Cons_nth_drop_Suc)
      show ?thesis
      proof (cases "qlabel (us ! i) = l")
        case True
        then show ?thesis using less.prems(1,2) 1 s(4) d
          by (intro exI [of _ i] exI [of _ n]) (simp add: from_label_def)
      next
        case False
        have "from_label l (drop i us) = drop j us" using d 1 IH(3) False by (simp add: from_label_def)
        moreover have "from_label l os = from_label l os2" using s(4) 1 False by (simp add: from_label_def)
        ultimately show ?thesis using IH by (intro exI [of _ j] exI [of _ m]) simp
      qed
    next
      case (2 p)
      then show ?thesis using rest unlabelled_pattern [OF less.prems(3) s(2) 2(2,3)] by blast
    qed
  qed
qed

context typed_machine
begin

lemma single_sound:
  assumes "agree (\<lambda>x. live L x (q # rest)) s s'"
  shows "agree_res (\<lambda>x. live L x rest) L (exec M [q] s) (exec M [q] s')"
proof -
  have v: "aval M s (arg1 q) = aval M s' (arg1 q)" "aval M s (arg2 q) = aval M s' (arg2 q)"
    using agree_aval [OF assms, of _ M] reads_arg1 [of q] reads_arg2 [of q] by (meson live.simps(2))+
  have op: "exec_op M q a b (aval M s (qres q)) s = exec_op M q a b (aval M s' (qres q)) s" for a b
  proof (cases "qop q = OP_DEREF_COPY")
    case True
    have "aval M s (qres q) = aval M s' (qres q)"
      using agree_aval [OF assms, of "qres q" M] reads_res [OF True] by (meson live.simps(2))
    then show ?thesis by simp
  next
    case False
    then show ?thesis by (simp add: exec_op_def Let_def)
  qed
  show ?thesis unfolding exec_single exec1_def v op
    by (rule exec_op_agree [OF assms]) auto
qed

lemma pass_loop_sound:
  assumes "pass_loop n fo ts us i = Inr os" "i \<le> length us" "passable ts L (drop i us)"
    and "agree (\<lambda>x. live L x (drop i us)) s s'"
  shows "agree_res (L None) L (exec M (drop i us) s) (exec M os s')"
  using assms
proof (induction "length us - i" arbitrary: n i os s s' rule: less_induct)
  case less
  show ?case
  proof (cases "i < length us")
    case False
    then show ?thesis using less.prems pass_loop_end [of us i n fo ts] by simp
  next
    case True
    obtain n' os1 k os2 where s: "n = Suc n'" "nnc_3a_optimize_peep fo ts us i = Inr (us, os1, k)"
      "pass_loop n' fo ts us (i + k) = Inr os2" "os = os1 @ os2" "1 \<le> k" "length os1 \<le> k"
      using pass_loop_step [OF less.prems(1) True] .
    have k: "i + k \<le> length us" using peep_step [OF s(2)] by simp
    have ps: "passable ts L (drop (i + k) us)"
      using passable_drop [OF less.prems(3), of k] by (simp add: add.commute)
    have lt: "length us - (i + k) < length us - i" using True s(5) by linarith
    have one: "agree_res (\<lambda>x. live L x (drop (i + k) us)) L (exec M (take k (drop i us)) s) (exec M os1 s')"
      using s(2)
    proof (cases rule: peep_result)
      case 1
      have d: "drop i us = us ! i # drop (i + 1) us" using True by (simp add: Cons_nth_drop_Suc)
      show ?thesis using single_sound [OF less.prems(4) [unfolded d]] 1 d by simp
    next
      case (2 p)
      then show ?thesis using pattern_sound [OF less.prems(3,4) s(2)] by simp
    qed
    have "agree_res (L None) L (exec M (take k (drop i us) @ drop (i + k) us) s) (exec M (os1 @ os2) s')"
      unfolding exec_append
    proof (rule agree_res_bind [OF one])
      fix t t' :: "'w mstate" assume "agree (\<lambda>x. live L x (drop (i + k) us)) t t'"
      then show "agree_res (L None) L (exec M (drop (i + k) us) t) (exec M os2 t')"
        using less.hyps [OF lt s(3) k ps] by simp
    qed
    then show ?thesis using s(4) drop_split [OF k] by simp
  qed
qed

lemma run_sound:
  assumes "pass_loop (length us) fo ts us 0 = Inr os" "passable ts L us"
    and closed: "\<And>l c. live L c (from_label l us) \<Longrightarrow> L (Some l) c"
    and "pass_loop m fo ts us j = Inr qs" "j \<le> length us" "agree (\<lambda>x. live L x (drop j us)) s s'"
  shows "agree_res (L None) L (run n M us (drop j us) s) (run n M os qs s')"
  using assms(4-6)
proof (induction n arbitrary: m j qs s s')
  case 0
  then show ?case using pass_loop_sound passable_drop [OF assms(2)] by simp
next
  case (Suc n)
  have e: "agree_res (L None) L (exec M (drop j us) s) (exec M qs s')"
    using pass_loop_sound [OF Suc.prems(1,2) passable_drop [OF assms(2)] Suc.prems(3)] .
  show ?case
  proof (cases "exec M (drop j us) s")
    case (Goto l t)
    then obtain t' where t': "exec M qs s' = Goto l t'" "agree (L (Some l)) t t'"
      using e by (cases "exec M qs s'") auto
    obtain q where "q \<in> set us" "is_jump q" "l = jump_label q"
      using exec_goto [OF Goto] by (metis in_set_dropD)
    moreover have "quad_ok ts q" if "q \<in> set us" for q
      using that assms(2) by (induction us) (auto dest: passable_Cons)
    ultimately have l: "l \<noteq> 0" by (auto simp: quad_ok_def)
    obtain j' m' where j': "j' \<le> length us" "from_label l us = drop j' us" "pass_loop m' fo ts us j' = Inr (from_label l os)"
      using pass_loop_label [OF assms(1) _ _ l, of L] assms(2) by auto
    have "agree (\<lambda>x. live L x (drop j' us)) t t'" using agree_mono [OF t'(2)] closed [of _ l] j'(2) by auto
    from Suc.IH [OF j'(3,1) this] show ?thesis using Goto t' j'(2) by simp
  qed (use e in \<open>cases "exec M qs s'"; auto\<close>)+
qed

end



definition fold_example :: "nnc_quad list" where
  "fold_example =
     [quad2 OP_COPY (cgt_addr 1 (Some u32_type)) (nnc_3a_mki2 5 (Some u32_type)),
      quad2 OP_MINUS (cgt_addr 1 (Some u32_type)) (cgt_addr 1 (Some u32_type)),
      quad2 OP_RETF no_addr (cgt_addr 1 (Some u32_type))]"

lemma u32_checks:
  "type_check nnc_real_type static_types (Some u32_type) = Inr False"
  "type_check nnc_integral_type static_types (Some u32_type) = Inr True"
  "type_check nnc_signed_type static_types (Some u32_type) = Inr False"
proof -
  have "kind_of static_types u32_type = Some T_PRIMITIVE_U32"
    using kind_of_static [of u32_type "[]"] by (simp add: static_types_def base_type_def)
  then show "type_check nnc_real_type static_types (Some u32_type) = Inr False"
    "type_check nnc_integral_type static_types (Some u32_type) = Inr True"
    "type_check nnc_signed_type static_types (Some u32_type) = Inr False"
    by (simp_all add: type_check_def nnc_real_type_def nnc_integral_type_def nnc_signed_type_def kind_in_def
        real_kinds_def integral_kinds_def signed_kinds_def)
qed

lemmas addr_defs = cgt_addr_def no_addr_def nnc_3a_mki2_def nnc_3a_mki3_def local_addr_def quad3_def
lemmas pattern_defs = nnc_3a_optimize_peep_def nnc_3a_search_peep_pattern_def nnc_3a_op_copy_pat_def pat_fns_def
  nnc_3a_op_copy_pat_part2_def nnc_3a_op_copy_pat_part3_def nnc_3a_op_copy_pat_part4_def
  nnc_3a_op_copy_pat_part5_def nnc_3a_op_copy_pat_part8_def nnc_3a_op_ref_pat_def
lemmas rewriting_defs = nnc_3a_opt_none_def nnc_3a_opt_unary_const_fold_def nnc_3a_opt_unary_iconst_fold_def
  nnc_3a_opt_unary_subst_def nnc_3a_opt_binary_const_fold_def nnc_3a_opt_binary_iconst_fold_def

lemma fold_example_pass:
  "nnc_3a_optimization_pass fo static_types fold_example =
     Inr ([quad2 OP_COPY (cgt_addr 1 (Some u32_type)) (nnc_3a_mki2 (- 5) (Some u32_type)),
       quad2 OP_RETF no_addr (cgt_addr 1 (Some u32_type))], 1)"
  by (simp add: nnc_3a_optimization_pass_def fold_example_def pass_loop.simps pattern_defs rewriting_defs
      addr_defs op_groups is_cgt_def const_kind_def same_cgt_def u32_checks part8_ops_def)


section \<open>Where a pass does harm\<close>

definition assign_example :: "tref option \<Rightarrow> nnc_quad list" where
  "assign_example t =
     [quad2 OP_COPY (cgt_addr 2 t) (local_addr ''x'' t),
      quad2 OP_DEREF_COPY (cgt_addr 9 t) (cgt_addr 2 t),
      quad2 OP_COPY (cgt_addr 3 t) (cgt_addr 2 t),
      quad2 OP_RETF no_addr (cgt_addr 3 t)]"



text \<open>
  The quotient of an \<open>i32\<close> \<open>-6\<close> by \<open>2\<close> is folded with the unsigned division; and a name whose
  first field happens to be the number of the constant's temporary is taken for it.
\<close>

lemma i32_checks:
  "type_check nnc_real_type static_types (Some i32_type) = Inr False"
  "type_check nnc_integral_type static_types (Some i32_type) = Inr True"
proof -
  have "kind_of static_types i32_type = Some T_PRIMITIVE_I32"
    using kind_of_static [of i32_type "[]"] by (simp add: static_types_def base_type_def)
  then show "type_check nnc_real_type static_types (Some i32_type) = Inr False"
    "type_check nnc_integral_type static_types (Some i32_type) = Inr True"
    by (simp_all add: type_check_def nnc_real_type_def nnc_integral_type_def kind_in_def
        real_kinds_def integral_kinds_def)
qed

lemma signed_division_folded_unsigned:
  "nnc_3a_optimization_pass fo static_types
     [quad2 OP_COPY (cgt_addr 1 (Some i32_type)) (nnc_3a_mki2 (- 6) (Some i32_type)),
      quad2 OP_COPY (cgt_addr 2 (Some i32_type)) (nnc_3a_mki2 2 (Some i32_type)),
      quad3 OP_DIV (cgt_addr 1 (Some i32_type)) (cgt_addr 1 (Some i32_type)) (cgt_addr 2 (Some i32_type))] =
   Inr ([quad2 OP_COPY (cgt_addr 1 (Some i32_type)) (nnc_3a_mki2 9223372036854775805 (Some i32_type))], 2)"
proof -
  have "fold_iconst OP_DIV (- 6) 2 = Inr 9223372036854775805" by code_simp
  then show ?thesis
    by (simp add: nnc_3a_optimization_pass_def pass_loop.simps pattern_defs rewriting_defs
      addr_defs op_groups is_cgt_def const_kind_def same_cgt_def i32_checks)
qed

lemma name_taken_for_temporary:
  "nnc_3a_optimization_pass fo static_types
     [quad2 OP_COPY (cgt_addr 1 (Some i32_type)) (nnc_3a_mki2 7 (Some i32_type)),
      quad2 OP_MINUS (cgt_addr 2 (Some i32_type)) (local_addr ''x'' (Some i32_type))] =
   Inr ([quad2 OP_COPY (cgt_addr 2 (Some i32_type)) (nnc_3a_mki2 (- 7) (Some i32_type))], 1)"
  by (simp add: nnc_3a_optimization_pass_def pass_loop.simps pattern_defs rewriting_defs
      addr_defs op_groups is_cgt_def const_kind_def same_cgt_def i32_checks)


end
