(* ===== verification/Nnc_CFG.thy ===== *)
theory Nnc_CFG
  imports Nnc_IR Nnc_Map
begin

text \<open>
  Basic blocks and the control-flow graph, \<^verbatim>\<open>src/src/nnc_3a_cfg.c\<close>. A node refers to another
  node by its position in the vector \<^verbatim>\<open>cfg->nodes\<close>; the table of labels is the hash map of
  \<^verbatim>\<open>nnc_map.c\<close> itself. The properties show that the blocks partition the code, that the flags
  left by the traversal are exactly reachability, and that removing the unreachable nodes never
  fails and preserves every run of the procedure.
\<close>

section \<open>Basic blocks\<close>

definition jump_ops :: "nnc_3a_op_kind list" where
  "jump_ops = [OP_RETF, OP_RETP, OP_UJUMP, OP_CJUMPT, OP_CJUMPF, OP_CJUMPE, OP_CJUMPLT, OP_CJUMPGT,
     OP_CJUMPNE, OP_CJUMPLTE, OP_CJUMPGTE]"

definition nnc_3a_jump_op :: "nnc_3a_op_kind \<Rightarrow> bool" where
  "nnc_3a_jump_op o' \<longleftrightarrow> o' \<in> set jump_ops"

record nnc_3a_basic =
  bid :: u32
  bquads :: "nnc_quad list"

definition nnc_3a_mkblock :: "u32 \<Rightarrow> nnc_3a_basic" where
  "nnc_3a_mkblock x = \<lparr>bid = x, bquads = []\<rparr>"

abbreviation add_quad :: "nnc_3a_basic \<Rightarrow> nnc_quad \<Rightarrow> nnc_3a_basic" where
  "add_quad b q \<equiv> b\<lparr>bquads := bquads b @ [q]\<rparr>"

text \<open>The loop: the last number given (\<open>n\<close>), the current block and the finished ones.\<close>

fun blocks_loop :: "u32 \<Rightarrow> nnc_3a_basic \<Rightarrow> nnc_3a_basic list \<Rightarrow> nnc_quad list \<Rightarrow> nnc_3a_basic list" where
  "blocks_loop n b bs [] = (if bquads b \<noteq> [] then bs @ [b] else bs)"
| "blocks_loop n b bs (q # qs) =
     (if qlabel q \<noteq> 0 then
        (let (n1, b1, bs1) = (if bquads b = [] then (n, add_quad b q, bs)
                              else (n + 1, add_quad (nnc_3a_mkblock (n + 1)) q, bs @ [b]))
         in if nnc_3a_jump_op (qop q) then blocks_loop (n1 + 1) (nnc_3a_mkblock (n1 + 1)) (bs1 @ [b1]) qs
            else blocks_loop n1 b1 bs1 qs)
      else if nnc_3a_jump_op (qop q) then
        blocks_loop (n + 1) (nnc_3a_mkblock (n + 1)) (bs @ [add_quad b q]) qs
      else blocks_loop n (add_quad b q) bs qs)"

definition nnc_3a_get_blocks :: "nnc_quad list \<Rightarrow> nnc_3a_basic list" where
  "nnc_3a_get_blocks qs = (if qs = [] then [] else blocks_loop 1 (nnc_3a_mkblock 1) [] qs)"

section \<open>The graph\<close>

record nnc_3a_cfg_node =
  nid :: u32
  labeled :: bool
  unreachable :: bool
  block :: nnc_3a_basic
  next_node :: "nat option"
  jump_node :: "nat option"

record nnc_3a_cfg =
  root :: "nat option"
  nodes :: "nnc_3a_cfg_node list"

definition nnc_3a_mknode :: "nnc_3a_basic \<Rightarrow> nnc_3a_cfg_node res" where
  "nnc_3a_mknode b =
     bind_res (assert_res (bquads b \<noteq> [])) (\<lambda>_.
       Inr \<lparr>nid = bid b, labeled = (qlabel (hd (bquads b)) \<noteq> 0), unreachable = False, block = b,
            next_node = None, jump_node = None\<rparr>)"

type_synonym node_map = "(u64, nat) nnc_map"

text \<open>The first label of each block, in the order of the blocks.\<close>

definition first_label :: "nnc_quad list \<Rightarrow> u32 option" where
  "first_label qs = (case filter (\<lambda>q. qlabel q \<noteq> 0) qs of [] \<Rightarrow> None | q # _ \<Rightarrow> Some (qlabel q))"

definition put_node :: "nat \<times> nnc_3a_cfg_node \<Rightarrow> node_map \<Rightarrow> node_map res" where
  "put_node e m =
     bind_res (assert_res (bquads (block (snd e)) \<noteq> [])) (\<lambda>_.
       case first_label (bquads (block (snd e))) of None \<Rightarrow> Inr m
       | Some l \<Rightarrow> nncmap_put int_keys m (ucast l) (fst e))"

definition nnc_3a_init_node_map :: "nnc_3a_cfg_node list \<Rightarrow> node_map res" where
  "nnc_3a_init_node_map ns =
     fold_res put_node (enumerate 0 ns) (nncmap_init (max 1 (length ns div 2)))"

text \<open>The branches of node \<open>i\<close> of \<open>n\<close>.\<close>

definition link_node :: "node_map \<Rightarrow> nat \<Rightarrow> nat \<times> nnc_3a_cfg_node \<Rightarrow> nnc_3a_cfg_node res" where
  "link_node m n e =
     (let (i, x) = e; qs = bquads (block x); fall = (if i = n - 1 then None else Some (i + 1));
          x' = x\<lparr>next_node := None, jump_node := None, unreachable := True\<rparr> in
      bind_res (assert_res (qs \<noteq> [])) (\<lambda>_.
        let q = last qs in
        if qop q \<in> {OP_RETF, OP_RETP} then Inr x'
        else if nnc_3a_jump_op (qop q) then
          bind_res (nncmap_has int_keys m (ucast (jump_label q))) (\<lambda>h.
          bind_res (assert_res h) (\<lambda>_.
          bind_res (nncmap_get int_keys m (ucast (jump_label q))) (\<lambda>j.
            Inr (if qop q \<noteq> OP_UJUMP then x'\<lparr>jump_node := Some j, next_node := fall\<rparr>
                 else x'\<lparr>jump_node := Some j\<rparr>))))
        else Inr (x'\<lparr>next_node := fall\<rparr>)))"

fun map_res :: "('a \<Rightarrow> 'b res) \<Rightarrow> 'a list \<Rightarrow> 'b list res" where
  "map_res f [] = Inr []"
| "map_res f (x # xs) = bind_res (f x) (\<lambda>y. bind_res (map_res f xs) (\<lambda>ys. Inr (y # ys)))"

text \<open>
  The traversal clears the flags of what it reaches. Every call that goes deeper has cleared a
  flag, so one more than the number of nodes is enough fuel.
\<close>

fun nnc_3a_cfg_traverse_node :: "nat \<Rightarrow> nat option \<Rightarrow> nnc_3a_cfg_node list \<Rightarrow> nnc_3a_cfg_node list res" where
  "nnc_3a_cfg_traverse_node n None ns = Inr ns"
| "nnc_3a_cfg_traverse_node n (Some i) ns =
     (if length ns \<le> i then Inl Crash
      else if \<not> unreachable (ns ! i) then Inr ns
      else case n of 0 \<Rightarrow> Inl NoFuel
      | Suc n' \<Rightarrow>
          bind_res (nnc_3a_cfg_traverse_node n' (next_node (ns ! i)) (ns[i := (ns ! i)\<lparr>unreachable := False\<rparr>]))
            (\<lambda>ns'. nnc_3a_cfg_traverse_node n' (jump_node (ns ! i)) ns'))"

definition nnc_3a_cfg_traverse :: "nnc_3a_cfg \<Rightarrow> nnc_3a_cfg res" where
  "nnc_3a_cfg_traverse cfg =
     bind_res (nnc_3a_cfg_traverse_node (Suc (length (nodes cfg))) (root cfg) (nodes cfg))
       (\<lambda>ns. Inr (cfg\<lparr>nodes := ns\<rparr>))"

definition nnc_3a_cfg_rebuild :: "nnc_3a_cfg_node list \<Rightarrow> nnc_3a_cfg res" where
  "nnc_3a_cfg_rebuild ns =
     bind_res (nnc_3a_init_node_map ns) (\<lambda>m.
     bind_res (map_res (link_node m (length ns)) (enumerate 0 ns)) (\<lambda>ns'.
       nnc_3a_cfg_traverse \<lparr>root = (if ns = [] then None else Some 0), nodes = ns'\<rparr>))"

definition nnc_3a_get_cfg :: "nnc_3a_basic list \<Rightarrow> nnc_3a_cfg res" where
  "nnc_3a_get_cfg bs = bind_res (map_res nnc_3a_mknode bs) nnc_3a_cfg_rebuild"

text \<open>The number of quads dropped is added to the statistics.\<close>

definition nnc_3a_cfg_optimize :: "nnc_3a_cfg \<Rightarrow> (nnc_3a_cfg \<times> nat) res" where
  "nnc_3a_cfg_optimize cfg =
     (let dropped = filter unreachable (nodes cfg); used = filter (\<lambda>x. \<not> unreachable x) (nodes cfg) in
      bind_res (nnc_3a_cfg_rebuild used) (\<lambda>cfg'.
        Inr (cfg', sum_list (map (\<lambda>x. length (bquads (block x))) dropped))))"

section \<open>The blocks partition the code\<close>

definition block_ok :: "nnc_3a_basic \<Rightarrow> bool" where
  "block_ok b \<longleftrightarrow> bquads b \<noteq> [] \<and> list_all (\<lambda>q. qlabel q = 0) (tl (bquads b)) \<and>
     list_all (\<lambda>q. \<not> nnc_3a_jump_op (qop q)) (butlast (bquads b))"

text \<open>Between two blocks there is a reason for the border.\<close>

fun borders_ok :: "nnc_3a_basic list \<Rightarrow> bool" where
  "borders_ok (b # b' # bs) \<longleftrightarrow>
     (nnc_3a_jump_op (qop (last (bquads b))) \<or> qlabel (hd (bquads b')) \<noteq> 0) \<and> borders_ok (b' # bs)"
| "borders_ok _ \<longleftrightarrow> True"

definition open_ok :: "nnc_3a_basic \<Rightarrow> bool" where
  "open_ok b \<longleftrightarrow> list_all (\<lambda>q. qlabel q = 0) (tl (bquads b)) \<and> list_all (\<lambda>q. \<not> nnc_3a_jump_op (qop q)) (bquads b)"

definition loop_inv :: "u32 \<Rightarrow> nnc_3a_basic \<Rightarrow> nnc_3a_basic list \<Rightarrow> bool" where
  "loop_inv n b bs \<longleftrightarrow> open_ok b \<and> list_all block_ok bs \<and> bid b = n \<and> n = of_nat (Suc (length bs)) \<and>
     map bid bs = map (\<lambda>i. of_nat (Suc i)) [0..<length bs] \<and>
     borders_ok (if bquads b = [] then bs else bs @ [b]) \<and>
     (bquads b = [] \<and> bs \<noteq> [] \<longrightarrow> nnc_3a_jump_op (qop (last (bquads (last bs)))))"

lemma borders_ok_snoc:
  "borders_ok (bs @ [b]) \<longleftrightarrow> borders_ok bs \<and>
     (bs \<noteq> [] \<longrightarrow> nnc_3a_jump_op (qop (last (bquads (last bs)))) \<or> qlabel (hd (bquads b)) \<noteq> 0)"
  by (induction bs rule: borders_ok.induct) auto

lemma close_block: "open_ok b \<Longrightarrow> bquads b \<noteq> [] \<Longrightarrow> block_ok b"
  by (auto simp: open_ok_def block_ok_def list_all_iff dest: in_set_butlastD)

lemma close_jump: "open_ok b \<Longrightarrow> bquads b = [] \<or> qlabel q = 0 \<Longrightarrow> block_ok (add_quad b q)"
  by (cases "bquads b") (auto simp: open_ok_def block_ok_def list_all_iff butlast_append)

lemma extend_open: "open_ok b \<Longrightarrow> bquads b = [] \<or> qlabel q = 0 \<Longrightarrow> \<not> nnc_3a_jump_op (qop q) \<Longrightarrow> open_ok (add_quad b q)"
  by (cases "bquads b") (auto simp: open_ok_def list_all_iff)

lemma mkblock_simps [simp]: "bquads (nnc_3a_mkblock n) = []" "bid (nnc_3a_mkblock n) = n" "open_ok (nnc_3a_mkblock n)"
  by (simp_all add: nnc_3a_mkblock_def open_ok_def)

lemma loop_inv_add:
  assumes "loop_inv n b bs" "bquads b = [] \<or> qlabel q = 0" "\<not> nnc_3a_jump_op (qop q)"
  shows "loop_inv n (add_quad b q) bs"
  using assms extend_open [of b q] by (cases "bquads b") (auto simp: loop_inv_def borders_ok_snoc)

lemma loop_inv_jump:
  assumes "loop_inv n b bs" "bquads b = [] \<or> qlabel q = 0" "nnc_3a_jump_op (qop q)"
  shows "loop_inv (n + 1) (nnc_3a_mkblock (n + 1)) (bs @ [add_quad b q])"
  using assms close_jump [of b q] by (cases "bquads b") (auto simp: loop_inv_def borders_ok_snoc)

lemma loop_inv_close:
  assumes "loop_inv n b bs" "bquads b \<noteq> []" "qlabel q \<noteq> 0"
  shows "if nnc_3a_jump_op (qop q)
    then loop_inv (n + 2) (nnc_3a_mkblock (n + 2)) (bs @ [b, add_quad (nnc_3a_mkblock (n + 1)) q])
    else loop_inv (n + 1) (add_quad (nnc_3a_mkblock (n + 1)) q) (bs @ [b])"
proof -
  have b: "block_ok b" using assms by (auto simp: loop_inv_def intro: close_block)
  have bo: "borders_ok ((bs @ [b]) @ [add_quad (nnc_3a_mkblock (n + 1)) q])"
    using assms unfolding borders_ok_snoc [of "bs @ [b]"] by (simp add: loop_inv_def)
  show ?thesis
    using assms b bo extend_open [of "nnc_3a_mkblock (n + 1)" q] close_jump [of "nnc_3a_mkblock (n + 1)" q]
    by (auto simp: loop_inv_def add.assoc)
qed

lemma blocks_loop_ok:
  assumes "loop_inv n b bs"
  shows "list_all block_ok (blocks_loop n b bs qs) \<and> borders_ok (blocks_loop n b bs qs) \<and>
    concat (map bquads (blocks_loop n b bs qs)) = concat (map bquads bs) @ bquads b @ qs \<and>
    map bid (blocks_loop n b bs qs) = map (\<lambda>i. of_nat (Suc i)) [0..<length (blocks_loop n b bs qs)]"
  using assms
proof (induction qs arbitrary: n b bs)
  case Nil
  then show ?case by (auto simp: loop_inv_def intro: close_block)
next
  case (Cons q qs)
  show ?case
  proof (cases "qlabel q \<noteq> 0 \<and> bquads b \<noteq> []")
    case True
    then show ?thesis using loop_inv_close [OF Cons.prems, of q] Cons.IH
      by (auto simp: add.assoc split: if_splits)
  next
    case False
    then show ?thesis using loop_inv_add [OF Cons.prems, of q] loop_inv_jump [OF Cons.prems, of q] Cons.IH
      by (auto split: if_splits)
  qed
qed

text \<open>
  C26. The basic blocks of a procedure are its code cut in pieces: none is empty, labels stand
  only at the beginning and jumps and returns only at the end of a block, every border has such
  a reason, and the blocks are numbered from 1 (modulo \<open>2 ^ 32\<close>).
\<close>

theorem blocks_partition:
  "concat (map bquads (nnc_3a_get_blocks qs)) = qs \<and> list_all block_ok (nnc_3a_get_blocks qs) \<and>
   borders_ok (nnc_3a_get_blocks qs) \<and>
   map bid (nnc_3a_get_blocks qs) = map (\<lambda>i. of_nat (Suc i)) [0..<length (nnc_3a_get_blocks qs)]"
proof -
  have "loop_inv 1 (nnc_3a_mkblock 1) []" by (simp add: loop_inv_def)
  from blocks_loop_ok [OF this, of qs] show ?thesis by (simp add: nnc_3a_get_blocks_def)
qed


section \<open>The flow between blocks\<close>

text \<open>
  The intended graph, read off the blocks alone: control falls into the next block unless the
  block ends with a return or an unconditional jump, and jumps to the block its label heads.
\<close>

definition head_label :: "nnc_3a_basic \<Rightarrow> u32" where
  "head_label b = qlabel (hd (bquads b))"

definition label_pos :: "nnc_3a_basic list \<Rightarrow> u32 \<Rightarrow> nat" where
  "label_pos bs l = length (takeWhile (\<lambda>b. head_label b \<noteq> l) bs)"

definition flow_next :: "nnc_3a_basic list \<Rightarrow> nat \<Rightarrow> nat option" where
  "flow_next bs i = (if stops (last (bquads (bs ! i))) \<or> Suc i = length bs then None else Some (Suc i))"

definition flow_jump :: "nnc_3a_basic list \<Rightarrow> nat \<Rightarrow> nat option" where
  "flow_jump bs i = (let q = last (bquads (bs ! i)) in if is_jump q then Some (label_pos bs (jump_label q)) else None)"

definition flow :: "nnc_3a_basic list \<Rightarrow> (nat \<times> nat) set" where
  "flow bs = {(i, j). i < length bs \<and> (flow_next bs i = Some j \<or> flow_jump bs i = Some j)}"

definition block_code :: "nnc_3a_basic list \<Rightarrow> nnc_quad list" where
  "block_code bs = concat (map bquads bs)"

text \<open>Labels are unique, and every jump has its label.\<close>

definition jumps_resolve :: "nnc_quad list \<Rightarrow> bool" where
  "jumps_resolve qs \<longleftrightarrow> distinct (filter (\<lambda>l. l \<noteq> 0) (map qlabel qs)) \<and>
     list_all (\<lambda>q. is_jump q \<longrightarrow> jump_label q \<noteq> 0 \<and> jump_label q \<in> set (map qlabel qs)) qs"

definition blocks_resolve :: "nnc_3a_basic list \<Rightarrow> bool" where
  "blocks_resolve bs \<longleftrightarrow> list_all block_ok bs \<and> distinct (filter (\<lambda>l. l \<noteq> 0) (map head_label bs)) \<and>
     (\<forall>b \<in> set bs. is_jump (last (bquads b)) \<longrightarrow>
        jump_label (last (bquads b)) \<noteq> 0 \<and> jump_label (last (bquads b)) \<in> set (map head_label bs))"

lemma jump_op_iff: "nnc_3a_jump_op (qop q) \<longleftrightarrow> is_jump q \<or> qop q = OP_RETF \<or> qop q = OP_RETP"
  by (auto simp: nnc_3a_jump_op_def jump_ops_def is_jump_def op_groups)

lemma block_okD:
  assumes "block_ok b"
  shows "bquads b = hd (bquads b) # tl (bquads b)" "\<And>q. q \<in> set (tl (bquads b)) \<Longrightarrow> qlabel q = 0"
    "\<And>q. q \<in> set (butlast (bquads b)) \<Longrightarrow> \<not> nnc_3a_jump_op (qop q)"
  using assms by (auto simp: block_ok_def list_all_iff)

lemma block_labels: "block_ok b \<Longrightarrow> filter (\<lambda>l. l \<noteq> 0) (map qlabel (bquads b)) = filter (\<lambda>l. l \<noteq> 0) [head_label b]"
  by (cases "bquads b") (auto simp: block_ok_def list_all_iff head_label_def filter_empty_conv)

lemma code_labels: "list_all block_ok bs \<Longrightarrow>
    filter (\<lambda>l. l \<noteq> 0) (map qlabel (block_code bs)) = filter (\<lambda>l. l \<noteq> 0) (map head_label bs)"
  by (induction bs) (auto simp: block_code_def block_labels)

lemma first_label_block: "block_ok b \<Longrightarrow> first_label (bquads b) = (if head_label b = 0 then None else Some (head_label b))"
  by (cases "bquads b") (auto simp: block_ok_def list_all_iff head_label_def first_label_def
    filter_empty_conv split: list.split)

lemma block_jump: "block_ok b \<Longrightarrow> q \<in> set (bquads b) \<Longrightarrow> is_jump q \<Longrightarrow> q = last (bquads b)"
  using append_butlast_last_id [of "bquads b"] block_okD(3) [of b q]
  by (auto simp: block_ok_def jump_op_iff) (metis Un_iff append_butlast_last_id in_set_conv_decomp
      insert_iff list.set(2) set_append empty_iff list.set(1))

lemma blocks_resolve_code:
  assumes "list_all block_ok bs" "jumps_resolve (block_code bs)"
  shows "blocks_resolve bs"
proof -
  have "l \<in> set (map head_label bs)" if "l \<noteq> 0" "l \<in> set (map qlabel (block_code bs))" for l
  proof -
    have "l \<in> set (filter (\<lambda>l. l \<noteq> 0) (map qlabel (block_code bs)))" using that by simp
    then show ?thesis unfolding code_labels [OF assms(1)] by simp
  qed
  moreover have "last (bquads b) \<in> set (block_code bs)" if "b \<in> set bs" for b
    using that assms(1) by (auto simp: block_code_def list_all_iff block_ok_def intro!: bexI [of _ b])
  ultimately show ?thesis
    using assms unfolding blocks_resolve_def jumps_resolve_def code_labels [OF assms(1)]
    by (auto simp: list_all_iff)
qed

lemma label_pos_head:
  assumes "l \<in> set (map head_label bs)"
  shows "label_pos bs l < length bs \<and> head_label (bs ! label_pos bs l) = l"
proof -
  have "\<exists>b\<in>set bs. \<not> (head_label b \<noteq> l)" using assms by auto
  then have lt: "label_pos bs l < length bs"
    unfolding label_pos_def by (induction bs) auto
  then show ?thesis using nth_length_takeWhile [of "\<lambda>b. head_label b \<noteq> l" bs] by (simp add: label_pos_def)
qed

lemma distinct_filter_nth:
  assumes "distinct (filter P xs)" "i < length xs" "j < length xs" "P (xs ! i)" "xs ! i = xs ! j"
  shows "i = j"
  using assms
proof (induction xs arbitrary: i j)
  case Nil
  then show ?case by simp
next
  case (Cons x xs)
  then show ?case
    by (cases i; cases j) (auto split: if_splits dest: nth_mem)
qed

lemma label_pos_nth:
  assumes "blocks_resolve bs" "i < length bs" "head_label (bs ! i) \<noteq> 0"
  shows "label_pos bs (head_label (bs ! i)) = i"
proof -
  have "head_label (bs ! i) \<in> set (map head_label bs)" using assms(2) by simp
  note h = label_pos_head [OF this]
  show ?thesis
    using assms h distinct_filter_nth [of "\<lambda>l. l \<noteq> 0" "map head_label bs" i "label_pos bs (head_label (bs ! i))"]
    by (simp add: blocks_resolve_def)
qed

lemma flow_jump_ok:
  assumes "blocks_resolve bs" "i < length bs" "flow_jump bs i = Some j"
  shows "j < length bs \<and> head_label (bs ! j) = jump_label (last (bquads (bs ! i)))"
  using assms label_pos_head [of "jump_label (last (bquads (bs ! i)))" bs]
  by (auto simp: blocks_resolve_def flow_jump_def Let_def split: if_splits)

lemma flow_bound: "blocks_resolve bs \<Longrightarrow> (i, j) \<in> flow bs \<Longrightarrow> i < length bs \<and> j < length bs"
  using flow_jump_ok [of bs i j] by (auto simp: flow_def flow_next_def split: if_splits)

lemma from_label_code:
  assumes "list_all block_ok bs" "l \<noteq> 0"
  shows "from_label l (block_code bs) = block_code (drop (label_pos bs l) bs)"
  using assms
proof (induction bs)
  case Nil
  then show ?case by (simp add: block_code_def from_label_def)
next
  case (Cons b bs)
  have bq: "bquads b = hd (bquads b) # tl (bquads b)" using block_okD(1) Cons.prems by simp
  have tl: "dropWhile (\<lambda>q. qlabel q \<noteq> l) (tl (bquads b) @ ys) = dropWhile (\<lambda>q. qlabel q \<noteq> l) ys" for ys
    by (rule dropWhile_append2) (use block_okD(2) [of b] Cons.prems in auto)
  obtain q r where qr: "bquads b = q # r" using bq by blast
  show ?case using Cons tl
    by (auto simp: qr from_label_def block_code_def label_pos_def head_label_def)
qed


section \<open>What linking the nodes gives\<close>

lemma ucast_u32_id: "ucast (ucast (a :: u32) :: u64) = a"
  by (rule ucast_up_ucast_id) (simp add: is_up)

lemma ucast_u32_inj: "ucast (a :: u32) = (ucast b :: u64) \<longleftrightarrow> a = b"
  by (metis ucast_u32_id)

abbreviation node_key :: "nnc_3a_cfg_node \<Rightarrow> u64" where
  "node_key x \<equiv> ucast (head_label (block x))"

lemma put_nodes:
  assumes "map_inv int_keys m" "list_all (block_ok \<circ> block) ns"
    "distinct (filter (\<lambda>l. l \<noteq> 0) (map (head_label \<circ> block) ns))"
    "\<forall>x \<in> set ns. head_label (block x) \<noteq> 0 \<longrightarrow> map_abs int_keys m (node_key x) = None"
  shows "\<exists>m'. fold_res put_node (enumerate k ns) m = Inr m' \<and> map_inv int_keys m' \<and>
    (\<forall>y. y \<notin> node_key ` set (filter (\<lambda>x. head_label (block x) \<noteq> 0) ns) \<longrightarrow> map_abs int_keys m' y = map_abs int_keys m y) \<and>
    (\<forall>i < length ns. head_label (block (ns ! i)) \<noteq> 0 \<longrightarrow>
       map_abs int_keys m' (node_key (ns ! i)) = Some (k + i))"
  using assms
proof (induction ns arbitrary: k m)
  case Nil
  then show ?case by simp
next
  case (Cons x ns)
  have ok: "block_ok (block x)" using Cons.prems(2) by simp
  then have ne: "bquads (block x) \<noteq> []" by (simp add: block_ok_def)
  show ?case
  proof (cases "head_label (block x) = 0")
    case True
    have "put_node (k, x) m = Inr m" using ok ne True by (simp add: put_node_def first_label_block)
    then show ?thesis using Cons.IH [of m "Suc k"] Cons.prems True
      by (auto simp: nth_Cons split: nat.splits)
  next
    case False
    have "map_abs int_keys m (node_key x) = None" using Cons.prems(4) False by simp
    from int_dict.put_abs [OF Cons.prems(1) this, of k]
    obtain m1 where m1: "nncmap_put int_keys m (node_key x) k = Inr m1" "map_inv int_keys m1"
      "map_abs int_keys m1 = (map_abs int_keys m)(node_key x \<mapsto> k)" by blast
    have put: "put_node (k, x) m = Inr m1" using ok ne False m1(1) by (simp add: put_node_def first_label_block)
    have new: "node_key y \<noteq> node_key x" if "y \<in> set ns" "head_label (block y) \<noteq> 0" for y
      using Cons.prems(3) that False unfolding ucast_u32_inj by (auto simp: image_iff)
    have ok': "list_all (block_ok \<circ> block) ns" and dist: "distinct (filter (\<lambda>l. l \<noteq> 0) (map (head_label \<circ> block) ns))"
      using Cons.prems(2,3) False by (simp_all add: comp_def)
    have fresh: "\<forall>y \<in> set ns. head_label (block y) \<noteq> 0 \<longrightarrow> map_abs int_keys m1 (node_key y) = None"
      using Cons.prems(4) new by (simp add: m1(3))
    obtain m' where m': "fold_res put_node (enumerate (Suc k) ns) m1 = Inr m'" "map_inv int_keys m'"
      "\<forall>y. y \<notin> node_key ` set (filter (\<lambda>x. head_label (block x) \<noteq> 0) ns) \<longrightarrow> map_abs int_keys m' y = map_abs int_keys m1 y"
      "\<forall>i < length ns. head_label (block (ns ! i)) \<noteq> 0 \<longrightarrow> map_abs int_keys m' (node_key (ns ! i)) = Some (Suc k + i)"
      using Cons.IH [OF m1(2) ok' dist fresh, of "Suc k"] by blast
    have "map_abs int_keys m' (node_key x) = Some k"
    proof -
      have "node_key x \<notin> node_key ` set (filter (\<lambda>x. head_label (block x) \<noteq> 0) ns)" using new by fastforce
      then show ?thesis using m'(3) by (simp add: m1(3))
    qed
    then show ?thesis using put m' False
      by (auto simp: m1(3) nth_Cons less_Suc_eq_0_disj split: nat.splits)
  qed
qed

lemma node_map_ok:
  assumes "blocks_resolve (map block ns)"
  shows "\<exists>m. nnc_3a_init_node_map ns = Inr m \<and> map_inv int_keys m \<and>
    (\<forall>l \<in> set (map (head_label \<circ> block) ns). l \<noteq> 0 \<longrightarrow>
       map_abs int_keys m (ucast l) = Some (label_pos (map block ns) l))"
proof -
  let ?c = "max 1 (length ns div 2)"
  have c: "0 < ?c" by simp
  have "\<forall>x \<in> set ns. head_label (block x) \<noteq> 0 \<longrightarrow> map_abs int_keys (nncmap_init ?c) (node_key x) = (None :: nat option)"
    by (intro ballI impI) (simp only: nncmap_init_empty [OF c])
  moreover have "list_all (block_ok \<circ> block) ns" "distinct (filter (\<lambda>l. l \<noteq> 0) (map (head_label \<circ> block) ns))"
    using assms by (simp_all add: blocks_resolve_def list_all_iff)
  ultimately obtain m where m: "nnc_3a_init_node_map ns = Inr m" "map_inv int_keys m"
    "\<forall>i < length ns. head_label (block (ns ! i)) \<noteq> 0 \<longrightarrow> map_abs int_keys m (node_key (ns ! i)) = Some i"
    using put_nodes [OF nncmap_init_inv [OF c], of ns 0] unfolding nnc_3a_init_node_map_def by fastforce
  have "map_abs int_keys m (ucast l) = Some (label_pos (map block ns) l)"
    if l: "l \<in> set (map (head_label \<circ> block) ns)" "l \<noteq> 0" for l
  proof -
    obtain i where i: "i < length ns" "l = head_label (block (ns ! i))" using l(1) by (auto simp: in_set_conv_nth)
    then show ?thesis using m(3) l(2) label_pos_nth [OF assms, of i] by simp
  qed
  then show ?thesis using m(1,2) by blast
qed

text \<open>A node as the relinking leaves it.\<close>

definition linked :: "nnc_3a_basic list \<Rightarrow> nat \<Rightarrow> nnc_3a_cfg_node \<Rightarrow> nnc_3a_cfg_node" where
  "linked bs i x = x\<lparr>next_node := flow_next bs i, jump_node := flow_jump bs i, unreachable := True\<rparr>"

lemma link_node_ok:
  assumes "blocks_resolve (map block ns)" "map_inv int_keys m" "i < length ns"
    "\<forall>l \<in> set (map (head_label \<circ> block) ns). l \<noteq> 0 \<longrightarrow>
       map_abs int_keys m (ucast l) = Some (label_pos (map block ns) l)"
  shows "link_node m (length ns) (i, ns ! i) = Inr (linked (map block ns) i (ns ! i))"
proof -
  let ?q = "last (bquads (block (ns ! i)))"
  have ne: "bquads (block (ns ! i)) \<noteq> []"
    using assms(1,3) by (auto simp: blocks_resolve_def block_ok_def list_all_iff)
  have fall: "(i = length ns - 1) \<longleftrightarrow> Suc i = length ns" using assms(3) by auto
  show ?thesis
  proof (cases "is_jump ?q")
    case True
    then have l: "jump_label ?q \<noteq> 0" "jump_label ?q \<in> set (map (head_label \<circ> block) ns)"
      using assms(1,3) by (auto simp: blocks_resolve_def)
    have abs: "map_abs int_keys m (ucast (jump_label ?q)) = Some (label_pos (map block ns) (jump_label ?q))"
      using assms(4) l by blast
    have "qop ?q \<notin> {OP_RETF, OP_RETP}" using True by (auto simp: is_jump_def op_groups)
    then show ?thesis
      using True ne assms(3) fall int_dict.get_abs [OF assms(2) abs] int_dict.has_abs [OF assms(2)] abs
      by (simp add: link_node_def linked_def Let_def flow_next_def flow_jump_def jump_op_iff stops_def)
  next
    case False
    then have "qop ?q \<noteq> OP_UJUMP" by (auto simp: is_jump_def)
    then show ?thesis using False ne assms(3) fall
      by (simp add: link_node_def linked_def Let_def flow_next_def flow_jump_def jump_op_iff stops_def)
  qed
qed

lemma map_res_ok: "(\<And>x. x \<in> set xs \<Longrightarrow> f x = Inr (g x)) \<Longrightarrow> map_res f xs = Inr (map g xs)"
  by (induction xs) auto

definition linked_nodes :: "nnc_3a_cfg_node list \<Rightarrow> nnc_3a_cfg_node list" where
  "linked_nodes ns = map (\<lambda>(i, x). linked (map block ns) i x) (enumerate 0 ns)"

lemma linked_nodes_nth:
  "i < length ns \<Longrightarrow> linked_nodes ns ! i = linked (map block ns) i (ns ! i)" "length (linked_nodes ns) = length ns"
  by (simp_all add: linked_nodes_def nth_enumerate_eq)

lemma rebuild_traverses:
  assumes "blocks_resolve (map block ns)"
  shows "nnc_3a_cfg_rebuild ns = nnc_3a_cfg_traverse
    \<lparr>root = (if ns = [] then None else Some 0), nodes = linked_nodes ns\<rparr>"
proof -
  obtain m where m: "nnc_3a_init_node_map ns = Inr m" "map_inv int_keys m"
    "\<forall>l \<in> set (map (head_label \<circ> block) ns). l \<noteq> 0 \<longrightarrow>
       map_abs int_keys m (ucast l) = Some (label_pos (map block ns) l)"
    using node_map_ok [OF assms] by blast
  have "map_res (link_node m (length ns)) (enumerate 0 ns) = Inr (linked_nodes ns)"
    unfolding linked_nodes_def
    by (rule map_res_ok) (auto simp: in_set_enumerate_eq intro!: link_node_ok [OF assms m(2) _ m(3)])
  then show ?thesis by (simp add: nnc_3a_cfg_rebuild_def m(1))
qed


section \<open>The traversal computes reachability\<close>

definition edges :: "nnc_3a_cfg_node list \<Rightarrow> (nat \<times> nat) set" where
  "edges ns = {(i, j). i < length ns \<and> (next_node (ns ! i) = Some j \<or> jump_node (ns ! i) = Some j)}"

definition visited :: "nnc_3a_cfg_node list \<Rightarrow> nat set" where
  "visited ns = {i. i < length ns \<and> \<not> unreachable (ns ! i)}"

text \<open>The nodes without the flag, which the traversal never changes.\<close>

definition skeleton :: "nnc_3a_cfg_node list \<Rightarrow> nnc_3a_cfg_node list" where
  "skeleton ns = map (\<lambda>x. x\<lparr>unreachable := False\<rparr>) ns"

definition edges_inside :: "nnc_3a_cfg_node list \<Rightarrow> bool" where
  "edges_inside ns \<longleftrightarrow> (\<forall>(i, j) \<in> edges ns. j < length ns)"

lemma skeleton_eqD:
  assumes "skeleton ns = skeleton ns'"
  shows "length ns = length ns'" "edges ns = edges ns'" "map block ns = map block ns'"
    "edges_inside ns = edges_inside ns'"
proof -
  show l: "length ns = length ns'" using arg_cong [OF assms, of length] by (simp add: skeleton_def)
  have n: "next_node (ns ! i) = next_node (ns' ! i) \<and> jump_node (ns ! i) = jump_node (ns' ! i)
      \<and> block (ns ! i) = block (ns' ! i)" if "i < length ns" for i
  proof -
    have "skeleton ns ! i = skeleton ns' ! i" using assms by simp
    then have e: "(ns ! i)\<lparr>unreachable := False\<rparr> = (ns' ! i)\<lparr>unreachable := False\<rparr>"
      using that l by (simp add: skeleton_def)
    show ?thesis using arg_cong [OF e, of next_node] arg_cong [OF e, of jump_node] arg_cong [OF e, of block] by simp
  qed
  show e: "edges ns = edges ns'" using n l by (auto simp: edges_def)
  show "map block ns = map block ns'" using n l by (auto intro: nth_equalityI)
  show "edges_inside ns = edges_inside ns'" by (simp add: edges_inside_def e l)
qed

text \<open>What a call of the traversal that starts at \<open>st\<close> does to the nodes.\<close>

definition spreads :: "nat option \<Rightarrow> nnc_3a_cfg_node list \<Rightarrow> nnc_3a_cfg_node list \<Rightarrow> bool" where
  "spreads st ns ns' \<longleftrightarrow> skeleton ns' = skeleton ns \<and> visited ns \<subseteq> visited ns' \<and> set_option st \<subseteq> visited ns' \<and>
     edges ns `` (visited ns' - visited ns) \<subseteq> visited ns' \<and>
     visited ns' - visited ns \<subseteq> (edges ns)\<^sup>* `` set_option st"

lemma visit_node:
  assumes "i < length ns" "unreachable (ns ! i)"
  shows "skeleton (ns[i := (ns ! i)\<lparr>unreachable := False\<rparr>]) = skeleton ns"
    "visited (ns[i := (ns ! i)\<lparr>unreachable := False\<rparr>]) = insert i (visited ns)"
    "i \<notin> visited ns"
proof -
  have "map f (ns[i := x]) = map f ns" if "f x = f (ns ! i)" for f :: "nnc_3a_cfg_node \<Rightarrow> nnc_3a_cfg_node" and x
    using that assms(1) by (metis list_update_id map_update)
  then show "skeleton (ns[i := (ns ! i)\<lparr>unreachable := False\<rparr>]) = skeleton ns" by (simp add: skeleton_def)
  show "visited (ns[i := (ns ! i)\<lparr>unreachable := False\<rparr>]) = insert i (visited ns)"
  proof (rule set_eqI)
    fix j show "j \<in> visited (ns[i := (ns ! i)\<lparr>unreachable := False\<rparr>]) \<longleftrightarrow> j \<in> insert i (visited ns)"
      using assms(1) by (cases "j = i") (simp_all add: visited_def)
  qed
  show "i \<notin> visited ns" using assms(2) by (simp add: visited_def)
qed

lemma visited_fewer:
  assumes "visited ns \<subseteq> visited ns'" "length ns = length ns'" "length ns \<le> n + card (visited ns)"
  shows "length ns' \<le> n + card (visited ns')"
proof -
  have "finite (visited ns')" by (rule finite_subset [of _ "{..<length ns'}"]) (auto simp: visited_def)
  then show ?thesis using card_mono [OF _ assms(1)] assms(2,3) by simp
qed

lemma spread_sets:
  assumes "insert i V \<subseteq> V1" "N \<subseteq> V1" "E `` (V1 - insert i V) \<subseteq> V1" "V1 - insert i V \<subseteq> E\<^sup>* `` N"
    and "V1 \<subseteq> V2" "J \<subseteq> V2" "E `` (V2 - V1) \<subseteq> V2" "V2 - V1 \<subseteq> E\<^sup>* `` J" and out: "E `` {i} = N \<union> J"
  shows "E `` (V2 - V) \<subseteq> V2" "V2 - V \<subseteq> E\<^sup>* `` {i}"
proof -
  have split: "V2 - V \<subseteq> {i} \<union> (V1 - insert i V) \<union> (V2 - V1)" by blast
  have "E `` (V2 - V) \<subseteq> E `` ({i} \<union> (V1 - insert i V) \<union> (V2 - V1))" by (rule Image_mono [OF subset_refl split])
  also have "\<dots> \<subseteq> V2" unfolding Image_Un out by (intro Un_least) (use assms(2,3,5,6,7) in \<open>simp_all add: subset_trans\<close>)
  finally show "E `` (V2 - V) \<subseteq> V2" .
  have "E\<^sup>* `` (N \<union> J) \<subseteq> E\<^sup>* `` {i}" unfolding out [symmetric] by (auto intro: converse_rtrancl_into_rtrancl)
  then have "E\<^sup>* `` N \<subseteq> E\<^sup>* `` {i}" "E\<^sup>* `` J \<subseteq> E\<^sup>* `` {i}" unfolding Image_Un by simp_all
  moreover have "i \<in> E\<^sup>* `` {i}" by simp
  ultimately show "V2 - V \<subseteq> E\<^sup>* `` {i}" using split assms(4,8) by blast
qed

lemma spreads_step:
  assumes i: "i < length ns" "unreachable (ns ! i)"
    and s1: "spreads (next_node (ns ! i)) (ns[i := (ns ! i)\<lparr>unreachable := False\<rparr>]) ns1"
    and s2: "spreads (jump_node (ns ! i)) ns1 ns2"
  shows "spreads (Some i) ns ns2"
proof -
  note v = visit_node [OF i]
  have sk: "skeleton ns1 = skeleton ns" using s1 v(1) by (simp add: spreads_def)
  note e = skeleton_eqD(2) [OF sk] skeleton_eqD(2) [OF v(1)]
  have out: "edges ns `` {i} = set_option (next_node (ns ! i)) \<union> set_option (jump_node (ns ! i))"
    using i by (auto simp: edges_def)
  note S1 = s1 [unfolded spreads_def e v(2)] and S2 = s2 [unfolded spreads_def e]
  note sets = spread_sets [of i "visited ns" "visited ns1" "set_option (next_node (ns ! i))" "edges ns"
      "visited ns2" "set_option (jump_node (ns ! i))"]
  have "edges ns `` (visited ns2 - visited ns) \<subseteq> visited ns2 \<and> visited ns2 - visited ns \<subseteq> (edges ns)\<^sup>* `` {i}"
    by (intro conjI sets; (use S1 S2 out in simp)?)
  moreover have "skeleton ns2 = skeleton ns" using sk S2 by simp
  moreover have "visited ns \<subseteq> visited ns2" "i \<in> visited ns2" using S1 S2 by auto
  ultimately show ?thesis by (simp add: spreads_def)
qed

lemma traverse_spreads:
  assumes "edges_inside ns" "set_option st \<subseteq> {..<length ns}" "length ns \<le> n + card (visited ns)"
  shows "\<exists>ns'. nnc_3a_cfg_traverse_node n st ns = Inr ns' \<and> spreads st ns ns'"
  using assms
proof (induction n st ns rule: nnc_3a_cfg_traverse_node.induct)
  case (1 n ns)
  then show ?case by (simp add: spreads_def)
next
  case (2 n i ns)
  have i: "i < length ns" using "2.prems"(2) by simp
  show ?case
  proof (cases "unreachable (ns ! i)")
    case False
    then show ?thesis using i by (cases n) (simp_all add: spreads_def visited_def)
  next
    case True
    let ?ns = "ns[i := (ns ! i)\<lparr>unreachable := False\<rparr>]"
    note v = visit_node [OF i True]
    have fin: "finite (visited ns)" by (rule finite_subset [of _ "{..<length ns}"]) (auto simp: visited_def)
    have ins: "edges_inside ?ns" using skeleton_eqD(4) [OF v(1)] "2.prems"(1) by simp
    have "card (visited ?ns) = Suc (card (visited ns))" using v(2,3) fin by simp
    moreover have "card (visited ?ns) \<le> length ns"
      using card_mono [of "{..<length ns}" "visited ?ns"] by (auto simp: visited_def)
    ultimately obtain n' where n: "n = Suc n'" and len: "length ?ns \<le> n' + card (visited ?ns)"
      using "2.prems"(3) by (cases n) auto
    have tgt: "set_option (next_node (ns ! i)) \<subseteq> {..<length ns}" "set_option (jump_node (ns ! i)) \<subseteq> {..<length ns}"
      using "2.prems"(1) i by (auto simp: edges_inside_def edges_def)
    have one: "\<not> length ns \<le> i" "\<not> \<not> unreachable (ns ! i)" using i True by simp_all
    obtain ns1 where ns1: "nnc_3a_cfg_traverse_node n' (next_node (ns ! i)) ?ns = Inr ns1"
      "spreads (next_node (ns ! i)) ?ns ns1"
      using "2.IH"(1) [OF one n ins _ len] tgt(1) by auto
    have sk: "skeleton ns1 = skeleton ?ns" and sub: "visited ?ns \<subseteq> visited ns1" using ns1(2) by (simp_all add: spreads_def)
    have ins1: "edges_inside ns1" using skeleton_eqD(4) [OF sk] ins by simp
    have l1: "length ns1 = length ?ns" using skeleton_eqD(1) [OF sk] .
    obtain ns2 where ns2: "nnc_3a_cfg_traverse_node n' (jump_node (ns ! i)) ns1 = Inr ns2"
      "spreads (jump_node (ns ! i)) ns1 ns2"
      using "2.IH"(2) [OF one n ns1(1) ins1 _ visited_fewer [OF sub l1 [symmetric] len]] tgt(2) l1 by auto
    show ?thesis
      using one n ns1(1) ns2(1) spreads_step [OF i True ns1(2) ns2(2)] by simp
  qed
qed

lemma traverse_root:
  assumes "edges_inside ns" "ns \<noteq> []" "visited ns = {}"
  shows "\<exists>ns'. nnc_3a_cfg_traverse_node (Suc (length ns)) (Some 0) ns = Inr ns' \<and> skeleton ns' = skeleton ns \<and>
    visited ns' = (edges ns)\<^sup>* `` {0}"
proof -
  obtain ns' where ns': "nnc_3a_cfg_traverse_node (Suc (length ns)) (Some 0) ns = Inr ns'" "spreads (Some 0) ns ns'"
    using traverse_spreads [of ns "Some 0" "Suc (length ns)"] assms by auto
  then have "edges ns `` visited ns' \<subseteq> visited ns'" "{0} \<subseteq> visited ns'" by (simp_all add: spreads_def assms(3))
  then have "(edges ns)\<^sup>* `` {0} \<subseteq> visited ns'"
    using Image_closed_trancl [of "edges ns" "visited ns'"] Image_mono [of _ _ "{0}" "visited ns'"] by blast
  then show ?thesis using ns' by (auto simp: spreads_def assms(3))
qed


section \<open>The graph of a procedure\<close>

text \<open>The vector of nodes that describes the flow of \<open>bs\<close> with reachability in the flags.\<close>

definition graph_of :: "nnc_3a_basic list \<Rightarrow> nnc_3a_cfg \<Rightarrow> bool" where
  "graph_of bs cfg \<longleftrightarrow> map block (nodes cfg) = bs \<and> root cfg = (if bs = [] then None else Some 0) \<and>
     map next_node (nodes cfg) = map (flow_next bs) [0..<length bs] \<and>
     map jump_node (nodes cfg) = map (flow_jump bs) [0..<length bs] \<and>
     map unreachable (nodes cfg) = map (\<lambda>i. i \<notin> (flow bs)\<^sup>* `` {0}) [0..<length bs]"

lemma skeleton_nth:
  assumes "skeleton ns = skeleton ns'" "i < length ns"
  shows "block (ns ! i) = block (ns' ! i)" "next_node (ns ! i) = next_node (ns' ! i)" "jump_node (ns ! i) = jump_node (ns' ! i)"
proof -
  have "skeleton ns ! i = skeleton ns' ! i" using assms by simp
  then have e: "(ns ! i)\<lparr>unreachable := False\<rparr> = (ns' ! i)\<lparr>unreachable := False\<rparr>"
    using assms skeleton_eqD(1) [OF assms(1)] by (simp add: skeleton_def)
  show "block (ns ! i) = block (ns' ! i)" "next_node (ns ! i) = next_node (ns' ! i)" "jump_node (ns ! i) = jump_node (ns' ! i)"
    using arg_cong [OF e, of block] arg_cong [OF e, of next_node] arg_cong [OF e, of jump_node] by simp_all
qed

lemma edges_linked: "edges (linked_nodes ns) = flow (map block ns)"
  by (auto simp: edges_def flow_def linked_nodes_nth linked_def)

lemma rebuild_graph:
  assumes "blocks_resolve (map block ns)"
  shows "\<exists>cfg. nnc_3a_cfg_rebuild ns = Inr cfg \<and> graph_of (map block ns) cfg"
proof (cases "ns = []")
  case True
  have "nnc_3a_cfg_rebuild ns = Inr \<lparr>root = None, nodes = []\<rparr>"
    unfolding rebuild_traverses [OF assms] by (simp add: True nnc_3a_cfg_traverse_def linked_nodes_def)
  then show ?thesis by (simp add: graph_of_def True)
next
  case False
  let ?l = "linked_nodes ns"
  have "edges_inside ?l" using flow_bound [OF assms] linked_nodes_nth(2) [of ns]
    by (auto simp: edges_inside_def edges_linked)
  moreover have "visited ?l = {}" by (auto simp: visited_def linked_nodes_nth linked_def)
  moreover have "?l \<noteq> []" using False linked_nodes_nth(2) [of ns] by auto
  ultimately obtain ns' where t: "nnc_3a_cfg_traverse_node (Suc (length ?l)) (Some 0) ?l = Inr ns'"
    and sk: "skeleton ns' = skeleton ?l" and vis: "visited ns' = (flow (map block ns))\<^sup>* `` {0}"
    using traverse_root [of ?l] by (auto simp: edges_linked)
  have len: "length ns' = length ns" using skeleton_eqD(1) [OF sk] linked_nodes_nth(2) [of ns] by simp
  note nth = skeleton_nth [OF sk]
  have "unreachable (ns' ! i) \<longleftrightarrow> i \<notin> (flow (map block ns))\<^sup>* `` {0}" if "i < length ns" for i
    using vis [symmetric] that len by (auto simp: visited_def)
  then have "graph_of (map block ns) \<lparr>root = Some 0, nodes = ns'\<rparr>"
    using False len nth by (auto simp: graph_of_def linked_nodes_nth linked_def intro!: nth_equalityI)
  moreover have "nnc_3a_cfg_rebuild ns = Inr \<lparr>root = Some 0, nodes = ns'\<rparr>"
    using t False by (simp add: rebuild_traverses [OF assms] nnc_3a_cfg_traverse_def)
  ultimately show ?thesis by blast
qed

lemma mknodes_ok:
  "list_all block_ok bs \<Longrightarrow> \<exists>ns. map_res nnc_3a_mknode bs = Inr ns \<and> map block ns = bs"
  by (induction bs) (auto simp: nnc_3a_mknode_def block_ok_def)

lemma get_cfg_graph:
  assumes "blocks_resolve bs"
  shows "\<exists>cfg. nnc_3a_get_cfg bs = Inr cfg \<and> graph_of bs cfg"
proof -
  have "list_all block_ok bs" using assms by (simp add: blocks_resolve_def)
  from mknodes_ok [OF this] obtain ns where ns: "map_res nnc_3a_mknode bs = Inr ns" "map block ns = bs" by blast
  show ?thesis using rebuild_graph [of ns] assms ns by (simp add: nnc_3a_get_cfg_def)
qed

lemma blocks_of_code:
  "list_all block_ok (nnc_3a_get_blocks qs)" "block_code (nnc_3a_get_blocks qs) = qs"
proof -
  have "loop_inv 1 (nnc_3a_mkblock 1) []" by (simp add: loop_inv_def)
  from blocks_loop_ok [OF this, of qs]
  show "list_all block_ok (nnc_3a_get_blocks qs)" "block_code (nnc_3a_get_blocks qs) = qs"
    by (auto simp: nnc_3a_get_blocks_def block_code_def)
qed

text \<open>A small procedure: a jump over an unreachable quad.\<close>

definition skip_code :: "nnc_quad list" where
  "skip_code = [quad3 OP_UJUMP (nnc_3a_mki3 2) no_addr no_addr, quad2 OP_COPY (cgt_addr 1 None) (nnc_3a_mki3 5),
     label_quad 2, quad3 OP_RETP no_addr no_addr no_addr]"

lemma skip_code_resolves: "jumps_resolve skip_code"
  by (simp add: skip_code_def jumps_resolve_def is_jump_def op_groups jump_label_def nnc_3a_mki3_def quad3_def label_quad_def no_quad_def)

text \<open>
  C17. If labels are unique and every jump has its label, the graph of a procedure is built
  without a failed assertion: the branches of the nodes are exactly the intended flow (fall through, or
  jump to the block headed by the label), and the flags left by the traversal say exactly which
  blocks no path from the first one reaches.
\<close>

theorem cfg_reachability:
  assumes "jumps_resolve qs"
  shows "\<exists>cfg. nnc_3a_get_cfg (nnc_3a_get_blocks qs) = Inr cfg \<and> graph_of (nnc_3a_get_blocks qs) cfg"
  by (intro get_cfg_graph blocks_resolve_code) (simp_all add: blocks_of_code assms)

lemma cfg_reachability_witness:
  "\<exists>cfg. nnc_3a_get_cfg (nnc_3a_get_blocks skip_code) = Inr cfg \<and> graph_of (nnc_3a_get_blocks skip_code) cfg"
  by (rule cfg_reachability [OF skip_code_resolves])


section \<open>Removing the unreachable nodes\<close>

definition reached :: "nnc_3a_basic list \<Rightarrow> nat set" where
  "reached bs = (flow bs)\<^sup>* `` {0}"

text \<open>The reachable blocks from the \<open>k\<close>th on, and how many stand before the \<open>k\<close>th.\<close>

definition kept :: "nnc_3a_basic list \<Rightarrow> nat \<Rightarrow> nnc_3a_basic list" where
  "kept bs k = map ((!) bs) (filter (\<lambda>i. i \<in> reached bs) [k..<length bs])"

definition rank :: "nnc_3a_basic list \<Rightarrow> nat \<Rightarrow> nat" where
  "rank bs k = length (filter (\<lambda>i. i \<in> reached bs) [0..<k])"

lemma upt_split: "k \<le> n \<Longrightarrow> [0..<n] = [0..<k] @ [k..<n]"
  by (metis le_add_diff_inverse upt_add_eq_append zero_le)

lemma kept_split: "k \<le> length bs \<Longrightarrow> kept bs 0 = map ((!) bs) (filter (\<lambda>i. i \<in> reached bs) [0..<k]) @ kept bs k"
  by (simp add: kept_def upt_split [of k "length bs"])

lemma drop_rank: "k \<le> length bs \<Longrightarrow> drop (rank bs k) (kept bs 0) = kept bs k"
  by (subst kept_split [of k]) (simp_all add: rank_def)

lemma kept_step: "k \<in> reached bs \<Longrightarrow> k < length bs \<Longrightarrow> kept bs k = bs ! k # kept bs (Suc k)"
  by (simp add: kept_def upt_conv_Cons)

lemma kept_nth:
  assumes "k \<in> reached bs" "k < length bs"
  shows "rank bs k < length (kept bs 0)" "kept bs 0 ! rank bs k = bs ! k"
proof -
  have "drop (rank bs k) (kept bs 0) = bs ! k # kept bs (Suc k)"
    using drop_rank [of k bs] kept_step [OF assms] assms(2) by simp
  then show "rank bs k < length (kept bs 0)" "kept bs 0 ! rank bs k = bs ! k"
    by (metis drop_eq_Nil linorder_not_le list.distinct(1), metis hd_drop_conv_nth drop_eq_Nil linorder_not_le list.distinct(1) list.sel(1))
qed

lemma rank_Suc: "k \<in> reached bs \<Longrightarrow> rank bs (Suc k) = Suc (rank bs k)"
  by (simp add: rank_def)

lemma reached_step: "k \<in> reached bs \<Longrightarrow> (k, j) \<in> flow bs \<Longrightarrow> j \<in> reached bs"
  by (auto simp: reached_def)

lemma label_pos_kept:
  assumes "l \<in> set (map head_label bs)" "label_pos bs l \<in> reached bs"
  shows "label_pos (kept bs 0) l = rank bs (label_pos bs l)"
proof -
  let ?j = "label_pos bs l"
  note j = label_pos_head [OF assms(1)]
  have before: "head_label (bs ! i) \<noteq> l" if "i < ?j" for i
    using that set_takeWhileD [of "bs ! i" "\<lambda>b. head_label b \<noteq> l" bs]
    unfolding label_pos_def by (metis nth_mem takeWhile_nth)
  have "takeWhile (\<lambda>b. head_label b \<noteq> l) (kept bs 0) = map ((!) bs) (filter (\<lambda>i. i \<in> reached bs) [0..<?j])"
  proof -
    have tw: "takeWhile (\<lambda>b. head_label b \<noteq> l) (xs @ kept bs ?j) = xs"
      if "\<And>b. b \<in> set xs \<Longrightarrow> head_label b \<noteq> l" for xs
      using j kept_step [OF assms(2)] that by (subst takeWhile_append2) simp_all
    have "head_label b \<noteq> l" if "b \<in> set (map ((!) bs) (filter (\<lambda>i. i \<in> reached bs) [0..<?j]))" for b
      using that before by auto
    then show ?thesis unfolding kept_split [OF less_imp_le, OF conjunct1, OF j] by (rule tw)
  qed
  then show ?thesis unfolding label_pos_def [of "kept bs 0"] by (simp add: rank_def)
qed

lemma kept_flow:
  assumes ok: "blocks_resolve bs" and k: "k \<in> reached bs" and e: "(k, j) \<in> flow bs"
  shows "(rank bs k, rank bs j) \<in> flow (kept bs 0)"
proof -
  have b: "k < length bs" "j < length bs" using flow_bound [OF ok e] by simp_all
  have jr: "j \<in> reached bs" using reached_step [OF k e] .
  note kn = kept_nth [OF k b(1)] and jn = kept_nth [OF jr b(2)]
  from e consider "flow_next bs k = Some j" | "flow_jump bs k = Some j" by (auto simp: flow_def)
  then show ?thesis
  proof cases
    case 1
    then have "j = Suc k" "\<not> stops (last (bquads (bs ! k)))" by (auto simp: flow_next_def split: if_splits)
    then show ?thesis using kn jn by (simp add: flow_def flow_next_def rank_Suc [OF k])
  next
    case 2
    let ?q = "last (bquads (bs ! k))"
    have q: "is_jump ?q" "j = label_pos bs (jump_label ?q)"
      using 2 by (auto simp: flow_jump_def Let_def split: if_splits)
    then have "jump_label ?q \<in> set (map head_label bs)" using ok b(1) by (auto simp: blocks_resolve_def)
    from label_pos_kept [OF this] jr q have "label_pos (kept bs 0) (jump_label ?q) = rank bs j" by simp
    then show ?thesis using kn q(1) by (simp add: flow_def flow_jump_def Let_def)
  qed
qed

lemma distinct_filter_filter:
  "distinct (filter P (map g xs)) \<Longrightarrow> distinct (filter P (map g (filter Q xs)))"
  by (induction xs) auto

lemma kept_resolves:
  assumes ok: "blocks_resolve bs"
  shows "blocks_resolve (kept bs 0)"
proof -
  have sub: "set (kept bs 0) \<subseteq> set bs" by (auto simp: kept_def)
  have heads: "map head_label bs = map (\<lambda>i. head_label (bs ! i)) [0..<length bs]" by (rule nth_equalityI) simp_all
  have "distinct (filter (\<lambda>l. l \<noteq> 0) (map (\<lambda>i. head_label (bs ! i)) [0..<length bs]))"
    using ok unfolding blocks_resolve_def heads by blast
  from distinct_filter_filter [OF this]
  have "distinct (filter (\<lambda>l. l \<noteq> 0) (map head_label (kept bs 0)))" by (simp add: kept_def comp_def)
  moreover have "jump_label (last (bquads b)) \<noteq> 0 \<and> jump_label (last (bquads b)) \<in> set (map head_label (kept bs 0))"
    if b: "b \<in> set (kept bs 0)" and j: "is_jump (last (bquads b))" for b
  proof -
    obtain k where k: "k \<in> reached bs" "k < length bs" "b = bs ! k" using b unfolding kept_def by auto
    let ?l = "jump_label (last (bquads b))"
    have l: "?l \<noteq> 0" "?l \<in> set (map head_label bs)" using ok j k by (auto simp: blocks_resolve_def)
    note p = label_pos_head [OF l(2)]
    have "(k, label_pos bs ?l) \<in> flow bs" using j k by (simp add: flow_def flow_jump_def Let_def)
    then have "label_pos bs ?l \<in> reached bs" using reached_step k(1) by blast
    then have "bs ! label_pos bs ?l \<in> set (kept bs 0)" using p by (auto simp: kept_def)
    then show ?thesis using l p by (metis image_eqI list.set_map)
  qed
  ultimately show ?thesis using ok sub by (auto simp: blocks_resolve_def list_all_iff)
qed

lemma kept_reached:
  assumes ok: "blocks_resolve bs" and r: "r < length (kept bs 0)"
  shows "(0, r) \<in> (flow (kept bs 0))\<^sup>*"
proof -
  have all: "k \<in> reached bs \<and> (0, rank bs k) \<in> (flow (kept bs 0))\<^sup>*" if "(0, k) \<in> (flow bs)\<^sup>*" for k
    using that
  proof induction
    case base
    then show ?case by (simp add: reached_def rank_def)
  next
    case (step k j)
    then show ?case using kept_flow [OF ok, of k j] reached_step by (meson rtrancl.rtrancl_into_rtrancl)
  qed
  have "\<exists>k < n. Q k \<and> length (filter Q [0..<k]) = r" if "r < length (filter Q [0..<n])" for Q n
    using that
  proof (induction n)
    case 0
    then show ?case by simp
  next
    case (Suc n)
    show ?case
    proof (cases "r < length (filter Q [0..<n])")
      case True
      then show ?thesis using Suc.IH by (meson less_SucI)
    next
      case False
      then show ?thesis using Suc.prems by (auto split: if_splits)
    qed
  qed
  from this [of "\<lambda>i. i \<in> reached bs" "length bs"] r
  have "\<exists>k < length bs. k \<in> reached bs \<and> rank bs k = r" by (simp add: kept_def rank_def)
  then show ?thesis using all by (auto simp: reached_def)
qed


section \<open>The runs that remain\<close>

definition after_goto :: "nat \<Rightarrow> 'w machine \<Rightarrow> nnc_quad list \<Rightarrow> u32 \<Rightarrow> 'w mstate \<Rightarrow> 'w outcome" where
  "after_goto n M us l t = (case n of 0 \<Rightarrow> Goto l t | Suc n' \<Rightarrow> run n' M us (from_label l us) t)"

lemma run_append:
  "run n M us (xs @ ys) s =
     (case exec M xs s of Next t \<Rightarrow> run n M us ys t | Goto l t \<Rightarrow> after_goto n M us l t | r \<Rightarrow> r)"
  by (cases n) (auto simp: exec_append after_goto_def split: outcome.split)

lemma block_code_Cons [simp]: "block_code (b # bs) = bquads b @ block_code bs" "block_code [] = []"
  by (simp_all add: block_code_def)

lemma from_label_kept:
  assumes ok: "blocks_resolve bs" and l: "l \<noteq> 0" "l \<in> set (map head_label bs)" "label_pos bs l \<in> reached bs"
  shows "from_label l (block_code (kept bs 0)) = block_code (kept bs (label_pos bs l))"
proof -
  have "list_all block_ok (kept bs 0)" using kept_resolves [OF ok] by (simp add: blocks_resolve_def)
  from from_label_code [OF this l(1)] show ?thesis
    using label_pos_kept [OF l(2,3)] drop_rank [of "label_pos bs l" bs] label_pos_head [OF l(2)] by simp
qed

lemma kept_runs:
  fixes M :: "'w machine"
  assumes ok: "blocks_resolve bs"
  shows "k \<in> reached bs \<Longrightarrow> k < length bs \<Longrightarrow>
    run n M (block_code bs) (block_code (drop k bs)) s = run n M (block_code (kept bs 0)) (block_code (kept bs k)) s"
proof (induction n arbitrary: k s rule: less_induct)
  case (less n)
  note jumps = less.IH
  have bok: "list_all block_ok bs" using ok by (simp add: blocks_resolve_def)
  show ?case using less.prems
  proof (induction "length bs - k" arbitrary: k s)
    case 0
    then show ?case by simp
  next
    case (Suc d)
    let ?q = "last (bquads (bs ! k))"
    have b: "block_ok (bs ! k)" using bok Suc.prems by (simp add: list_all_length)
    then have ne: "bquads (bs ! k) \<noteq> []" by (simp add: block_ok_def)
    have dk: "drop k bs = bs ! k # drop (Suc k) bs" using Suc.prems by (simp add: Cons_nth_drop_Suc)
    have falls: "run n M (block_code bs) (block_code (drop (Suc k) bs)) t =
        run n M (block_code (kept bs 0)) (block_code (kept bs (Suc k))) t"
      if x: "exec M (bquads (bs ! k)) s = Next t" for t
    proof (cases "Suc k = length bs")
      case True
      then show ?thesis by (cases n) (simp_all add: kept_def)
    next
      case False
      then have "(k, Suc k) \<in> flow bs" using exec_falls [OF x ne] Suc.prems by (simp add: flow_def flow_next_def)
      then show ?thesis using Suc.hyps False Suc.prems reached_step [OF Suc.prems(1)] by simp
    qed
    have goes: "after_goto n M (block_code bs) l t = after_goto n M (block_code (kept bs 0)) l t"
      if x: "exec M (bquads (bs ! k)) s = Goto l t" for l t
    proof (cases n)
      case 0
      then show ?thesis by (simp add: after_goto_def)
    next
      case (Suc n')
      obtain q where "q \<in> set (bquads (bs ! k))" "is_jump q" "l = jump_label q" using exec_goto [OF x] by blast
      then have q: "is_jump ?q" "l = jump_label ?q" using block_jump [OF b] by auto
      have l: "l \<noteq> 0" "l \<in> set (map head_label bs)" using ok q Suc.prems nth_mem [of k bs]
        by (auto simp: blocks_resolve_def)
      have "(k, label_pos bs l) \<in> flow bs" using q Suc.prems by (simp add: flow_def flow_jump_def Let_def)
      then have r: "label_pos bs l \<in> reached bs" using reached_step [OF Suc.prems(1)] by blast
      show ?thesis
        using jumps [of n' "label_pos bs l" t] Suc r label_pos_head [OF l(2)]
        by (simp add: after_goto_def from_label_kept [OF ok l r] from_label_code [OF bok l(1)])
    qed
    show ?case unfolding dk kept_step [OF Suc.prems] block_code_Cons run_append
      using falls goes by (simp split: outcome.split)
  qed
qed

lemma dropped_length:
  "sum_list (map (\<lambda>x. length (bquads (block x))) (filter P ns)) +
   length (block_code (map block (filter (\<lambda>x. \<not> P x) ns))) = length (block_code (map block ns))"
  by (induction ns) auto

lemma graph_used:
  assumes g: "graph_of bs cfg"
  shows "map block (filter (\<lambda>x. \<not> unreachable x) (nodes cfg)) = kept bs 0"
proof -
  let ?ns = "nodes cfg"
  have len: "length ?ns = length bs" using g arg_cong [of "map block ?ns" bs length] by (auto simp: graph_of_def)
  have b: "block (?ns ! i) = bs ! i" if "i < length bs" for i
    using g that len nth_map [of i ?ns block] by (auto simp: graph_of_def)
  have u: "unreachable (?ns ! i) \<longleftrightarrow> i \<notin> reached bs" if "i < length bs" for i
    using g that len nth_map [of i ?ns unreachable] by (auto simp: graph_of_def reached_def)
  have "?ns = map ((!) ?ns) [0..<length bs]" using len map_nth [of ?ns] by simp
  then have "filter (\<lambda>x. \<not> unreachable x) ?ns = map ((!) ?ns) (filter (\<lambda>i. \<not> unreachable (?ns ! i)) [0..<length bs])"
    by (metis (no_types, lifting) comp_apply filter_cong filter_map)
  also have "filter (\<lambda>i. \<not> unreachable (?ns ! i)) [0..<length bs] = filter (\<lambda>i. i \<in> reached bs) [0..<length bs]"
    using u by (intro filter_cong) auto
  finally show ?thesis using b by (simp add: kept_def)
qed

lemma graph_optimize:
  assumes ok: "blocks_resolve bs" and g: "graph_of bs cfg"
  shows "\<exists>cfg' d. nnc_3a_cfg_optimize cfg = Inr (cfg', d) \<and> graph_of (kept bs 0) cfg' \<and>
    length (block_code (kept bs 0)) + d = length (block_code bs)"
proof -
  have m: "map block (nodes cfg) = bs" using g by (simp add: graph_of_def)
  have "\<exists>cfg'. nnc_3a_cfg_rebuild (filter (\<lambda>x. \<not> unreachable x) (nodes cfg)) = Inr cfg' \<and> graph_of (kept bs 0) cfg'"
    using rebuild_graph [of "filter (\<lambda>x. \<not> unreachable x) (nodes cfg)"] kept_resolves [OF ok] graph_used [OF g] by simp
  then show ?thesis using dropped_length [of unreachable "nodes cfg"] graph_used [OF g] m
    by (auto simp: nnc_3a_cfg_optimize_def Let_def)
qed

lemma graph_all_reached:
  assumes ok: "blocks_resolve bs" and g: "graph_of (kept bs 0) cfg"
  shows "filter unreachable (nodes cfg) = []"
proof -
  have "map unreachable (nodes cfg) = map (\<lambda>i. False) [0..<length (kept bs 0)]"
    using g kept_reached [OF ok] by (auto simp: graph_of_def)
  then have "x \<notin> unreachable ` set (nodes cfg)" if x for x
    using that by (metis ex_map_conv set_map list.set_map image_iff)
  then show ?thesis by (auto simp: filter_empty_conv)
qed

abbreviation cfg_code :: "nnc_3a_cfg \<Rightarrow> nnc_quad list" where
  "cfg_code cfg \<equiv> concat (map (bquads \<circ> block) (nodes cfg))"

lemma graph_code: "graph_of bs cfg \<Longrightarrow> cfg_code cfg = block_code bs"
  by (auto simp: graph_of_def block_code_def)

text \<open>
  C3. Under the same condition, removing the unreachable nodes succeeds: no assertion fails
  although the table of labels is rebuilt from the remaining nodes, the number of quads
  dropped is reported, no node of the new graph is unreachable, and the code of the new graph
  behaves as the procedure did, on every machine, from every state and for every number of
  jumps followed.
\<close>

theorem cfg_optimize_preserves:
  assumes "jumps_resolve qs"
  shows "\<exists>cfg cfg' d. nnc_3a_get_cfg (nnc_3a_get_blocks qs) = Inr cfg \<and> nnc_3a_cfg_optimize cfg = Inr (cfg', d) \<and>
    length (cfg_code cfg') + d = length qs \<and> filter unreachable (nodes cfg') = [] \<and>
    (\<forall>n (M :: 'w machine) s. run n M qs qs s = run n M (cfg_code cfg') (cfg_code cfg') s)"
proof -
  let ?bs = "nnc_3a_get_blocks qs"
  have ok: "blocks_resolve ?bs" using assms by (intro blocks_resolve_code) (simp_all add: blocks_of_code)
  obtain cfg where cfg: "nnc_3a_get_cfg ?bs = Inr cfg" "graph_of ?bs cfg" using get_cfg_graph [OF ok] by blast
  obtain cfg' d where opt: "nnc_3a_cfg_optimize cfg = Inr (cfg', d)" "graph_of (kept ?bs 0) cfg'"
    "length (block_code (kept ?bs 0)) + d = length qs"
    using graph_optimize [OF ok cfg(2)] blocks_of_code(2) by auto
  have "run n M qs qs s = run n M (cfg_code cfg') (cfg_code cfg') s" for n and M :: "'w machine" and s
  proof (cases "?bs = []")
    case True
    then have "qs = []" using blocks_of_code(2) [of qs] by simp
    then show ?thesis unfolding graph_code [OF opt(2)] by (simp add: True kept_def nnc_3a_get_blocks_def)
  next
    case False
    then show ?thesis using kept_runs [OF ok, of 0 n M s] blocks_of_code(2) [of qs] graph_code [OF opt(2)]
      by (simp add: reached_def)
  qed
  then show ?thesis using cfg opt graph_all_reached [OF ok opt(2)] graph_code [OF opt(2)] by metis
qed

lemma cfg_optimize_preserves_witness:
  "\<exists>cfg cfg' d. nnc_3a_get_cfg (nnc_3a_get_blocks skip_code) = Inr cfg \<and> nnc_3a_cfg_optimize cfg = Inr (cfg', d) \<and>
    length (cfg_code cfg') + d = length skip_code \<and> filter unreachable (nodes cfg') = [] \<and>
    (\<forall>n (M :: unit machine) s. run n M skip_code skip_code s = run n M (cfg_code cfg') (cfg_code cfg') s)"
  by (rule cfg_optimize_preserves [OF skip_code_resolves])


end
