(* ===== verification/Nnc_LR.thy ===== *)
theory Nnc_LR
  imports Nnc_IR Nnc_Map
begin

text \<open>
  Live ranges, \<^verbatim>\<open>src/src/nnc_3a_lr.c\<close>. The ranges are heap objects, an address is a position in
  the list of the allocated ones; the two tables of a procedure are hash maps of \<^verbatim>\<open>nnc_map.c\<close>
  from temporaries and from names to those addresses. The property shows that the ranges are
  exactly the first and the last occurrence of each temporary and each name.
\<close>

section \<open>The tables\<close>

record nnc_3a_lr =
  starts :: u32
  ends :: u32
  loc :: "nat option"

definition nnc_3a_mklr :: "u32 \<Rightarrow> u32 \<Rightarrow> nnc_3a_lr" where
  "nnc_3a_mklr s e = \<lparr>starts = s, ends = e, loc = None\<rparr>"

record lr_proc =
  ranges :: "nnc_3a_lr list"
  lr_cgt :: "(u64, nat) nnc_map"
  lr_var :: "(string, nat) nnc_map"

text \<open>The step both tables share: a new range, or a later end of the one that is there.\<close>

definition lr_touch ::
    "('m \<Rightarrow> 'k \<Rightarrow> bool res) \<Rightarrow> ('m \<Rightarrow> 'k \<Rightarrow> nat res) \<Rightarrow> ('m \<Rightarrow> 'k \<Rightarrow> nat \<Rightarrow> 'm res) \<Rightarrow>
     'k \<Rightarrow> 32 word \<Rightarrow> 'm \<Rightarrow> nnc_3a_lr list \<Rightarrow> ('m \<times> nnc_3a_lr list) res" where
  "lr_touch has get put k pos m rs =
     bind_res (has m k) (\<lambda>h.
       if \<not> h then bind_res (put m k (length rs)) (\<lambda>m'. Inr (m', rs @ [nnc_3a_mklr pos pos]))
       else bind_res (get m k) (\<lambda>j.
         if j < length rs then Inr (m, rs[j := (rs ! j)\<lparr>ends := pos\<rparr>]) else Inl Crash))"

definition nnc_3a_lr_put_cgt :: "nnc_3a_addr \<Rightarrow> 32 word \<Rightarrow> lr_proc \<Rightarrow> lr_proc res" where
  "nnc_3a_lr_put_cgt a pos p =
     bind_res (assert_res (akind a = ADDR_CGT)) (\<lambda>_.
     bind_res (lr_touch (nncmap_has int_keys) (nncmap_get int_keys) (nncmap_put int_keys) (exact a) pos (lr_cgt p) (ranges p))
       (\<lambda>(m, rs). Inr (p\<lparr>ranges := rs, lr_cgt := m\<rparr>)))"

definition nnc_3a_lr_put_var :: "nnc_3a_addr \<Rightarrow> 32 word \<Rightarrow> lr_proc \<Rightarrow> lr_proc res" where
  "nnc_3a_lr_put_var a pos p =
     bind_res (assert_res (akind a = ADDR_NAME)) (\<lambda>_.
     bind_res (lr_touch (nncmap_has str_keys) (nncmap_get str_keys) (nncmap_put str_keys) (aname a) pos (lr_var p) (ranges p))
       (\<lambda>(m, rs). Inr (p\<lparr>ranges := rs, lr_var := m\<rparr>)))"

definition nnc_3a_lr_put_addr :: "nnc_3a_addr \<Rightarrow> 32 word \<Rightarrow> lr_proc \<Rightarrow> lr_proc res" where
  "nnc_3a_lr_put_addr a pos p =
     (case akind a of ADDR_CGT \<Rightarrow> nnc_3a_lr_put_cgt a pos p | ADDR_NAME \<Rightarrow> nnc_3a_lr_put_var a pos p | _ \<Rightarrow> Inr p)"

text \<open>The position is a signed 32 bit integer; a negative one reads before the array.\<close>

definition nnc_3a_lr_process_quad :: "nnc_quad list \<Rightarrow> 32 word \<Rightarrow> lr_proc \<Rightarrow> lr_proc res" where
  "nnc_3a_lr_process_quad qs pos p =
     (if sint pos < 0 \<or> length qs \<le> nat (sint pos) then Inl Crash
      else let q = qs ! nat (sint pos) in
        bind_res (nnc_3a_lr_put_addr (qres q) pos p) (\<lambda>p.
        bind_res (if akind (arg1 q) \<noteq> ADDR_NONE then nnc_3a_lr_put_addr (arg1 q) pos p else Inr p) (\<lambda>p.
          if akind (arg2 q) \<noteq> ADDR_NONE then nnc_3a_lr_put_addr (arg2 q) pos p else Inr p)))"

definition nnc_3a_make_lr_for_proc :: "nnc_quad list \<Rightarrow> lr_proc \<Rightarrow> lr_proc res" where
  "nnc_3a_make_lr_for_proc qs = fold_res (\<lambda>i. nnc_3a_lr_process_quad qs (of_nat i)) [0..<length qs]"

text \<open>The tables as \<^verbatim>\<open>nnc_gen_ir_proc\<close> creates them.\<close>

definition fresh_lr_proc :: lr_proc where
  "fresh_lr_proc = \<lparr>ranges = [], lr_cgt = nncmap_init 32, lr_var = nncmap_init 8\<rparr>"

section \<open>What a table of ranges keeps\<close>

locale range_table = nnc_dict inv abs has get put pop
  for inv :: "'m \<Rightarrow> bool" and abs :: "'m \<Rightarrow> 'k \<Rightarrow> nat option" and has get put pop
begin

lemma touch_new:
  assumes "inv m" "abs m k = None"
  shows "\<exists>m'. lr_touch has get put k pos m rs = Inr (m', rs @ [nnc_3a_mklr pos pos]) \<and> inv m' \<and>
    abs m' = (abs m)(k \<mapsto> length rs)"
  using put_abs [OF assms, of "length rs"] has_abs [OF assms(1), of k] assms(2)
  by (auto simp: lr_touch_def)

lemma touch_old:
  assumes "inv m" "abs m k = Some j" "j < length rs"
  shows "lr_touch has get put k pos m rs = Inr (m, rs[j := (rs ! j)\<lparr>ends := pos\<rparr>])"
  using get_abs [OF assms(1,2)] has_abs [OF assms(1), of k] assms(2,3)
  by (auto simp: lr_touch_def)

end

interpretation cgt_table: range_table "map_inv int_keys" "map_abs int_keys"
  "nncmap_has int_keys" "nncmap_get int_keys" "nncmap_put int_keys" "nncmap_pop int_keys"
  by unfold_locales

interpretation var_table: range_table "map_inv str_keys" "map_abs str_keys"
  "nncmap_has str_keys" "nncmap_get str_keys" "nncmap_put str_keys" "nncmap_pop str_keys"
  by unfold_locales

section \<open>First and last occurrences\<close>

datatype lr_key = Temp u64 | Name string

definition addr_keys :: "nnc_3a_addr \<Rightarrow> lr_key list" where
  "addr_keys a = (case akind a of ADDR_CGT \<Rightarrow> [Temp (exact a)] | ADDR_NAME \<Rightarrow> [Name (aname a)] | _ \<Rightarrow> [])"

definition quad_keys :: "nnc_quad \<Rightarrow> lr_key list" where
  "quad_keys q = addr_keys (qres q) @ addr_keys (arg1 q) @ addr_keys (arg2 q)"

definition occurrences :: "lr_key \<Rightarrow> nnc_quad list \<Rightarrow> nat list" where
  "occurrences k qs = filter (\<lambda>i. k \<in> set (quad_keys (qs ! i))) [0..<length qs]"

definition lr_index :: "lr_proc \<Rightarrow> lr_key \<Rightarrow> nat option" where
  "lr_index p k = (case k of Temp c \<Rightarrow> map_abs int_keys (lr_cgt p) c | Name x \<Rightarrow> map_abs str_keys (lr_var p) x)"

definition range_of :: "lr_proc \<Rightarrow> lr_key \<Rightarrow> nnc_3a_lr option" where
  "range_of p k = map_option (\<lambda>j. ranges p ! j) (lr_index p k)"

definition lr_inv :: "lr_proc \<Rightarrow> bool" where
  "lr_inv p \<longleftrightarrow> map_inv int_keys (lr_cgt p) \<and> map_inv str_keys (lr_var p) \<and>
     (\<forall>k j. lr_index p k = Some j \<longrightarrow> j < length (ranges p)) \<and>
     (\<forall>k k' j. lr_index p k = Some j \<longrightarrow> lr_index p k' = Some j \<longrightarrow> k = k')"

definition extend_range :: "32 word \<Rightarrow> nnc_3a_lr option \<Rightarrow> nnc_3a_lr" where
  "extend_range pos r = (case r of None \<Rightarrow> nnc_3a_mklr pos pos | Some r \<Rightarrow> r\<lparr>ends := pos\<rparr>)"

text \<open>The state after one address has been processed.\<close>

definition touches :: "lr_key list \<Rightarrow> 32 word \<Rightarrow> lr_proc \<Rightarrow> lr_proc res \<Rightarrow> bool" where
  "touches ks pos p r \<longleftrightarrow> (\<exists>p'. r = Inr p' \<and> lr_inv p' \<and>
     (\<forall>k. range_of p' k = (if k \<in> set ks then Some (extend_range pos (range_of p k)) else range_of p k)))"

lemma touchesI:
  assumes p': "r = Inr p'" "map_inv int_keys (lr_cgt p')" "map_inv str_keys (lr_var p')" and p: "lr_inv p"
    and step: "lr_index p k = None \<and> lr_index p' = (lr_index p)(k \<mapsto> length (ranges p)) \<and>
        ranges p' = ranges p @ [nnc_3a_mklr pos pos] \<or>
      (\<exists>j. lr_index p k = Some j \<and> lr_index p' = lr_index p \<and> ranges p' = (ranges p)[j := (ranges p ! j)\<lparr>ends := pos\<rparr>])"
  shows "touches [k] pos p r"
  using step
proof
  assume n: "lr_index p k = None \<and> lr_index p' = (lr_index p)(k \<mapsto> length (ranges p)) \<and>
        ranges p' = ranges p @ [nnc_3a_mklr pos pos]"
  have b: "j < length (ranges p)" if "lr_index p k' = Some j" for k' j using p that by (simp add: lr_inv_def)
  have "lr_inv p'" using p' p n b unfolding lr_inv_def by (auto dest: less_imp_neq intro: less_SucI)
  then show ?thesis using n p'(1) b
    by (auto simp: touches_def range_of_def extend_range_def nth_append map_option_case split: option.split)
next
  assume "\<exists>j. lr_index p k = Some j \<and> lr_index p' = lr_index p \<and> ranges p' = (ranges p)[j := (ranges p ! j)\<lparr>ends := pos\<rparr>]"
  then obtain j where j: "lr_index p k = Some j" "lr_index p' = lr_index p"
    "ranges p' = (ranges p)[j := (ranges p ! j)\<lparr>ends := pos\<rparr>]" by blast
  have inj: "k' = k" if "lr_index p k' = Some j" for k' using p j(1) that by (auto simp: lr_inv_def)
  have i: "lr_inv p'" using p' p j by (simp add: lr_inv_def)
  have "j < length (ranges p)" using p j(1) unfolding lr_inv_def by blast
  have "range_of p' k' = (if k' = k then Some (extend_range pos (range_of p k)) else range_of p k')" for k'
    using j inj [of k'] \<open>j < length (ranges p)\<close>
    by (cases "lr_index p k'") (auto simp: range_of_def extend_range_def nth_list_update)
  then show ?thesis using i p'(1) by (simp add: touches_def)
qed

lemma lr_index_put:
  "map_abs int_keys m = (map_abs int_keys (lr_cgt p))(c \<mapsto> j) \<Longrightarrow> lr_index (p\<lparr>ranges := rs, lr_cgt := m\<rparr>) = (lr_index p)(Temp c \<mapsto> j)"
  "map_abs str_keys m' = (map_abs str_keys (lr_var p))(x \<mapsto> j) \<Longrightarrow> lr_index (p\<lparr>ranges := rs, lr_var := m'\<rparr>) = (lr_index p)(Name x \<mapsto> j)"
  "lr_index (p\<lparr>ranges := rs\<rparr>) = lr_index p"
  by (auto simp: lr_index_def fun_eq_iff split: lr_key.split)

lemma put_cgt_touches:
  assumes inv: "lr_inv p" and a: "akind a = ADDR_CGT"
  shows "touches [Temp (exact a)] pos p (nnc_3a_lr_put_cgt a pos p)"
proof -
  have i: "map_inv int_keys (lr_cgt p)" "map_inv str_keys (lr_var p)" using inv by (simp_all add: lr_inv_def)
  show ?thesis
  proof (cases "lr_index p (Temp (exact a))")
    case None
    then have "map_abs int_keys (lr_cgt p) (exact a) = None" by (simp add: lr_index_def)
    from cgt_table.touch_new [OF i(1) this, of pos "ranges p"] obtain m where
      m: "lr_touch (nncmap_has int_keys) (nncmap_get int_keys) (nncmap_put int_keys) (exact a) pos (lr_cgt p) (ranges p)
        = Inr (m, ranges p @ [nnc_3a_mklr pos pos])" "map_inv int_keys m"
      "map_abs int_keys m = (map_abs int_keys (lr_cgt p))(exact a \<mapsto> length (ranges p))" by blast
    show ?thesis
      by (rule touchesI [of _ "p\<lparr>ranges := ranges p @ [nnc_3a_mklr pos pos], lr_cgt := m\<rparr>"])
        (simp_all add: nnc_3a_lr_put_cgt_def a m i inv None lr_index_put(1) [OF m(3)])
  next
    case (Some j)
    then have j: "map_abs int_keys (lr_cgt p) (exact a) = Some j" by (simp add: lr_index_def)
    have "j < length (ranges p)" using inv Some unfolding lr_inv_def by blast
    from cgt_table.touch_old [OF i(1) j this, of pos] show ?thesis
      by (intro touchesI [of _ "p\<lparr>ranges := (ranges p)[j := (ranges p ! j)\<lparr>ends := pos\<rparr>]\<rparr>"])
        (simp_all add: nnc_3a_lr_put_cgt_def a i inv Some lr_index_put(3))
  qed
qed

lemma put_var_touches:
  assumes inv: "lr_inv p" and a: "akind a = ADDR_NAME"
  shows "touches [Name (aname a)] pos p (nnc_3a_lr_put_var a pos p)"
proof -
  have i: "map_inv int_keys (lr_cgt p)" "map_inv str_keys (lr_var p)" using inv by (simp_all add: lr_inv_def)
  show ?thesis
  proof (cases "lr_index p (Name (aname a))")
    case None
    then have "map_abs str_keys (lr_var p) (aname a) = None" by (simp add: lr_index_def)
    from var_table.touch_new [OF i(2) this, of pos "ranges p"] obtain m where
      m: "lr_touch (nncmap_has str_keys) (nncmap_get str_keys) (nncmap_put str_keys) (aname a) pos (lr_var p) (ranges p)
        = Inr (m, ranges p @ [nnc_3a_mklr pos pos])" "map_inv str_keys m"
      "map_abs str_keys m = (map_abs str_keys (lr_var p))(aname a \<mapsto> length (ranges p))" by blast
    show ?thesis
      by (rule touchesI [of _ "p\<lparr>ranges := ranges p @ [nnc_3a_mklr pos pos], lr_var := m\<rparr>"])
        (simp_all add: nnc_3a_lr_put_var_def a m i inv None lr_index_put(2) [OF m(3)])
  next
    case (Some j)
    then have j: "map_abs str_keys (lr_var p) (aname a) = Some j" by (simp add: lr_index_def)
    have "j < length (ranges p)" using inv Some unfolding lr_inv_def by blast
    from var_table.touch_old [OF i(2) j this, of pos] show ?thesis
      by (intro touchesI [of _ "p\<lparr>ranges := (ranges p)[j := (ranges p ! j)\<lparr>ends := pos\<rparr>]\<rparr>"])
        (simp_all add: nnc_3a_lr_put_var_def a i inv Some lr_index_put(3))
  qed
qed

lemma put_addr_touches: "lr_inv p \<Longrightarrow> touches (addr_keys a) pos p (nnc_3a_lr_put_addr a pos p)"
  using put_cgt_touches [of p a pos] put_var_touches [of p a pos]
  by (cases "akind a") (simp_all add: addr_keys_def nnc_3a_lr_put_addr_def touches_def)

lemma extend_range_twice: "extend_range pos (Some (extend_range pos r)) = extend_range pos r"
  by (simp add: extend_range_def nnc_3a_mklr_def split: option.split)

lemma touches_bind:
  assumes "touches ks pos p r" "\<And>p'. lr_inv p' \<Longrightarrow> touches ks' pos p' (f p')"
  shows "touches (ks @ ks') pos p (bind_res r f)"
proof -
  obtain p1 where p1: "r = Inr p1" "lr_inv p1"
    "\<And>k. range_of p1 k = (if k \<in> set ks then Some (extend_range pos (range_of p k)) else range_of p k)"
    using assms(1) by (auto simp: touches_def)
  from assms(2) [OF p1(2)] show ?thesis
    by (auto simp: touches_def p1(1,3) extend_range_twice)
qed

lemma process_quad_touches:
  assumes "lr_inv p" "i < length qs" "length qs \<le> 2 ^ 31"
  shows "touches (quad_keys (qs ! i)) (of_nat i) p (nnc_3a_lr_process_quad qs (of_nat i) p)"
proof -
  have "sint (of_nat i :: 32 word) = int i"
    using assms(2,3) by (simp add: signed_of_nat signed_take_bit_int_eq_self)
  moreover have none: "addr_keys a = []" if "akind a = ADDR_NONE" for a using that by (simp add: addr_keys_def)
  moreover have "touches [] pos p' (Inr p')" if "lr_inv p'" for pos p' using that by (simp add: touches_def)
  ultimately show ?thesis
    using assms by (auto simp: nnc_3a_lr_process_quad_def quad_keys_def Let_def intro!: touches_bind put_addr_touches)
qed

lemma make_lr_ranges:
  assumes "length qs \<le> 2 ^ 31"
  shows "\<exists>p. nnc_3a_make_lr_for_proc qs fresh_lr_proc = Inr p \<and> lr_inv p \<and>
    (\<forall>k. range_of p k = (case occurrences k qs of [] \<Rightarrow> None
       | i # is \<Rightarrow> Some (nnc_3a_mklr (of_nat i) (of_nat (last (i # is))))))"
proof -
  define upto where "upto k n = filter (\<lambda>i. k \<in> set (quad_keys (qs ! i))) [0..<n]" for k n
  define spec where "spec is = (case is of [] \<Rightarrow> None | i # is' \<Rightarrow> Some (nnc_3a_mklr (of_nat i) (of_nat (last is))))" for "is" :: "nat list"
  have snoc: "spec (is @ [n]) = Some (extend_range (of_nat n) (spec is))" for n "is"
    by (cases "is") (simp_all add: spec_def extend_range_def nnc_3a_mklr_def)
  have fresh: "lr_index fresh_lr_proc k = None" for k
    by (cases k) (simp_all add: lr_index_def fresh_lr_proc_def nncmap_init_empty)
  then have start: "lr_inv fresh_lr_proc"
    using nncmap_init_inv [of 32 int_keys] nncmap_init_inv [of 8 str_keys] unfolding lr_inv_def
    by (simp add: fresh_lr_proc_def)
  have loop: "\<exists>p. fold_res (\<lambda>i. nnc_3a_lr_process_quad qs (of_nat i)) [0..<n] fresh_lr_proc = Inr p \<and> lr_inv p \<and>
      (\<forall>k. range_of p k = spec (upto k n))" if "n \<le> length qs" for n
    using that
  proof (induction n)
    case 0
    then show ?case using start fresh by (simp add: range_of_def upto_def spec_def)
  next
    case (Suc n)
    then obtain p where p: "fold_res (\<lambda>i. nnc_3a_lr_process_quad qs (of_nat i)) [0..<n] fresh_lr_proc = Inr p" "lr_inv p"
      "\<And>k. range_of p k = spec (upto k n)" by auto
    have "touches (quad_keys (qs ! n)) (of_nat n) p (nnc_3a_lr_process_quad qs (of_nat n) p)"
      using process_quad_touches [OF p(2)] Suc.prems assms by simp
    then show ?case using p by (auto simp: touches_def fold_res_append upto_def snoc)
  qed
  from loop [of "length qs"] obtain p where p: "nnc_3a_make_lr_for_proc qs fresh_lr_proc = Inr p" "lr_inv p"
    "\<And>k. range_of p k = spec (occurrences k qs)" by (auto simp: nnc_3a_make_lr_for_proc_def upto_def occurrences_def)
  then show ?thesis by (auto simp: spec_def split: list.split)
qed

text \<open>
  C8. Live ranges: for a procedure of at most \<open>2 ^ 31\<close> quads the tables are filled without a failed
  assertion or a wrong access; they hold exactly the temporaries and names that occur in the
  quads (as result or as argument), and the range of each runs from its first to its last occurrence.
  A range belongs to one key only.
\<close>

theorem live_ranges_exact:
  assumes "length qs \<le> 2 ^ 31"
  shows "\<exists>p. nnc_3a_make_lr_for_proc qs fresh_lr_proc = Inr p \<and>
    (\<forall>k. range_of p k = (case occurrences k qs of [] \<Rightarrow> None
       | i # is \<Rightarrow> Some (nnc_3a_mklr (of_nat i) (of_nat (last (i # is)))))) \<and>
    (\<forall>k k'. lr_index p k = lr_index p k' \<longrightarrow> lr_index p k \<noteq> None \<longrightarrow> k = k')"
proof -
  from make_lr_ranges [OF assms] obtain p where p: "nnc_3a_make_lr_for_proc qs fresh_lr_proc = Inr p" "lr_inv p"
    "\<forall>k. range_of p k = (case occurrences k qs of [] \<Rightarrow> None
       | i # is \<Rightarrow> Some (nnc_3a_mklr (of_nat i) (of_nat (last (i # is)))))" by blast
  moreover have "k = k'" if "lr_index p k = lr_index p k'" "lr_index p k \<noteq> None" for k k'
    using p(2) that unfolding lr_inv_def by auto
  ultimately show ?thesis by blast
qed

definition lr_example :: "nnc_quad list" where
  "lr_example = [quad2 OP_COPY (cgt_addr 1 None) (local_addr ''x'' None), quad2 OP_COPY (cgt_addr 2 None) (nnc_3a_mki3 7),
     quad3 OP_ADD (cgt_addr 1 None) (cgt_addr 1 None) (cgt_addr 2 None)]"

lemma live_ranges_exact_witness:
  "\<exists>p. nnc_3a_make_lr_for_proc lr_example fresh_lr_proc = Inr p \<and>
    range_of p (Temp 1) = Some (nnc_3a_mklr 0 2) \<and> range_of p (Temp 2) = Some (nnc_3a_mklr 1 2) \<and>
    range_of p (Name ''x'') = Some (nnc_3a_mklr 0 0) \<and> range_of p (Temp 3) = None"
proof -
  have "length lr_example \<le> 2 ^ 31" by (simp add: lr_example_def)
  from live_ranges_exact [OF this] obtain p where p: "nnc_3a_make_lr_for_proc lr_example fresh_lr_proc = Inr p"
    "\<And>k. range_of p k = (case occurrences k lr_example of [] \<Rightarrow> None
       | i # is \<Rightarrow> Some (nnc_3a_mklr (of_nat i) (of_nat (last (i # is)))))" by blast
  have "[0..<length lr_example] = [0, 1, 2]" by (simp add: lr_example_def upt_rec)
  then have "occurrences (Temp 1) lr_example = [0, 2]" "occurrences (Temp 2) lr_example = [1, 2]"
    "occurrences (Name ''x'') lr_example = [0]" "occurrences (Temp 3) lr_example = []"
    by (simp_all add: occurrences_def) (simp_all add: lr_example_def quad_keys_def addr_keys_def quad3_def cgt_addr_def
      local_addr_def nnc_3a_mki3_def no_addr_def)
  then show ?thesis using p by simp
qed


end
