(* ===== verification/Nnc_AST.thy ===== *)
theory Nnc_AST
  imports Nnc_Type
begin

text \<open>
  The abstract syntax of expressions and statements, \<^verbatim>\<open>src/src/nnc_expression.h\<close> and
  \<^verbatim>\<open>src/src/nnc_statement.h\<close>. A C node is a tag and a pointer to the structure the tag stands for; here
  each tag is a constructor. Positions in the source text are left out. The type field of a node
  is \<open>None\<close> when it is NULL; the resolved type of a node is an address in the store of \<open>Nnc_Type\<close>.
\<close>

section \<open>Identifiers\<close>

datatype nnc_ident_ctx =
  IDENT_GLOBAL | IDENT_DEFAULT | IDENT_FUNCTION | IDENT_NAMESPACE | IDENT_ENUMERATOR | IDENT_FUNCTION_PARAM

text \<open>
  The number of an enumeration constant. An enumerator is its value and the type of its
  variable, as far as expressions refer to it; the nesting is the list of the namespaces named
  before an identifier.
\<close>

fun ictx_num :: "nnc_ident_ctx \<Rightarrow> u64" where
  "ictx_num IDENT_GLOBAL = 0" | "ictx_num IDENT_DEFAULT = 1" | "ictx_num IDENT_FUNCTION = 2"
| "ictx_num IDENT_NAMESPACE = 3" | "ictx_num IDENT_ENUMERATOR = 4" | "ictx_num IDENT_FUNCTION_PARAM = 5"

record nnc_enumerator =
  init_const :: u64
  evar_type :: tref

record nnc_ident =
  iname :: string
  itype :: tref
  ictx :: nnc_ident_ctx
  nesting :: "string list"
  enumerator :: "nnc_enumerator option"

definition nnc_ident_new :: "string \<Rightarrow> nnc_ident" where
  "nnc_ident_new from_s = \<lparr>iname = from_s, itype = unknown_type, ictx = IDENT_DEFAULT, nesting = [], enumerator = None\<rparr>"

section \<open>Expressions\<close>

datatype nnc_unary_kind =
  UNARY_REF | UNARY_NOT | UNARY_PLUS | UNARY_MINUS | UNARY_DEREF | UNARY_LENGTHOF | UNARY_BITWISE_NOT

datatype nnc_cast_kind = UNARY_CAST | UNARY_POSTFIX_AS

datatype (plugins only: code size) nnc_binary_kind =
    BINARY_ADD | BINARY_SUB | BINARY_MUL | BINARY_DIV | BINARY_MOD | BINARY_SHR | BINARY_SHL
  | BINARY_LT | BINARY_GT | BINARY_LTE | BINARY_GTE | BINARY_EQ | BINARY_NEQ
  | BINARY_BW_AND | BINARY_BW_XOR | BINARY_BW_OR | BINARY_AND | BINARY_OR | BINARY_ASSIGN | BINARY_COMMA

text \<open>
  Literals carry their value as the 64 bits of the union and their type; the unary expressions
  that use the union \<^verbatim>\<open>exact\<close> (cast, \<^verbatim>\<open>sizeof\<close>, member, call, index) have constructors of
  their own.
\<close>

datatype nnc_expression =
    EXPR_DBL_LITERAL u64 tref
  | EXPR_INT_LITERAL u64 tref
  | EXPR_CHR_LITERAL u8 tref
  | EXPR_STR_LITERAL string tref
  | EXPR_IDENT nnc_ident
  | EXPR_UNARY nnc_unary_kind tref nnc_expression
  | EXPR_CAST nnc_cast_kind tref nnc_expression tref
  | EXPR_SIZEOF tref tref
  | EXPR_DOT tref nnc_expression nnc_ident
  | EXPR_CALL tref nnc_expression "nnc_expression list"
  | EXPR_INDEX tref nnc_expression nnc_expression
  | EXPR_BINARY nnc_binary_kind tref nnc_expression nnc_expression
  | EXPR_TERNARY tref nnc_expression nnc_expression nnc_expression

text \<open>\<open>EXPR_TERNARY t c l r\<close> has the condition \<^verbatim>\<open>cexpr\<close> and the branches \<^verbatim>\<open>lexpr\<close>, \<^verbatim>\<open>rexpr\<close>.\<close>

fun expr_type :: "nnc_expression \<Rightarrow> tref" where
  "expr_type (EXPR_DBL_LITERAL _ t) = t" | "expr_type (EXPR_INT_LITERAL _ t) = t"
| "expr_type (EXPR_CHR_LITERAL _ t) = t" | "expr_type (EXPR_STR_LITERAL _ t) = t"
| "expr_type (EXPR_IDENT i) = itype i" | "expr_type (EXPR_UNARY _ t _) = t"
| "expr_type (EXPR_CAST _ t _ _) = t" | "expr_type (EXPR_SIZEOF t _) = t"
| "expr_type (EXPR_DOT t _ _) = t" | "expr_type (EXPR_CALL t _ _) = t"
| "expr_type (EXPR_INDEX t _ _) = t" | "expr_type (EXPR_BINARY _ t _ _) = t"
| "expr_type (EXPR_TERNARY t _ _ _) = t"

definition nnc_expr_get_type :: "types \<Rightarrow> nnc_expression \<Rightarrow> tref option" where
  "nnc_expr_get_type ts e = nnc_unalias ts (expr_type e)"

section \<open>Statements\<close>

text \<open>
  The statements the compiler handles; the scope of a compound statement matters to code generation
  only through its context (global, namespace or local).
\<close>

datatype scope_ctx = ST_LOCAL | ST_GLOBAL | ST_NAMESPACE

datatype nnc_statement =
    STMT_FN nnc_ident nnc_statement
  | STMT_IF nnc_expression nnc_statement "(nnc_expression \<times> nnc_statement) list" "nnc_statement option"
  | STMT_DO nnc_statement nnc_expression
  | STMT_LET nnc_ident "nnc_expression option"
  | STMT_FOR nnc_statement nnc_statement nnc_statement nnc_statement
  | STMT_TYPE
  | STMT_EXPR nnc_expression
  | STMT_WHILE nnc_expression nnc_statement
  | STMT_EMPTY
  | STMT_BREAK
  | STMT_CONTINUE
  | STMT_RETURN "nnc_expression option"
  | STMT_COMPOUND scope_ctx "nnc_statement list"
  | STMT_NAMESPACE nnc_ident nnc_statement

text \<open>\<open>STMT_FOR init cond step body\<close>.\<close>

end
