(* ===== verification/Nnc_Symtab.thy ===== *)
theory Nnc_Symtab
  imports Nnc_AST Nnc_Map
begin

text \<open>
  Symbol tables, \<^verbatim>\<open>src/src/nnc_symtable.c\<close>. A table is a heap object that points to its root (the
  enclosing table) and to its branches, and has two hash maps from names to the addresses of
  types and of identifiers. The properties show what a lookup sees (the tables from the
  innermost outwards, up to the first namespace), when a declaration is refused and what a
  successful one changes.
\<close>

section \<open>Tables and lookup\<close>

text \<open>The context is a set of flags.\<close>

abbreviation (input) ST_CTX_DEFAULT :: u32 where "ST_CTX_DEFAULT \<equiv> 0"
abbreviation (input) ST_CTX_GLOBAL :: u32 where "ST_CTX_GLOBAL \<equiv> 0x1"
abbreviation (input) ST_CTX_FN :: u32 where "ST_CTX_FN \<equiv> 0x10"
abbreviation (input) ST_CTX_LOOP :: u32 where "ST_CTX_LOOP \<equiv> 0x100"
abbreviation (input) ST_CTX_NAMESPACE :: u32 where "ST_CTX_NAMESPACE \<equiv> 0x1000"

record nnc_st =
  st_ctx :: u32
  st_root :: "nat option"
  branches :: "nat list"
  st_types :: "(string, tref) nnc_map"
  st_syms :: "(string, nat) nnc_map"

datatype nnc_st_sym_kind = ST_SYM_TYPE | ST_SYM_IDENT

definition SCOPE_NAMESPACE :: "nnc_st \<Rightarrow> bool" where
  "SCOPE_NAMESPACE t \<longleftrightarrow> st_ctx t AND ST_CTX_NAMESPACE \<noteq> 0"

definition SCOPE_GLOBAL :: "nnc_st \<Rightarrow> bool" where
  "SCOPE_GLOBAL t \<longleftrightarrow> st_ctx t AND ST_CTX_GLOBAL \<noteq> 0"

definition SCOPE_FN :: "nnc_st \<Rightarrow> bool" where
  "SCOPE_FN t \<longleftrightarrow> st_ctx t AND ST_CTX_FN \<noteq> 0"

definition nnc_st_init :: nnc_st where
  "nnc_st_init = \<lparr>st_ctx = ST_CTX_DEFAULT, st_root = None, branches = [], st_types = nncmap_init 8, st_syms = nncmap_init 8\<rparr>"

text \<open>The objects a program of tables refers to.\<close>

record st_heap =
  tables :: "nnc_st list"
  idents :: "nnc_ident list"
  htypes :: types

definition st_map :: "nnc_st \<Rightarrow> nnc_st_sym_kind \<Rightarrow> (string, nat) nnc_map" where
  "st_map t k = (case k of ST_SYM_TYPE \<Rightarrow> st_types t | ST_SYM_IDENT \<Rightarrow> st_syms t)"

text \<open>
  The loops up the roots. Tables are created after their root, so the number of tables is enough
  fuel; a pointer to no table is a crash.
\<close>

fun st_has_loop :: "nat \<Rightarrow> nnc_st list \<Rightarrow> nat option \<Rightarrow> string \<Rightarrow> nnc_st_sym_kind \<Rightarrow> bool res" where
  "st_has_loop n ts None key k = Inr False"
| "st_has_loop 0 ts (Some i) key k = Inl NoFuel"
| "st_has_loop (Suc n) ts (Some i) key k =
     (if length ts \<le> i then Inl Crash else
      bind_res (nncmap_has str_keys (st_map (ts ! i) k) key) (\<lambda>h.
        if SCOPE_NAMESPACE (ts ! i) \<or> h then Inr h else st_has_loop n ts (st_root (ts ! i)) key k))"

definition nnc_st_has :: "st_heap \<Rightarrow> nat option \<Rightarrow> string \<Rightarrow> nnc_st_sym_kind \<Rightarrow> bool res" where
  "nnc_st_has H st key k = st_has_loop (length (tables H)) (tables H) st key k"

fun st_get_loop :: "nat \<Rightarrow> nnc_st list \<Rightarrow> nat option \<Rightarrow> string \<Rightarrow> nnc_st_sym_kind \<Rightarrow> nat option res" where
  "st_get_loop n ts None key k = Inr None"
| "st_get_loop 0 ts (Some i) key k = Inl NoFuel"
| "st_get_loop (Suc n) ts (Some i) key k =
     (if length ts \<le> i then Inl Crash else
      bind_res (nncmap_has str_keys (st_map (ts ! i) k) key) (\<lambda>h.
      bind_res (if h then bind_res (nncmap_get str_keys (st_map (ts ! i) k) key) (\<lambda>s. Inr (Some s)) else Inr None) (\<lambda>sym.
        if SCOPE_NAMESPACE (ts ! i) \<or> sym \<noteq> None then Inr sym else st_get_loop n ts (st_root (ts ! i)) key k)))"

definition nnc_st_get :: "st_heap \<Rightarrow> nat option \<Rightarrow> string \<Rightarrow> nnc_st_sym_kind \<Rightarrow> nat option res" where
  "nnc_st_get H st key k = st_get_loop (length (tables H)) (tables H) st key k"

text \<open>The search downwards; a branch is created after the table it hangs on.\<close>

fun first_branch :: "(nat \<Rightarrow> nat option res) \<Rightarrow> nat list \<Rightarrow> nat option res" where
  "first_branch f [] = Inr None"
| "first_branch f (b # bs) = bind_res (f b) (\<lambda>s. if s \<noteq> None then Inr s else first_branch f bs)"

fun deep_get_fuel :: "nat \<Rightarrow> nnc_st list \<Rightarrow> string \<Rightarrow> nat \<Rightarrow> nat option res" where
  "deep_get_fuel 0 ts key i = Inl NoFuel"
| "deep_get_fuel (Suc n) ts key i =
     (if length ts \<le> i then Inl Crash else
      bind_res (nncmap_has str_keys (st_syms (ts ! i)) key) (\<lambda>h.
        if h then bind_res (nncmap_get str_keys (st_syms (ts ! i)) key) (\<lambda>s. Inr (Some s))
        else first_branch (deep_get_fuel n ts key) (branches (ts ! i))))"

definition nnc_st_deep_get :: "st_heap \<Rightarrow> nat \<Rightarrow> string \<Rightarrow> nat option res" where
  "nnc_st_deep_get H st key = deep_get_fuel (length (tables H)) (tables H) key st"

section \<open>Declarations\<close>

definition nnc_st_put_sym :: "st_heap \<Rightarrow> nat \<Rightarrow> nat \<Rightarrow> st_heap res" where
  "nnc_st_put_sym H st sid =
     (if length (idents H) \<le> sid \<or> length (tables H) \<le> st then Inl Crash
      else let s = idents H ! sid; t = tables H ! st in
        bind_res (if ictx s = IDENT_GLOBAL then nnc_st_deep_get H st (iname s)
                  else nnc_st_get H (Some st) (iname s) ST_SYM_IDENT) (\<lambda>old.
          if old \<noteq> None then Inl (Throw NNC_NAME_ALREADY_DECLARED)
          else bind_res (nncmap_put str_keys (st_syms t) (iname s) sid) (\<lambda>m.
            Inr (H\<lparr>tables := (tables H)[st := t\<lparr>st_syms := m\<rparr>]\<rparr>))))"

definition nnc_st_put_type :: "st_heap \<Rightarrow> nat \<Rightarrow> tref \<Rightarrow> st_heap res" where
  "nnc_st_put_type H st ty =
     (if length (htypes H) \<le> ty \<or> length (tables H) \<le> st then Inl Crash
      else let t = tables H ! st in
        bind_res (assert_res (tkind (htypes H ! ty) = T_ALIAS)) (\<lambda>_.
          case trepr (htypes H ! ty) of None \<Rightarrow> Inl Crash
          | Some r \<Rightarrow>
              bind_res (nnc_st_has H (Some st) r ST_SYM_TYPE) (\<lambda>h.
                if h then Inl (Throw NNC_TYPE_ALREADY_DECLARED)
                else bind_res (nncmap_put str_keys (st_types t) r ty) (\<lambda>m.
                  Inr (H\<lparr>tables := (tables H)[st := t\<lparr>st_types := m\<rparr>]\<rparr>)))))"

definition nnc_st_put :: "st_heap \<Rightarrow> nat \<Rightarrow> nat \<Rightarrow> nnc_st_sym_kind \<Rightarrow> st_heap res" where
  "nnc_st_put H st sid k = (case k of ST_SYM_TYPE \<Rightarrow> nnc_st_put_type H st sid | ST_SYM_IDENT \<Rightarrow> nnc_st_put_sym H st sid)"

text \<open>The table with the wanted context, if there is one; this search does not stop at a namespace.\<close>

fun has_ctx_loop :: "nat \<Rightarrow> nnc_st list \<Rightarrow> nat option \<Rightarrow> u32 \<Rightarrow> nat option res" where
  "has_ctx_loop n ts None c = Inr None"
| "has_ctx_loop 0 ts (Some i) c = Inl NoFuel"
| "has_ctx_loop (Suc n) ts (Some i) c =
     (if length ts \<le> i then Inl Crash else if st_ctx (ts ! i) = c then Inr (Some i)
      else has_ctx_loop n ts (st_root (ts ! i)) c)"

definition nnc_st_has_ctx :: "st_heap \<Rightarrow> nat option \<Rightarrow> u32 \<Rightarrow> (bool \<times> nat option) res" where
  "nnc_st_has_ctx H st c = bind_res (has_ctx_loop (length (tables H)) (tables H) st c) (\<lambda>r. Inr (r \<noteq> None, r))"

section \<open>What a lookup sees\<close>

text \<open>
  Well-formed tables: the maps keep their invariant, a root is an older and a branch a younger
  table, and a branch belongs to one table only.
\<close>

definition st_wf :: "nnc_st list \<Rightarrow> bool" where
  "st_wf ts \<longleftrightarrow> (\<forall>i < length ts. map_inv str_keys (st_types (ts ! i)) \<and> map_inv str_keys (st_syms (ts ! i)) \<and>
     (\<forall>r. st_root (ts ! i) = Some r \<longrightarrow> r < i) \<and> (\<forall>b \<in> set (branches (ts ! i)). i < b \<and> b < length ts))"

text \<open>The tables visible from \<open>i\<close>, innermost first.\<close>

function visible :: "nnc_st list \<Rightarrow> nat \<Rightarrow> nat list" where
  "visible ts i = i # (if length ts \<le> i \<or> SCOPE_NAMESPACE (ts ! i) then []
     else case st_root (ts ! i) of None \<Rightarrow> [] | Some r \<Rightarrow> if r < i then visible ts r else [])"
  by auto
termination by (relation "measure snd") auto

declare visible.simps [simp del]

text \<open>The tables below \<open>i\<close>, in the order in which the search visits them.\<close>

function below :: "nnc_st list \<Rightarrow> nat \<Rightarrow> nat list" where
  "below ts i = i # (if length ts \<le> i then [] else concat (map (\<lambda>b. if i < b \<and> b < length ts then below ts b else []) (branches (ts ! i))))"
  by auto
termination by (relation "measure (\<lambda>(ts, i). length ts - i)") auto

declare below.simps [simp del]

fun first_some :: "('a \<Rightarrow> 'b option) \<Rightarrow> 'a list \<Rightarrow> 'b option" where
  "first_some f [] = None"
| "first_some f (x # xs) = (case f x of None \<Rightarrow> first_some f xs | Some y \<Rightarrow> Some y)"

lemma first_some_append: "first_some f (xs @ ys) = (case first_some f xs of None \<Rightarrow> first_some f ys | r \<Rightarrow> r)"
  by (induction xs) (simp_all split: option.split)

lemma first_some_None: "first_some f xs = None \<longleftrightarrow> (\<forall>x \<in> set xs. f x = None)"
  by (induction xs) (simp_all split: option.split)

definition declared :: "nnc_st list \<Rightarrow> nnc_st_sym_kind \<Rightarrow> string \<Rightarrow> nat \<Rightarrow> nat option" where
  "declared ts k key i = map_abs str_keys (st_map (ts ! i) k) key"

lemma st_wfD:
  assumes "st_wf ts" "i < length ts"
  shows "map_inv str_keys (st_map (ts ! i) k)" "st_root (ts ! i) = Some r \<Longrightarrow> r < i"
    "b \<in> set (branches (ts ! i)) \<Longrightarrow> i < b \<and> b < length ts"
proof -
  note w = assms(1) [unfolded st_wf_def, rule_format, OF assms(2)]
  show "map_inv str_keys (st_map (ts ! i) k)" using w by (cases k) (simp_all add: st_map_def)
  show "st_root (ts ! i) = Some r \<Longrightarrow> r < i" using w by blast
  show "b \<in> set (branches (ts ! i)) \<Longrightarrow> i < b \<and> b < length ts" using w by blast
qed

lemma visible_eq:
  assumes "st_wf ts" "i < length ts"
  shows "visible ts i = i # (if SCOPE_NAMESPACE (ts ! i) then [] else case st_root (ts ! i) of None \<Rightarrow> [] | Some r \<Rightarrow> visible ts r)"
proof -
  have "(if r < i then visible ts r else []) = visible ts r" if "st_root (ts ! i) = Some r" for r
    using st_wfD(2) [OF assms that] by simp
  then show ?thesis using assms(2) by (subst visible.simps) (simp split: option.split)
qed

lemma below_eq:
  assumes "st_wf ts" "i < length ts"
  shows "below ts i = i # concat (map (below ts) (branches (ts ! i)))"
proof -
  have e: "map (\<lambda>b. if i < b \<and> b < length ts then below ts b else []) (branches (ts ! i)) = map (below ts) (branches (ts ! i))"
    using st_wfD(3) [OF assms] by simp
  have "\<not> length ts \<le> i" using assms(2) by simp
  then show ?thesis by (subst below.simps) (simp only: e if_False)
qed

lemma st_get_loop_visible:
  assumes "st_wf ts" "i < length ts" "i < n"
  shows "st_get_loop n ts (Some i) key k = Inr (first_some (declared ts k key) (visible ts i))"
  using assms(2,3)
proof (induction i arbitrary: n rule: less_induct)
  case (less i)
  then obtain n' where n: "n = Suc n'" by (cases n) auto
  note inv = st_wfD(1) [OF assms(1) less.prems(1), of k]
  have has: "nncmap_has str_keys (st_map (ts ! i) k) key = Inr (declared ts k key i \<noteq> None)"
    using str_dict.has_abs [OF inv] by (simp add: declared_def)
  have rest: "st_get_loop n' ts (st_root (ts ! i)) key k =
      Inr (case st_root (ts ! i) of None \<Rightarrow> None | Some r \<Rightarrow> first_some (declared ts k key) (visible ts r))"
    using less.IH [of _ n'] st_wfD(2) [OF assms(1) less.prems(1)] less.prems n
    by (cases "st_root (ts ! i)") auto
  show ?case
  proof (cases "declared ts k key i")
    case None
    then show ?thesis using has rest less.prems n
      by (simp add: visible_eq [OF assms(1) less.prems(1)] split: option.split)
  next
    case (Some s)
    then have "nncmap_get str_keys (st_map (ts ! i) k) key = Inr s"
      using str_dict.get_abs [OF inv] by (simp add: declared_def)
    then show ?thesis using has Some less.prems n by (simp add: visible_eq [OF assms(1) less.prems(1)])
  qed
qed

lemma st_has_loop_visible:
  assumes "st_wf ts" "i < length ts" "i < n"
  shows "st_has_loop n ts (Some i) key k = Inr (first_some (declared ts k key) (visible ts i) \<noteq> None)"
  using assms(2,3)
proof (induction i arbitrary: n rule: less_induct)
  case (less i)
  then obtain n' where n: "n = Suc n'" by (cases n) auto
  note inv = st_wfD(1) [OF assms(1) less.prems(1), of k]
  have has: "nncmap_has str_keys (st_map (ts ! i) k) key = Inr (declared ts k key i \<noteq> None)"
    using str_dict.has_abs [OF inv] by (simp add: declared_def)
  have rest: "st_has_loop n' ts (st_root (ts ! i)) key k =
      Inr (case st_root (ts ! i) of None \<Rightarrow> False | Some r \<Rightarrow> first_some (declared ts k key) (visible ts r) \<noteq> None)"
    using less.IH [of _ n'] st_wfD(2) [OF assms(1) less.prems(1)] less.prems n
    by (cases "st_root (ts ! i)") auto
  show ?case
    using has rest less.prems n by (simp add: visible_eq [OF assms(1) less.prems(1)] split: option.split)
qed

lemma first_branch_first_some:
  assumes "\<And>b. b \<in> set bs \<Longrightarrow> f b = Inr (first_some g (h b))"
  shows "first_branch f bs = Inr (first_some g (concat (map h bs)))"
  using assms by (induction bs) (auto simp: first_some_append split: option.split)

lemma deep_get_below:
  assumes "st_wf ts" "i < length ts" "length ts - i \<le> n"
  shows "deep_get_fuel n ts key i = Inr (first_some (declared ts ST_SYM_IDENT key) (below ts i))"
  using assms(2,3)
proof (induction "length ts - i" arbitrary: i n rule: less_induct)
  case less
  then obtain n' where n: "n = Suc n'" by (cases n) auto
  note inv = st_wfD(1) [OF assms(1) less.prems(1), of ST_SYM_IDENT, unfolded st_map_def nnc_st_sym_kind.case]
  have has: "nncmap_has str_keys (st_syms (ts ! i)) key = Inr (declared ts ST_SYM_IDENT key i \<noteq> None)"
    using str_dict.has_abs [OF inv] by (simp add: declared_def st_map_def)
  have br: "deep_get_fuel n' ts key b = Inr (first_some (declared ts ST_SYM_IDENT key) (below ts b))"
    if "b \<in> set (branches (ts ! i))" for b
    using less.hyps [of b n'] st_wfD(3) [OF assms(1) less.prems(1) that] less.prems n by auto
  note b = below_eq [OF assms(1) less.prems(1)]
  show ?case
  proof (cases "declared ts ST_SYM_IDENT key i")
    case None
    then show ?thesis using has n less.prems b first_branch_first_some [of "branches (ts ! i)", OF br] by simp
  next
    case (Some s)
    then have "nncmap_get str_keys (st_syms (ts ! i)) key = Inr s"
      using str_dict.get_abs [OF inv] by (simp add: declared_def st_map_def)
    then show ?thesis using has n less.prems b Some by simp
  qed
qed


section \<open>What a declaration changes\<close>

definition same_shape :: "nnc_st list \<Rightarrow> nnc_st list \<Rightarrow> bool" where
  "same_shape ts ts' \<longleftrightarrow> length ts' = length ts \<and> (\<forall>i < length ts. st_ctx (ts' ! i) = st_ctx (ts ! i) \<and>
     st_root (ts' ! i) = st_root (ts ! i) \<and> branches (ts' ! i) = branches (ts ! i))"

lemma same_shape_visible:
  assumes "same_shape ts ts'" "st_wf ts" "st_wf ts'" "i < length ts"
  shows "visible ts' i = visible ts i"
  using assms(4)
proof (induction i rule: less_induct)
  case (less i)
  have i': "i < length ts'" using assms(1) less.prems by (simp add: same_shape_def)
  have up: "visible ts' r = visible ts r" if "st_root (ts ! i) = Some r" for r
    using less.IH [of r] st_wfD(2) [OF assms(2) less.prems that] less.prems by simp
  have s: "st_ctx (ts' ! i) = st_ctx (ts ! i)" "st_root (ts' ! i) = st_root (ts ! i)"
    using assms(1) less.prems by (simp_all add: same_shape_def)
  show ?case
    using up by (simp add: visible_eq [OF assms(2) less.prems] visible_eq [OF assms(3) i'] s SCOPE_NAMESPACE_def
      split: option.split)
qed

lemma visible_bound: "st_wf ts \<Longrightarrow> i < length ts \<Longrightarrow> set (visible ts i) \<subseteq> {..<length ts}"
proof (induction i rule: less_induct)
  case (less i)
  have up: "set (visible ts r) \<subseteq> {..<length ts}" if "st_root (ts ! i) = Some r" for r
    using less.IH [of r] st_wfD(2) [OF less.prems that] less.prems by simp
  show ?case using up less.prems(2) by (cases "st_root (ts ! i)") (simp_all add: visible_eq [OF less.prems])
qed

definition with_map :: "nnc_st \<Rightarrow> nnc_st_sym_kind \<Rightarrow> (string, nat) nnc_map \<Rightarrow> nnc_st" where
  "with_map t k m = (case k of ST_SYM_TYPE \<Rightarrow> t\<lparr>st_types := m\<rparr> | ST_SYM_IDENT \<Rightarrow> t\<lparr>st_syms := m\<rparr>)"

lemma with_map_simps [simp]:
  "st_root (with_map t k m) = st_root t" "branches (with_map t k m) = branches t" "st_ctx (with_map t k m) = st_ctx t"
  "st_map (with_map t k m) k' = (if k' = k then m else st_map t k')"
  by (cases k; cases k'; simp add: with_map_def st_map_def)+

lemma st_wf_alt:
  "st_wf ts \<longleftrightarrow> (\<forall>i < length ts. (\<forall>k. map_inv str_keys (st_map (ts ! i) k)) \<and>
     (\<forall>r. st_root (ts ! i) = Some r \<longrightarrow> r < i) \<and> (\<forall>b \<in> set (branches (ts ! i)). i < b \<and> b < length ts))"
proof -
  have "(\<forall>k. map_inv str_keys (st_map t k)) \<longleftrightarrow> map_inv str_keys (st_types t) \<and> map_inv str_keys (st_syms t)" for t
    by (metis nnc_st_sym_kind.exhaust nnc_st_sym_kind.case st_map_def)
  then show ?thesis unfolding st_wf_def by simp
qed

text \<open>Inserting a name that the table does not declare yet.\<close>

lemma insert_declared:
  assumes wf: "st_wf ts" and st: "st < length ts" and fresh: "declared ts k key st = None"
  shows "\<exists>m. nncmap_put str_keys (st_map (ts ! st) k) key x = Inr m \<and> st_wf (ts[st := with_map (ts ! st) k m]) \<and>
    same_shape ts (ts[st := with_map (ts ! st) k m]) \<and>
    (\<forall>k' key' i. i < length ts \<longrightarrow> declared (ts[st := with_map (ts ! st) k m]) k' key' i =
       (if k' = k \<and> key' = key \<and> i = st then Some x else declared ts k' key' i))"
proof -
  note inv = st_wfD(1) [OF wf st, of k]
  have "map_abs str_keys (st_map (ts ! st) k) key = None" using fresh by (simp add: declared_def)
  from str_dict.put_abs [OF inv this, of x] obtain m where
    m: "nncmap_put str_keys (st_map (ts ! st) k) key x = Inr m" "map_inv str_keys m"
    "map_abs str_keys m = (map_abs str_keys (st_map (ts ! st) k))(key \<mapsto> x)" by blast
  have nth: "ts[st := with_map (ts ! st) k m] ! i = (if i = st then with_map (ts ! st) k m else ts ! i)"
    if "i < length ts" for i using that by (simp add: nth_list_update)
  have "st_wf (ts[st := with_map (ts ! st) k m])"
    unfolding st_wf_alt
  proof (intro allI impI)
    fix i assume "i < length (ts[st := with_map (ts ! st) k m])"
    then have i: "i < length ts" by simp
    have "\<forall>r. st_root (ts ! i) = Some r \<longrightarrow> r < i" "\<forall>b \<in> set (branches (ts ! i)). i < b \<and> b < length ts"
      "\<forall>k. map_inv str_keys (st_map (ts ! i) k)" using st_wfD [OF wf i] by blast+
    then show "(\<forall>k'. map_inv str_keys (st_map (ts[st := with_map (ts ! st) k m] ! i) k')) \<and>
      (\<forall>r. st_root (ts[st := with_map (ts ! st) k m] ! i) = Some r \<longrightarrow> r < i) \<and>
      (\<forall>b \<in> set (branches (ts[st := with_map (ts ! st) k m] ! i)). i < b \<and> b < length (ts[st := with_map (ts ! st) k m]))"
      unfolding nth [OF i] using m(2) by (cases "i = st") simp_all
  qed
  moreover have "same_shape ts (ts[st := with_map (ts ! st) k m])"
    by (simp add: same_shape_def nth)
  moreover have "declared (ts[st := with_map (ts ! st) k m]) k' key' i =
       (if k' = k \<and> key' = key \<and> i = st then Some x else declared ts k' key' i)" if "i < length ts" for k' key' i
    by (simp add: declared_def nth [OF that] m(3))
  ultimately show ?thesis using m(1) by blast
qed

definition put_ready :: "st_heap \<Rightarrow> nat \<Rightarrow> nat \<Rightarrow> nnc_st_sym_kind \<Rightarrow> string \<Rightarrow> bool" where
  "put_ready H st x k key \<longleftrightarrow> st_wf (tables H) \<and> st < length (tables H) \<and>
     (case k of ST_SYM_IDENT \<Rightarrow> x < length (idents H) \<and> iname (idents H ! x) = key
      | ST_SYM_TYPE \<Rightarrow> x < length (htypes H) \<and> tkind (htypes H ! x) = T_ALIAS \<and> trepr (htypes H ! x) = Some key)"

text \<open>The tables in which an earlier declaration of the name counts.\<close>

definition clash_scope :: "st_heap \<Rightarrow> nat \<Rightarrow> nat \<Rightarrow> nnc_st_sym_kind \<Rightarrow> nat list" where
  "clash_scope H st x k = (if k = ST_SYM_IDENT \<and> ictx (idents H ! x) = IDENT_GLOBAL then below (tables H) st
     else visible (tables H) st)"

definition already :: "nnc_st_sym_kind \<Rightarrow> exc_kind" where
  "already k = (case k of ST_SYM_TYPE \<Rightarrow> NNC_TYPE_ALREADY_DECLARED | ST_SYM_IDENT \<Rightarrow> NNC_NAME_ALREADY_DECLARED)"

lemma nnc_st_get_visible:
  assumes "st_wf (tables H)" "st < length (tables H)"
  shows "nnc_st_get H (Some st) key k = Inr (first_some (declared (tables H) k key) (visible (tables H) st))"
    "nnc_st_has H (Some st) key k = Inr (first_some (declared (tables H) k key) (visible (tables H) st) \<noteq> None)"
    "nnc_st_deep_get H st key = Inr (first_some (declared (tables H) ST_SYM_IDENT key) (below (tables H) st))"
  using assms st_get_loop_visible st_has_loop_visible deep_get_below
  by (simp_all add: nnc_st_get_def nnc_st_has_def nnc_st_deep_get_def)

lemma put_cases:
  assumes "put_ready H st x k key"
  shows "nnc_st_put H st x k = (if first_some (declared (tables H) k key) (clash_scope H st x k) \<noteq> None
    then Inl (Throw (already k))
    else bind_res (nncmap_put str_keys (st_map (tables H ! st) k) key x) (\<lambda>m.
      Inr (H\<lparr>tables := (tables H)[st := with_map (tables H ! st) k m]\<rparr>)))"
proof (cases k)
  case ST_SYM_TYPE
  then show ?thesis using assms
    by (auto simp: nnc_st_put_def put_ready_def nnc_st_put_type_def Let_def nnc_st_get_visible clash_scope_def
      already_def with_map_def st_map_def)
next
  case ST_SYM_IDENT
  then show ?thesis using assms
    by (auto simp: nnc_st_put_def put_ready_def nnc_st_put_sym_def Let_def nnc_st_get_visible clash_scope_def
      already_def with_map_def st_map_def)
qed

text \<open>Two nested tables; the inner one declares \<open>x\<close>.\<close>

definition st_example :: st_heap where
  "st_example = \<lparr>tables = [nnc_st_init\<lparr>branches := [1]\<rparr>, nnc_st_init\<lparr>st_root := Some 0\<rparr>],
     idents = [nnc_ident_new ''x'', nnc_ident_new ''y''], htypes = static_types\<rparr>"

lemma st_example_wf: "st_wf (tables st_example)"
  by (simp add: st_wf_def st_example_def nnc_st_init_def nncmap_init_inv less_Suc_eq)

lemma st_example_visible: "visible (tables st_example) (Suc 0) = [Suc 0, 0]"
proof -
  have l: "Suc 0 < length (tables st_example)" "0 < length (tables st_example)" by (simp_all add: st_example_def)
  have "visible (tables st_example) 0 = [0]"
    unfolding visible_eq [OF st_example_wf l(2)] by (simp add: st_example_def nnc_st_init_def)
  then show ?thesis
    unfolding visible_eq [OF st_example_wf l(1)] by (simp add: st_example_def nnc_st_init_def SCOPE_NAMESPACE_def)
qed

lemma st_example_free: "first_some (declared (tables st_example) ST_SYM_IDENT ''x'') [Suc 0, 0] = None"
  by (simp add: st_example_def nnc_st_init_def declared_def st_map_def nncmap_init_abs)

text \<open>
  C10. Lookup: in well-formed tables a search ends without a fault and gives the
  declaration of the innermost visible table that has the name, where the visible tables are
  the chain of the roots up to and including the first namespace; \<^verbatim>\<open>nnc_st_has\<close> agrees with it.
\<close>

theorem symtable_lookup:
  assumes "st_wf (tables H)" "st < length (tables H)"
  shows "nnc_st_get H (Some st) key k = Inr (first_some (declared (tables H) k key) (visible (tables H) st)) \<and>
    nnc_st_has H (Some st) key k = Inr (first_some (declared (tables H) k key) (visible (tables H) st) \<noteq> None)"
  using nnc_st_get_visible [OF assms] by simp

lemma symtable_lookup_witness:
  "nnc_st_get st_example (Some 1) ''x'' ST_SYM_IDENT = Inr None \<and> visible (tables st_example) 1 = [1, 0]"
proof -
  have "Suc 0 < length (tables st_example)" by (simp add: st_example_def)
  from symtable_lookup [OF st_example_wf this, of "''x''" ST_SYM_IDENT] show ?thesis
    using st_example_visible st_example_free by simp
qed

text \<open>
  C19. Declaration: putting a name is refused with the exception of its kind exactly when a
  visible table (for a global identifier: the table itself or one below it) declares the name
  already. Otherwise it succeeds, the tables stay well formed, the name is found in its
  table, and no other lookup, of any name and kind and from any table, changes.
\<close>

theorem symtable_declare:
  assumes "put_ready H st x k key"
  shows "if first_some (declared (tables H) k key) (clash_scope H st x k) \<noteq> None
    then nnc_st_put H st x k = Inl (Throw (already k))
    else \<exists>H'. nnc_st_put H st x k = Inr H' \<and> st_wf (tables H') \<and> nnc_st_get H' (Some st) key k = Inr (Some x) \<and>
      (\<forall>i < length (tables H). \<forall>key' k'. (key', k') \<noteq> (key, k) \<or> st \<notin> set (visible (tables H) i) \<longrightarrow>
        nnc_st_get H' (Some i) key' k' = nnc_st_get H (Some i) key' k')"
proof (cases "first_some (declared (tables H) k key) (clash_scope H st x k) = None")
  case False
  then show ?thesis using put_cases [OF assms] by simp
next
  case True
  have wf: "st_wf (tables H)" and st: "st < length (tables H)" using assms by (simp_all add: put_ready_def)
  have "st \<in> set (clash_scope H st x k)" using wf st by (simp add: clash_scope_def visible_eq below_eq)
  then have "declared (tables H) k key st = None" using True by (simp add: first_some_None)
  from insert_declared [OF wf st this, of x] obtain m where
    put: "nncmap_put str_keys (st_map (tables H ! st) k) key x = Inr m" and
    wf': "st_wf ((tables H)[st := with_map (tables H ! st) k m])" and
    sh: "same_shape (tables H) ((tables H)[st := with_map (tables H ! st) k m])" and
    dec: "\<And>k' key' i. i < length (tables H) \<Longrightarrow> declared ((tables H)[st := with_map (tables H ! st) k m]) k' key' i =
       (if k' = k \<and> key' = key \<and> i = st then Some x else declared (tables H) k' key' i)" by blast
  let ?H = "H\<lparr>tables := (tables H)[st := with_map (tables H ! st) k m]\<rparr>"
  have vis: "visible (tables ?H) i = visible (tables H) i" if "i < length (tables H)" for i
    using same_shape_visible [OF sh wf wf' that] by simp
  note range = visible_bound [OF wf]
  have same: "first_some (declared (tables ?H) k' key') (visible (tables H) i) =
      first_some (declared (tables H) k' key') (visible (tables H) i)"
    if i: "i < length (tables H)" and other: "(key', k') \<noteq> (key, k) \<or> st \<notin> set (visible (tables H) i)" for i key' k'
  proof -
    have "first_some f xs = first_some g xs" if "\<And>j. j \<in> set xs \<Longrightarrow> f j = g j" for f g :: "nat \<Rightarrow> nat option" and xs
      using that by (induction xs) (auto split: option.split)
    moreover have "declared (tables ?H) k' key' j = declared (tables H) k' key' j" if j: "j \<in> set (visible (tables H) i)" for j
      using range [OF i] j other dec [of j k' key'] by auto
    ultimately show ?thesis by metis
  qed
  have "nnc_st_get ?H (Some st) key k = Inr (Some x)"
    using nnc_st_get_visible(1) [of ?H st key k] wf' st vis [OF st] dec [OF st]
    by (simp add: visible_eq [OF wf st])
  moreover have "nnc_st_get ?H (Some i) key' k' = nnc_st_get H (Some i) key' k'"
    if "i < length (tables H)" "(key', k') \<noteq> (key, k) \<or> st \<notin> set (visible (tables H) i)" for i key' k'
    using nnc_st_get_visible(1) [of ?H i key' k'] nnc_st_get_visible(1) [OF wf that(1), of key' k'] wf' that same vis [OF that(1)]
    by simp
  ultimately show ?thesis using put_cases [OF assms] True put wf' by simp
qed

lemma symtable_declare_witness:
  "\<exists>H'. nnc_st_put st_example 1 0 ST_SYM_IDENT = Inr H' \<and> nnc_st_get H' (Some 1) ''x'' ST_SYM_IDENT = Inr (Some 0)"
proof -
  have r: "put_ready st_example 1 0 ST_SYM_IDENT ''x''"
    using st_example_wf by (simp add: put_ready_def) (simp add: st_example_def nnc_ident_new_def)
  have c: "clash_scope st_example 1 0 ST_SYM_IDENT = visible (tables st_example) (Suc 0)"
    by (simp add: clash_scope_def st_example_def nnc_ident_new_def)
  have "first_some (declared (tables st_example) ST_SYM_IDENT ''x'') (clash_scope st_example 1 0 ST_SYM_IDENT) = None"
    using c st_example_visible st_example_free by simp
  then show ?thesis using symtable_declare [OF r] by auto
qed


end
