(* ===== verification/Nnc_Eval.thy ===== *)
theory Nnc_Eval
  imports Nnc_Symtab "HOL-Library.Signed_Division"
begin

text \<open>
  Evaluation of constant expressions, \<^verbatim>\<open>src/src/nnc_ast_eval.c\<close>, and the test
  \<^verbatim>\<open>nnc_can_fold_expr\<close> of \<^verbatim>\<open>src/src/nnc_resolve.c\<close> that guards it. Values are \<^verbatim>\<open>nnc_i64\<close>, kept as
  64 bit words and read with \<open>sint\<close>; undefined arithmetic of C (overflow, division by zero,
  a shift by more than 63) is a \<open>Crash\<close>. The property compares the evaluator with
  arithmetic on the integers.
\<close>

section \<open>Arithmetic of \<^verbatim>\<open>nnc_i64\<close>\<close>

definition res_of :: "'a option \<Rightarrow> 'a res" where
  "res_of x = (case x of None \<Rightarrow> Inl Crash | Some y \<Rightarrow> Inr y)"

definition in_i64 :: "int \<Rightarrow> bool" where
  "in_i64 i \<longleftrightarrow> - (2 ^ 63) \<le> i \<and> i < 2 ^ 63"

definition guarded :: "int \<Rightarrow> u64 \<Rightarrow> u64 res" where
  "guarded i w = (if in_i64 i then Inr w else Inl Crash)"

definition c_bool :: "bool \<Rightarrow> u64" where
  "c_bool b = (if b then 1 else 0)"

text \<open>The strict binary operators.\<close>

definition i64_binary :: "nnc_binary_kind \<Rightarrow> u64 \<Rightarrow> u64 \<Rightarrow> u64 res" where
  "i64_binary k a b = (case k of
     BINARY_LT \<Rightarrow> Inr (c_bool (a <s b)) | BINARY_GT \<Rightarrow> Inr (c_bool (b <s a))
   | BINARY_EQ \<Rightarrow> Inr (c_bool (a = b)) | BINARY_NEQ \<Rightarrow> Inr (c_bool (a \<noteq> b))
   | BINARY_LTE \<Rightarrow> Inr (c_bool (a \<le>s b)) | BINARY_GTE \<Rightarrow> Inr (c_bool (b \<le>s a))
   | BINARY_ADD \<Rightarrow> guarded (sint a + sint b) (a + b)
   | BINARY_SUB \<Rightarrow> guarded (sint a - sint b) (a - b)
   | BINARY_MUL \<Rightarrow> guarded (sint a * sint b) (a * b)
   | BINARY_DIV \<Rightarrow> if b = 0 then Inl Crash
       else guarded (sint a sdiv sint b) (word_of_int (sint a sdiv sint b))
   | BINARY_MOD \<Rightarrow> if b = 0 then Inl Crash
       else if \<not> in_i64 (sint a sdiv sint b) then Inl Crash else Inr (word_of_int (sint a smod sint b))
   | BINARY_SHR \<Rightarrow> if 64 \<le> b then Inl Crash else Inr (signed_drop_bit (unat b) a)
   | BINARY_SHL \<Rightarrow> if 64 \<le> b \<or> sint a < 0 then Inl Crash
       else guarded (sint a * 2 ^ unat b) (push_bit (unat b) a)
   | BINARY_BW_OR \<Rightarrow> Inr (a OR b) | BINARY_BW_AND \<Rightarrow> Inr (a AND b) | BINARY_BW_XOR \<Rightarrow> Inr (a XOR b)
   | _ \<Rightarrow> Inl Abort)"

text \<open>A conversion to a narrower type and back, which extends the sign or zeros.\<close>

definition i64_cast :: "nnc_type_kind \<Rightarrow> u64 \<Rightarrow> u64 res" where
  "i64_cast k v = (case k of
     T_ARRAY \<Rightarrow> Inr v | T_POINTER \<Rightarrow> Inr v
   | T_PRIMITIVE_I8 \<Rightarrow> Inr (scast (ucast v :: u8)) | T_PRIMITIVE_I16 \<Rightarrow> Inr (scast (ucast v :: u16))
   | T_PRIMITIVE_I32 \<Rightarrow> Inr (scast (ucast v :: u32)) | T_PRIMITIVE_I64 \<Rightarrow> Inr v
   | T_PRIMITIVE_U8 \<Rightarrow> Inr (ucast (ucast v :: u8)) | T_PRIMITIVE_U16 \<Rightarrow> Inr (ucast (ucast v :: u16))
   | T_PRIMITIVE_U32 \<Rightarrow> Inr (ucast (ucast v :: u32)) | T_PRIMITIVE_U64 \<Rightarrow> Inr v
   | _ \<Rightarrow> Inl Abort)"

definition cast_kinds :: "nnc_type_kind list" where
  "cast_kinds = [T_ARRAY, T_POINTER, T_PRIMITIVE_I8, T_PRIMITIVE_I16, T_PRIMITIVE_I32, T_PRIMITIVE_I64,
     T_PRIMITIVE_U8, T_PRIMITIVE_U16, T_PRIMITIVE_U32, T_PRIMITIVE_U64]"

section \<open>The evaluator\<close>

text \<open>\<open>st\<close> is the table in which enumerators are looked up; \<open>d2i\<close> converts a \<^verbatim>\<open>double\<close>.\<close>

definition nnc_evald_ident :: "st_heap \<Rightarrow> nat option \<Rightarrow> nnc_ident \<Rightarrow> u64 res" where
  "nnc_evald_ident H st i =
     bind_res (assert_res (ictx i = IDENT_ENUMERATOR)) (\<lambda>_.
       if st \<noteq> None then
         bind_res (nnc_st_get H st (iname i) ST_SYM_IDENT) (\<lambda>s.
         bind_res (assert_res (s \<noteq> None)) (\<lambda>_.
           if length (idents H) \<le> the s then Inl Crash
           else bind_res (assert_res (ictx (idents H ! the s) = IDENT_ENUMERATOR)) (\<lambda>_.
             bind_res (res_of (enumerator (idents H ! the s))) (\<lambda>e. Inr (init_const e)))))
       else bind_res (res_of (enumerator i)) (\<lambda>e. Inr (init_const e)))"

fun nnc_evald :: "(u64 \<Rightarrow> u64) \<Rightarrow> st_heap \<Rightarrow> nat option \<Rightarrow> nnc_expression \<Rightarrow> u64 res" where
  "nnc_evald d2i H st (EXPR_IDENT i) = nnc_evald_ident H st i"
| "nnc_evald d2i H st (EXPR_INT_LITERAL v _) = Inr v"
| "nnc_evald d2i H st (EXPR_CHR_LITERAL c _) = Inr (scast c)"
| "nnc_evald d2i H st (EXPR_DBL_LITERAL v _) = Inr (d2i v)"
| "nnc_evald d2i H st (EXPR_STR_LITERAL _ _) = Inl Abort"
| "nnc_evald d2i H st (EXPR_UNARY k _ e) = (case k of
     UNARY_NOT \<Rightarrow> bind_res (nnc_evald d2i H st e) (\<lambda>v. Inr (c_bool (v = 0)))
   | UNARY_PLUS \<Rightarrow> nnc_evald d2i H st e
   | UNARY_MINUS \<Rightarrow> bind_res (nnc_evald d2i H st e) (\<lambda>v. guarded (- sint v) (- v))
   | UNARY_BITWISE_NOT \<Rightarrow> bind_res (nnc_evald d2i H st e) (\<lambda>v. Inr (NOT v))
   | UNARY_LENGTHOF \<Rightarrow> bind_res (res_of (nnc_expr_get_type (htypes H) e)) (\<lambda>t. res_of (nnc_sizeof (htypes H) t))
   | _ \<Rightarrow> Inl Abort)"
| "nnc_evald d2i H st (EXPR_CAST _ _ e to_t) =
     bind_res (res_of (kind_of (htypes H) to_t)) (\<lambda>k.
       if k \<in> set cast_kinds then bind_res (nnc_evald d2i H st e) (i64_cast k)
       else if k \<in> set real_kinds then Inl Abort else Inr 0)"
| "nnc_evald d2i H st (EXPR_SIZEOF _ of_t) = res_of (nnc_sizeof (htypes H) of_t)"
| "nnc_evald d2i H st (EXPR_DOT _ _ _) = Inl Abort"
| "nnc_evald d2i H st (EXPR_CALL _ _ _) = Inl Abort"
| "nnc_evald d2i H st (EXPR_INDEX _ _ _) = Inl Abort"
| "nnc_evald d2i H st (EXPR_BINARY k _ l r) =
     (if k = BINARY_OR then
        bind_res (nnc_evald d2i H st l) (\<lambda>a. if a \<noteq> 0 then Inr 1
          else bind_res (nnc_evald d2i H st r) (\<lambda>b. Inr (c_bool (b \<noteq> 0))))
      else if k = BINARY_AND then
        bind_res (nnc_evald d2i H st l) (\<lambda>a. if a = 0 then Inr 0
          else bind_res (nnc_evald d2i H st r) (\<lambda>b. Inr (c_bool (b \<noteq> 0))))
      else if k = BINARY_COMMA then nnc_evald d2i H st r
      else if k = BINARY_ASSIGN then Inl Abort
      else bind_res (nnc_evald d2i H st l) (\<lambda>a. bind_res (nnc_evald d2i H st r) (i64_binary k a)))"
| "nnc_evald d2i H st (EXPR_TERNARY _ c l r) =
     bind_res (nnc_evald d2i H st c) (\<lambda>v. if v \<noteq> 0 then nnc_evald d2i H st l else nnc_evald d2i H st r)"

text \<open>
  What may be folded. A \<^verbatim>\<open>sizeof\<close> has no operand, so the recursive call dereferences NULL.
\<close>

fun nnc_can_fold_expr :: "nnc_expression \<Rightarrow> bool res" where
  "nnc_can_fold_expr (EXPR_STR_LITERAL _ _) = Inr False"
| "nnc_can_fold_expr (EXPR_INT_LITERAL _ _) = Inr True"
| "nnc_can_fold_expr (EXPR_CHR_LITERAL _ _) = Inr True"
| "nnc_can_fold_expr (EXPR_DBL_LITERAL _ _) = Inr True"
| "nnc_can_fold_expr (EXPR_IDENT i) = Inr (ictx i = IDENT_ENUMERATOR)"
| "nnc_can_fold_expr (EXPR_UNARY _ _ e) = nnc_can_fold_expr e"
| "nnc_can_fold_expr (EXPR_CAST _ _ e _) = nnc_can_fold_expr e"
| "nnc_can_fold_expr (EXPR_SIZEOF _ _) = Inl Crash"
| "nnc_can_fold_expr (EXPR_DOT _ _ _) = Inr False"
| "nnc_can_fold_expr (EXPR_CALL _ e _) = nnc_can_fold_expr e"
| "nnc_can_fold_expr (EXPR_INDEX _ _ _) = Inr False"
| "nnc_can_fold_expr (EXPR_BINARY k _ l r) =
     (if k = BINARY_ASSIGN then Inr False
      else bind_res (nnc_can_fold_expr l) (\<lambda>b. if b then nnc_can_fold_expr r else Inr False))"
| "nnc_can_fold_expr (EXPR_TERNARY _ c l r) =
     bind_res (nnc_can_fold_expr c) (\<lambda>b. if \<not> b then Inr False
       else bind_res (nnc_can_fold_expr l) (\<lambda>b'. if b' then nnc_can_fold_expr r else Inr False))"

section \<open>Arithmetic on the integers\<close>

text \<open>The reference: integers in the range of \<^verbatim>\<open>nnc_i64\<close>, \<open>None\<close> when C gives no value.\<close>

definition ranged :: "int \<Rightarrow> int option" where
  "ranged i = (if in_i64 i then Some i else None)"

definition wrap_signed :: "nat \<Rightarrow> int \<Rightarrow> int" where
  "wrap_signed w i = (i + 2 ^ (w - 1)) mod 2 ^ w - 2 ^ (w - 1)"

definition ref_binary :: "nnc_binary_kind \<Rightarrow> int \<Rightarrow> int \<Rightarrow> int option" where
  "ref_binary k a b = (case k of
     BINARY_LT \<Rightarrow> Some (of_bool (a < b)) | BINARY_GT \<Rightarrow> Some (of_bool (b < a))
   | BINARY_EQ \<Rightarrow> Some (of_bool (a = b)) | BINARY_NEQ \<Rightarrow> Some (of_bool (a \<noteq> b))
   | BINARY_LTE \<Rightarrow> Some (of_bool (a \<le> b)) | BINARY_GTE \<Rightarrow> Some (of_bool (b \<le> a))
   | BINARY_ADD \<Rightarrow> ranged (a + b) | BINARY_SUB \<Rightarrow> ranged (a - b) | BINARY_MUL \<Rightarrow> ranged (a * b)
   | BINARY_DIV \<Rightarrow> if b = 0 then None else ranged (a sdiv b)
   | BINARY_MOD \<Rightarrow> if b = 0 \<or> \<not> in_i64 (a sdiv b) then None else Some (a smod b)
   | BINARY_SHR \<Rightarrow> if 0 \<le> b \<and> b < 64 then Some (a div 2 ^ nat b) else None
   | BINARY_SHL \<Rightarrow> if 0 \<le> b \<and> b < 64 \<and> 0 \<le> a then ranged (a * 2 ^ nat b) else None
   | BINARY_BW_OR \<Rightarrow> Some (a OR b) | BINARY_BW_AND \<Rightarrow> Some (a AND b) | BINARY_BW_XOR \<Rightarrow> Some (a XOR b)
   | _ \<Rightarrow> None)"

definition ref_cast :: "nnc_type_kind \<Rightarrow> int \<Rightarrow> int" where
  "ref_cast k i = (case k of
     T_PRIMITIVE_I8 \<Rightarrow> wrap_signed 8 i | T_PRIMITIVE_I16 \<Rightarrow> wrap_signed 16 i | T_PRIMITIVE_I32 \<Rightarrow> wrap_signed 32 i
   | T_PRIMITIVE_U8 \<Rightarrow> i mod 2 ^ 8 | T_PRIMITIVE_U16 \<Rightarrow> i mod 2 ^ 16 | T_PRIMITIVE_U32 \<Rightarrow> i mod 2 ^ 32
   | _ \<Rightarrow> i)"

text \<open>An enumerator has the value of the innermost visible declaration of its name.\<close>

definition ref_const :: "st_heap \<Rightarrow> nat option \<Rightarrow> nnc_ident \<Rightarrow> int option" where
  "ref_const H st i =
     (if ictx i \<noteq> IDENT_ENUMERATOR then None
      else case st of None \<Rightarrow> map_option (\<lambda>e. sint (init_const e)) (enumerator i)
      | Some s \<Rightarrow> (case first_some (declared (tables H) ST_SYM_IDENT (iname i)) (visible (tables H) s) of None \<Rightarrow> None
          | Some x \<Rightarrow> if x < length (idents H) \<and> ictx (idents H ! x) = IDENT_ENUMERATOR
                       then map_option (\<lambda>e. sint (init_const e)) (enumerator (idents H ! x)) else None))"

fun ref_value :: "(u64 \<Rightarrow> int) \<Rightarrow> st_heap \<Rightarrow> nat option \<Rightarrow> nnc_expression \<Rightarrow> int option" where
  "ref_value d2i H st (EXPR_IDENT i) = ref_const H st i"
| "ref_value d2i H st (EXPR_INT_LITERAL v _) = Some (sint v)"
| "ref_value d2i H st (EXPR_CHR_LITERAL c _) = Some (sint c)"
| "ref_value d2i H st (EXPR_DBL_LITERAL v _) = Some (d2i v)"
| "ref_value d2i H st (EXPR_UNARY k _ e) = (case k of
     UNARY_NOT \<Rightarrow> map_option (\<lambda>v. of_bool (v = 0)) (ref_value d2i H st e)
   | UNARY_PLUS \<Rightarrow> ref_value d2i H st e
   | UNARY_MINUS \<Rightarrow> Option.bind (ref_value d2i H st e) (\<lambda>v. ranged (- v))
   | UNARY_BITWISE_NOT \<Rightarrow> map_option (\<lambda>v. - v - 1) (ref_value d2i H st e)
   | UNARY_LENGTHOF \<Rightarrow> map_option sint (Option.bind (nnc_expr_get_type (htypes H) e) (nnc_sizeof (htypes H)))
   | _ \<Rightarrow> None)"
| "ref_value d2i H st (EXPR_CAST _ _ e to_t) =
     Option.bind (kind_of (htypes H) to_t) (\<lambda>k.
       if k \<in> set cast_kinds then map_option (ref_cast k) (ref_value d2i H st e)
       else if k \<in> set real_kinds then None else Some 0)"
| "ref_value d2i H st (EXPR_SIZEOF _ of_t) = map_option sint (nnc_sizeof (htypes H) of_t)"
| "ref_value d2i H st (EXPR_BINARY k _ l r) =
     (if k = BINARY_OR then
        Option.bind (ref_value d2i H st l) (\<lambda>a. if a \<noteq> 0 then Some 1
          else map_option (\<lambda>b. of_bool (b \<noteq> 0)) (ref_value d2i H st r))
      else if k = BINARY_AND then
        Option.bind (ref_value d2i H st l) (\<lambda>a. if a = 0 then Some 0
          else map_option (\<lambda>b. of_bool (b \<noteq> 0)) (ref_value d2i H st r))
      else if k = BINARY_COMMA then ref_value d2i H st r
      else Option.bind (ref_value d2i H st l) (\<lambda>a. Option.bind (ref_value d2i H st r) (ref_binary k a)))"
| "ref_value d2i H st (EXPR_TERNARY _ c l r) =
     Option.bind (ref_value d2i H st c) (\<lambda>v. if v \<noteq> 0 then ref_value d2i H st l else ref_value d2i H st r)"
| "ref_value d2i H st _ = None"


section \<open>The evaluator computes the reference\<close>

definition obs :: "u64 res \<Rightarrow> int option" where
  "obs r = (case r of Inl _ \<Rightarrow> None | Inr w \<Rightarrow> Some (sint w))"

lemma obs_simps [simp]: "obs (Inr w) = Some (sint w)" "obs (Inl f) = None"
  by (simp_all add: obs_def)

lemma obs_res_of: "obs (res_of x) = map_option sint x"
  by (cases x) (simp_all add: res_of_def)

lemma sint_c_bool: "sint (c_bool b) = of_bool b"
  by (simp add: c_bool_def)

lemma sint_zero_iff: "sint (w :: u64) = 0 \<longleftrightarrow> w = 0"
  by (metis sint_0 signed_word_eqI)

lemma sint_range: "in_i64 (sint (w :: u64))"
  using sint_ge [of w] sint_lt [of w] by (simp add: in_i64_def)

lemma sint_fits: "in_i64 i \<Longrightarrow> sint (word_of_int i :: u64) = i"
  by (simp add: in_i64_def signed_of_int signed_take_bit_int_eq_self)

lemma guarded_ranged: "(in_i64 i \<Longrightarrow> sint w = i) \<Longrightarrow> obs (guarded i w) = ranged i"
  by (simp add: guarded_def ranged_def)

lemma take_fits: "in_i64 i \<Longrightarrow> signed_take_bit 63 i = i"
  by (simp add: in_i64_def signed_take_bit_int_eq_self)

lemma arith_fits:
  fixes a b :: u64
  shows "in_i64 (sint a + sint b) \<Longrightarrow> sint (a + b) = sint a + sint b"
    "in_i64 (sint a - sint b) \<Longrightarrow> sint (a - b) = sint a - sint b"
    "in_i64 (sint a * sint b) \<Longrightarrow> sint (a * b) = sint a * sint b"
    "in_i64 (- sint a) \<Longrightarrow> sint (- a) = - sint a"
  by (simp_all add: sint_word_ariths take_fits)

lemma sint_bits:
  fixes a b :: u64
  shows "sint (a AND b) = sint a AND sint b" "sint (a OR b) = sint a OR sint b" "sint (a XOR b) = sint a XOR sint b"
    "sint (NOT a) = - sint a - 1"
  using sint_range [of a]
  by (simp_all add: signed_and_eq signed_or_eq signed_xor_eq signed_not_eq not_int_def in_i64_def signed_take_bit_int_eq_self)

lemma sint_cases: "sint (w :: u64) = (if uint w < 2 ^ 63 then uint w else uint w - 2 ^ 64)"
proof -
  have "uint w < 2 ^ 64" using uint_lt2p [of w] by simp
  moreover have "0 \<le> uint w" by simp
  moreover have "(uint w + 9223372036854775808) mod 18446744073709551616 = uint w - 9223372036854775808"
    if "\<not> uint w < 9223372036854775808"
    using that calculation mod_add_self2 [of "uint w - 9223372036854775808" 18446744073709551616] by (simp add: add.commute)
  ultimately show ?thesis unfolding sint_uint by (simp add: signed_take_bit_eq_take_bit_shift take_bit_int_def)
qed

lemma small_shift:
  fixes b :: u64
  shows "64 \<le> b \<longleftrightarrow> \<not> (0 \<le> sint b \<and> sint b < 64)" "\<not> 64 \<le> b \<Longrightarrow> nat (sint b) = unat b"
  using uint_lt2p [of b] by (auto simp: word_le_def sint_cases)

lemma shift_fits:
  fixes a :: u64
  assumes "in_i64 (sint a * 2 ^ n)"
  shows "sint (push_bit n a) = sint a * 2 ^ n"
proof -
  have "push_bit n a = word_of_int (sint a * 2 ^ n)"
    by (simp add: push_bit_eq_mult)
  then show ?thesis using sint_fits [OF assms] by simp
qed

lemma smod_fits:
  fixes a b :: u64
  assumes "b \<noteq> 0"
  shows "in_i64 (sint a smod sint b)"
proof -
  have "\<bar>sint a smod sint b\<bar> \<le> \<bar>sint a\<bar>"
    using zmod_le_nonneg_dividend [of "\<bar>sint a\<bar>" "\<bar>sint b\<bar>"] assms
    by (simp add: signed_modulo_int_def abs_mult sint_zero_iff)
  moreover have "\<bar>sint a smod sint b\<bar> < \<bar>sint b\<bar>"
    using assms by (simp add: signed_modulo_int_def abs_mult sint_zero_iff)
  ultimately show ?thesis using sint_range [of a] sint_range [of b] unfolding in_i64_def by linarith
qed

lemma i64_binary_ref: "obs (i64_binary k a b) = ref_binary k (sint a) (sint b)"
  using arith_fits(1-3) [of a b] small_shift [of b] shift_fits [of a "unat b"] smod_fits [of b]
  by (cases k)
    (auto simp: i64_binary_def ref_binary_def sint_c_bool word_sless_alt word_sle_eq signed_word_eqI sint_zero_iff
      sint_bits sint_signed_drop_bit_eq drop_bit_eq_div sint_fits intro!: guarded_ranged)

lemma signed_take_sint:
  "sint (ucast (v :: u64) :: u8) = signed_take_bit 7 (sint v)" "sint (ucast v :: u16) = signed_take_bit 15 (sint v)"
  "sint (ucast v :: u32) = signed_take_bit 31 (sint v)"
  by (simp_all only: signed_ucast_eq uint_sint [of v] signed_take_bit_take_bit) simp_all

lemma take_sint:
  "uint (ucast (v :: u64) :: u8) = take_bit 8 (sint v)" "uint (ucast v :: u16) = take_bit 16 (sint v)"
  "uint (ucast v :: u32) = take_bit 32 (sint v)"
  by (simp_all only: unsigned_ucast_eq uint_sint [of v] take_bit_take_bit) simp_all

lemma sint_up:
  "sint (scast (x :: u8) :: u64) = sint x" "sint (scast (y :: u16) :: u64) = sint y" "sint (scast (z :: u32) :: u64) = sint z"
  by (simp_all add: sint_up_scast is_up)

lemma sint_uint_up:
  "sint (ucast (x :: u8) :: u64) = uint x" "sint (ucast (y :: u16) :: u64) = uint y" "sint (ucast (z :: u32) :: u64) = uint z"
  using uint_lt2p [of x] uint_lt2p [of y] uint_lt2p [of z]
  by (simp_all add: signed_ucast_eq signed_take_bit_int_eq_self order_trans [OF _ uint_ge_0])

lemma cast_wraps:
  "sint (scast (ucast (v :: u64) :: u8) :: u64) = wrap_signed 8 (sint v)"
  "sint (scast (ucast v :: u16) :: u64) = wrap_signed 16 (sint v)"
  "sint (scast (ucast v :: u32) :: u64) = wrap_signed 32 (sint v)"
  "sint (ucast (ucast v :: u8) :: u64) = sint v mod 2 ^ 8"
  "sint (ucast (ucast v :: u16) :: u64) = sint v mod 2 ^ 16"
  "sint (ucast (ucast v :: u32) :: u64) = sint v mod 2 ^ 32"
  unfolding sint_up sint_uint_up signed_take_sint take_sint
  by (simp_all add: wrap_signed_def signed_take_bit_eq_take_bit_shift take_bit_int_def)

lemma i64_cast_ref: "k \<in> set cast_kinds \<Longrightarrow> obs (i64_cast k v) = Some (ref_cast k (sint v))"
  by (cases k) (simp_all add: cast_kinds_def i64_cast_def ref_cast_def cast_wraps [simplified])

lemma evald_ident_ref:
  assumes "st_wf (tables H)" "\<And>s. st = Some s \<Longrightarrow> s < length (tables H)"
  shows "obs (nnc_evald_ident H st i) = ref_const H st i"
proof (cases st)
  case None
  then show ?thesis by (cases "enumerator i") (simp_all add: nnc_evald_ident_def ref_const_def res_of_def assert_res_def)
next
  case (Some s)
  then have l: "nnc_st_get H st (iname i) ST_SYM_IDENT =
      Inr (first_some (declared (tables H) ST_SYM_IDENT (iname i)) (visible (tables H) s))"
    using nnc_st_get_visible(1) [OF assms(1), of s] assms(2) by simp
  show ?thesis
  proof (cases "first_some (declared (tables H) ST_SYM_IDENT (iname i)) (visible (tables H) s)")
    case None
    then show ?thesis using l Some by (simp add: nnc_evald_ident_def ref_const_def assert_res_def)
  next
    case (Some x)
    then show ?thesis using l \<open>st = Some s\<close>
      by (cases "enumerator (idents H ! x)") (simp_all add: nnc_evald_ident_def ref_const_def res_of_def assert_res_def)
  qed
qed

lemma obs_cases: obtains f where "r = Inl f" "obs r = None" | w where "r = Inr w" "obs r = Some (sint w)"
  by (cases r) simp_all

lemma i64_binary_abort: "k = BINARY_ASSIGN \<Longrightarrow> ref_binary k a b = None"
  by (simp add: ref_binary_def)



text \<open>
  Three places where the evaluator leaves the types out of account: unsigned constants are compared
  as signed ones, a cast to an enumeration is zero whatever its operand, and the test for constants
  dereferences the missing operand of \<^verbatim>\<open>sizeof\<close>.
\<close>

lemma unsigned_compared_signed:
  "nnc_evald d2i H st (EXPR_BINARY BINARY_GT i8_type (EXPR_INT_LITERAL (- 1) u64_type) (EXPR_INT_LITERAL 1 u64_type)) = Inr 0"
  by (simp add: i64_binary_def c_bool_def word_sless_alt)

lemma cast_to_enum_is_zero:
  "kind_of (htypes H) t = Some T_ENUM \<Longrightarrow> nnc_evald d2i H st (EXPR_CAST UNARY_POSTFIX_AS t e t) = Inr 0"
  by (simp add: res_of_def cast_kinds_def real_kinds_def)

lemma sizeof_not_foldable: "nnc_can_fold_expr (EXPR_SIZEOF t t') = Inl Crash"
  by simp


end
