(* ===== verification/Nnc_3A.thy ===== *)
theory Nnc_3A
  imports Nnc_AST Nnc_Opt Nnc_CFG Nnc_LR
begin

text \<open>
  Translation of the syntax tree into quads, \<^verbatim>\<open>src/src/nnc_3a.c\<close>. The static variables of the
  file (the quads of the procedure, the counters of temporaries and labels, the labels of
  the innermost loop) and the store of types, into which pointer types are allocated, are the
  state; every function of the file returns the next state or a fault. The
  field \<^verbatim>\<open>hint\<close>, a pointer to a node of the tree, is 1 where it is set. The address of a string constant
  is left 0, which is the number of no temporary.
\<close>

section \<open>State\<close>

record gen3 =
  quads :: "nnc_quad list"
  cgt_cnt :: u64
  label_cnt :: u32
  b_loop_out :: u32
  b_loop_iter_ends :: u32
  gtypes :: types

definition opt_res :: "'a option \<Rightarrow> 'a res" where
  "opt_res x = (case x of None \<Rightarrow> Inl Crash | Some y \<Rightarrow> Inr y)"

definition un_op_map :: "nnc_unary_kind \<Rightarrow> nnc_3a_op_kind" where
  "un_op_map k = (case k of UNARY_PLUS \<Rightarrow> OP_PLUS | UNARY_MINUS \<Rightarrow> OP_MINUS | UNARY_BITWISE_NOT \<Rightarrow> OP_BW_NOT | _ \<Rightarrow> OP_NONE)"

definition bin_op_map :: "nnc_binary_kind \<Rightarrow> nnc_3a_op_kind" where
  "bin_op_map k = (case k of BINARY_ADD \<Rightarrow> OP_ADD | BINARY_SUB \<Rightarrow> OP_SUB | BINARY_MUL \<Rightarrow> OP_MUL
     | BINARY_DIV \<Rightarrow> OP_DIV | BINARY_MOD \<Rightarrow> OP_MOD | BINARY_SHR \<Rightarrow> OP_SHR | BINARY_SHL \<Rightarrow> OP_SHL
     | BINARY_BW_OR \<Rightarrow> OP_BW_OR | BINARY_BW_AND \<Rightarrow> OP_BW_AND | BINARY_BW_XOR \<Rightarrow> OP_BW_XOR | _ \<Rightarrow> OP_NONE)"

text \<open>A temporary, the one \<^verbatim>\<open>nnc_3a_mkcgt\<close> makes next, and the state behind it.\<close>

definition next_cgt :: "gen3 \<Rightarrow> tref option \<Rightarrow> nnc_3a_addr" where
  "next_cgt g t = cgt_addr (cgt_cnt g + 1) t"

definition nnc_3a_mkcgt :: "gen3 \<Rightarrow> gen3" where
  "nnc_3a_mkcgt g = g\<lparr>cgt_cnt := cgt_cnt g + 1\<rparr>"

definition nnc_3a_mkaddr :: "nnc_3a_addr \<Rightarrow> tref option \<Rightarrow> nnc_3a_addr" where
  "nnc_3a_mkaddr a t = a\<lparr>atype := t\<rparr>"

definition nnc_3a_quads_add :: "nnc_quad \<Rightarrow> gen3 \<Rightarrow> gen3" where
  "nnc_3a_quads_add q g = g\<lparr>quads := quads g @ [q]\<rparr>"

text \<open>A new label; the field of a quad has 26 bits.\<close>

definition next_label :: "gen3 \<Rightarrow> u32" where
  "next_label g = take_bit 26 (label_cnt g + 1)"

definition nnc_3a_mklabel :: "gen3 \<Rightarrow> gen3" where
  "nnc_3a_mklabel g = g\<lparr>label_cnt := label_cnt g + 1\<rparr>"

definition add_label :: "u32 \<Rightarrow> gen3 \<Rightarrow> gen3" where
  "add_label l = nnc_3a_quads_add (label_quad l)"

definition nnc_set_loop_branches :: "u32 \<Rightarrow> u32 \<Rightarrow> gen3 \<Rightarrow> gen3 res" where
  "nnc_set_loop_branches out iter g =
     bind_res (assert_res (out \<noteq> 0)) (\<lambda>_. bind_res (assert_res (iter \<noteq> 0)) (\<lambda>_.
       Inr (g\<lparr>b_loop_out := out, b_loop_iter_ends := iter\<rparr>)))"

definition nnc_restore_loop_branches :: "gen3 \<Rightarrow> gen3 \<Rightarrow> gen3" where
  "nnc_restore_loop_branches saved g = g\<lparr>b_loop_out := b_loop_out saved, b_loop_iter_ends := b_loop_iter_ends saved\<rparr>"

text \<open>The result of the last quad that is not a label.\<close>

fun last_res :: "nnc_quad list \<Rightarrow> nnc_3a_addr res" where
  "last_res [] = Inl Abort"
| "last_res (q # qs) = (if qlabel q = 0 then Inr (qres q) else last_res qs)"

definition nnc_3a_quads_res :: "gen3 \<Rightarrow> nnc_3a_addr res" where
  "nnc_3a_quads_res g = last_res (rev (quads g))"

text \<open>A quad whose result is a new temporary of type \<open>t\<close>.\<close>

definition emit_new :: "nnc_3a_op_kind \<Rightarrow> tref option \<Rightarrow> nnc_3a_addr \<Rightarrow> nnc_3a_addr \<Rightarrow> gen3 \<Rightarrow> gen3" where
  "emit_new o' t a b g = nnc_3a_quads_add (quad3 o' (next_cgt g t) a b) (nnc_3a_mkcgt g)"

abbreviation emit :: "nnc_3a_op_kind \<Rightarrow> nnc_3a_addr \<Rightarrow> nnc_3a_addr \<Rightarrow> nnc_3a_addr \<Rightarrow> gen3 \<Rightarrow> gen3" where
  "emit o' r a b \<equiv> nnc_3a_quads_add (quad3 o' r a b)"

text \<open>A new pointer type.\<close>

definition new_ptr :: "tref \<Rightarrow> gen3 \<Rightarrow> (gen3 \<times> tref) res" where
  "new_ptr t g = bind_res (opt_res (nnc_ptr_type_new (gtypes g) t)) (\<lambda>(ts, p). Inr (g\<lparr>gtypes := ts\<rparr>, p))"

definition type_base :: "types \<Rightarrow> tref option \<Rightarrow> tref option res" where
  "type_base ts t = bind_res (opt_res t) (\<lambda>t. bind_res (opt_res (tget ts t)) (\<lambda>ty. Inr (tbase ty)))"

section \<open>Names and constants\<close>

text \<open>
  The buffer of \<^verbatim>\<open>nnc_mk_nested_name\<close> has room for the namespaces and their separators
  only; the name itself is written behind its end.
\<close>

definition nnc_mk_nested_name :: "nnc_ident \<Rightarrow> string res" where
  "nnc_mk_nested_name i =
     (let pre = concat (map (\<lambda>n. n @ ''_'') (nesting i)); room = length pre in
      if room = 0 then Inr (iname i)
      else if room < length (pre @ iname i) then Inl Crash else Inr (pre @ iname i))"

definition name_addr :: "string \<Rightarrow> nnc_ident \<Rightarrow> nnc_3a_addr" where
  "name_addr n i = \<lparr>akind = ADDR_NAME, atype = Some (itype i), exact = ictx_num (ictx i), aname = n\<rparr>"

abbreviation nnc_3a_mkname1 :: "nnc_ident \<Rightarrow> nnc_3a_addr" where
  "nnc_3a_mkname1 i \<equiv> name_addr (iname i) i"

definition nnc_3a_mks1 :: "string \<Rightarrow> tref \<Rightarrow> nnc_3a_addr" where
  "nnc_3a_mks1 s t = \<lparr>akind = ADDR_SCONST, atype = Some t, exact = 0, aname = s\<rparr>"

definition nnc_fconst_to_3a :: "u64 \<Rightarrow> tref \<Rightarrow> gen3 \<Rightarrow> gen3" where
  "nnc_fconst_to_3a v t = emit_new OP_COPY (Some t) (nnc_3a_mkf2 v (Some t)) no_addr"

definition nnc_sconst_hint :: "string \<Rightarrow> tref \<Rightarrow> gen3 \<Rightarrow> gen3" where
  "nnc_sconst_hint s t = nnc_3a_quads_add ((quad3 OP_HINT_DECL_STRING (nnc_3a_mks1 s t) no_addr no_addr)\<lparr>hint := 1\<rparr>)"

definition nnc_sconst_to_3a :: "string \<Rightarrow> tref \<Rightarrow> gen3 \<Rightarrow> gen3" where
  "nnc_sconst_to_3a s t g = emit_new OP_COPY (Some t) (nnc_3a_mks1 s t) no_addr (nnc_sconst_hint s t g)"

definition nnc_cconst_to_3a :: "u8 \<Rightarrow> tref \<Rightarrow> gen3 \<Rightarrow> gen3" where
  "nnc_cconst_to_3a c t = emit_new OP_COPY (Some t) (nnc_3a_mki2 (scast c) (Some u8_type)) no_addr"

definition nnc_iconst_to_3a :: "u64 \<Rightarrow> tref \<Rightarrow> gen3 \<Rightarrow> gen3" where
  "nnc_iconst_to_3a v t = emit_new OP_COPY (Some t) (nnc_3a_mki2 v (Some t)) no_addr"

definition nnc_ident_to_3a :: "nnc_ident \<Rightarrow> gen3 \<Rightarrow> gen3 res" where
  "nnc_ident_to_3a i g =
     bind_res (nnc_mk_nested_name i) (\<lambda>n.
     bind_res (if ictx i = IDENT_ENUMERATOR then
                 bind_res (opt_res (enumerator i)) (\<lambda>e.
                 bind_res (opt_res (nnc_incomplete_type (gtypes g) (evar_type e))) (\<lambda>inc.
                 bind_res (assert_res (\<not> inc)) (\<lambda>_. Inr (nnc_3a_mki2 (init_const e) (Some (evar_type e))))))
               else Inr (name_addr n i)) (\<lambda>a.
       Inr (emit_new OP_COPY (atype a) a no_addr g)))"

definition nnc_lval_ident_to_3a :: "nnc_ident \<Rightarrow> gen3 \<Rightarrow> gen3 res" where
  "nnc_lval_ident_to_3a i g =
     bind_res (nnc_mk_nested_name i) (\<lambda>n.
     bind_res (new_ptr (itype i) g) (\<lambda>(g, p). Inr (emit_new OP_REF (Some p) (name_addr n i) no_addr g)))"

section \<open>Members\<close>

text \<open>The offset of a member: the sizes of the members before it, as long as the type is no union.\<close>

fun member_offset :: "types \<Rightarrow> string \<Rightarrow> (string \<times> tref) list \<Rightarrow> u64 \<Rightarrow> u64 res" where
  "member_offset ts x [] n = Inr n"
| "member_offset ts x (m # ms) n =
     (if fst m = x then Inr n
      else bind_res (opt_res (nnc_sizeof ts (snd m))) (\<lambda>k. member_offset ts x ms (n + k)))"

text \<open>What \<^verbatim>\<open>nnc_lval_dot_to_3a\<close> does once the address of the object is computed.\<close>

definition dot_address :: "tref \<Rightarrow> nnc_ident \<Rightarrow> gen3 \<Rightarrow> gen3 res" where
  "dot_address t_expr member g =
     bind_res (opt_res (nnc_ptr_type (gtypes g) t_expr)) (\<lambda>ptr.
     bind_res (if ptr then
         bind_res (type_base (gtypes g) (Some t_expr)) (\<lambda>b.
         bind_res (opt_res b) (\<lambda>b.
         bind_res (opt_res (nnc_struct_or_union_type (gtypes g) b)) (\<lambda>su.
         bind_res (assert_res su) (\<lambda>_.
         bind_res (nnc_3a_quads_res g) (\<lambda>addr.
         bind_res (type_base (gtypes g) (atype addr)) (\<lambda>ab.
         bind_res (opt_res (nnc_unalias (gtypes g) b)) (\<lambda>u.
           Inr (u, emit_new OP_DEREF ab addr no_addr g))))))))
       else Inr (t_expr, g)) (\<lambda>(t, g).
     bind_res (opt_res (tget (gtypes g) t)) (\<lambda>ty.
     bind_res (if tkind ty = T_UNION then Inr 0 else member_offset (gtypes g) (iname member) (members ty) 0) (\<lambda>off.
     bind_res (nnc_3a_quads_res g) (\<lambda>addr.
       let g = emit_new OP_COPY (Some u32_type) (nnc_3a_mki3 off) no_addr g in
       bind_res (new_ptr (itype member) g) (\<lambda>(g, p).
       bind_res (nnc_3a_quads_res g) (\<lambda>o'.
         Inr (emit OP_ADD (nnc_3a_mkaddr addr (Some p)) addr o' g))))))))"

section \<open>Operators that need no translation of their own\<close>

text \<open>A jump to \<open>l\<close>.\<close>

definition jump_quad :: "nnc_3a_op_kind \<Rightarrow> u32 \<Rightarrow> nnc_3a_addr \<Rightarrow> nnc_3a_addr \<Rightarrow> nnc_quad" where
  "jump_quad o' l a b = quad3 o' (nnc_3a_mki3 (ucast l)) a b"

text \<open>
  The end of every expression with a truth value: the value of falling through, a jump over the other
  one, and both labels. \<open>r\<close> is the temporary of the result.
\<close>

definition truth_tail :: "u32 \<Rightarrow> u32 \<Rightarrow> nnc_3a_addr \<Rightarrow> u64 \<Rightarrow> u64 \<Rightarrow> gen3 \<Rightarrow> gen3" where
  "truth_tail b_true b_next r v w g =
     add_label b_next (nnc_3a_quads_add (quad2 OP_COPY r (nnc_3a_mki3 w)) (add_label b_true
       (nnc_3a_quads_add (jump_quad OP_UJUMP b_next no_addr no_addr) (nnc_3a_quads_add (quad2 OP_COPY r (nnc_3a_mki3 v)) g))))"

definition rel_op :: "nnc_binary_kind \<Rightarrow> nnc_3a_op_kind option" where
  "rel_op k = (case k of BINARY_EQ \<Rightarrow> Some OP_CJUMPE | BINARY_LT \<Rightarrow> Some OP_CJUMPLT | BINARY_GT \<Rightarrow> Some OP_CJUMPGT
     | BINARY_LTE \<Rightarrow> Some OP_CJUMPLTE | BINARY_GTE \<Rightarrow> Some OP_CJUMPGTE | BINARY_NEQ \<Rightarrow> Some OP_CJUMPNE | _ \<Rightarrow> None)"

text \<open>The end of an addition or subtraction, with pointer arithmetic.\<close>

definition nnc_add_or_sub_tail :: "nnc_binary_kind \<Rightarrow> tref \<Rightarrow> nnc_3a_addr \<Rightarrow> nnc_3a_addr \<Rightarrow> gen3 \<Rightarrow> gen3 res" where
  "nnc_add_or_sub_tail k t a1 a2 g =
     bind_res (opt_res (Option.bind (atype a1) (nnc_arr_or_ptr_type (gtypes g)))) (\<lambda>p1.
     bind_res (if p1 then bind_res (opt_res (Option.bind (atype a2) (nnc_arr_or_ptr_type (gtypes g)))) (\<lambda>p2. Inr (\<not> p2))
               else Inr False) (\<lambda>scale.
     bind_res (if scale then
         bind_res (type_base (gtypes g) (atype a1)) (\<lambda>b. bind_res (opt_res b) (\<lambda>b.
         bind_res (opt_res (nnc_sizeof (gtypes g) b)) (\<lambda>n.
           Inr (emit OP_MUL (nnc_3a_mkaddr a2 (Some i64_type)) a2 (nnc_3a_mki3 n) g))))
       else Inr g) (\<lambda>g.
       Inr (emit (bin_op_map k) (nnc_3a_mkaddr a1 (Some t)) a1 a2 g))))"

text \<open>The two quads of an assignment.\<close>

definition assign_tail :: "tref \<Rightarrow> nnc_3a_addr \<Rightarrow> nnc_3a_addr \<Rightarrow> gen3 \<Rightarrow> gen3 res" where
  "assign_tail t addr copy g =
     bind_res (opt_res (Option.bind (atype addr) (nnc_arr_or_ptr_type (gtypes g)))) (\<lambda>p.
     bind_res (assert_res p) (\<lambda>_.
     bind_res (type_base (gtypes g) (atype addr)) (\<lambda>b.
       let copy = nnc_3a_mkaddr copy b in
       Inr (emit_new OP_COPY (Some t) copy no_addr (emit OP_DEREF_COPY (nnc_3a_mkaddr addr b) copy no_addr g)))))"

text \<open>The call itself; a call with a result also completes the hint before its arguments.\<close>

definition call_tail :: "tref \<Rightarrow> nat \<Rightarrow> nat \<Rightarrow> nnc_3a_addr \<Rightarrow> gen3 \<Rightarrow> gen3 res" where
  "call_tail t idx argc f g =
     bind_res (opt_res (tget (gtypes g) t)) (\<lambda>ty.
       if tkind ty \<noteq> T_VOID then
         (let r = next_cgt g (Some t) in
          Inr (nnc_3a_quads_add (quad3 OP_FCALL r f (nnc_3a_mki3 (of_nat argc)))
            ((nnc_3a_mkcgt g)\<lparr>quads := (quads g)[idx := (quads g ! idx)\<lparr>qres := r\<rparr>]\<rparr>)))
       else Inr (emit OP_PCALL no_addr f (nnc_3a_mki3 (of_nat argc)) g))"

definition hint_quad :: "nnc_3a_op_kind \<Rightarrow> nnc_quad" where
  "hint_quad o' = no_quad\<lparr>qop := o', hint := 1\<rparr>"


section \<open>Expressions\<close>

text \<open>
  The sizes of the types along a chain of index expressions, from the outermost inwards. (The loop of
  \<^verbatim>\<open>nnc_lval_index_to_3a\<close> tests the kind of a unary expression without testing first that
  the node is one; at that offset the other nodes have a pointer, which is no small number.)
\<close>

fun index_sizes :: "types \<Rightarrow> nnc_expression \<Rightarrow> u32 list res" where
  "index_sizes ts (EXPR_INDEX t b i) =
     bind_res (opt_res (nnc_sizeof ts t)) (\<lambda>n. bind_res (index_sizes ts b) (\<lambda>ns. Inr (ucast n # ns)))"
| "index_sizes ts _ = Inr []"

text \<open>
  The mutually recursive functions: expressions and their operators, addresses of expressions, one index of a chain
  (\<open>prev\<close> is the sum of the indices to its right, \<open>ns\<close> the sizes not yet used), the arguments of a call.
\<close>

function (sequential)
  nnc_expr_to_3a :: "nnc_expression \<Rightarrow> gen3 \<Rightarrow> gen3 res" and
  nnc_unary_to_3a :: "nnc_unary_kind \<Rightarrow> tref \<Rightarrow> nnc_expression \<Rightarrow> gen3 \<Rightarrow> gen3 res" and
  nnc_not_to_3a :: "nnc_expression \<Rightarrow> gen3 \<Rightarrow> gen3 res" and
  nnc_binary_to_3a :: "nnc_binary_kind \<Rightarrow> tref \<Rightarrow> nnc_expression \<Rightarrow> nnc_expression \<Rightarrow> gen3 \<Rightarrow> gen3 res" and
  nnc_or_to_3a :: "nnc_expression \<Rightarrow> nnc_expression \<Rightarrow> gen3 \<Rightarrow> gen3 res" and
  nnc_and_to_3a :: "nnc_expression \<Rightarrow> nnc_expression \<Rightarrow> gen3 \<Rightarrow> gen3 res" and
  nnc_binary_rel_to_3a :: "nnc_3a_op_kind \<Rightarrow> tref \<Rightarrow> nnc_expression \<Rightarrow> nnc_expression \<Rightarrow> gen3 \<Rightarrow> gen3 res" and
  nnc_add_or_sub_to_3a :: "nnc_binary_kind \<Rightarrow> tref \<Rightarrow> nnc_expression \<Rightarrow> nnc_expression \<Rightarrow> gen3 \<Rightarrow> gen3 res" and
  nnc_comma_to_3a :: "nnc_expression \<Rightarrow> nnc_expression \<Rightarrow> gen3 \<Rightarrow> gen3 res" and
  nnc_assign_to_3a :: "tref \<Rightarrow> nnc_expression \<Rightarrow> nnc_expression \<Rightarrow> gen3 \<Rightarrow> gen3 res" and
  nnc_ternary_to_3a :: "tref \<Rightarrow> nnc_expression \<Rightarrow> nnc_expression \<Rightarrow> nnc_expression \<Rightarrow> gen3 \<Rightarrow> gen3 res" and
  nnc_lval_expr_to_3a :: "nnc_expression \<Rightarrow> gen3 \<Rightarrow> gen3 res" and
  nnc_lval_index_to_3a_ex :: "nnc_expression \<Rightarrow> nnc_expression \<Rightarrow> bool \<Rightarrow> u32 list \<Rightarrow> gen3 \<Rightarrow> gen3 res" and
  nnc_call_to_3a :: "tref \<Rightarrow> nnc_expression \<Rightarrow> nnc_expression list \<Rightarrow> gen3 \<Rightarrow> gen3 res" and
  call_args_to_3a :: "nnc_expression list \<Rightarrow> gen3 \<Rightarrow> gen3 res"
where
  "nnc_expr_to_3a (EXPR_IDENT i) g = nnc_ident_to_3a i g"
| "nnc_expr_to_3a (EXPR_DBL_LITERAL v t) g = Inr (nnc_fconst_to_3a v t g)"
| "nnc_expr_to_3a (EXPR_INT_LITERAL v t) g = Inr (nnc_iconst_to_3a v t g)"
| "nnc_expr_to_3a (EXPR_CHR_LITERAL c t) g = Inr (nnc_cconst_to_3a c t g)"
| "nnc_expr_to_3a (EXPR_STR_LITERAL s t) g = Inr (nnc_sconst_to_3a s t g)"
| "nnc_expr_to_3a (EXPR_UNARY k t e) g = nnc_unary_to_3a k t e g"
| "nnc_expr_to_3a (EXPR_CAST k t e to_t) g =
     bind_res (nnc_expr_to_3a e g) (\<lambda>g.
     bind_res (nnc_3a_quads_res g) (\<lambda>a. Inr (emit_new OP_CAST (Some t) a no_addr g)))"
| "nnc_expr_to_3a (EXPR_SIZEOF t of_t) g =
     bind_res (opt_res (nnc_unalias (gtypes g) of_t)) (\<lambda>u.
     bind_res (opt_res (nnc_sizeof (gtypes g) u)) (\<lambda>n.
       Inr (emit_new OP_COPY (Some t) (nnc_3a_mki2 n (Some t)) no_addr g)))"
| "nnc_expr_to_3a (EXPR_DOT t e m) g =
     bind_res (nnc_lval_expr_to_3a (EXPR_DOT t e m) g) (\<lambda>g.
     bind_res (nnc_3a_quads_res g) (\<lambda>a. Inr (emit_new OP_DEREF (Some (itype m)) a no_addr g)))"
| "nnc_expr_to_3a (EXPR_CALL t f args) g = nnc_call_to_3a t f args g"
| "nnc_expr_to_3a (EXPR_INDEX t b i) g =
     bind_res (nnc_lval_expr_to_3a (EXPR_INDEX t b i) g) (\<lambda>g.
     bind_res (nnc_3a_quads_res g) (\<lambda>a. bind_res (type_base (gtypes g) (atype a)) (\<lambda>bt.
       Inr (emit_new OP_DEREF bt a no_addr g))))"
| "nnc_expr_to_3a (EXPR_BINARY k t l r) g = nnc_binary_to_3a k t l r g"
| "nnc_expr_to_3a (EXPR_TERNARY t c l r) g = nnc_ternary_to_3a t c l r g"

| "nnc_unary_to_3a UNARY_REF t e g = (case e of
     EXPR_IDENT i \<Rightarrow> Inr (emit_new OP_REF (Some t) (nnc_3a_mkname1 i) no_addr g)
   | _ \<Rightarrow> nnc_lval_expr_to_3a e g)"
| "nnc_unary_to_3a UNARY_NOT t e g = nnc_not_to_3a e g"
| "nnc_unary_to_3a UNARY_DEREF t e g =
     bind_res (nnc_lval_expr_to_3a (EXPR_UNARY UNARY_DEREF t e) g) (\<lambda>g.
     bind_res (nnc_3a_quads_res g) (\<lambda>a. Inr (emit_new OP_DEREF (Some t) a no_addr g)))"
| "nnc_unary_to_3a UNARY_LENGTHOF t e g =
     bind_res (opt_res (nnc_expr_get_type (gtypes g) e)) (\<lambda>te.
     bind_res (opt_res (nnc_sizeof (gtypes g) te)) (\<lambda>n.
       Inr (emit_new OP_COPY (Some t) (nnc_3a_mki2 n (Some t)) no_addr g)))"
| "nnc_unary_to_3a k t e g =
     bind_res (nnc_expr_to_3a e g) (\<lambda>g.
     bind_res (nnc_3a_quads_res g) (\<lambda>a. Inr (emit (un_op_map k) (nnc_3a_mkaddr a (Some t)) a no_addr g)))"

| "nnc_not_to_3a e g =
     (let b_true = next_label g; g = nnc_3a_mklabel g; b_next = next_label g; g = nnc_3a_mklabel g in
      bind_res (nnc_expr_to_3a e g) (\<lambda>g.
        let r = next_cgt g (Some i8_type); g = nnc_3a_mkcgt g in
        bind_res (nnc_3a_quads_res g) (\<lambda>cond.
          Inr (truth_tail b_true b_next r 0 1 (nnc_3a_quads_add (jump_quad OP_CJUMPE b_true cond (nnc_3a_mki3 0)) g)))))"

| "nnc_binary_to_3a BINARY_OR t l r g = nnc_or_to_3a l r g"
| "nnc_binary_to_3a BINARY_AND t l r g = nnc_and_to_3a l r g"
| "nnc_binary_to_3a BINARY_COMMA t l r g = nnc_comma_to_3a l r g"
| "nnc_binary_to_3a BINARY_ASSIGN t l r g = nnc_assign_to_3a t l r g"
| "nnc_binary_to_3a BINARY_ADD t l r g = nnc_add_or_sub_to_3a BINARY_ADD t l r g"
| "nnc_binary_to_3a BINARY_SUB t l r g = nnc_add_or_sub_to_3a BINARY_SUB t l r g"
| "nnc_binary_to_3a k t l r g =
     (case rel_op k of
       Some o' \<Rightarrow> nnc_binary_rel_to_3a o' t l r g
     | None \<Rightarrow>
         bind_res (nnc_expr_to_3a l g) (\<lambda>g. bind_res (nnc_3a_quads_res g) (\<lambda>a1.
         bind_res (nnc_expr_to_3a r g) (\<lambda>g. bind_res (nnc_3a_quads_res g) (\<lambda>a2.
           Inr (emit (bin_op_map k) (nnc_3a_mkaddr a1 (Some t)) a1 a2 g))))))"

| "nnc_or_to_3a l r g =
     (let b_true = next_label g; g = nnc_3a_mklabel g; b_next = next_label g; g = nnc_3a_mklabel g in
      bind_res (nnc_expr_to_3a l g) (\<lambda>g. bind_res (nnc_3a_quads_res g) (\<lambda>la.
      bind_res (nnc_expr_to_3a r (nnc_3a_quads_add (jump_quad OP_CJUMPT b_true la no_addr) g)) (\<lambda>g.
      bind_res (nnc_3a_quads_res g) (\<lambda>ra.
        let g = nnc_3a_quads_add (jump_quad OP_CJUMPT b_true ra no_addr) g in
        Inr (truth_tail b_true b_next (next_cgt g (Some i8_type)) 0 1 (nnc_3a_mkcgt g)))))))"

| "nnc_and_to_3a l r g =
     (let b_true = next_label g; g = nnc_3a_mklabel g; b_next = next_label g; g = nnc_3a_mklabel g in
      bind_res (nnc_expr_to_3a l g) (\<lambda>g. bind_res (nnc_3a_quads_res g) (\<lambda>la.
      bind_res (nnc_expr_to_3a r (nnc_3a_quads_add (jump_quad OP_CJUMPE b_true la (nnc_3a_mki3 0)) g)) (\<lambda>g.
      bind_res (nnc_3a_quads_res g) (\<lambda>ra.
        let g = nnc_3a_quads_add (jump_quad OP_CJUMPE b_true ra (nnc_3a_mki3 0)) g in
        Inr (truth_tail b_true b_next (next_cgt g (Some i8_type)) 1 0 (nnc_3a_mkcgt g)))))))"

| "nnc_binary_rel_to_3a o' t l r g =
     (let b_true = next_label g; g = nnc_3a_mklabel g; b_next = next_label g; g = nnc_3a_mklabel g in
      bind_res (nnc_expr_to_3a l g) (\<lambda>g. bind_res (nnc_3a_quads_res g) (\<lambda>la.
      bind_res (nnc_expr_to_3a r g) (\<lambda>g. bind_res (nnc_3a_quads_res g) (\<lambda>ra.
        let g = emit o' (nnc_3a_mkaddr (nnc_3a_mki3 (ucast b_true)) (Some t)) la ra g in
        Inr (truth_tail b_true b_next (next_cgt g (Some t)) 0 1 (nnc_3a_mkcgt g)))))))"

| "nnc_add_or_sub_to_3a k t l r g =
     bind_res (nnc_expr_to_3a l g) (\<lambda>g. bind_res (nnc_3a_quads_res g) (\<lambda>a1.
     bind_res (nnc_expr_to_3a r g) (\<lambda>g. bind_res (nnc_3a_quads_res g) (\<lambda>a2.
       nnc_add_or_sub_tail k t a1 a2 g))))"

| "nnc_comma_to_3a l r g =
     bind_res (nnc_expr_to_3a l g) (\<lambda>g. bind_res (nnc_expr_to_3a r g) (\<lambda>g.
     bind_res (nnc_3a_quads_res g) (\<lambda>a. Inr (emit_new OP_COPY (atype a) a no_addr g))))"

| "nnc_assign_to_3a t l r g =
     bind_res (nnc_lval_expr_to_3a l g) (\<lambda>g. bind_res (nnc_3a_quads_res g) (\<lambda>addr.
     bind_res (nnc_expr_to_3a r g) (\<lambda>g. bind_res (nnc_3a_quads_res g) (\<lambda>copy. assign_tail t addr copy g))))"

| "nnc_ternary_to_3a t c l r g =
     (let b_true = next_label g; g = nnc_3a_mklabel g; b_next = next_label g; g = nnc_3a_mklabel g in
      bind_res (nnc_expr_to_3a c g) (\<lambda>g. bind_res (nnc_3a_quads_res g) (\<lambda>cond.
        let g = nnc_3a_quads_add (jump_quad OP_CJUMPT b_true cond no_addr) g;
            res = next_cgt g (Some t); g = nnc_3a_mkcgt g in
        bind_res (nnc_expr_to_3a r g) (\<lambda>g. bind_res (nnc_3a_quads_res g) (\<lambda>ra.
        bind_res (nnc_expr_to_3a l (add_label b_true (nnc_3a_quads_add (jump_quad OP_UJUMP b_next no_addr no_addr)
            (emit OP_COPY res ra no_addr g)))) (\<lambda>g.
        bind_res (nnc_3a_quads_res g) (\<lambda>la.
          Inr (add_label b_next (emit OP_COPY res la no_addr g)))))))))"

| "nnc_lval_expr_to_3a (EXPR_IDENT i) g = nnc_lval_ident_to_3a i g"
| "nnc_lval_expr_to_3a (EXPR_UNARY UNARY_DEREF t e) g =
     bind_res (nnc_expr_to_3a e g) (\<lambda>g.
     bind_res (nnc_3a_quads_res g) (\<lambda>a. Inr (emit_new OP_COPY (atype a) a no_addr g)))"
| "nnc_lval_expr_to_3a (EXPR_DOT t e m) g =
     bind_res (nnc_lval_expr_to_3a e g) (\<lambda>g.
     bind_res (opt_res (nnc_expr_get_type (gtypes g) e)) (\<lambda>te. dot_address te m g))"
| "nnc_lval_expr_to_3a (EXPR_CALL t f args) g = nnc_call_to_3a t f args g"
| "nnc_lval_expr_to_3a (EXPR_INDEX t b i) g =
     bind_res (index_sizes (gtypes g) (EXPR_INDEX t b i)) (\<lambda>ns. nnc_lval_index_to_3a_ex b i True ns g)"
| "nnc_lval_expr_to_3a _ g = Inl Abort"

| "nnc_lval_index_to_3a_ex b i first ns g =
     bind_res (if first then Inr no_addr else nnc_3a_quads_res g) (\<lambda>prev.
     bind_res (nnc_expr_to_3a i g) (\<lambda>g.
     bind_res (nnc_3a_quads_res g) (\<lambda>index.
     bind_res (if ns = [] then Inl Crash else Inr (last ns)) (\<lambda>n.
       let g = emit_new OP_MUL (Some i64_type) index (nnc_3a_mki3 (ucast n)) g in
       bind_res (if first then Inr g
                 else bind_res (nnc_3a_quads_res g) (\<lambda>index. Inr (emit_new OP_ADD (Some i64_type) index prev g))) (\<lambda>g.
         case b of
           EXPR_INDEX _ b' i' \<Rightarrow> nnc_lval_index_to_3a_ex b' i' False (butlast ns) g
         | _ \<Rightarrow>
             bind_res (nnc_3a_quads_res g) (\<lambda>index.
             bind_res (nnc_expr_to_3a b g) (\<lambda>g.
             bind_res (nnc_3a_quads_res g) (\<lambda>address.
               Inr (emit_new OP_ADD (atype address) index address g)))))))))"

| "nnc_call_to_3a t f args g =
     (let idx = length (quads g) in
      bind_res (call_args_to_3a args (nnc_3a_quads_add (hint_quad OP_HINT_DECL_CALL) g)) (\<lambda>g.
      bind_res (nnc_expr_to_3a f g) (\<lambda>g.
      bind_res (nnc_3a_quads_res g) (\<lambda>a. call_tail t idx (length args) a g))))"

| "call_args_to_3a [] g = Inr g"
| "call_args_to_3a (a # args) g =
     bind_res (nnc_expr_to_3a a g) (\<lambda>g.
     bind_res (nnc_3a_quads_res g) (\<lambda>v.
       call_args_to_3a args (emit OP_ARG (nnc_3a_mkaddr no_addr (atype v)) v no_addr g)))"
  by pat_completeness auto

termination
  by (relation "measure (case_sum
      (case_sum
        (case_sum (\<lambda>(e, _). 6 * size e + 2) (case_sum (\<lambda>(_, _, e, _). 6 * size e + 7) (\<lambda>(e, _). 6 * size e + 3)))
        (case_sum (case_sum (\<lambda>(_, _, l, r, _). 6 * (size l + size r) + 7) (\<lambda>(l, r, _). 6 * (size l + size r) + 5))
          (case_sum (\<lambda>(l, r, _). 6 * (size l + size r) + 5) (\<lambda>(_, _, l, r, _). 6 * (size l + size r) + 5))))
      (case_sum
        (case_sum (case_sum (\<lambda>(_, _, l, r, _). 6 * (size l + size r) + 5) (\<lambda>(l, r, _). 6 * (size l + size r) + 5))
          (case_sum (\<lambda>(_, l, r, _). 6 * (size l + size r) + 5) (\<lambda>(_, c, l, r, _). 6 * (size c + size l + size r) + 5)))
        (case_sum (case_sum (\<lambda>(e, _). 6 * size e) (\<lambda>(b, i, _). 6 * (size b + size i) + 5))
          (case_sum (\<lambda>(_, f, as, _). 6 * (size f + size_list size as) + 5) (\<lambda>(as, _). 6 * size_list size as + 1)))))") auto


section \<open>Statements\<close>

definition nnc_let_stmt_hint :: "nnc_ident \<Rightarrow> gen3 \<Rightarrow> gen3" where
  "nnc_let_stmt_hint x = emit OP_HINT_DECL_LOCAL (nnc_3a_mkname1 x) no_addr no_addr"

definition nnc_let_stmt_to_3a :: "nnc_ident \<Rightarrow> nnc_expression option \<Rightarrow> scope_ctx \<Rightarrow> gen3 \<Rightarrow> gen3 res" where
  "nnc_let_stmt_to_3a x init sc g =
     (if sc = ST_GLOBAL \<or> sc = ST_NAMESPACE then Inr g
      else let g = nnc_let_stmt_hint x g in
        case init of None \<Rightarrow> Inr g
        | Some e \<Rightarrow> bind_res (nnc_expr_to_3a e g) (\<lambda>g.
            bind_res (nnc_3a_quads_res g) (\<lambda>v. Inr (emit OP_COPY (nnc_3a_mkname1 x) v no_addr g))))"

definition nnc_return_stmt_to_3a :: "nnc_expression option \<Rightarrow> gen3 \<Rightarrow> gen3 res" where
  "nnc_return_stmt_to_3a body g =
     (case body of None \<Rightarrow> Inr (emit OP_RETP no_addr no_addr no_addr g)
      | Some e \<Rightarrow> bind_res (nnc_expr_to_3a e g) (\<lambda>g.
          bind_res (nnc_3a_quads_res g) (\<lambda>v. Inr (emit OP_RETF (nnc_3a_mkaddr no_addr (atype v)) v no_addr g))))"

definition nnc_break_stmt_to_3a :: "gen3 \<Rightarrow> gen3 res" where
  "nnc_break_stmt_to_3a g = bind_res (assert_res (b_loop_out g \<noteq> 0)) (\<lambda>_.
     Inr (nnc_3a_quads_add (jump_quad OP_UJUMP (b_loop_out g) no_addr no_addr) g))"

definition nnc_continue_stmt_to_3a :: "gen3 \<Rightarrow> gen3 res" where
  "nnc_continue_stmt_to_3a g = bind_res (assert_res (b_loop_iter_ends g \<noteq> 0)) (\<lambda>_.
     Inr (nnc_3a_quads_add (jump_quad OP_UJUMP (b_loop_iter_ends g) no_addr no_addr) g))"

text \<open>The test in front of a body, and the jump behind the body of an \<^verbatim>\<open>if\<close> that has an \<^verbatim>\<open>else\<close>.\<close>

definition test_quad :: "u32 \<Rightarrow> gen3 \<Rightarrow> gen3 res" where
  "test_quad l g = bind_res (nnc_3a_quads_res g) (\<lambda>c. Inr (nnc_3a_quads_add (jump_quad OP_CJUMPF l c no_addr) g))"

definition goto_quad :: "u32 \<Rightarrow> gen3 \<Rightarrow> gen3" where
  "goto_quad l = nnc_3a_quads_add (jump_quad OP_UJUMP l no_addr no_addr)"

definition branch_end :: "u32 \<Rightarrow> u32 \<Rightarrow> gen3 \<Rightarrow> gen3" where
  "branch_end b_true b_next g = (if b_true \<noteq> b_next then goto_quad b_true g else g)"

text \<open>
  Statements: the loops and the \<^verbatim>\<open>if\<close> as functions of their own, as in the code; \<open>elifs_to_3a\<close> is the
  loop over the \<^verbatim>\<open>elif\<close> branches, which also returns the label of what follows.
\<close>

function (sequential)
  nnc_stmt_to_3a :: "nnc_statement \<Rightarrow> scope_ctx \<Rightarrow> gen3 \<Rightarrow> gen3 res" and
  nnc_do_stmt_to_3a :: "nnc_statement \<Rightarrow> nnc_expression \<Rightarrow> scope_ctx \<Rightarrow> gen3 \<Rightarrow> gen3 res" and
  nnc_if_branch_to_3a :: "nnc_expression \<Rightarrow> nnc_statement \<Rightarrow> u32 \<Rightarrow> u32 \<Rightarrow> scope_ctx \<Rightarrow> gen3 \<Rightarrow> gen3 res" and
  nnc_if_stmt_to_3a :: "nnc_expression \<Rightarrow> nnc_statement \<Rightarrow> (nnc_expression \<times> nnc_statement) list \<Rightarrow> nnc_statement option
    \<Rightarrow> scope_ctx \<Rightarrow> gen3 \<Rightarrow> gen3 res" and
  elifs_to_3a :: "(nnc_expression \<times> nnc_statement) list \<Rightarrow> bool \<Rightarrow> u32 \<Rightarrow> u32 \<Rightarrow> scope_ctx \<Rightarrow> gen3 \<Rightarrow> (gen3 \<times> u32) res" and
  nnc_for_stmt_to_3a :: "nnc_statement \<Rightarrow> nnc_statement \<Rightarrow> nnc_statement \<Rightarrow> nnc_statement \<Rightarrow> scope_ctx \<Rightarrow> gen3 \<Rightarrow> gen3 res" and
  nnc_while_stmt_to_3a :: "nnc_expression \<Rightarrow> nnc_statement \<Rightarrow> scope_ctx \<Rightarrow> gen3 \<Rightarrow> gen3 res" and
  nnc_compound_stmt_to_3a :: "nnc_statement list \<Rightarrow> scope_ctx \<Rightarrow> gen3 \<Rightarrow> gen3 res"
where
  "nnc_stmt_to_3a STMT_TYPE sc g = Inr g"
| "nnc_stmt_to_3a STMT_EMPTY sc g = Inr g"
| "nnc_stmt_to_3a (STMT_DO body c) sc g = nnc_do_stmt_to_3a body c sc g"
| "nnc_stmt_to_3a (STMT_FN x body) sc g = Inl AssertFail"
| "nnc_stmt_to_3a (STMT_IF c body elifs els) sc g = nnc_if_stmt_to_3a c body elifs els sc g"
| "nnc_stmt_to_3a (STMT_LET x init) sc g = nnc_let_stmt_to_3a x init sc g"
| "nnc_stmt_to_3a (STMT_FOR init c step body) sc g = nnc_for_stmt_to_3a init c step body sc g"
| "nnc_stmt_to_3a (STMT_EXPR e) sc g = nnc_expr_to_3a e g"
| "nnc_stmt_to_3a (STMT_WHILE c body) sc g = nnc_while_stmt_to_3a c body sc g"
| "nnc_stmt_to_3a STMT_BREAK sc g = nnc_break_stmt_to_3a g"
| "nnc_stmt_to_3a STMT_CONTINUE sc g = nnc_continue_stmt_to_3a g"
| "nnc_stmt_to_3a (STMT_RETURN body) sc g = nnc_return_stmt_to_3a body g"
| "nnc_stmt_to_3a (STMT_COMPOUND scope ss) sc g = nnc_compound_stmt_to_3a ss scope g"
| "nnc_stmt_to_3a (STMT_NAMESPACE x body) sc g = nnc_stmt_to_3a body sc g"

| "nnc_do_stmt_to_3a body c sc g =
     (let b_iter = next_label g; g = nnc_3a_mklabel g; b_next = next_label g; g = nnc_3a_mklabel g; saved = g in
      bind_res (nnc_set_loop_branches b_next b_iter g) (\<lambda>g.
      bind_res (nnc_stmt_to_3a body sc (add_label b_iter g)) (\<lambda>g.
      bind_res (nnc_expr_to_3a c g) (\<lambda>g.
      bind_res (test_quad b_next g) (\<lambda>g.
        Inr (add_label b_next (goto_quad b_iter (nnc_restore_loop_branches saved g))))))))"

| "nnc_if_branch_to_3a c body b_true b_next sc g =
     bind_res (nnc_expr_to_3a c g) (\<lambda>g.
     bind_res (test_quad b_next g) (\<lambda>g.
     bind_res (nnc_stmt_to_3a body sc g) (\<lambda>g. Inr (branch_end b_true b_next g))))"

| "nnc_if_stmt_to_3a c body elifs els sc g =
     (let b_true = next_label g; g = nnc_3a_mklabel g;
          (b_next, g) = (if elifs \<noteq> [] \<or> els \<noteq> None then (next_label g, nnc_3a_mklabel g) else (b_true, g)) in
      bind_res (nnc_if_branch_to_3a c body b_true b_next sc g) (\<lambda>g.
      bind_res (elifs_to_3a elifs (els \<noteq> None) b_true b_next sc g) (\<lambda>(g, b_next).
      bind_res (case els of None \<Rightarrow> Inr g | Some s \<Rightarrow> nnc_stmt_to_3a s sc (add_label b_next g)) (\<lambda>g.
        Inr (add_label b_true g)))))"

| "elifs_to_3a [] has_else b_true b_next sc g = Inr (g, b_next)"
| "elifs_to_3a ((c, body) # bs) has_else b_true b_next sc g =
     (let g = add_label b_next g;
          (b_next, g) = (if bs \<noteq> [] \<or> has_else then (next_label g, nnc_3a_mklabel g) else (b_true, g)) in
      bind_res (nnc_if_branch_to_3a c body b_true b_next sc g) (\<lambda>g. elifs_to_3a bs has_else b_true b_next sc g))"

| "nnc_for_stmt_to_3a init c step body sc g =
     (let b_iter = next_label g; g = nnc_3a_mklabel g; b_step = next_label g; g = nnc_3a_mklabel g;
          b_next = next_label g; g = nnc_3a_mklabel g; saved = g in
      bind_res (nnc_set_loop_branches b_next b_step g) (\<lambda>g.
      bind_res (nnc_stmt_to_3a init sc g) (\<lambda>g.
      bind_res (nnc_stmt_to_3a c sc (add_label b_iter g)) (\<lambda>g.
      bind_res (if c \<noteq> STMT_EMPTY then test_quad b_next g else Inr g) (\<lambda>g.
      bind_res (nnc_stmt_to_3a body sc g) (\<lambda>g.
      bind_res (nnc_stmt_to_3a step sc (add_label b_step g)) (\<lambda>g.
        Inr (add_label b_next (goto_quad b_iter (nnc_restore_loop_branches saved g))))))))))"

| "nnc_while_stmt_to_3a c body sc g =
     (let b_iter = next_label g; g = nnc_3a_mklabel g; b_next = next_label g; g = nnc_3a_mklabel g; saved = g in
      bind_res (nnc_set_loop_branches b_next b_iter g) (\<lambda>g.
      bind_res (nnc_expr_to_3a c (add_label b_iter g)) (\<lambda>g.
      bind_res (test_quad b_next g) (\<lambda>g.
      bind_res (nnc_stmt_to_3a body sc g) (\<lambda>g.
        Inr (add_label b_next (goto_quad b_iter (nnc_restore_loop_branches saved g))))))))"

| "nnc_compound_stmt_to_3a [] sc g = Inr g"
| "nnc_compound_stmt_to_3a (s # ss) sc g = bind_res (nnc_stmt_to_3a s sc g) (nnc_compound_stmt_to_3a ss sc)"
  by pat_completeness auto

termination
  by (relation "measure (case_sum
      (case_sum (case_sum (\<lambda>(s, _). 3 * size s) (\<lambda>(s, _). 3 * size s + 2))
        (case_sum (\<lambda>(_, s, _). 3 * size s + 1)
          (\<lambda>(_, s, bs, e, _). 3 * (size s + size_list (size_prod (\<lambda>_. 0) size) bs + size_option size e) + 2)))
      (case_sum (case_sum (\<lambda>(bs, _). 3 * size_list (size_prod (\<lambda>_. 0) size) bs + 1)
          (\<lambda>(i, c, st, s, _). 3 * (size i + size c + size st + size s) + 2))
        (case_sum (\<lambda>(_, s, _). 3 * size s + 2) (\<lambda>(ss, _). 3 * size_list size ss))))") auto

section \<open>Procedures and global variables\<close>

definition nnc_ir_commit :: "gen3 \<Rightarrow> nnc_quad list \<times> gen3" where
  "nnc_ir_commit g = (quads g, g\<lparr>quads := []\<rparr>)"

record ir_var =
  ir_name :: string
  ir_res :: nnc_3a_addr
  ir_quads :: "nnc_quad list"

definition nnc_gen_ir_var :: "nnc_ident \<Rightarrow> nnc_expression option \<Rightarrow> gen3 \<Rightarrow> (ir_var \<times> gen3) res" where
  "nnc_gen_ir_var x init g =
     bind_res (case init of None \<Rightarrow> Inr g | Some e \<Rightarrow> nnc_expr_to_3a e g) (\<lambda>g.
       case nnc_ir_commit g of (qs, g) \<Rightarrow> Inr (\<lparr>ir_name = iname x, ir_res = nnc_3a_mkname1 x, ir_quads = qs\<rparr>, g))"

record nnc_3a_proc =
  pname :: string
  pquads :: "nnc_quad list"
  plive :: lr_proc

text \<open>\<open>opt\<close> is the flag of the command line, \<open>fo\<close> the arithmetic of \<^verbatim>\<open>double\<close>.\<close>

definition nnc_gen_ir_proc :: "bool \<Rightarrow> f64_ops \<Rightarrow> nnc_ident \<Rightarrow> nnc_statement \<Rightarrow> scope_ctx \<Rightarrow> gen3 \<Rightarrow> (nnc_3a_proc \<times> gen3) res" where
  "nnc_gen_ir_proc opt fo x body sc g =
     bind_res (nnc_stmt_to_3a body sc (g\<lparr>cgt_cnt := 0\<rparr>)) (\<lambda>g.
       case nnc_ir_commit g of (qs, g) \<Rightarrow>
         bind_res (if opt then bind_res (nnc_3a_optimize fo (gtypes g) qs) (\<lambda>r. Inr (fst r)) else Inr qs) (\<lambda>qs.
         bind_res (nnc_3a_make_lr_for_proc qs fresh_lr_proc) (\<lambda>lr.
           Inr (\<lparr>pname = iname x, pquads = qs, plive = lr\<rparr>, g))))"

datatype ir_sym = IR_PROC nnc_3a_proc | IR_VAR ir_var | IR_NONE

definition nnc_gen_ir :: "bool \<Rightarrow> f64_ops \<Rightarrow> nnc_statement \<Rightarrow> scope_ctx \<Rightarrow> gen3 \<times> ir_sym list \<Rightarrow> (gen3 \<times> ir_sym list) res" where
  "nnc_gen_ir opt fo s sc S =
     bind_res (case s of
         STMT_FN x body \<Rightarrow> bind_res (nnc_gen_ir_proc opt fo x body sc (fst S)) (\<lambda>(p, g). Inr (IR_PROC p, g))
       | STMT_LET x init \<Rightarrow> bind_res (nnc_gen_ir_var x init (fst S)) (\<lambda>(v, g). Inr (IR_VAR v, g))
       | _ \<Rightarrow> Inr (IR_NONE, fst S)) (\<lambda>(y, g). Inr (g, snd S @ [y]))"


end
