(* ===== verification/Nnc_3A_Labels.thy ===== *)
theory Nnc_3A_Labels
  imports Nnc_3A
begin

text \<open>
  Labels and jumps of the generated code. A construct allocates its labels first and places
  them later, with the code of its parts in between; \<open>emits\<close> describes the state in the middle
  of a construct by the labels it allocated and those it has still to place. The property: in the code of a
  procedure labels are unique and every jump has its label, so that the control-flow graph of
  \<open>Nnc_CFG\<close> can be built from it.
\<close>

section \<open>Partial correctness of fallible steps\<close>

definition post :: "('a \<Rightarrow> bool) \<Rightarrow> 'a res \<Rightarrow> bool" where
  "post Q r \<longleftrightarrow> (\<forall>x. r = Inr x \<longrightarrow> Q x)"

lemma post_Inr [simp]: "post Q (Inr x) \<longleftrightarrow> Q x"
  by (simp add: post_def)

lemma post_Inl [simp]: "post Q (Inl e)"
  by (simp add: post_def)

lemma post_bind: "post P m \<Longrightarrow> (\<And>x. P x \<Longrightarrow> post Q (f x)) \<Longrightarrow> post Q (bind_res m f)"
  by (cases m) simp_all

lemma post_bind_any: "(\<And>x. m = Inr x \<Longrightarrow> post Q (f x)) \<Longrightarrow> post Q (bind_res m f)"
  by (cases m) simp_all

lemma postD: "post Q r \<Longrightarrow> r = Inr x \<Longrightarrow> Q x"
  by (simp add: post_def)

section \<open>The state inside a construct\<close>

definition labels_of :: "nnc_quad list \<Rightarrow> u32 list" where
  "labels_of qs = filter (\<lambda>l. l \<noteq> 0) (map qlabel qs)"

definition jumps_of :: "nnc_quad list \<Rightarrow> u32 list" where
  "jumps_of qs = map jump_label (filter is_jump qs)"

abbreviation loops :: "gen3 \<Rightarrow> u32 \<times> u32" where
  "loops g \<equiv> (b_loop_out g, b_loop_iter_ends g)"

abbreviation lcnt :: "gen3 \<Rightarrow> nat" where
  "lcnt g \<equiv> unat (label_cnt g)"

definition between :: "nat \<Rightarrow> nat \<Rightarrow> u32 set" where
  "between a b = {l. a < unat l \<and> unat l \<le> b}"

text \<open>
  Since \<open>g0\<close>, with \<open>k\<close> labels allocated: the set \<open>A\<close> of labels is the construct's own, \<open>U\<close> are those
  of it not placed yet, and jumps go to placed labels, to own labels or to \<open>J\<close>.
\<close>

definition emitted :: "gen3 \<Rightarrow> u32 set \<Rightarrow> u32 set \<Rightarrow> u32 set \<Rightarrow> nat \<Rightarrow> u32 \<times> u32 \<Rightarrow> gen3 \<Rightarrow> u32 list \<Rightarrow> u32 list \<Rightarrow> bool" where
  "emitted g0 J A U k lp g ls js \<longleftrightarrow> lcnt g = lcnt g0 + k \<and> loops g = lp \<and>
     labels_of (quads g) = labels_of (quads g0) @ ls \<and> jumps_of (quads g) = jumps_of (quads g0) @ js \<and>
     distinct ls \<and> set ls \<inter> U = {} \<and> set ls \<union> U \<subseteq> between (lcnt g0) (lcnt g) \<and> A \<subseteq> set ls \<union> U \<and> U \<subseteq> A \<and>
     set js \<subseteq> J \<union> set ls \<union> U \<and> take (length (quads g0)) (map qop (quads g)) = map qop (quads g0)"

definition emits :: "gen3 \<Rightarrow> u32 set \<Rightarrow> u32 set \<Rightarrow> u32 set \<Rightarrow> nat \<Rightarrow> u32 \<times> u32 \<Rightarrow> gen3 \<Rightarrow> bool" where
  "emits g0 J A U k lp g \<longleftrightarrow> (\<exists>ls js. emitted g0 J A U k lp g ls js)"

lemma emittedD:
  assumes "emitted g0 J A U k lp g ls js"
  shows "lcnt g = lcnt g0 + k" "loops g = lp"
    "labels_of (quads g) = labels_of (quads g0) @ ls" "jumps_of (quads g) = jumps_of (quads g0) @ js"
    "distinct ls" "set ls \<inter> U = {}" "set ls \<union> U \<subseteq> between (lcnt g0) (lcnt g)" "A \<subseteq> set ls \<union> U" "U \<subseteq> A"
    "set js \<subseteq> J \<union> set ls \<union> U" "take (length (quads g0)) (map qop (quads g)) = map qop (quads g0)"
  using assms unfolding emitted_def by blast+

abbreviation closed :: "u32 set \<Rightarrow> nat \<Rightarrow> gen3 \<Rightarrow> gen3 \<Rightarrow> bool" where
  "closed J k g g' \<equiv> emits g J {} {} k (loops g) g'"

lemma labels_of_append [simp]: "labels_of (xs @ ys) = labels_of xs @ labels_of ys"
  by (simp add: labels_of_def)

lemma jumps_of_append [simp]: "jumps_of (xs @ ys) = jumps_of xs @ jumps_of ys"
  by (simp add: jumps_of_def)

lemma emits_refl: "emits g J {} {} 0 (loops g) g"
  by (auto simp: emits_def emitted_def)

lemma emits_count: "emits g0 J A U k lp g \<Longrightarrow> lcnt g = lcnt g0 + k \<and> loops g = lp"
  by (auto simp: emits_def emitted_def)

lemma emits_label:
  assumes "emits g0 J A U k lp g" "lcnt g0 + k + 1 < 2 ^ 26"
  shows "emits g0 J (insert (next_label g) A) (insert (next_label g) U) (k + 1) lp (nnc_3a_mklabel g) \<and>
    next_label g \<noteq> 0 \<and> next_label g \<notin> A \<and> unat (next_label g) = lcnt g0 + k + 1"
proof -
  have c: "lcnt g = lcnt g0 + k" using emits_count [OF assms(1)] by simp
  have u: "unat (label_cnt g + 1) = lcnt g + 1" using assms(2) c by (simp add: unat_word_ariths)
  have nl: "next_label g = label_cnt g + 1"
  proof -
    have "take_bit 26 (unat (label_cnt g + 1)) = unat (label_cnt g + 1)"
      using u c assms(2) by (simp add: take_bit_nat_eq_self)
    then show ?thesis unfolding next_label_def by (metis unsigned_take_bit_eq unsigned_word_eqI)
  qed
  then have un: "unat (next_label g) = lcnt g + 1" using u by simp
  have new: "next_label g \<notin> between (lcnt g0) (lcnt g)" using un by (simp add: between_def)
  have nz: "next_label g \<noteq> 0" using un by auto
  have "between (lcnt g0) (lcnt g) \<subseteq> between (lcnt g0) (lcnt g + 1)" "next_label g \<in> between (lcnt g0) (lcnt g + 1)"
    using un c by (auto simp: between_def)
  moreover have "lcnt (nnc_3a_mklabel g) = lcnt g + 1" using u by (simp add: nnc_3a_mklabel_def)
  moreover from assms(1) obtain ls js where e: "emitted g0 J A U k lp g ls js" by (auto simp: emits_def)
  note e = emittedD [OF e]
  have na: "next_label g \<notin> A" "next_label g \<notin> set ls" using e(7,8) new by blast+
  ultimately have "set ls \<union> insert (next_label g) U \<subseteq> between (lcnt g0) (lcnt (nnc_3a_mklabel g))"
    and l: "lcnt (nnc_3a_mklabel g) = lcnt g0 + (k + 1)" using e(7) c by auto
  moreover have "set ls \<inter> insert (next_label g) U = {}" "insert (next_label g) A \<subseteq> set ls \<union> insert (next_label g) U"
    "insert (next_label g) U \<subseteq> insert (next_label g) A" "set js \<subseteq> J \<union> set ls \<union> insert (next_label g) U"
    using e na by auto
  ultimately have "emitted g0 J (insert (next_label g) A) (insert (next_label g) U) (k + 1) lp (nnc_3a_mklabel g) ls js"
    using e(2-5,11) unfolding emitted_def l by (simp add: nnc_3a_mklabel_def)
  then show ?thesis using na nz un c by (auto simp: emits_def)
qed

lemma ops_prefix:
  assumes "take (length xs) (map f ys) = map f xs" "take (length ys) (map f zs) = map f ys"
  shows "take (length xs) (map f zs) = map f xs"
proof -
  have "length xs \<le> length ys" using arg_cong [OF assms(1), of length] by simp
  then have "take (length xs) (map f zs) = take (length xs) (take (length ys) (map f zs))" by (simp add: min_def)
  then show ?thesis using assms by simp
qed

lemma take_snoc [simp]: "take (length xs) (map f (xs @ ys)) = map f xs"
  by simp

lemma emits_state:
  assumes "emits g0 J A U k lp g" "labels_of (quads g') = labels_of (quads g)" "jumps_of (quads g') = jumps_of (quads g)"
    "label_cnt g' = label_cnt g" "loops g' = loops g" "take (length (quads g)) (map qop (quads g')) = map qop (quads g)"
  shows "emits g0 J A U k lp g'"
proof -
  from assms(1) obtain ls js where e: "emitted g0 J A U k lp g ls js" by (auto simp: emits_def)
  note e = emittedD [OF e]
  have "emitted g0 J A U k lp g' ls js"
    using e ops_prefix [OF e(11) assms(6)] unfolding emitted_def assms(2-5) by blast
  then show ?thesis by (auto simp: emits_def)
qed

lemma emits_quad:
  assumes "emits g0 J A U k lp g" "qlabel q = 0" "\<not> is_jump q"
  shows "emits g0 J A U k lp (nnc_3a_quads_add q g)"
  by (rule emits_state [OF assms(1)]) (simp_all add: nnc_3a_quads_add_def labels_of_def jumps_of_def assms)

lemma emits_jump:
  assumes "emits g0 J A U k lp g" "qlabel q = 0" "jump_label q \<in> J \<union> A"
  shows "emits g0 J A U k lp (nnc_3a_quads_add q g)"
proof (cases "is_jump q")
  case False
  then show ?thesis using emits_quad assms by blast
next
  case True
  from assms(1) obtain ls js where e: "emitted g0 J A U k lp g ls js" by (auto simp: emits_def)
  note e = emittedD [OF e]
  have "labels_of (quads (nnc_3a_quads_add q g)) = labels_of (quads g0) @ ls"
    "jumps_of (quads (nnc_3a_quads_add q g)) = jumps_of (quads g0) @ (js @ [jump_label q])"
    using e True assms(2) by (simp_all add: nnc_3a_quads_add_def labels_of_def jumps_of_def)
  moreover have "set (js @ [jump_label q]) \<subseteq> J \<union> set ls \<union> U" using e assms(3) by auto
  ultimately have "emitted g0 J A U k lp (nnc_3a_quads_add q g) ls (js @ [jump_label q])"
    using e(1-9) ops_prefix [OF e(11), of "quads (nnc_3a_quads_add q g)"] unfolding emitted_def by (simp add: nnc_3a_quads_add_def)
  then show ?thesis by (auto simp: emits_def)
qed

lemma emits_place:
  assumes "emits g0 J A U k lp g" "l \<in> U" "l \<noteq> 0"
  shows "emits g0 J A (U - {l}) k lp (add_label l g)"
proof -
  from assms(1) obtain ls js where e: "emitted g0 J A U k lp g ls js" by (auto simp: emits_def)
  note e = emittedD [OF e]
  have l: "labels_of (quads (add_label l g)) = labels_of (quads g0) @ (ls @ [l])"
    "jumps_of (quads (add_label l g)) = jumps_of (quads g0) @ js"
    "label_cnt (add_label l g) = label_cnt g" "loops (add_label l g) = loops g"
    "take (length (quads g)) (map qop (quads (add_label l g))) = map qop (quads g)"
    using e assms(3) by (simp_all add: add_label_def nnc_3a_quads_add_def labels_of_def jumps_of_def label_quad_def
      no_quad_def is_jump_def op_groups)
  have "emitted g0 J A (U - {l}) k lp (add_label l g) (ls @ [l]) js"
    using e assms(2) ops_prefix [OF e(11) l(5)] unfolding emitted_def l by auto
  then show ?thesis by (auto simp: emits_def)
qed

lemma emits_part:
  assumes "emits g0 J A U k lp g" "emits g J' {} {} n lp' g'" "J' \<subseteq> J \<union> A"
  shows "emits g0 J A U (k + n) lp' g'"
proof -
  from assms(1) obtain ls js where e: "emitted g0 J A U k lp g ls js" by (auto simp: emits_def)
  note e = emittedD [OF e]
  from assms(2) obtain ls' js' where e': "emitted g J' {} {} n lp' g' ls' js'" by (auto simp: emits_def)
  note e' = emittedD [OF e']
  have "between (lcnt g0) (lcnt g) \<inter> between (lcnt g) (lcnt g') = {}" by (auto simp: between_def)
  then have d: "set ls \<inter> set ls' = {}" "set ls' \<inter> U = {}" using e(7) e'(7) by blast+
  have "between (lcnt g) (lcnt g') \<subseteq> between (lcnt g0) (lcnt g')" "between (lcnt g0) (lcnt g) \<subseteq> between (lcnt g0) (lcnt g')"
    using e(1) e'(1) by (auto simp: between_def)
  then have r: "set (ls @ ls') \<union> U \<subseteq> between (lcnt g0) (lcnt g')" using e(7) e'(7) unfolding set_append by blast
  have j: "set (js @ js') \<subseteq> J \<union> set (ls @ ls') \<union> U" using e(8,10) e'(10) assms(3) by auto
  have "emitted g0 J A U (k + n) lp' g' (ls @ ls') (js @ js')"
    unfolding emitted_def
  proof (intro conjI)
    show "set (ls @ ls') \<union> U \<subseteq> between (lcnt g0) (lcnt g')" by (rule r)
    show "set (js @ js') \<subseteq> J \<union> set (ls @ ls') \<union> U" by (rule j)
    show "take (length (quads g0)) (map qop (quads g')) = map qop (quads g0)" by (rule ops_prefix [OF e(11) e'(11)])
  qed (use e e' d in auto)
  then show ?thesis by (auto simp: emits_def)
qed

lemma emits_done: "emits g0 J A {} k lp g \<Longrightarrow> emits g0 J {} {} k lp g"
  by (auto simp: emits_def emitted_def)


section \<open>The steps of the generator\<close>

lemma take_all_map [simp]: "take (length xs) (map f xs) = map f xs"
  by simp

lemma quad3_simps [simp]:
  "qlabel (quad3 o' r a b) = 0" "qop (quad3 o' r a b) = o'" "qres (quad3 o' r a b) = r" "arg1 (quad3 o' r a b) = a"
  "arg2 (quad3 o' r a b) = b"
  by (simp_all add: quad3_def)

lemma ucast_label: "ucast (ucast (l :: u32) :: u64) = l"
  by (rule ucast_u32_id)

lemma jump_quad_simps [simp]:
  "qlabel (jump_quad o' l a b) = 0" "jump_label (jump_quad o' l a b) = l"
  by (simp_all add: jump_quad_def jump_label_def nnc_3a_mki3_def ucast_label)

definition jump_op :: "nnc_3a_op_kind \<Rightarrow> bool" where
  "jump_op o' \<longleftrightarrow> o' \<in> set (OP_UJUMP # OP_UNARY_JUMP @ OP_BINARY_JUMP)"

lemma is_jump_op: "is_jump q \<longleftrightarrow> jump_op (qop q)"
  by (simp add: is_jump_def jump_op_def)

lemma not_jump_ops [simp]:
  "\<not> jump_op OP_COPY" "\<not> jump_op OP_CAST" "\<not> jump_op OP_REF" "\<not> jump_op OP_DEREF" "\<not> jump_op OP_DEREF_COPY"
  "\<not> jump_op OP_ADD" "\<not> jump_op OP_MUL" "\<not> jump_op OP_ARG" "\<not> jump_op OP_PCALL" "\<not> jump_op OP_FCALL"
  "\<not> jump_op OP_RETP" "\<not> jump_op OP_RETF" "\<not> jump_op OP_HINT_DECL_LOCAL" "\<not> jump_op OP_HINT_DECL_STRING"
  "\<not> jump_op OP_HINT_DECL_CALL" "\<not> jump_op (bin_op_map k)" "\<not> jump_op (un_op_map u)"
  by (cases k; simp add: jump_op_def op_groups bin_op_map_def; fail
      | cases u; simp add: jump_op_def op_groups un_op_map_def; fail | simp add: jump_op_def op_groups)+

lemma emits_cgt: "emits g0 J A U k lp g \<Longrightarrow> emits g0 J A U k lp (nnc_3a_mkcgt g)"
  by (rule emits_state, assumption) (simp_all add: nnc_3a_mkcgt_def)

lemma emits_types: "emits g0 J A U k lp g \<Longrightarrow> emits g0 J A U k lp (g\<lparr>gtypes := ts\<rparr>)"
  by (rule emits_state, assumption) simp_all

lemma emits_emit: "emits g0 J A U k lp g \<Longrightarrow> \<not> jump_op o' \<Longrightarrow> emits g0 J A U k lp (emit o' r a b g)"
  by (rule emits_quad) (simp_all add: is_jump_op)

lemma emits_new: "emits g0 J A U k lp g \<Longrightarrow> \<not> jump_op o' \<Longrightarrow> emits g0 J A U k lp (emit_new o' t a b g)"
  unfolding emit_new_def by (intro emits_emit emits_cgt)

lemma emits_new_ptr: "emits g0 J A U k lp g \<Longrightarrow> post (\<lambda>x. emits g0 J A U k lp (fst x)) (new_ptr t g)"
  unfolding new_ptr_def by (intro post_bind_any) (auto intro: emits_types)

named_theorems emit_intros \<open>how a step changes what was emitted\<close>

lemmas [emit_intros] = emits_cgt emits_emit emits_new emits_types

lemma emits_jump_to: "emits g0 J A U k lp g \<Longrightarrow> l \<in> J \<union> A \<Longrightarrow> emits g0 J A U k lp (nnc_3a_quads_add (jump_quad o' l a b) g)"
  by (rule emits_jump) simp_all

lemma two_labels:
  assumes "lcnt g + 2 < 2 ^ 26"
  defines "b \<equiv> next_label g" and "b' \<equiv> next_label (nnc_3a_mklabel g)"
  shows "emits g J {b', b} {b', b} 2 (loops g) (nnc_3a_mklabel (nnc_3a_mklabel g))" "b \<noteq> 0" "b' \<noteq> 0" "b \<noteq> b'"
proof -
  from emits_label [OF emits_refl [of g J]] assms(1)
  have 1: "emits g J {b} {b} 1 (loops g) (nnc_3a_mklabel g)" "b \<noteq> 0" by (simp_all add: b_def)
  from emits_label [OF 1(1)] assms(1)
  have "emits g J {b', b} {b', b} (1 + 1) (loops g) (nnc_3a_mklabel (nnc_3a_mklabel g))" "b' \<noteq> 0" "b' \<notin> {b}"
    by (simp_all add: b'_def)
  then show "emits g J {b', b} {b', b} 2 (loops g) (nnc_3a_mklabel (nnc_3a_mklabel g))" "b \<noteq> 0" "b' \<noteq> 0" "b \<noteq> b'"
    using 1(2) by (auto simp: numeral_2_eq_2)
qed

lemma emits_truth_tail:
  assumes "emits g0 J {b', b} {b', b} k lp g" "b \<noteq> 0" "b' \<noteq> 0" "b \<noteq> b'"
  shows "emits g0 J {} {} k lp (truth_tail b b' r v w g)"
proof -
  have 1: "emits g0 J {b', b} {b', b} k lp (nnc_3a_quads_add (jump_quad OP_UJUMP b' no_addr no_addr) (emit OP_COPY r (nnc_3a_mki3 v) no_addr g))"
    by (intro emits_jump_to emit_intros assms) simp_all
  from emits_place [OF this, of b] assms
  have 2: "emits g0 J {b', b} {b'} k lp (add_label b (nnc_3a_quads_add (jump_quad OP_UJUMP b' no_addr no_addr)
      (emit OP_COPY r (nnc_3a_mki3 v) no_addr g)))" by (simp add: insert_Diff_if)
  have 3: "emits g0 J {b', b} {b'} k lp (emit OP_COPY r (nnc_3a_mki3 w) no_addr (add_label b
      (nnc_3a_quads_add (jump_quad OP_UJUMP b' no_addr no_addr) (emit OP_COPY r (nnc_3a_mki3 v) no_addr g))))"
    by (intro emit_intros 2) simp
  from emits_place [OF 3, of b'] assms(3) show ?thesis
    unfolding truth_tail_def by (intro emits_done [of _ _ "{b', b}"]) simp
qed

lemma emits_dot: "emits g0 J A U k lp g \<Longrightarrow> post (emits g0 J A U k lp) (dot_address t m g)"
  unfolding dot_address_def
  apply (rule post_bind_any)
  apply (rule post_bind [where P = "\<lambda>x. emits g0 J A U k lp (snd x)"])
   apply (auto intro!: post_bind_any emit_intros)[1]
  apply (clarsimp split: prod.splits)
  apply (rule post_bind_any)
  apply (rule post_bind_any)
  apply (rule post_bind_any)
  apply (rule post_bind [OF emits_new_ptr])
   apply (auto intro!: emit_intros)[1]
  apply (clarsimp split: prod.splits)
  apply (auto intro!: post_bind_any emit_intros)
  done

lemma emits_add_or_sub: "emits g0 J A U k lp g \<Longrightarrow> post (emits g0 J A U k lp) (nnc_add_or_sub_tail op t a1 a2 g)"
  unfolding nnc_add_or_sub_tail_def
  apply (rule post_bind_any)
  apply (rule post_bind_any)
  apply (rule post_bind [where P = "emits g0 J A U k lp"])
   apply (auto intro!: post_bind_any emit_intros)
  done

lemma emits_assign: "emits g0 J A U k lp g \<Longrightarrow> post (emits g0 J A U k lp) (assign_tail t a c g)"
  unfolding assign_tail_def by (auto simp: Let_def intro!: post_bind_any emit_intros)

lemma update_res_same:
  assumes "i < length qs \<Longrightarrow> \<not> is_jump (qs ! i)"
  shows "labels_of (qs[i := (qs ! i)\<lparr>qres := r\<rparr>]) = labels_of qs" "jumps_of (qs[i := (qs ! i)\<lparr>qres := r\<rparr>]) = jumps_of qs"
    "map qop (qs[i := (qs ! i)\<lparr>qres := r\<rparr>]) = map qop qs"
proof -
  have m: "map f (qs[i := (qs ! i)\<lparr>qres := r\<rparr>]) = map f qs" if "f ((qs ! i)\<lparr>qres := r\<rparr>) = f (qs ! i)" for f :: "nnc_quad \<Rightarrow> 'x"
    using that by (metis list_update_id map_update)
  show "map qop (qs[i := (qs ! i)\<lparr>qres := r\<rparr>]) = map qop qs" by (rule m) simp
  have "map qlabel (qs[i := (qs ! i)\<lparr>qres := r\<rparr>]) = map qlabel qs" by (rule m) simp
  then show "labels_of (qs[i := (qs ! i)\<lparr>qres := r\<rparr>]) = labels_of qs" by (simp add: labels_of_def)
  show "jumps_of (qs[i := (qs ! i)\<lparr>qres := r\<rparr>]) = jumps_of qs"
  proof (cases "i < length qs")
    case True
    then have "qs = take i qs @ qs ! i # drop (Suc i) qs" "\<not> is_jump (qs ! i)" using assms id_take_nth_drop by blast+
    then show ?thesis using True
      by (metis (no_types, lifting) filter.simps(2) filter_append is_jump_def jumps_of_def
          nnc_quad.simps(2) nnc_quad.surjective nnc_quad.update_convs(3) upd_conv_take_nth_drop nnc_quad.select_convs(2))
  next
    case False
    then show ?thesis by (simp add: list_update_beyond)
  qed
qed

lemma emits_call:
  assumes "emits g0 J A U k lp g" "idx < length (quads g) \<Longrightarrow> \<not> is_jump (quads g ! idx)"
  shows "post (emits g0 J A U k lp) (call_tail t idx n f g)"
proof -
  have "emits g0 J A U k lp (nnc_3a_quads_add (quad3 OP_FCALL r f b) ((nnc_3a_mkcgt g)\<lparr>quads := (quads g)[idx := (quads g ! idx)\<lparr>qres := r'\<rparr>]\<rparr>))"
    for r r' b
    by (rule emits_emit, rule emits_state [OF assms(1)])
       (simp_all add: update_res_same [OF assms(2)] nnc_3a_mkcgt_def)
  then show ?thesis unfolding call_tail_def by (auto simp: Let_def intro!: post_bind_any emits_emit assms(1))
qed


section \<open>Expressions\<close>

fun label_need :: "nnc_expression \<Rightarrow> nat" where
  "label_need (EXPR_UNARY k t e) = (case k of UNARY_NOT \<Rightarrow> 2 + label_need e | UNARY_LENGTHOF \<Rightarrow> 0 | _ \<Rightarrow> label_need e)"
| "label_need (EXPR_CAST k t e t') = label_need e"
| "label_need (EXPR_DOT t e m) = label_need e"
| "label_need (EXPR_CALL t f args) = sum_list (map label_need args) + label_need f"
| "label_need (EXPR_INDEX t b i) = label_need b + label_need i"
| "label_need (EXPR_BINARY k t l r) =
     (if k = BINARY_OR \<or> k = BINARY_AND \<or> rel_op k \<noteq> None then 2 else 0) + label_need l + label_need r"
| "label_need (EXPR_TERNARY t c l r) = 2 + label_need c + label_need l + label_need r"
| "label_need _ = 0"

definition makes :: "nat \<Rightarrow> (gen3 \<Rightarrow> gen3 res) \<Rightarrow> bool" where
  "makes n f \<longleftrightarrow> (\<forall>g. lcnt g + n < 2 ^ 26 \<longrightarrow> post (closed {} n g) (f g))"

lemma makes_part:
  assumes "emits g0 J A U k lp g" "makes n f" "lcnt g0 + (k + n) < 2 ^ 26"
    and "\<And>g'. f g = Inr g' \<Longrightarrow> emits g0 J A U (k + n) lp g' \<Longrightarrow> post Q (h g')"
  shows "post Q (bind_res (f g) h)"
proof (rule post_bind_any)
  fix g' assume g': "f g = Inr g'"
  have c: "lcnt g = lcnt g0 + k" "loops g = lp" using emits_count [OF assms(1)] by simp_all
  then have "closed {} n g g'" using assms(2,3) g' by (auto simp: makes_def post_def add.assoc)
  from emits_part [OF assms(1) this] c g' assms(4) show "post Q (h g')" by simp
qed

lemma makesI: "(\<And>g. lcnt g + n < 2 ^ 26 \<Longrightarrow> post (closed {} n g) (f g)) \<Longrightarrow> makes n f"
  by (simp add: makes_def)

lemma makesD: "makes n f \<Longrightarrow> lcnt g + n < 2 ^ 26 \<Longrightarrow> post (closed {} n g) (f g)"
  by (simp add: makes_def)

text \<open>A translation followed by one more quad.\<close>

lemma makes_then:
  assumes "makes n f" "\<And>g0 g J A U k lp. emits g0 J A U k lp g \<Longrightarrow> post (emits g0 J A U k lp) (h g)"
  shows "makes n (\<lambda>g. bind_res (f g) h)"
proof (rule makesI)
  fix g assume "lcnt g + n < 2 ^ 26"
  then show "post (closed {} n g) (bind_res (f g) h)"
    by (intro makes_part [OF emits_refl assms(1)]) (use assms(2) in auto)
qed

lemma ident_makes: "makes 0 (nnc_ident_to_3a i)"
  unfolding nnc_ident_to_3a_def by (intro makesI post_bind_any) (auto intro!: emits_new emits_refl)

lemma lval_ident_makes: "makes 0 (nnc_lval_ident_to_3a i)"
  unfolding nnc_lval_ident_to_3a_def
  by (intro makesI post_bind_any post_bind [OF emits_new_ptr [OF emits_refl]]) (auto intro!: emits_new)

lemma ref_ident_makes: "makes 0 (\<lambda>g. Inr (emit_new o' t a b g))" if "\<not> jump_op o'"
  by (intro makesI) (simp add: emits_new [OF emits_refl that])

lemma literal_makes:
  "makes 0 (\<lambda>g. Inr (nnc_fconst_to_3a v t g))" "makes 0 (\<lambda>g. Inr (nnc_iconst_to_3a v t g))"
  "makes 0 (\<lambda>g. Inr (nnc_cconst_to_3a c t g))" "makes 0 (\<lambda>g. Inr (nnc_sconst_to_3a s t g))"
  by (auto intro!: makesI emits_new emits_quad emits_refl
    simp: nnc_fconst_to_3a_def nnc_iconst_to_3a_def nnc_cconst_to_3a_def nnc_sconst_to_3a_def nnc_sconst_hint_def is_jump_op)

lemmas operator_simps = nnc_expr_to_3a.simps nnc_unary_to_3a.simps nnc_binary_to_3a.simps nnc_not_to_3a.simps
  nnc_or_to_3a.simps nnc_and_to_3a.simps nnc_comma_to_3a.simps nnc_assign_to_3a.simps nnc_ternary_to_3a.simps

lemma not_makes:
  assumes "makes n (nnc_expr_to_3a e)"
  shows "makes (2 + n) (nnc_expr_to_3a (EXPR_UNARY UNARY_NOT t e))"
proof (rule makesI)
  fix g assume "lcnt g + (2 + n) < 2 ^ 26"
  then have b: "lcnt g + (2 + n) < 2 ^ 26" "lcnt g + 2 < 2 ^ 26" by simp_all
  note two = two_labels(1) [OF b(2), of "{}"] two_labels(2-4) [OF b(2)]
  show "post (closed {} (2 + n) g) (nnc_expr_to_3a (EXPR_UNARY UNARY_NOT t e) g)"
    unfolding operator_simps Let_def
    by (rule makes_part [OF two(1) assms b(1)])
      (auto intro!: post_bind_any emits_truth_tail emits_jump_to emits_cgt two)
qed

lemma or_makes:
  assumes "makes n (nnc_expr_to_3a l)" "makes m (nnc_expr_to_3a r)"
  shows "makes (2 + n + m) (nnc_expr_to_3a (EXPR_BINARY BINARY_OR t l r))"
proof (rule makesI)
  fix g assume "lcnt g + (2 + n + m) < 2 ^ 26"
  then have b: "lcnt g + (2 + n + m) < 2 ^ 26" "lcnt g + (2 + n) < 2 ^ 26" "lcnt g + 2 < 2 ^ 26" by simp_all
  note two = two_labels(1) [OF b(3), of "{}"] two_labels(2-4) [OF b(3)]
  show "post (closed {} (2 + n + m) g) (nnc_expr_to_3a (EXPR_BINARY BINARY_OR t l r) g)"
    unfolding operator_simps Let_def
    apply (rule makes_part [OF two(1) assms(1) b(2)])
    apply (rule post_bind_any)
    apply (rule makes_part [OF emits_jump_to assms(2) b(1)], assumption, simp)
    apply (auto intro!: post_bind_any emits_truth_tail emits_jump_to emits_cgt two)
    done
qed

lemma and_makes:
  assumes "makes n (nnc_expr_to_3a l)" "makes m (nnc_expr_to_3a r)"
  shows "makes (2 + n + m) (nnc_expr_to_3a (EXPR_BINARY BINARY_AND t l r))"
proof (rule makesI)
  fix g assume "lcnt g + (2 + n + m) < 2 ^ 26"
  then have b: "lcnt g + (2 + n + m) < 2 ^ 26" "lcnt g + (2 + n) < 2 ^ 26" "lcnt g + 2 < 2 ^ 26" by simp_all
  note two = two_labels(1) [OF b(3), of "{}"] two_labels(2-4) [OF b(3)]
  show "post (closed {} (2 + n + m) g) (nnc_expr_to_3a (EXPR_BINARY BINARY_AND t l r) g)"
    unfolding operator_simps Let_def
    apply (rule makes_part [OF two(1) assms(1) b(2)])
    apply (rule post_bind_any)
    apply (rule makes_part [OF emits_jump_to assms(2) b(1)], assumption, simp)
    apply (auto intro!: post_bind_any emits_truth_tail emits_jump_to emits_cgt two)
    done
qed

lemma mkaddr_label: "jump_label (quad3 o' (nnc_3a_mkaddr (nnc_3a_mki3 (ucast l)) t) a b) = l"
  by (simp add: jump_label_def nnc_3a_mkaddr_def nnc_3a_mki3_def ucast_label)

lemma rel_makes:
  assumes "makes n (nnc_expr_to_3a l)" "makes m (nnc_expr_to_3a r)" "rel_op k = Some o'"
  shows "makes (2 + n + m) (nnc_expr_to_3a (EXPR_BINARY k t l r))"
proof (rule makesI)
  fix g assume "lcnt g + (2 + n + m) < 2 ^ 26"
  then have b: "lcnt g + (2 + n + m) < 2 ^ 26" "lcnt g + (2 + n) < 2 ^ 26" "lcnt g + 2 < 2 ^ 26" by simp_all
  note two = two_labels(1) [OF b(3), of "{}"] two_labels(2-4) [OF b(3)]
  let ?g = "nnc_3a_mklabel (nnc_3a_mklabel g)" and ?b = "next_label g" and ?b' = "next_label (nnc_3a_mklabel g)"
  have e: "nnc_expr_to_3a (EXPR_BINARY k t l r) g =
     bind_res (nnc_expr_to_3a l ?g) (\<lambda>g. bind_res (nnc_3a_quads_res g) (\<lambda>la.
     bind_res (nnc_expr_to_3a r g) (\<lambda>g. bind_res (nnc_3a_quads_res g) (\<lambda>ra.
       let g = emit o' (nnc_3a_mkaddr (nnc_3a_mki3 (ucast ?b)) (Some t)) la ra g in
       Inr (truth_tail ?b ?b' (next_cgt g (Some t)) 0 1 (nnc_3a_mkcgt g))))))"
    using assms(3) by (cases k) (simp_all add: rel_op_def Let_def)
  show "post (closed {} (2 + n + m) g) (nnc_expr_to_3a (EXPR_BINARY k t l r) g)"
    unfolding e Let_def
    apply (rule makes_part [OF two(1) assms(1) b(2)])
    apply (rule post_bind_any)
    apply (rule makes_part [OF _ assms(2) b(1)], assumption)
    apply (auto intro!: post_bind_any emits_truth_tail emits_jump emits_cgt two simp: mkaddr_label)
    done
qed

lemma strict_makes:
  assumes "makes n (nnc_expr_to_3a l)" "makes m (nnc_expr_to_3a r)" "rel_op k = None"
    "k \<notin> {BINARY_OR, BINARY_AND, BINARY_COMMA, BINARY_ASSIGN}"
  shows "makes (n + m) (nnc_expr_to_3a (EXPR_BINARY k t l r))"
proof (rule makesI)
  fix g assume "lcnt g + (n + m) < 2 ^ 26"
  then have b: "lcnt g + (0 + n + m) < 2 ^ 26" "lcnt g + (0 + n) < 2 ^ 26" by simp_all
  have e: "nnc_expr_to_3a (EXPR_BINARY k t l r) g =
     bind_res (nnc_expr_to_3a l g) (\<lambda>g. bind_res (nnc_3a_quads_res g) (\<lambda>a1.
     bind_res (nnc_expr_to_3a r g) (\<lambda>g. bind_res (nnc_3a_quads_res g) (\<lambda>a2.
       if k = BINARY_ADD \<or> k = BINARY_SUB then nnc_add_or_sub_tail k t a1 a2 g
       else Inr (emit (bin_op_map k) (nnc_3a_mkaddr a1 (Some t)) a1 a2 g)))))"
    using assms(3,4) by (cases k) (simp_all add: rel_op_def)
  show "post (closed {} (n + m) g) (nnc_expr_to_3a (EXPR_BINARY k t l r) g)"
    unfolding e
    apply (rule makes_part [OF emits_refl assms(1) b(2)])
    apply (rule post_bind_any)
    apply (rule makes_part [OF _ assms(2) b(1)], assumption)
    apply (auto intro!: post_bind_any emits_emit emits_add_or_sub)
    done
qed

lemma comma_makes:
  assumes "makes n (nnc_expr_to_3a l)" "makes m (nnc_expr_to_3a r)"
  shows "makes (n + m) (nnc_expr_to_3a (EXPR_BINARY BINARY_COMMA t l r))"
proof (rule makesI)
  fix g assume "lcnt g + (n + m) < 2 ^ 26"
  then have b: "lcnt g + (0 + n + m) < 2 ^ 26" "lcnt g + (0 + n) < 2 ^ 26" by simp_all
  show "post (closed {} (n + m) g) (nnc_expr_to_3a (EXPR_BINARY BINARY_COMMA t l r) g)"
    unfolding operator_simps
    apply (rule makes_part [OF emits_refl assms(1) b(2)])
    apply (rule makes_part [OF _ assms(2) b(1)], assumption)
    apply (auto intro!: post_bind_any emits_new)
    done
qed

lemma assign_makes:
  assumes "makes n (nnc_lval_expr_to_3a l)" "makes m (nnc_expr_to_3a r)"
  shows "makes (n + m) (nnc_expr_to_3a (EXPR_BINARY BINARY_ASSIGN t l r))"
proof (rule makesI)
  fix g assume "lcnt g + (n + m) < 2 ^ 26"
  then have b: "lcnt g + (0 + n + m) < 2 ^ 26" "lcnt g + (0 + n) < 2 ^ 26" by simp_all
  show "post (closed {} (n + m) g) (nnc_expr_to_3a (EXPR_BINARY BINARY_ASSIGN t l r) g)"
    unfolding operator_simps
    apply (rule makes_part [OF emits_refl assms(1) b(2)])
    apply (rule post_bind_any)
    apply (rule makes_part [OF _ assms(2) b(1)], assumption)
    apply (auto intro!: post_bind_any emits_assign)
    done
qed

lemma ternary_makes:
  assumes "makes n (nnc_expr_to_3a c)" "makes m (nnc_expr_to_3a l)" "makes k (nnc_expr_to_3a r)"
  shows "makes (2 + n + m + k) (nnc_expr_to_3a (EXPR_TERNARY t c l r))"
proof (rule makesI)
  fix g assume "lcnt g + (2 + n + m + k) < 2 ^ 26"
  then have b: "lcnt g + (2 + n + k + m) < 2 ^ 26" "lcnt g + (2 + n + k) < 2 ^ 26" "lcnt g + (2 + n) < 2 ^ 26" "lcnt g + 2 < 2 ^ 26" by simp_all
  note two = two_labels(1) [OF b(4), of "{}"] two_labels(2-4) [OF b(4)]
  let ?b = "next_label g" and ?b' = "next_label (nnc_3a_mklabel g)"
  have placed: "emits g {} {?b', ?b} {?b'} j (loops g) (add_label ?b (nnc_3a_quads_add (jump_quad OP_UJUMP ?b' no_addr no_addr) g'))"
    if "emits g {} {?b', ?b} {?b', ?b} j (loops g) g'" for g' j
    using emits_place [OF emits_jump_to [OF that, of ?b' OP_UJUMP no_addr no_addr], of ?b] two by (simp add: insert_Diff_if)
  have last: "emits g {} {} {} j (loops g) (add_label ?b' g')" if "emits g {} {?b', ?b} {?b'} j (loops g) g'" for g' j
    using emits_place [OF that, of ?b'] two by (intro emits_done [of _ _ "{?b', ?b}"]) simp
  have "post (closed {} (2 + n + k + m) g) (nnc_expr_to_3a (EXPR_TERNARY t c l r) g)"
    unfolding operator_simps Let_def
    apply (rule makes_part [OF two(1) assms(1) b(3)])
    apply (rule post_bind_any)
    apply (rule makes_part [OF emits_cgt [OF emits_jump_to] assms(3) b(2)], assumption, simp)
    apply (rule post_bind_any)
    apply (rule makes_part [OF placed [OF emits_emit] assms(2) b(1)], assumption, simp)
    apply (auto intro!: post_bind_any last emits_emit)
    done
  then show "post (closed {} (2 + n + m + k) g) (nnc_expr_to_3a (EXPR_TERNARY t c l r) g)" by (simp add: ac_simps)
qed


definition index_makes :: "nnc_expression \<Rightarrow> bool" where
  "index_makes b \<longleftrightarrow> (\<forall>i first ns. makes (label_need i) (nnc_expr_to_3a i) \<longrightarrow>
     makes (label_need i + label_need b) (nnc_lval_index_to_3a_ex b i first ns))"

text \<open>The end of a chain of indices: the base is not an index expression.\<close>

lemma index_base_makes:
  assumes "makes (label_need b) (nnc_expr_to_3a b)" "\<And>t b' i'. b \<noteq> EXPR_INDEX t b' i'"
  shows "index_makes b"
  unfolding index_makes_def
proof (intro allI impI makesI)
  fix i first ns g assume i: "makes (label_need i) (nnc_expr_to_3a i)" and g: "lcnt g + (label_need i + label_need b) < 2 ^ 26"
  then have bnd: "lcnt g + (0 + label_need i + label_need b) < 2 ^ 26" "lcnt g + (0 + label_need i) < 2 ^ 26" by simp_all
  have c: "(case b of EXPR_INDEX _ b' i' \<Rightarrow> f b' i' | _ \<Rightarrow> h) = h" for f and h :: "gen3 res"
    using assms(2) by (cases b) auto
  show "post (closed {} (label_need i + label_need b) g) (nnc_lval_index_to_3a_ex b i first ns g)"
    unfolding nnc_lval_index_to_3a_ex.simps [of b] c Let_def
    apply (rule post_bind_any)
    apply (rule makes_part [OF emits_refl i bnd(2)])
    apply (rule post_bind_any)
    apply (rule post_bind_any)
    apply (rule post_bind [where P = "emits g {} {} {} (0 + label_need i) (loops g)"])
     apply (auto intro!: post_bind_any emits_new)[1]
    apply (rule post_bind_any)
    apply (rule makes_part [OF _ assms(1) bnd(1)], assumption)
    apply (auto intro!: post_bind_any emits_new)
    done
qed

lemma index_step_makes:
  assumes "index_makes b" "makes (label_need i) (nnc_expr_to_3a i)"
  shows "index_makes (EXPR_INDEX t b i)"
  unfolding index_makes_def
proof (intro allI impI makesI)
  fix j first ns g assume j: "makes (label_need j) (nnc_expr_to_3a j)"
    and g: "lcnt g + (label_need j + label_need (EXPR_INDEX t b i)) < 2 ^ 26"
  have m: "makes (label_need i + label_need b) (nnc_lval_index_to_3a_ex b i False ns')" for ns'
    using assms by (simp add: index_makes_def)
  have bnd: "lcnt g + (0 + label_need j + (label_need i + label_need b)) < 2 ^ 26" "lcnt g + (0 + label_need j) < 2 ^ 26"
    using g by simp_all
  show "post (closed {} (label_need j + label_need (EXPR_INDEX t b i)) g) (nnc_lval_index_to_3a_ex (EXPR_INDEX t b i) j first ns g)"
    unfolding nnc_lval_index_to_3a_ex.simps [of "EXPR_INDEX t b i"] Let_def nnc_expression.case
    apply (rule post_bind_any)
    apply (rule makes_part [OF emits_refl j bnd(2)])
    apply (rule post_bind_any)
    apply (rule post_bind_any)
    apply (rule post_bind [where P = "emits g {} {} {} (0 + label_need j) (loops g)"])
     apply (auto intro!: post_bind_any emits_new)[1]
    subgoal premises prems for a b' c d e
      using makesD [OF m, of e "butlast ns"] prems emits_count [OF prems(6)] bnd(1)
        emits_part [of g "{}" "{}" "{}" "0 + label_need j" "loops g" e "{}" "label_need i + label_need b"]
      by (auto simp: post_def add.assoc add.commute)
    done
qed

lemma args_make:
  assumes "\<And>a. a \<in> set args \<Longrightarrow> makes (label_need a) (nnc_expr_to_3a a)"
  shows "makes (sum_list (map label_need args)) (call_args_to_3a args)"
  using assms
proof (induction args)
  case Nil
  then show ?case by (auto intro!: makesI emits_refl)
next
  case (Cons a args)
  have "makes (label_need a) (nnc_expr_to_3a a)" using Cons.prems by simp
  note a = this
  have r: "makes (sum_list (map label_need args)) (call_args_to_3a args)" using Cons by simp
  show ?case
  proof (rule makesI)
    fix g assume "lcnt g + sum_list (map label_need (a # args)) < 2 ^ 26"
    then have bnd: "lcnt g + (0 + label_need a + sum_list (map label_need args)) < 2 ^ 26" "lcnt g + (0 + label_need a) < 2 ^ 26" by simp_all
    have "post (closed {} (0 + label_need a + sum_list (map label_need args)) g)
        (bind_res (nnc_expr_to_3a a g) (\<lambda>g. bind_res (nnc_3a_quads_res g) (\<lambda>v.
         bind_res (call_args_to_3a args (emit OP_ARG (nnc_3a_mkaddr no_addr (atype v)) v no_addr g)) Inr)))"
      apply (rule makes_part [OF emits_refl a bnd(2)])
      apply (rule post_bind_any)
      apply (rule makes_part [OF emits_emit r bnd(1)], assumption, simp)
      apply simp
      done
    moreover have "bind_res m Inr = m" for m :: "gen3 res" by (cases m) simp_all
    ultimately show "post (closed {} (sum_list (map label_need (a # args))) g) (call_args_to_3a (a # args) g)"
      by simp
  qed
qed

lemma call_makes:
  assumes "makes n (call_args_to_3a args)" "makes m (nnc_expr_to_3a f)"
  shows "makes (n + m) (nnc_call_to_3a t f args)"
proof (rule makesI)
  fix g assume "lcnt g + (n + m) < 2 ^ 26"
  then have bnd: "lcnt g + (0 + n + m) < 2 ^ 26" "lcnt g + (0 + n) < 2 ^ 26" by simp_all
  let ?h = "nnc_3a_quads_add (hint_quad OP_HINT_DECL_CALL) g"
  have h: "emits ?h {} {} {} 0 (loops ?h) ?h" by (rule emits_refl)
  have start: "emits g {} {} {} 0 (loops g) ?h"
    by (rule emits_quad [OF emits_refl]) (simp_all add: hint_quad_def no_quad_def is_jump_op)
  have same: "loops ?h = loops g" "lcnt ?h = lcnt g" by (simp_all add: nnc_3a_quads_add_def)
  have hint: "\<not> is_jump (quads g' ! length (quads g))" if "length (quads g) < length (quads g')"
    "emits ?h {} {} {} k lp g'" for g' k lp
  proof -
    from that(2) obtain ls js where e: "emitted ?h {} {} {} k lp g' ls js" by (auto simp: emits_def)
    have "take (Suc (length (quads g))) (map qop (quads g')) = map qop (quads g) @ [OP_HINT_DECL_CALL]"
      using emittedD(11) [OF e] by (simp add: nnc_3a_quads_add_def hint_quad_def no_quad_def)
    from arg_cong [OF this, of "\<lambda>xs. xs ! length (quads g)"] show ?thesis
      using that(1) by (simp add: nth_append is_jump_op)
  qed
  have "post (closed {} (0 + n + m) g) (nnc_call_to_3a t f args g)"
    unfolding nnc_call_to_3a.simps Let_def
    apply (rule makes_part [OF h assms(1)])
     apply (simp only: same bnd)
    apply (rule makes_part [OF _ assms(2)], assumption)
     apply (simp only: same bnd)
    apply (rule post_bind_any)
    subgoal for g1 g2 a
      using emits_call [of g "{}" "{}" "{}" "0 + n + m" "loops g" g2 "length (quads g)" t "length args" a]
        emits_part [OF start, of "{}" "0 + n + m" "loops g" g2] hint [of g2 "0 + n + m" "loops ?h"] same
      by simp
    done
  then show "post (closed {} (n + m) g) (nnc_call_to_3a t f args g)" by simp
qed

lemma lval_makes_then_deref:
  assumes "makes n (nnc_lval_expr_to_3a e)"
  shows "makes n (\<lambda>g. bind_res (nnc_lval_expr_to_3a e g) (\<lambda>g. bind_res (nnc_3a_quads_res g) (\<lambda>a. Inr (emit_new OP_DEREF t a no_addr g))))"
  by (rule makes_then [OF assms]) (auto intro!: post_bind_any emits_new)

definition expr_makes :: "nnc_expression \<Rightarrow> bool" where
  "expr_makes e \<longleftrightarrow> makes (label_need e) (nnc_expr_to_3a e) \<and> makes (label_need e) (nnc_lval_expr_to_3a e) \<and> index_makes e"

lemma abort_makes: "makes n (\<lambda>g. Inl e)"
  by (simp add: makes_def)

lemma makes_cong: "makes n f \<Longrightarrow> (\<And>g. f g = h g) \<Longrightarrow> makes n h"
  by (simp add: makes_def)


lemma expr_makes_leaf:
  assumes "makes (label_need e) (nnc_expr_to_3a e)" "makes (label_need e) (nnc_lval_expr_to_3a e)"
    "\<And>t b' i'. e \<noteq> EXPR_INDEX t b' i'"
  shows "expr_makes e"
  using assms index_base_makes [OF assms(1)] by (simp add: expr_makes_def)

lemma unary_makes:
  assumes "expr_makes e"
  shows "expr_makes (EXPR_UNARY k t e)"
proof (rule expr_makes_leaf)
  have e: "makes (label_need e) (nnc_expr_to_3a e)" "makes (label_need e) (nnc_lval_expr_to_3a e)"
    using assms by (simp_all add: expr_makes_def)
  have deref: "makes (label_need e) (nnc_lval_expr_to_3a (EXPR_UNARY UNARY_DEREF t e))"
    by (rule makes_cong [OF makes_then [OF e(1)]]) (auto intro!: post_bind_any emits_new)
  show "makes (label_need (EXPR_UNARY k t e)) (nnc_expr_to_3a (EXPR_UNARY k t e))"
  proof (cases "k \<in> {UNARY_PLUS, UNARY_MINUS, UNARY_BITWISE_NOT}")
    case True
    have "makes (label_need e) (\<lambda>g. bind_res (nnc_expr_to_3a e g) (\<lambda>g.
        bind_res (nnc_3a_quads_res g) (\<lambda>a. Inr (emit (un_op_map k) (nnc_3a_mkaddr a (Some t)) a no_addr g))))"
      by (rule makes_then [OF e(1)]) (auto intro!: post_bind_any emits_emit)
    note op = makes_cong [OF this]
    from True consider "k = UNARY_PLUS" | "k = UNARY_MINUS" | "k = UNARY_BITWISE_NOT" by auto
    then show ?thesis by cases (simp_all, (rule op, simp)+)
  next
    case False
    then consider "k = UNARY_REF" | "k = UNARY_NOT" | "k = UNARY_DEREF" | "k = UNARY_LENGTHOF" by (cases k) auto
    then show ?thesis
    proof cases
      case 1
      show ?thesis
      proof (cases "\<exists>i. e = EXPR_IDENT i")
        case True
        then obtain i where i: "e = EXPR_IDENT i" by blast
        have "makes 0 (nnc_expr_to_3a (EXPR_UNARY UNARY_REF t (EXPR_IDENT i)))"
          by (intro makesI) (auto intro!: post_bind_any emits_new emits_refl)
        then show ?thesis using 1 i by simp
      next
        case False
        then have "nnc_expr_to_3a (EXPR_UNARY k t e) g = nnc_lval_expr_to_3a e g" for g
          using 1 by (cases e) simp_all
        then show ?thesis using 1 makes_cong [OF e(2)] by simp
      qed
    next
      case 2
      then show ?thesis using not_makes [OF e(1)] by simp
    next
      case 3
      have "makes (label_need e) (nnc_expr_to_3a (EXPR_UNARY UNARY_DEREF t e))"
        by (rule makes_cong [OF makes_then [OF deref]]) (auto intro!: post_bind_any emits_new simp del: nnc_lval_expr_to_3a.simps)
      then show ?thesis using 3 by simp
    next
      case 4
      then show ?thesis by (auto intro!: makesI post_bind_any emits_new emits_refl)
    qed
  qed
  show "makes (label_need (EXPR_UNARY k t e)) (nnc_lval_expr_to_3a (EXPR_UNARY k t e))"
    using deref makes_cong [OF abort_makes] by (cases k) simp_all
qed simp

lemma binary_makes:
  assumes "expr_makes l" "expr_makes r"
  shows "expr_makes (EXPR_BINARY k t l r)"
proof (rule expr_makes_leaf)
  have l: "makes (label_need l) (nnc_expr_to_3a l)" "makes (label_need l) (nnc_lval_expr_to_3a l)"
    and r: "makes (label_need r) (nnc_expr_to_3a r)" using assms by (simp_all add: expr_makes_def)
  show "makes (label_need (EXPR_BINARY k t l r)) (nnc_expr_to_3a (EXPR_BINARY k t l r))"
  proof (cases "rel_op k")
    case (Some o')
    then show ?thesis using rel_makes [OF l(1) r Some] by simp
  next
    case None
    consider "k = BINARY_OR" | "k = BINARY_AND" | "k = BINARY_COMMA" | "k = BINARY_ASSIGN"
      | "k \<notin> {BINARY_OR, BINARY_AND, BINARY_COMMA, BINARY_ASSIGN}" by auto
    then show ?thesis
    proof cases
      case 1
      then show ?thesis using or_makes [OF l(1) r] by simp
    next
      case 2
      then show ?thesis using and_makes [OF l(1) r] by simp
    next
      case 3
      then show ?thesis using comma_makes [OF l(1) r] by (simp add: rel_op_def)
    next
      case 4
      then show ?thesis using assign_makes [OF l(2) r] by (simp add: rel_op_def)
    next
      case 5
      then show ?thesis using strict_makes [OF l(1) r None] None by simp
    qed
  qed
  show "makes (label_need (EXPR_BINARY k t l r)) (nnc_lval_expr_to_3a (EXPR_BINARY k t l r))"
    by (rule makes_cong [OF abort_makes]) simp
qed simp

lemma dot_makes:
  assumes "expr_makes e"
  shows "expr_makes (EXPR_DOT t e m)"
proof (rule expr_makes_leaf)
  have e: "makes (label_need e) (nnc_lval_expr_to_3a e)" using assms by (simp add: expr_makes_def)
  have d: "makes (label_need e) (nnc_lval_expr_to_3a (EXPR_DOT t e m))"
    by (rule makes_cong [OF makes_then [OF e]]) (auto intro!: post_bind_any emits_dot)
  then show "makes (label_need (EXPR_DOT t e m)) (nnc_lval_expr_to_3a (EXPR_DOT t e m))" by simp
  have "makes (label_need e) (nnc_expr_to_3a (EXPR_DOT t e m))"
    by (rule makes_cong [OF makes_then [OF d]]) (auto intro!: post_bind_any emits_new simp del: nnc_lval_expr_to_3a.simps)
  then show "makes (label_need (EXPR_DOT t e m)) (nnc_expr_to_3a (EXPR_DOT t e m))" by simp
qed simp

lemma index_expr_makes:
  assumes "expr_makes b" "expr_makes i"
  shows "expr_makes (EXPR_INDEX t b i)"
proof -
  have i: "makes (label_need i) (nnc_expr_to_3a i)" and b: "index_makes b" using assms by (simp_all add: expr_makes_def)
  have l: "makes (label_need i + label_need b) (nnc_lval_expr_to_3a (EXPR_INDEX t b i))"
  proof (rule makesI)
    fix g assume g: "lcnt g + (label_need i + label_need b) < 2 ^ 26"
    have "makes (label_need i + label_need b) (nnc_lval_index_to_3a_ex b i True ns)" for ns
      using b i unfolding index_makes_def by blast
    note p = makesD [OF this g]
    show "post (closed {} (label_need i + label_need b) g) (nnc_lval_expr_to_3a (EXPR_INDEX t b i) g)"
      unfolding nnc_lval_expr_to_3a.simps by (rule post_bind_any) (rule p)
  qed
  moreover have "makes (label_need i + label_need b) (nnc_expr_to_3a (EXPR_INDEX t b i))"
    by (rule makes_cong [OF makes_then [OF l]]) (auto intro!: post_bind_any emits_new simp del: nnc_lval_expr_to_3a.simps)
  moreover have "index_makes (EXPR_INDEX t b i)" by (rule index_step_makes [OF b i])
  ultimately show ?thesis by (simp add: expr_makes_def add.commute)
qed

lemma expr_makes: "expr_makes e"
proof (induction e)
  case (EXPR_DBL_LITERAL v t)
  show ?case by (rule expr_makes_leaf)
    (auto intro: makes_cong [OF literal_makes(1)] makes_cong [OF abort_makes])
next
  case (EXPR_INT_LITERAL v t)
  show ?case by (rule expr_makes_leaf)
    (auto intro: makes_cong [OF literal_makes(2)] makes_cong [OF abort_makes])
next
  case (EXPR_CHR_LITERAL v t)
  show ?case by (rule expr_makes_leaf)
    (auto intro: makes_cong [OF literal_makes(3)] makes_cong [OF abort_makes])
next
  case (EXPR_STR_LITERAL v t)
  show ?case by (rule expr_makes_leaf)
    (auto intro: makes_cong [OF literal_makes(4)] makes_cong [OF abort_makes])
next
  case (EXPR_IDENT i)
  show ?case by (rule expr_makes_leaf)
    (auto intro: makes_cong [OF ident_makes] makes_cong [OF lval_ident_makes])
next
  case (EXPR_UNARY k t e)
  then show ?case by (rule unary_makes)
next
  case (EXPR_CAST k t e to_t)
  then have e: "makes (label_need e) (nnc_expr_to_3a e)" by (simp add: expr_makes_def)
  show ?case
  proof (rule expr_makes_leaf)
    have "makes (label_need e) (nnc_expr_to_3a (EXPR_CAST k t e to_t))"
      by (rule makes_cong [OF makes_then [OF e]]) (auto intro!: post_bind_any emits_new)
    then show "makes (label_need (EXPR_CAST k t e to_t)) (nnc_expr_to_3a (EXPR_CAST k t e to_t))" by simp
    show "makes (label_need (EXPR_CAST k t e to_t)) (nnc_lval_expr_to_3a (EXPR_CAST k t e to_t))"
      by (rule makes_cong [OF abort_makes]) simp
  qed simp
next
  case (EXPR_SIZEOF t t')
  show ?case
  proof (rule expr_makes_leaf)
    show "makes (label_need (EXPR_SIZEOF t t')) (nnc_expr_to_3a (EXPR_SIZEOF t t'))"
      by (auto intro!: makesI post_bind_any emits_new emits_refl)
    show "makes (label_need (EXPR_SIZEOF t t')) (nnc_lval_expr_to_3a (EXPR_SIZEOF t t'))"
      by (rule makes_cong [OF abort_makes]) simp
  qed simp
next
  case (EXPR_DOT t e m)
  then show ?case by (rule dot_makes)
next
  case (EXPR_CALL t f args)
  then have "makes (sum_list (map label_need args) + label_need f) (nnc_call_to_3a t f args)"
    by (intro call_makes args_make) (auto simp: expr_makes_def)
  then show ?case by (intro expr_makes_leaf) (auto elim: makes_cong)
next
  case (EXPR_INDEX t b i)
  then show ?case by (rule index_expr_makes)
next
  case (EXPR_BINARY k t l r)
  then show ?case by (rule binary_makes)
next
  case (EXPR_TERNARY t c l r)
  then have "makes (2 + label_need c + label_need l + label_need r) (nnc_expr_to_3a (EXPR_TERNARY t c l r))"
    by (intro ternary_makes) (simp_all add: expr_makes_def)
  then show ?case by (intro expr_makes_leaf) (simp_all add: makes_cong [OF abort_makes])
qed

lemma expr_emits: "lcnt g + label_need e < 2 ^ 26 \<Longrightarrow> nnc_expr_to_3a e g = Inr g' \<Longrightarrow> closed {} (label_need e) g g'"
  using expr_makes [of e] by (auto simp: expr_makes_def makes_def post_def)


section \<open>Statements\<close>

definition loop_set :: "u32 \<times> u32 \<Rightarrow> u32 set" where
  "loop_set lp = {fst lp, snd lp} - {0}"

text \<open>A statement may also jump to the labels of the loop around it.\<close>

definition smakes :: "nat \<Rightarrow> (gen3 \<Rightarrow> gen3 res) \<Rightarrow> bool" where
  "smakes n f \<longleftrightarrow> (\<forall>g. lcnt g + n < 2 ^ 26 \<longrightarrow> post (closed (loop_set (loops g)) n g) (f g))"

lemma smakesI: "(\<And>g. lcnt g + n < 2 ^ 26 \<Longrightarrow> post (closed (loop_set (loops g)) n g) (f g)) \<Longrightarrow> smakes n f"
  by (simp add: smakes_def)

lemma smakesD: "smakes n f \<Longrightarrow> lcnt g + n < 2 ^ 26 \<Longrightarrow> post (closed (loop_set (loops g)) n g) (f g)"
  by (simp add: smakes_def)

lemma smakes_part:
  assumes "emits g0 J A U k lp g" "smakes n f" "lcnt g0 + (k + n) < 2 ^ 26" "loop_set lp \<subseteq> J \<union> A"
    and "\<And>g'. f g = Inr g' \<Longrightarrow> emits g0 J A U (k + n) lp g' \<Longrightarrow> post Q (h g')"
  shows "post Q (bind_res (f g) h)"
proof (rule post_bind_any)
  fix g' assume g': "f g = Inr g'"
  have c: "lcnt g = lcnt g0 + k" "loops g = lp" using emits_count [OF assms(1)] by simp_all
  then have "closed (loop_set lp) n g g'" using smakesD [OF assms(2), of g] assms(3) g' by (simp add: post_def add.assoc)
  from emits_part [OF assms(1) this assms(4)] c g' assms(5) show "post Q (h g')" by simp
qed

lemma emits_weaken: "emits g0 J A U k lp g \<Longrightarrow> J \<subseteq> J' \<Longrightarrow> emits g0 J' A U k lp g"
  unfolding emits_def emitted_def by blast

lemma expr_part:
  assumes "emits g0 J A U k lp g" "lcnt g0 + (k + label_need e) < 2 ^ 26"
    and "\<And>g'. emits g0 J A U (k + label_need e) lp g' \<Longrightarrow> post Q (h g')"
  shows "post Q (bind_res (nnc_expr_to_3a e g) h)"
  by (rule makes_part [OF assms(1) _ assms(2)]) (use expr_makes [of e] assms(3) in \<open>auto simp: expr_makes_def\<close>)

lemma expr_smakes: "smakes (label_need e) (nnc_expr_to_3a e)"
proof (rule smakesI)
  fix g assume "lcnt g + label_need e < 2 ^ 26"
  then have "post (closed {} (label_need e) g) (nnc_expr_to_3a e g)"
    using expr_makes [of e] makesD by (auto simp: expr_makes_def)
  then show "post (closed (loop_set (loops g)) (label_need e) g) (nnc_expr_to_3a e g)"
    unfolding post_def by (blast intro: emits_weaken)
qed

lemma smakes_then:
  assumes "\<And>g0 g J A U k lp. emits g0 J A U k lp g \<Longrightarrow> post (emits g0 J A U k lp) (h g)"
  shows "smakes (label_need e) (\<lambda>g. bind_res (nnc_expr_to_3a e g) h)"
proof (rule smakesI)
  fix g assume "lcnt g + label_need e < 2 ^ 26"
  then show "post (closed (loop_set (loops g)) (label_need e) g) (bind_res (nnc_expr_to_3a e g) h)"
    by (intro expr_part [OF emits_refl]) (use assms in auto)
qed

lemma emits_loops:
  assumes "emits g0 J A U k lp g"
  shows "emits g0 J A U k (out, iter) (g\<lparr>b_loop_out := out, b_loop_iter_ends := iter\<rparr>)"
proof -
  from assms obtain ls js where e: "emitted g0 J A U k lp g ls js" by (auto simp: emits_def)
  note e = emittedD [OF e]
  have "emitted g0 J A U k (out, iter) (g\<lparr>b_loop_out := out, b_loop_iter_ends := iter\<rparr>) ls js"
    unfolding emitted_def using e by simp
  then show ?thesis by (auto simp: emits_def)
qed

lemma emits_restore:
  assumes "emits g0 J A U k lp g"
  shows "emits g0 J A U k (loops s) (nnc_restore_loop_branches s g)"
  unfolding nnc_restore_loop_branches_def by (rule emits_loops [OF assms])

lemma emits_goto: "emits g0 J A U k lp g \<Longrightarrow> l \<in> J \<union> A \<Longrightarrow> emits g0 J A U k lp (goto_quad l g)"
  unfolding goto_quad_def by (rule emits_jump_to)

lemma post_test: "emits g0 J A U k lp g \<Longrightarrow> l \<in> J \<union> A \<Longrightarrow> post (emits g0 J A U k lp) (test_quad l g)"
  unfolding test_quad_def by (auto intro!: post_bind_any emits_jump_to)

fun stmt_need :: "nnc_statement \<Rightarrow> scope_ctx \<Rightarrow> nat"
  and stmts_need :: "nnc_statement list \<Rightarrow> scope_ctx \<Rightarrow> nat"
  and elifs_need :: "(nnc_expression \<times> nnc_statement) list \<Rightarrow> bool \<Rightarrow> scope_ctx \<Rightarrow> nat"
where
  "stmt_need (STMT_DO body c) sc = 2 + stmt_need body sc + label_need c"
| "stmt_need (STMT_IF c body elifs els) sc = 1 + (if elifs \<noteq> [] \<or> els \<noteq> None then 1 else 0) + label_need c + stmt_need body sc
     + elifs_need elifs (els \<noteq> None) sc + (case els of None \<Rightarrow> 0 | Some s \<Rightarrow> stmt_need s sc)"
| "stmt_need (STMT_LET x init) sc = (if sc = ST_GLOBAL \<or> sc = ST_NAMESPACE then 0 else case init of None \<Rightarrow> 0 | Some e \<Rightarrow> label_need e)"
| "stmt_need (STMT_FOR init c step body) sc = 3 + stmt_need init sc + stmt_need c sc + stmt_need body sc + stmt_need step sc"
| "stmt_need (STMT_EXPR e) sc = label_need e"
| "stmt_need (STMT_WHILE c body) sc = 2 + label_need c + stmt_need body sc"
| "stmt_need (STMT_RETURN body) sc = (case body of None \<Rightarrow> 0 | Some e \<Rightarrow> label_need e)"
| "stmt_need (STMT_COMPOUND scope ss) sc = stmts_need ss scope"
| "stmt_need (STMT_NAMESPACE x body) sc = stmt_need body sc"
| "stmt_need _ sc = 0"
| "stmts_need [] sc = 0"
| "stmts_need (s # ss) sc = stmt_need s sc + stmts_need ss sc"
| "elifs_need [] has_else sc = 0"
| "elifs_need ((c, body) # bs) has_else sc =
     (if bs \<noteq> [] \<or> has_else then 1 else 0) + label_need c + stmt_need body sc + elifs_need bs has_else sc"

lemma fst_snd_loops: "loop_set (a, b) = {a, b} - {0}"
  by (simp add: loop_set_def)

lemma let_smakes: "smakes (stmt_need (STMT_LET x init) sc) (nnc_let_stmt_to_3a x init sc)"
proof (cases "sc = ST_GLOBAL \<or> sc = ST_NAMESPACE")
  case True
  then show ?thesis by (auto intro!: smakesI emits_refl simp: nnc_let_stmt_to_3a_def)
next
  case False
  show ?thesis
  proof (rule smakesI)
    fix g assume g: "lcnt g + stmt_need (STMT_LET x init) sc < 2 ^ 26"
    have h: "emits g J {} {} 0 (loops g) (nnc_let_stmt_hint x g)" for J
      unfolding nnc_let_stmt_hint_def by (intro emits_emit emits_refl) simp
    show "post (closed (loop_set (loops g)) (stmt_need (STMT_LET x init) sc) g) (nnc_let_stmt_to_3a x init sc g)"
    proof (cases init)
      case None
      then show ?thesis using False h by (simp add: nnc_let_stmt_to_3a_def Let_def)
    next
      case (Some e)
      have "post (closed (loop_set (loops g)) (0 + label_need e) g) (bind_res (nnc_expr_to_3a e (nnc_let_stmt_hint x g))
          (\<lambda>g. bind_res (nnc_3a_quads_res g) (\<lambda>v. Inr (emit OP_COPY (nnc_3a_mkname1 x) v no_addr g))))"
        by (rule expr_part [OF h]) (use g Some False in \<open>auto intro!: post_bind_any emits_emit\<close>)
      then show ?thesis using False Some by (simp add: nnc_let_stmt_to_3a_def Let_def)
    qed
  qed
qed

lemma return_smakes: "smakes (stmt_need (STMT_RETURN body) sc) (nnc_return_stmt_to_3a body)"
proof (cases body)
  case None
  then show ?thesis by (auto intro!: smakesI emits_emit emits_refl simp: nnc_return_stmt_to_3a_def)
next
  case (Some e)
  have "smakes (label_need e) (\<lambda>g. bind_res (nnc_expr_to_3a e g) (\<lambda>g.
          bind_res (nnc_3a_quads_res g) (\<lambda>v. Inr (emit OP_RETF (nnc_3a_mkaddr no_addr (atype v)) v no_addr g))))"
    by (rule smakes_then) (auto intro!: post_bind_any emits_emit)
  then show ?thesis using Some by (simp add: nnc_return_stmt_to_3a_def [abs_def])
qed

lemma break_smakes: "smakes 0 nnc_break_stmt_to_3a" "smakes 0 nnc_continue_stmt_to_3a"
  unfolding nnc_break_stmt_to_3a_def [abs_def] nnc_continue_stmt_to_3a_def [abs_def]
  by (auto intro!: smakesI post_bind_any emits_jump_to emits_refl simp: loop_set_def assert_res_def split: if_splits)

text \<open>The loops: with the labels and the innermost loop set, the body may jump to them.\<close>

lemma loop_begins:
  assumes "emits g0 J A U k lp g" "out \<in> A" "iter \<in> A"
    and "\<And>g'. emits g0 J A U k (out, iter) g' \<Longrightarrow> quads g' = quads g \<Longrightarrow> post Q (h g')"
  shows "post Q (bind_res (nnc_set_loop_branches out iter g) h)"
  using emits_loops [OF assms(1)] assms(4) unfolding nnc_set_loop_branches_def
  by (auto intro!: post_bind_any simp: assert_res_def split: if_splits)

lemma loop_labels: "out \<in> A \<Longrightarrow> iter \<in> A \<Longrightarrow> loop_set (out, iter) \<subseteq> J \<union> A"
  by (auto simp: loop_set_def)


lemma while_smakes:
  assumes "smakes n (nnc_stmt_to_3a body sc)"
  shows "smakes (2 + label_need c + n) (nnc_while_stmt_to_3a c body sc)"
proof (rule smakesI)
  fix g assume "lcnt g + (2 + label_need c + n) < 2 ^ 26"
  then have b: "lcnt g + (2 + label_need c + n) < 2 ^ 26" "lcnt g + (2 + label_need c) < 2 ^ 26" "lcnt g + 2 < 2 ^ 26" by simp_all
  let ?i = "next_label g" and ?o = "next_label (nnc_3a_mklabel g)" and ?s = "nnc_3a_mklabel (nnc_3a_mklabel g)"
  let ?J = "loop_set (loops g)"
  note two = two_labels(1) [OF b(3), of ?J] two_labels(2-4) [OF b(3)]
  have s: "loops ?s = loops g" using emits_count [OF two(1)] by simp
  have begin': "emits g ?J {?o, ?i} {?o} k lp (add_label ?i g')" if "emits g ?J {?o, ?i} {?o, ?i} k lp g'" for g' k lp
    using emits_place [OF that, of ?i] two by (simp add: insert_Diff_if)
  have end': "emits g ?J {} {} k (loops g) (add_label ?o (goto_quad ?i (nnc_restore_loop_branches ?s g')))"
    if "emits g ?J {?o, ?i} {?o} k lp g'" for g' k lp
    using emits_place [OF emits_goto [OF emits_restore [OF that, of ?s]], of ?i ?o] two s
    by (intro emits_done [of _ _ "{?o, ?i}"]) simp
  show "post (closed ?J (2 + label_need c + n) g) (nnc_while_stmt_to_3a c body sc g)"
    unfolding nnc_while_stmt_to_3a.simps Let_def
    apply (rule loop_begins [OF two(1)], simp, simp)
    apply (rule expr_part [OF begin' b(2)], assumption)
    apply (rule post_bind [OF post_test], assumption, simp)
    apply (rule smakes_part [OF _ assms b(1)], assumption)
    apply (rule loop_labels, simp, simp)
    apply (simp add: end')
    done
qed

lemma do_smakes:
  assumes "smakes n (nnc_stmt_to_3a body sc)"
  shows "smakes (2 + n + label_need c) (nnc_do_stmt_to_3a body c sc)"
proof (rule smakesI)
  fix g assume "lcnt g + (2 + n + label_need c) < 2 ^ 26"
  then have b: "lcnt g + (2 + n + label_need c) < 2 ^ 26" "lcnt g + (2 + n) < 2 ^ 26" "lcnt g + 2 < 2 ^ 26" by simp_all
  let ?i = "next_label g" and ?o = "next_label (nnc_3a_mklabel g)" and ?s = "nnc_3a_mklabel (nnc_3a_mklabel g)"
  let ?J = "loop_set (loops g)"
  note two = two_labels(1) [OF b(3), of ?J] two_labels(2-4) [OF b(3)]
  have s: "loops ?s = loops g" using emits_count [OF two(1)] by simp
  have begin': "emits g ?J {?o, ?i} {?o} k lp (add_label ?i g')" if "emits g ?J {?o, ?i} {?o, ?i} k lp g'" for g' k lp
    using emits_place [OF that, of ?i] two by (simp add: insert_Diff_if)
  have end': "emits g ?J {} {} k (loops g) (add_label ?o (goto_quad ?i (nnc_restore_loop_branches ?s g')))"
    if "emits g ?J {?o, ?i} {?o} k lp g'" for g' k lp
    using emits_place [OF emits_goto [OF emits_restore [OF that, of ?s]], of ?i ?o] two s
    by (intro emits_done [of _ _ "{?o, ?i}"]) simp
  show "post (closed ?J (2 + n + label_need c) g) (nnc_do_stmt_to_3a body c sc g)"
    unfolding nnc_do_stmt_to_3a.simps Let_def
    apply (rule loop_begins [OF two(1)], simp, simp)
    apply (rule smakes_part [OF begin' assms b(2)], assumption)
    apply (rule loop_labels, simp, simp)
    apply (rule expr_part [OF _ b(1)], assumption)
    apply (rule post_bind [OF post_test], assumption, simp)
    apply (simp add: end')
    done
qed

lemma for_smakes:
  assumes "smakes n (nnc_stmt_to_3a init sc)" "smakes m (nnc_stmt_to_3a c sc)" "smakes j (nnc_stmt_to_3a body sc)"
    "smakes i (nnc_stmt_to_3a step sc)"
  shows "smakes (3 + n + m + j + i) (nnc_for_stmt_to_3a init c step body sc)"
proof (rule smakesI)
  fix g assume "lcnt g + (3 + n + m + j + i) < 2 ^ 26"
  then have b: "lcnt g + (3 + n + m + j + i) < 2 ^ 26" "lcnt g + (3 + n + m + j) < 2 ^ 26" "lcnt g + (3 + n + m) < 2 ^ 26"
    "lcnt g + (3 + n) < 2 ^ 26" "lcnt g + 2 < 2 ^ 26" "lcnt g + 2 + 1 < 2 ^ 26" by simp_all
  let ?i = "next_label g" and ?st = "next_label (nnc_3a_mklabel g)" and ?g = "nnc_3a_mklabel (nnc_3a_mklabel g)"
  let ?o = "next_label ?g" and ?s = "nnc_3a_mklabel ?g" and ?J = "loop_set (loops g)"
  note two = two_labels(1) [OF b(5), of ?J] two_labels(2-4) [OF b(5)]
  note o' = emits_label [OF two(1) b(6)]
  have three: "emits g ?J {?o, ?st, ?i} {?o, ?st, ?i} 3 (loops g) ?s" using o' by (simp add: numeral_3_eq_3)
  have d: "?o \<noteq> 0" "?o \<noteq> ?i" "?o \<noteq> ?st" "?i \<noteq> 0" "?st \<noteq> 0" "?i \<noteq> ?st" using o' two by auto
  have s: "loops ?s = loops g" using emits_count [OF three] by simp
  have begin': "emits g ?J {?o, ?st, ?i} {?o, ?st} k lp (add_label ?i g')" if "emits g ?J {?o, ?st, ?i} {?o, ?st, ?i} k lp g'" for g' k lp
    using emits_place [OF that, of ?i] d by (simp add: insert_Diff_if)
  have step': "emits g ?J {?o, ?st, ?i} {?o} k lp (add_label ?st g')" if "emits g ?J {?o, ?st, ?i} {?o, ?st} k lp g'" for g' k lp
    using emits_place [OF that, of ?st] d by (simp add: insert_Diff_if)
  have end': "emits g ?J {} {} k (loops g) (add_label ?o (goto_quad ?i (nnc_restore_loop_branches ?s g')))"
    if "emits g ?J {?o, ?st, ?i} {?o} k lp g'" for g' k lp
    using emits_place [OF emits_goto [OF emits_restore [OF that, of ?s]], of ?i ?o] d s
    by (intro emits_done [of _ _ "{?o, ?st, ?i}"]) simp
  show "post (closed ?J (3 + n + m + j + i) g) (nnc_for_stmt_to_3a init c step body sc g)"
    unfolding nnc_for_stmt_to_3a.simps Let_def
    apply (rule loop_begins [OF three], simp, simp)
    apply (rule smakes_part [OF _ assms(1) b(4)], assumption)
    apply (rule loop_labels, simp, simp)
    apply (rule smakes_part [OF begin' assms(2) b(3)], assumption)
    apply (rule loop_labels, simp, simp)
    apply (rule post_bind [where P = "emits g ?J {?o, ?st, ?i} {?o, ?st} (3 + n + m) (?o, ?st)"])
     apply (auto intro!: post_test)[1]
    apply (rule smakes_part [OF _ assms(3) b(2)], assumption)
    apply (rule loop_labels, simp, simp)
    apply (rule smakes_part [OF step' assms(4) b(1)], assumption)
    apply (rule loop_labels, simp, simp)
    apply (simp add: end')
    done
qed


lemma branch_part:
  assumes "emits g0 J A U k lp g" "smakes n (nnc_stmt_to_3a body sc)" "lcnt g0 + (k + label_need c + n) < 2 ^ 26"
    "loop_set lp \<subseteq> J \<union> A" "bt \<in> A" "bn \<in> A"
    and "\<And>g'. emits g0 J A U (k + label_need c + n) lp g' \<Longrightarrow> post Q (h g')"
  shows "post Q (bind_res (nnc_if_branch_to_3a c body bt bn sc g) h)"
proof -
  have b: "lcnt g0 + (k + label_need c) < 2 ^ 26" using assms(3) by simp
  have "post (emits g0 J A U (k + label_need c + n) lp) (nnc_if_branch_to_3a c body bt bn sc g)"
    unfolding nnc_if_branch_to_3a.simps
    apply (rule expr_part [OF assms(1) b])
    apply (rule post_bind [OF post_test], assumption, simp add: assms)
    apply (rule smakes_part [OF _ assms(2,3,4)], assumption)
    apply (auto simp: branch_end_def assms intro: emits_goto)
    done
  from post_bind [OF this assms(7)] show ?thesis by simp
qed

text \<open>
  Between the branches of an \<^verbatim>\<open>if\<close> the labels not placed are that of its end and that of the next
  branch, which are the same exactly when there is no next branch.
\<close>

definition if_state :: "gen3 \<Rightarrow> u32 set \<Rightarrow> nat \<Rightarrow> u32 \<times> u32 \<Rightarrow> u32 \<Rightarrow> u32 \<Rightarrow> bool \<Rightarrow> gen3 \<Rightarrow> bool" where
  "if_state g0 J k lp bt bn nb g \<longleftrightarrow> (\<exists>A. emits g0 J A {bt, bn} k lp g) \<and> bt \<noteq> 0 \<and> bn \<noteq> 0 \<and> (bt \<noteq> bn) = nb"

lemma next_branch:
  assumes "if_state g0 J k lp bt bn True g" "nb \<Longrightarrow> lcnt g0 + k + 1 < 2 ^ 26"
  shows "if_state g0 J (k + (if nb then 1 else 0)) lp bt (if nb then next_label (add_label bn g) else bt) nb
    (if nb then nnc_3a_mklabel (add_label bn g) else add_label bn g)"
proof -
  from assms(1) obtain A where e: "emits g0 J A {bt, bn} k lp g" and d: "bt \<noteq> 0" "bn \<noteq> 0" "bt \<noteq> bn" by (auto simp: if_state_def)
  from emits_place [OF e, of bn] d have p: "emits g0 J A {bt} k lp (add_label bn g)" by (simp add: insert_Diff_if)
  show ?thesis
  proof (cases nb)
    case True
    from emits_label [OF p assms(2) [OF True]] have n: "emits g0 J (insert (next_label (add_label bn g)) A)
        {next_label (add_label bn g), bt} (k + 1) lp (nnc_3a_mklabel (add_label bn g))" "next_label (add_label bn g) \<noteq> 0"
      "next_label (add_label bn g) \<notin> A" by auto
    from p have "bt \<in> A" by (auto simp: emits_def emitted_def)
    then show ?thesis using n d True by (auto simp: if_state_def insert_commute)
  next
    case False
    then show ?thesis using p d by (auto simp: if_state_def)
  qed
qed

lemma elifs_make:
  assumes "\<And>c body. (c, body) \<in> set bs \<Longrightarrow> smakes (stmt_need body sc) (nnc_stmt_to_3a body sc)"
    and "if_state g0 J k lp bt bn (bs \<noteq> [] \<or> has_else) g" "lcnt g0 + (k + elifs_need bs has_else sc) < 2 ^ 26"
    "loop_set lp \<subseteq> J"
  shows "post (\<lambda>(g', bn'). if_state g0 J (k + elifs_need bs has_else sc) lp bt bn' has_else g')
    (elifs_to_3a bs has_else bt bn sc g)"
  using assms
proof (induction bs arbitrary: k bn g)
  case Nil
  then show ?case by simp
next
  case (Cons b bs)
  obtain c body where b: "b = (c, body)" by (cases b)
  let ?more = "bs \<noteq> [] \<or> has_else"
  let ?k = "k + (if ?more then 1 else 0)"
  let ?bn = "if ?more then next_label (add_label bn g) else bt"
  let ?g = "if ?more then nnc_3a_mklabel (add_label bn g) else add_label bn g"
  have i: "if_state g0 J ?k lp bt ?bn ?more ?g"
    by (rule next_branch) (use Cons.prems(2,3) b in \<open>simp_all split: if_splits\<close>)
  then obtain A where e: "emits g0 J A {bt, ?bn} ?k lp ?g" and d: "bt \<noteq> 0" "?bn \<noteq> 0" "(bt \<noteq> ?bn) = ?more"
    unfolding if_state_def by blast
  from e obtain ls js where e': "emitted g0 J A {bt, ?bn} ?k lp ?g ls js" unfolding emits_def by blast
  note U = emittedD(9) [OF e']
  have body: "smakes (stmt_need body sc) (nnc_stmt_to_3a body sc)" using Cons.prems(1) b by auto
  have bnd: "lcnt g0 + (?k + label_need c + stmt_need body sc) < 2 ^ 26" using Cons.prems(3) b by (simp split: if_splits)
  let ?Q = "\<lambda>(g', bn'). if_state g0 J (?k + label_need c + stmt_need body sc + elifs_need bs has_else sc) lp bt bn' has_else g'"
  have 1: "post ?Q (bind_res (nnc_if_branch_to_3a c body bt ?bn sc ?g) (\<lambda>g. elifs_to_3a bs has_else bt ?bn sc g))"
  proof (rule branch_part [OF e body bnd])
    show "loop_set lp \<subseteq> J \<union> A" "bt \<in> A" "?bn \<in> A" using Cons.prems(4) U by blast+
    fix g' assume "emits g0 J A {bt, ?bn} (?k + label_need c + stmt_need body sc) lp g'"
    then have "if_state g0 J (?k + label_need c + stmt_need body sc) lp bt ?bn ?more g'" using d unfolding if_state_def by blast
    then show "post ?Q (elifs_to_3a bs has_else bt ?bn sc g')"
      by (rule Cons.IH [rotated]) (use Cons.prems b in \<open>auto split: if_splits\<close>)
  qed
  have 2: "elifs_to_3a (b # bs) has_else bt bn sc g =
      bind_res (nnc_if_branch_to_3a c body bt ?bn sc ?g) (\<lambda>g. elifs_to_3a bs has_else bt ?bn sc g)"
    unfolding b elifs_to_3a.simps(2) Let_def by (cases ?more) (simp_all only: if_True if_False prod.case)
  have 3: "?k + label_need c + stmt_need body sc + elifs_need bs has_else sc = k + elifs_need (b # bs) has_else sc"
    by (simp add: b)
  show ?case unfolding 2 by (rule 1 [unfolded 3])
qed


lemma if_smakes:
  assumes "smakes (stmt_need body sc) (nnc_stmt_to_3a body sc)"
    and "\<And>c body. (c, body) \<in> set bs \<Longrightarrow> smakes (stmt_need body sc) (nnc_stmt_to_3a body sc)"
    and "\<And>s. els = Some s \<Longrightarrow> smakes (stmt_need s sc) (nnc_stmt_to_3a s sc)"
  shows "smakes (stmt_need (STMT_IF c body bs els) sc) (nnc_if_stmt_to_3a c body bs els sc)"
proof (rule smakesI)
  fix g assume "lcnt g + stmt_need (STMT_IF c body bs els) sc < 2 ^ 26"
  let ?more = "bs \<noteq> [] \<or> els \<noteq> None" and ?e = "els \<noteq> None" and ?J = "loop_set (loops g)" and ?lp = "loops g"
  let ?bt = "next_label g" and ?g = "nnc_3a_mklabel g"
  let ?bn = "if ?more then next_label ?g else ?bt"
  let ?g' = "if ?more then nnc_3a_mklabel ?g else ?g"
  let ?k = "1 + (if ?more then 1 else 0)"
  let ?k1 = "?k + label_need c + stmt_need body sc"
  let ?k2 = "?k1 + elifs_need bs ?e sc"
  let ?k3 = "?k2 + (case els of None \<Rightarrow> 0 | Some s \<Rightarrow> stmt_need s sc)"
  have need: "stmt_need (STMT_IF c body bs els) sc = ?k3" by simp
  have b: "lcnt g + ?k3 < 2 ^ 26" using \<open>lcnt g + _ < _\<close> unfolding need .
  show "post (closed ?J (stmt_need (STMT_IF c body bs els) sc) g) (nnc_if_stmt_to_3a c body bs els sc g)"
  proof -
    have i: "if_state g ?J ?k ?lp ?bt ?bn ?more ?g'"
    proof (cases ?more)
      case True
      then have "lcnt g + 2 < 2 ^ 26" using b by (simp split: if_splits)
      from two_labels(1) [OF this, of ?J] two_labels(2-4) [OF this] True show ?thesis
        by (auto simp: if_state_def insert_commute numeral_2_eq_2)
    next
      case False
      then have "lcnt g + 0 + 1 < 2 ^ 26" using b by simp
      from emits_label [OF emits_refl this, of ?J] False show ?thesis by (auto simp: if_state_def)
    qed
    then obtain A where e: "emits g ?J A {?bt, ?bn} ?k ?lp ?g'" and d: "?bt \<noteq> 0" "?bn \<noteq> 0" "(?bt \<noteq> ?bn) = ?more"
      unfolding if_state_def by blast
    from e obtain ls js where e': "emitted g ?J A {?bt, ?bn} ?k ?lp ?g' ls js" unfolding emits_def by blast
    note U = emittedD(9) [OF e']
    have bnd: "lcnt g + ?k1 < 2 ^ 26" "lcnt g + ?k2 < 2 ^ 26" using b by simp_all
    have eq: "nnc_if_stmt_to_3a c body bs els sc g = bind_res (nnc_if_branch_to_3a c body ?bt ?bn sc ?g') (\<lambda>g.
      bind_res (elifs_to_3a bs ?e ?bt ?bn sc g) (\<lambda>(g, b_next).
      bind_res (case els of None \<Rightarrow> Inr g | Some s \<Rightarrow> nnc_stmt_to_3a s sc (add_label b_next g)) (\<lambda>g. Inr (add_label ?bt g))))"
      unfolding nnc_if_stmt_to_3a.simps Let_def by (cases ?more) (simp_all only: if_True if_False prod.case)
    show ?thesis
      unfolding need eq
    proof (rule branch_part [OF e assms(1) bnd(1)])
      show "?J \<subseteq> ?J \<union> A" "?bt \<in> A" "?bn \<in> A" using U by blast+
      fix g1 assume "emits g ?J A {?bt, ?bn} ?k1 ?lp g1"
      then have "if_state g ?J ?k1 ?lp ?bt ?bn ?more g1" using d unfolding if_state_def by blast
      show "post (closed ?J ?k3 g) (bind_res (elifs_to_3a bs ?e ?bt ?bn sc g1) (\<lambda>(g, b_next).
        bind_res (case els of None \<Rightarrow> Inr g | Some s \<Rightarrow> nnc_stmt_to_3a s sc (add_label b_next g)) (\<lambda>g. Inr (add_label ?bt g))))"
      proof (rule post_bind [OF elifs_make [OF assms(2) \<open>if_state g ?J ?k1 ?lp ?bt ?bn ?more g1\<close> bnd(2) subset_refl]], assumption)
        fix x assume "case x of (g2, bn) \<Rightarrow> if_state g ?J ?k2 ?lp ?bt bn ?e g2"
        then obtain g2 bn where x: "x = (g2, bn)" and "if_state g ?J ?k2 ?lp ?bt bn ?e g2" by (cases x) auto
        then obtain B where e2: "emits g ?J B {?bt, bn} ?k2 ?lp g2" and d2: "bn \<noteq> 0" "(?bt \<noteq> bn) = ?e" unfolding if_state_def by blast
        have last: "emits g ?J {} {} k ?lp (add_label ?bt g3)" if "emits g ?J B {?bt} k ?lp g3" for k g3
          using emits_place [OF that, of ?bt] d by (intro emits_done [of _ _ B]) simp
        show "post (closed ?J ?k3 g) (case x of (g, b_next) \<Rightarrow>
          bind_res (case els of None \<Rightarrow> Inr g | Some s \<Rightarrow> nnc_stmt_to_3a s sc (add_label b_next g)) (\<lambda>g. Inr (add_label ?bt g)))"
        proof (cases els)
          case None
          then show ?thesis using e2 d2 last by (simp add: x)
        next
          case (Some s)
          have p: "emits g ?J B {?bt} ?k2 ?lp (add_label bn g2)" using emits_place [OF e2, of bn] d2 Some by (simp add: insert_Diff_if)
          have "post (closed ?J (?k2 + stmt_need s sc) g) (bind_res (nnc_stmt_to_3a s sc (add_label bn g2)) (\<lambda>g. Inr (add_label ?bt g)))"
            by (rule smakes_part [OF p assms(3) [OF Some]]) (use b Some last in auto)
          then show ?thesis unfolding x Some by simp
        qed
      qed
    qed
  qed
qed


lemma compound_smakes:
  assumes "\<And>s. s \<in> set ss \<Longrightarrow> smakes (stmt_need s sc) (nnc_stmt_to_3a s sc)"
  shows "smakes (stmts_need ss sc) (nnc_compound_stmt_to_3a ss sc)"
  using assms
proof (induction ss)
  case Nil
  then show ?case by (auto intro!: smakesI emits_refl)
next
  case (Cons s ss)
  have s: "smakes (stmt_need s sc) (nnc_stmt_to_3a s sc)" and r: "smakes (stmts_need ss sc) (nnc_compound_stmt_to_3a ss sc)"
    using Cons by simp_all
  show ?case
  proof (rule smakesI)
    fix g assume "lcnt g + stmts_need (s # ss) sc < 2 ^ 26"
    then have b: "lcnt g + (0 + stmt_need s sc + stmts_need ss sc) < 2 ^ 26" "lcnt g + (0 + stmt_need s sc) < 2 ^ 26" by simp_all
    have "post (closed (loop_set (loops g)) (0 + stmt_need s sc + stmts_need ss sc) g)
      (bind_res (nnc_stmt_to_3a s sc g) (\<lambda>g. bind_res (nnc_compound_stmt_to_3a ss sc g) Inr))"
      apply (rule smakes_part [OF emits_refl [of g "loop_set (loops g)"] s b(2)], simp)
      apply (rule smakes_part [OF _ r b(1)], assumption)
      apply auto
      done
    moreover have "bind_res m Inr = m" for m :: "gen3 res" by (cases m) simp_all
    ultimately show "post (closed (loop_set (loops g)) (stmts_need (s # ss) sc) g) (nnc_compound_stmt_to_3a (s # ss) sc g)"
      by simp
  qed
qed

lemma nothing_smakes: "smakes 0 Inr"
  by (auto intro!: smakesI emits_refl)

lemma stmt_smakes: "smakes (stmt_need s sc) (nnc_stmt_to_3a s sc)"
proof (induction s arbitrary: sc)
  case (STMT_FN x body)
  then show ?case by (auto intro!: smakesI)
next
  case (STMT_IF c body bs els)
  have "smakes (stmt_need (STMT_IF c body bs els) sc) (nnc_if_stmt_to_3a c body bs els sc)"
    by (rule if_smakes) (use STMT_IF in \<open>fastforce+\<close>)
  then show ?case by (simp only: nnc_stmt_to_3a.simps [abs_def])
next
  case (STMT_DO body c)
  then show ?case using do_smakes [of "stmt_need body sc" body sc c] by (simp only: nnc_stmt_to_3a.simps [abs_def] stmt_need.simps)
next
  case (STMT_LET x init)
  then show ?case using let_smakes [of x init sc] by (simp only: nnc_stmt_to_3a.simps [abs_def])
next
  case (STMT_FOR init c step body)
  then show ?case using for_smakes [of "stmt_need init sc" init sc "stmt_need c sc" c "stmt_need body sc" body "stmt_need step sc" step]
    by (simp only: nnc_stmt_to_3a.simps [abs_def] stmt_need.simps)
next
  case STMT_TYPE
  then show ?case using nothing_smakes by (simp only: nnc_stmt_to_3a.simps [abs_def] stmt_need.simps)
next
  case (STMT_EXPR e)
  then show ?case using expr_smakes [of e] by (simp only: nnc_stmt_to_3a.simps [abs_def] stmt_need.simps)
next
  case (STMT_WHILE c body)
  then show ?case using while_smakes [of "stmt_need body sc" body sc c] by (simp only: nnc_stmt_to_3a.simps [abs_def] stmt_need.simps)
next
  case STMT_EMPTY
  then show ?case using nothing_smakes by (simp only: nnc_stmt_to_3a.simps [abs_def] stmt_need.simps)
next
  case STMT_BREAK
  then show ?case using break_smakes by (simp only: nnc_stmt_to_3a.simps [abs_def] stmt_need.simps)
next
  case STMT_CONTINUE
  then show ?case using break_smakes by (simp only: nnc_stmt_to_3a.simps [abs_def] stmt_need.simps)
next
  case (STMT_RETURN body)
  then show ?case using return_smakes [of body sc] by (simp only: nnc_stmt_to_3a.simps [abs_def])
next
  case (STMT_COMPOUND scope ss)
  then show ?case using compound_smakes [of ss scope] by (simp only: nnc_stmt_to_3a.simps [abs_def] stmt_need.simps)
next
  case (STMT_NAMESPACE x body)
  then show ?case by (simp only: nnc_stmt_to_3a.simps [abs_def] stmt_need.simps)
qed

section \<open>Programs\<close>

definition ir_code :: "ir_sym \<Rightarrow> nnc_quad list" where
  "ir_code y = (case y of IR_PROC p \<Rightarrow> pquads p | IR_VAR v \<Rightarrow> ir_quads v | IR_NONE \<Rightarrow> [])"

text \<open>The number of labels a statement at the top of a file needs.\<close>

definition top_need :: "nnc_statement \<Rightarrow> scope_ctx \<Rightarrow> nat" where
  "top_need s sc = (case s of STMT_FN x body \<Rightarrow> stmt_need body sc
     | STMT_LET x init \<Rightarrow> (case init of None \<Rightarrow> 0 | Some e \<Rightarrow> label_need e) | _ \<Rightarrow> 0)"

text \<open>Between two statements at the top: no quads are left over and no loop is open.\<close>

definition at_top :: "gen3 \<Rightarrow> bool" where
  "at_top g \<longleftrightarrow> quads g = [] \<and> loops g = (0, 0)"

lemma closed_resolves:
  assumes "closed (loop_set (loops g)) n g g'" "at_top g"
  shows "jumps_resolve (quads g')" "set (labels_of (quads g')) \<subseteq> between (lcnt g) (lcnt g')" "lcnt g' = lcnt g + n"
    "loops g' = (0, 0)"
proof -
  have t: "quads g = []" "loops g = (0, 0)" "loop_set (loops g) = {}" using assms(2) by (auto simp: at_top_def loop_set_def)
  from assms(1) obtain ls js where e: "emitted g (loop_set (loops g)) {} {} n (loops g) g' ls js" by (auto simp: emits_def)
  note e = emittedD [OF e]
  have l: "labels_of (quads g') = ls" "jumps_of (quads g') = js" using e t(1) by (simp_all add: labels_of_def jumps_of_def)
  then show "set (labels_of (quads g')) \<subseteq> between (lcnt g) (lcnt g')" using e by simp
  show "lcnt g' = lcnt g + n" "loops g' = (0, 0)" using e t by simp_all
  have "set (jumps_of (quads g')) \<subseteq> set (labels_of (quads g'))" using e t l by simp
  then have "is_jump q \<Longrightarrow> q \<in> set (quads g') \<Longrightarrow> jump_label q \<in> set (labels_of (quads g'))" for q
    by (auto simp: jumps_of_def)
  then show "jumps_resolve (quads g')"
    using e(5) l(1) unfolding jumps_resolve_def labels_of_def by (auto simp: list_all_iff)
qed


lemma top_step:
  assumes "at_top g" "lcnt g + top_need s sc < 2 ^ 26" "nnc_gen_ir False fo s sc (g, ys) = Inr (g', ys')"
  shows "\<exists>y. ys' = ys @ [y] \<and> at_top g' \<and> lcnt g' = lcnt g + top_need s sc \<and> jumps_resolve (ir_code y) \<and>
    set (labels_of (ir_code y)) \<subseteq> between (lcnt g) (lcnt g')"
proof -
  have none: ?thesis if "ys' = ys @ [IR_NONE]" "g' = g" "top_need s sc = 0"
    using that assms(1) by (simp add: ir_code_def jumps_resolve_def labels_of_def)
  consider x body where "s = STMT_FN x body" | x init where "s = STMT_LET x init"
    | "\<forall>x body. s \<noteq> STMT_FN x body" "\<forall>x init. s \<noteq> STMT_LET x init" by (cases s) auto
  then show ?thesis
  proof cases
    case 1
    then obtain g1 where g1: "nnc_stmt_to_3a body sc (g\<lparr>cgt_cnt := 0\<rparr>) = Inr g1" and r: "g' = g1\<lparr>quads := []\<rparr>"
      and y: "\<exists>p. ys' = ys @ [IR_PROC p] \<and> pquads p = quads g1"
      using assms(3) by (auto simp: nnc_gen_ir_def nnc_gen_ir_proc_def nnc_ir_commit_def bind_res_eq_Inr split: prod.splits)
    let ?g = "g\<lparr>cgt_cnt := 0\<rparr>"
    have t: "at_top ?g" using assms(1) by (simp add: at_top_def)
    have "closed (loop_set (loops ?g)) (stmt_need body sc) ?g g1"
      by (rule postD [OF smakesD [OF stmt_smakes] g1]) (use assms(2) 1 in \<open>simp add: top_need_def\<close>)
    note c = closed_resolves [OF this t]
    from c(4) have "at_top g'" by (simp add: r at_top_def)
    then show ?thesis using c y 1 r by (auto simp: top_need_def ir_code_def)
  next
    case 2
    then obtain g1 where g1: "(case init of None \<Rightarrow> Inr g | Some e \<Rightarrow> nnc_expr_to_3a e g) = Inr g1" and r: "g' = g1\<lparr>quads := []\<rparr>"
      and y: "\<exists>v. ys' = ys @ [IR_VAR v] \<and> ir_quads v = quads g1"
      using assms(3) by (auto simp: nnc_gen_ir_def nnc_gen_ir_var_def nnc_ir_commit_def bind_res_eq_Inr split: prod.splits)
    have "closed (loop_set (loops g)) (top_need s sc) g g1"
    proof (cases init)
      case None
      then show ?thesis using g1 2 emits_refl by (simp add: top_need_def)
    next
      case (Some e)
      have "closed (loop_set (loops g)) (label_need e) g g1"
        by (rule postD [OF smakesD [OF expr_smakes]]) (use g1 assms(2) Some 2 in \<open>simp_all add: top_need_def\<close>)
      then show ?thesis using Some 2 by (simp add: top_need_def)
    qed
    note c = closed_resolves [OF this assms(1)]
    from c(4) have "at_top g'" by (simp add: r at_top_def)
    then show ?thesis using c y r by (auto simp: ir_code_def)
  next
    case 3
    then show ?thesis using assms(3) by (intro none) (cases s; simp add: nnc_gen_ir_def top_need_def)+
  qed
qed

definition ir_resolves :: "ir_sym \<Rightarrow> bool" where
  "ir_resolves y = jumps_resolve (ir_code y)"

definition ir_labels :: "ir_sym \<Rightarrow> u32 list" where
  "ir_labels y = labels_of (ir_code y)"

abbreviation gen_program :: "f64_ops \<Rightarrow> nnc_statement list \<Rightarrow> gen3 \<times> ir_sym list \<Rightarrow> (gen3 \<times> ir_sym list) res" where
  "gen_program fo \<equiv> fold_res (\<lambda>s. nnc_gen_ir False fo s ST_GLOBAL)"

lemma program_step:
  assumes "at_top g" "lcnt g + (\<Sum>s\<leftarrow>ss. top_need s ST_GLOBAL) < 2 ^ 26" "gen_program fo ss (g, ys) = Inr (g', ys')"
    and "list_all (ir_resolves) ys" "distinct (concat (map ir_labels ys))"
    "\<forall>l \<in> set (concat (map ir_labels ys)). unat l \<le> lcnt g"
  shows "list_all (ir_resolves) ys' \<and> distinct (concat (map ir_labels ys')) \<and> at_top g'"
  using assms
proof (induction ss arbitrary: g ys)
  case Nil
  then show ?case by simp
next
  case (Cons s ss)
  from Cons.prems(3) obtain g1 ys1 where s: "nnc_gen_ir False fo s ST_GLOBAL (g, ys) = Inr (g1, ys1)"
    and r: "gen_program fo ss (g1, ys1) = Inr (g', ys')" by (auto simp: bind_res_eq_Inr)
  have b: "lcnt g + top_need s ST_GLOBAL < 2 ^ 26" using Cons.prems(2) by simp
  from top_step [OF Cons.prems(1) b s, folded ir_resolves_def ir_labels_def] obtain y where y: "ys1 = ys @ [y]" "at_top g1" "lcnt g1 = lcnt g + top_need s ST_GLOBAL"
    "ir_resolves y" "set (ir_labels y) \<subseteq> between (lcnt g) (lcnt g1)" by blast
  have d: "distinct (ir_labels y)" using y(4) by (simp add: ir_resolves_def ir_labels_def jumps_resolve_def labels_of_def)
  have "set (concat (map ir_labels ys)) \<inter> set (ir_labels y) = {}"
    using y(5) Cons.prems(6) unfolding between_def by fastforce
  then have "distinct (concat (map ir_labels ys1))" using d Cons.prems(5) by (simp add: y(1))
  moreover have "list_all (ir_resolves) ys1" using Cons.prems(4) y by simp
  moreover have "\<forall>l \<in> set (concat (map ir_labels ys1)). unat l \<le> lcnt g1"
    using Cons.prems(6) y(3,5) unfolding y(1) between_def by fastforce
  ultimately show ?case using Cons.IH [OF y(2) _ r] y(3) Cons.prems(2) by simp
qed



text \<open>A file with one function: \<^verbatim>\<open>while (1 < 2) { if (!3) { break; } else { continue; } }\<close>.\<close>

definition loop_body :: nnc_statement where
  "loop_body = STMT_WHILE (EXPR_BINARY BINARY_LT i8_type (EXPR_INT_LITERAL 1 i32_type) (EXPR_INT_LITERAL 2 i32_type))
       (STMT_COMPOUND ST_LOCAL [STMT_IF (EXPR_UNARY UNARY_NOT i8_type (EXPR_INT_LITERAL 3 i32_type)) STMT_BREAK [] (Some STMT_CONTINUE)])"

definition gen3_init :: gen3 where
  "gen3_init = \<lparr>quads = [], cgt_cnt = 0, label_cnt = 0, b_loop_out = 0, b_loop_iter_ends = 0, gtypes = static_types\<rparr>"

lemmas gen_eval = next_label_def nnc_3a_mklabel_def add_label_def nnc_3a_quads_add_def nnc_set_loop_branches_def
  assert_res_def nnc_restore_loop_branches_def nnc_iconst_to_3a_def emit_new_def nnc_3a_mkcgt_def nnc_3a_quads_res_def
  label_quad_def no_quad_def truth_tail_def test_quad_def goto_quad_def branch_end_def nnc_break_stmt_to_3a_def
  nnc_continue_stmt_to_3a_def rel_op_def

lemma loop_body_code:
  "\<exists>g'. nnc_stmt_to_3a loop_body ST_GLOBAL (gen3_init\<lparr>cgt_cnt := 0\<rparr>) = Inr g' \<and> length (quads g') = 25 \<and>
    labels_of (quads g') = [1, 3, 4, 7, 8, 6, 5, 2] \<and> jumps_of (quads g') = [3, 4, 2, 7, 8, 6, 2, 5, 1, 1]"
  by (simp add: loop_body_def gen3_init_def Let_def gen_eval labels_of_def jumps_of_def is_jump_op jump_op_def op_groups quad3_def
    next_cgt_def cgt_addr_def jump_quad_def nnc_3a_mkaddr_def nnc_3a_mki3_def nnc_3a_mki2_def jump_label_def)

lemma proc_succeeds:
  assumes "nnc_stmt_to_3a body sc (g\<lparr>cgt_cnt := 0\<rparr>) = Inr g'" "length (quads g') \<le> 2 ^ 31"
  shows "\<exists>p. nnc_gen_ir_proc False fo x body sc g = Inr (p, g'\<lparr>quads := []\<rparr>) \<and> pquads p = quads g'"
  using make_lr_ranges [OF assms(2)] by (auto simp: nnc_gen_ir_proc_def assms(1) nnc_ir_commit_def)



end
