(* ===== verification/Nnc_Parse.thy ===== *)
theory Nnc_Parse
  imports Nnc_Lex_Read Nnc_Literal Nnc_Symtab
begin

text \<open>
  The parser, \<^verbatim>\<open>src/src/nnc_parse.c\<close>, on top of the lexer of \<open>Nnc_Lex\<close>, the literals of \<open>Nnc_Literal\<close>
  and the symbol tables of \<open>Nnc_Symtab\<close>. A function of the file is a step on the parser that returns a
  tree and the next state, or a fault: an exception of the code, a failed assertion, a write behind a buffer. The mutual
  recursion of the file is tied over a fuel: each function takes the functions it may call without having read a
  token, and \<open>parsers n\<close> is the bundle of them at depth \<open>n\<close>.
\<close>

section \<open>Trees\<close>

text \<open>
  What the parser builds, before names are resolved. A static type is its address, a type named
  by the program only its name; a type expression has the namespaces in front of it.
\<close>

datatype ptype =
    PT_BASE tref
  | PT_FN "ptexpr list" ptexpr
  | PT_USER string
  | PT_ENUM "(string \<times> pexpr option) list"
  | PT_STRUCT "(string \<times> ptexpr) list"
  | PT_UNION "(string \<times> ptexpr) list"
  | PT_ARR ptype pexpr
  | PT_PTR ptype
and ptexpr = TExpr "string list" ptype
and pexpr =
    PE_DBL nnc_dbl_literal
  | PE_INT nnc_int_literal
  | PE_CHR char
  | PE_STR nnc_str_literal
  | PE_IDENT "string list" string
  | PE_UN nnc_unary_kind pexpr
  | PE_CAST nnc_cast_kind ptexpr pexpr
  | PE_SIZEOF ptexpr
  | PE_DOT pexpr pexpr
  | PE_CALL pexpr "pexpr list"
  | PE_INDEX pexpr pexpr
  | PE_BIN nnc_binary_kind pexpr pexpr
  | PE_TERN pexpr pexpr pexpr

text \<open>
  Statements; a compound statement has the address of its table, a function its storage flags
  (public, external) and parameters.
\<close>

datatype pstmt =
    PS_IF pexpr pstmt "(pexpr \<times> pstmt) list" "pstmt option"
  | PS_DO pstmt pexpr
  | PS_LET nnc_ident ptexpr "pexpr option"
  | PS_FOR pstmt pstmt pstmt pstmt
  | PS_GOTO pstmt
  | PS_TYPE ptexpr string
  | PS_WHILE pexpr pstmt
  | PS_BREAK
  | PS_RETURN pstmt
  | PS_CONTINUE
  | PS_COMPOUND nat "pstmt list"
  | PS_FN "bool \<times> bool" nnc_ident "(nnc_ident \<times> ptexpr) list" ptexpr pstmt
  | PS_EXT_FN "bool \<times> bool" nnc_ident "(nnc_ident \<times> ptexpr) list" ptexpr
  | PS_NAMESPACE nnc_ident pstmt
  | PS_EMPTY
  | PS_EXPR pexpr

section \<open>The parser\<close>

text \<open>
  A token and the column of the lexer behind it; the current token, the next one, the current table; \<open>pkm\<close> is the
  keyword table of the lexer. \<open>shown\<close> counts the exceptions that were caught and shown.
\<close>

type_synonym ptok = "nnc_tok \<times> u32"

record nnc_parser =
  plex :: nnc_lex
  pkm :: kw_map
  cur :: ptok
  look :: ptok
  is_first :: bool
  pst :: nat
  pheap :: st_heap
  shown :: nat

type_synonym 'a parse = "nnc_parser \<Rightarrow> ('a \<times> nnc_parser) res"

definition ret :: "'a \<Rightarrow> 'a parse" where
  "ret x p = Inr (x, p)"

definition pbind :: "'a parse \<Rightarrow> ('a \<Rightarrow> 'b parse) \<Rightarrow> 'b parse" where
  "pbind m f p = bind_res (m p) (\<lambda>r. f (fst r) (snd r))"

definition pfail :: "fault \<Rightarrow> 'a parse" where
  "pfail e p = Inl e"

text \<open>\<^verbatim>\<open>while\<close>, with a bound on the number of its tests.\<close>

fun while_p :: "nat \<Rightarrow> ('s \<Rightarrow> bool parse) \<Rightarrow> ('s \<Rightarrow> 's parse) \<Rightarrow> 's \<Rightarrow> 's parse" where
  "while_p 0 c b s = pfail NoFuel"
| "while_p (Suc n) c b s = pbind (c s) (\<lambda>h. if h then pbind (b s) (while_p n c b) else ret s)"

section \<open>Tokens\<close>

definition kind_of_tok :: "ptok \<Rightarrow> nnc_tok_kind" where
  "kind_of_tok t = tok_kind (fst t)"

definition tok_here :: "nnc_lex \<Rightarrow> ptok" where
  "tok_here lx = (ctok lx, hint_ch lx)"

definition lex_step :: "nnc_parser \<Rightarrow> nnc_parser res" where
  "lex_step p = (case nnc_lex_next (pkm p) (plex p) of
     LOk k lx \<Rightarrow> Inr (p\<lparr>plex := lx\<rparr>) | LThrow e lx \<Rightarrow> Inl (Throw e) | LCrash \<Rightarrow> Inl Crash)"

text \<open>
  Joining string literals that follow each other: the text of the next one without its first quote is copied over
  the last quote of the current one, whose buffer has 512 bytes.
\<close>

definition concat_tok :: "nnc_tok \<Rightarrow> nnc_tok \<Rightarrow> nnc_tok res" where
  "concat_tok c l =
     (if NNC_TOK_BUF_MAX < tok_size c - 1 + tok_size l then Inl Crash
      else Inr (c\<lparr>lexeme := take (tok_size c - 1) (lexeme c) @ take (tok_size l - 1) (drop 1 (lexeme l)),
                   tok_size := tok_size c + (tok_size l - 2)\<rparr>))"

lemma lex_step_consumes:
  assumes "lex_step p = Inr p'"
  shows "length (fp (plex p')) \<le> length (fp (plex p))"
    "kind_of_tok (tok_here (plex p')) \<noteq> TOK_EOF \<Longrightarrow> length (fp (plex p')) < length (fp (plex p))"
  using assms by (auto simp: lex_step_def kind_of_tok_def tok_here_def split: lres.splits dest: lex_next_reads)

function nnc_parser_concat_str :: "nnc_parser \<Rightarrow> nnc_parser res" where
  "nnc_parser_concat_str p =
     (if kind_of_tok (look p) \<noteq> TOK_STR then Inr p
      else bind_res (concat_tok (fst (cur p)) (fst (look p))) (\<lambda>t.
        case lex_step (p\<lparr>cur := (t, snd (cur p))\<rparr>) of Inl e \<Rightarrow> Inl e
        | Inr p' \<Rightarrow> nnc_parser_concat_str (p'\<lparr>look := tok_here (plex p')\<rparr>)))"
  by auto

termination
proof (relation "measure (\<lambda>p. length (fp (plex p)) + (if kind_of_tok (look p) = TOK_EOF then 0 else 1))", simp)
  fix p x p'
  assume k: "\<not> kind_of_tok (look p) \<noteq> TOK_STR" and s: "lex_step (p\<lparr>cur := (x, snd (cur p))\<rparr>) = Inr p'"
  show "(p'\<lparr>look := tok_here (plex p')\<rparr>, p) \<in> measure (\<lambda>p. length (fp (plex p)) + (if kind_of_tok (look p) = TOK_EOF then 0 else 1))"
    using k lex_step_consumes [OF s] by auto
qed

declare nnc_parser_concat_str.simps [simp del]

definition nnc_parser_next :: "unit parse" where
  "nnc_parser_next p =
     bind_res (lex_step p) (\<lambda>p.
     bind_res (if \<not> is_first p then Inr (p\<lparr>cur := look p\<rparr>)
               else lex_step (p\<lparr>is_first := False, cur := tok_here (plex p)\<rparr>)) (\<lambda>p.
       let p = p\<lparr>look := tok_here (plex p)\<rparr> in
       bind_res (if kind_of_tok (cur p) = TOK_STR \<and> kind_of_tok (look p) = TOK_STR then nnc_parser_concat_str p else Inr p) (\<lambda>p.
         Inr ((), p))))"

definition nnc_parser_peek :: "nnc_tok_kind parse" where
  "nnc_parser_peek p = Inr (kind_of_tok (cur p), p)"

definition nnc_parser_peek_lookup :: "nnc_tok_kind parse" where
  "nnc_parser_peek_lookup p = Inr (kind_of_tok (look p), p)"

definition nnc_parser_match :: "nnc_tok_kind \<Rightarrow> bool parse" where
  "nnc_parser_match k p = Inr (kind_of_tok (cur p) = k, p)"

definition nnc_parser_get :: "nnc_tok parse" where
  "nnc_parser_get p = Inr (fst (cur p), p)"

text \<open>
  The position of the first character of the token: the size of the token is subtracted from the column behind it, under an
  assertion.
\<close>

definition nnc_parser_get_ctx :: "unit parse" where
  "nnc_parser_get_ctx p = bind_res (assert_res (tok_size (fst (cur p)) \<le> unat (snd (cur p)))) (\<lambda>_. Inr ((), p))"

definition syntax_error :: "'a parse" where
  "syntax_error = pbind nnc_parser_get_ctx (\<lambda>_. pfail (Throw NNC_SYNTAX))"

definition nnc_parser_expect :: "nnc_tok_kind \<Rightarrow> unit parse" where
  "nnc_parser_expect k = pbind nnc_parser_peek (\<lambda>k'. if k' \<noteq> k then syntax_error else nnc_parser_next)"

definition base_kinds :: "(nnc_tok_kind \<times> tref) list" where
  "base_kinds = [(Keyword TOK_I8, i8_type), (Keyword TOK_U8, u8_type), (Keyword TOK_I16, i16_type), (Keyword TOK_U16, u16_type),
     (Keyword TOK_I32, i32_type), (Keyword TOK_U32, u32_type), (Keyword TOK_I64, i64_type), (Keyword TOK_U64, u64_type),
     (Keyword TOK_F32, f32_type), (Keyword TOK_F64, f64_type), (Keyword TOK_VOID, void_type)]"

text \<open>Whether a type begins with the kind; a name is the one of the next token.\<close>

definition nnc_parser_match_type :: "nnc_tok_kind \<Rightarrow> bool parse" where
  "nnc_parser_match_type k p =
     (if k \<in> fst ` set base_kinds then Inr (True, p)
      else if k = TOK_IDENT then
        bind_res (nnc_st_get (pheap p) (Some (pst p)) (lexeme (fst (look p))) ST_SYM_TYPE) (\<lambda>t. Inr (t \<noteq> None, p))
      else Inr (False, p))"

section \<open>Scopes\<close>

definition nnc_parser_enter_scope :: "unit parse" where
  "nnc_parser_enter_scope p =
     (let ts = tables (pheap p); i = pst p; new = length ts in
      if length ts \<le> i then Inl Crash
      else Inr ((), p\<lparr>pst := new,
        pheap := (pheap p)\<lparr>tables := ts[i := (ts ! i)\<lparr>branches := branches (ts ! i) @ [new]\<rparr>]
          @ [nnc_st_init\<lparr>st_ctx := st_ctx (ts ! i), st_root := Some i\<rparr>]\<rparr>\<rparr>))"

definition nnc_parser_leave_scope :: "unit parse" where
  "nnc_parser_leave_scope p =
     (if length (tables (pheap p)) \<le> pst p then Inl Crash
      else case st_root (tables (pheap p) ! pst p) of None \<Rightarrow> Inl Abort | Some r \<Rightarrow> Inr ((), p\<lparr>pst := r\<rparr>))"

definition set_scope_ctx :: "u32 \<Rightarrow> unit parse" where
  "set_scope_ctx c p =
     (let ts = tables (pheap p) in
      if length ts \<le> pst p then Inl Crash
      else Inr ((), p\<lparr>pheap := (pheap p)\<lparr>tables := ts[pst p := (ts ! pst p)\<lparr>st_ctx := c\<rparr>]\<rparr>\<rparr>))"

text \<open>A declaration in the table \<open>st\<close>: of an identifier, and of the alias named by a type statement.\<close>

definition put_ident :: "nat \<Rightarrow> nnc_ident \<Rightarrow> unit parse" where
  "put_ident st i p =
     (let H = pheap p in
      bind_res (nnc_st_put (H\<lparr>idents := idents H @ [i]\<rparr>) st (length (idents H)) ST_SYM_IDENT) (\<lambda>H. Inr ((), p\<lparr>pheap := H\<rparr>)))"

definition put_alias :: "nat \<Rightarrow> string \<Rightarrow> unit parse" where
  "put_alias st n p =
     (let H = pheap p; (ts, t) = nnc_alias_type_new (htypes H) in
      bind_res (nnc_st_put (H\<lparr>htypes := ts[t := (ts ! t)\<lparr>trepr := Some n\<rparr>]\<rparr>) st t ST_SYM_TYPE) (\<lambda>H. Inr ((), p\<lparr>pheap := H\<rparr>)))"

definition current_scope :: "nat parse" where
  "current_scope p = Inr (pst p, p)"

definition scope_flags :: "(nnc_st \<Rightarrow> bool) \<Rightarrow> bool parse" where
  "scope_flags f p = (if length (tables (pheap p)) \<le> pst p then Inl Crash else Inr (f (tables (pheap p) ! pst p), p))"

section \<open>Types\<close>

text \<open>
  The functions a function of the file calls while it is at the same token, or later: the bound of its loops, \<^verbatim>\<open>strtod\<close>
  for the floating-point literals, and the parsers at one level less.
\<close>

record rec_parsers =
  r_fuel :: nat
  r_strtod :: "string \<Rightarrow> u64"
  r_unary :: "pexpr parse"
  r_expr :: "pexpr parse"
  r_reduced :: "pexpr parse"
  r_type :: "ptexpr parse"
  r_stmt :: "pstmt parse"


text \<open>A comma-separated list up to \<open>close\<close> or the end of the file.\<close>

definition at_end :: "nnc_tok_kind \<Rightarrow> bool parse" where
  "at_end close = pbind nnc_parser_peek (\<lambda>k. ret (k = close \<or> k = TOK_EOF))"

definition not_at_end :: "nnc_tok_kind \<Rightarrow> 's \<Rightarrow> bool parse" where
  "not_at_end close s = pbind (at_end close) (\<lambda>e. ret (\<not> e))"

text \<open>The namespaces in front of a name.\<close>

definition nnc_parse_nesting :: "rec_parsers \<Rightarrow> string list parse" where
  "nnc_parse_nesting R =
     while_p (r_fuel R)
       (\<lambda>_. pbind (nnc_parser_match TOK_IDENT) (\<lambda>i. pbind nnc_parser_peek_lookup (\<lambda>k. ret (i \<and> k = TOK_DCOLON))))
       (\<lambda>ns. pbind nnc_parser_get (\<lambda>tok. pbind nnc_parser_get_ctx (\<lambda>_. pbind (nnc_parser_expect TOK_IDENT) (\<lambda>_.
          pbind (nnc_parser_expect TOK_DCOLON) (\<lambda>_. ret (ns @ [lexeme tok]))))))
       []"

text \<open>\<^verbatim>\<open>name : type\<close>, of a parameter or a member.\<close>

definition nnc_parse_var_type :: "rec_parsers \<Rightarrow> (string \<times> ptexpr) parse" where
  "nnc_parse_var_type R =
     pbind nnc_parser_get (\<lambda>tok.
     pbind (nnc_parser_match TOK_IDENT) (\<lambda>i.
     pbind (if i then nnc_parser_get_ctx else ret ()) (\<lambda>_.
     pbind (nnc_parser_expect TOK_IDENT) (\<lambda>_.
     pbind (nnc_parser_expect TOK_COLON) (\<lambda>_.
     pbind (r_type R) (\<lambda>t. ret (lexeme tok, t)))))))"

definition nnc_parse_fn_param :: "rec_parsers \<Rightarrow> (nnc_ident \<times> ptexpr) parse" where
  "nnc_parse_fn_param R =
     pbind (nnc_parse_var_type R) (\<lambda>x. ret ((nnc_ident_new (fst x))\<lparr>ictx := IDENT_FUNCTION_PARAM\<rparr>, snd x))"

definition nnc_parse_struct_member :: "rec_parsers \<Rightarrow> (string \<times> ptexpr) parse" where
  "nnc_parse_struct_member R = nnc_parse_var_type R"

definition nnc_parse_enumerator :: "rec_parsers \<Rightarrow> (string \<times> pexpr option) parse" where
  "nnc_parse_enumerator R =
     pbind nnc_parser_get (\<lambda>tok.
     pbind (nnc_parser_match TOK_IDENT) (\<lambda>i.
     pbind (if i then nnc_parser_get_ctx else ret ()) (\<lambda>_.
     pbind (nnc_parser_expect TOK_IDENT) (\<lambda>_.
     pbind (nnc_parser_match TOK_ASSIGN) (\<lambda>a.
       if a then pbind nnc_parser_next (\<lambda>_. pbind (r_reduced R) (\<lambda>e. ret (lexeme tok, Some e)))
       else ret (lexeme tok, None))))))"

definition nnc_parse_fn_type :: "rec_parsers \<Rightarrow> ptype parse" where
  "nnc_parse_fn_type R =
     pbind (nnc_parser_expect (Keyword TOK_FN)) (\<lambda>_.
     pbind (nnc_parser_expect TOK_OPAREN) (\<lambda>_.
     pbind (while_p (r_fuel R) (not_at_end TOK_CPAREN)
       (\<lambda>ts. pbind (r_type R) (\<lambda>t. pbind (nnc_parser_match TOK_CPAREN) (\<lambda>c.
          if c then ret (ts @ [t]) else pbind (nnc_parser_expect TOK_COMMA) (\<lambda>_. ret (ts @ [t]))))) []) (\<lambda>ts.
     pbind (nnc_parser_expect TOK_CPAREN) (\<lambda>_.
     pbind (nnc_parser_expect TOK_COLON) (\<lambda>_.
     pbind (r_type R) (\<lambda>r. ret (PT_FN ts r)))))))"

definition nnc_parse_user_type :: "ptype parse" where
  "nnc_parse_user_type =
     pbind nnc_parser_get (\<lambda>tok. pbind nnc_parser_get_ctx (\<lambda>_.
     pbind (nnc_parser_expect TOK_IDENT) (\<lambda>_. ret (PT_USER (lexeme tok)))))"

text \<open>An enumerator is declared in the current scope as soon as it is read.\<close>

definition enumerator_ident :: "string \<Rightarrow> nnc_ident" where
  "enumerator_ident n = (nnc_ident_new n)\<lparr>ictx := IDENT_ENUMERATOR, enumerator := Some \<lparr>init_const = 0, evar_type = unknown_type\<rparr>\<rparr>"

definition nnc_parse_enum_type :: "rec_parsers \<Rightarrow> ptype parse" where
  "nnc_parse_enum_type R =
     pbind (nnc_parser_expect (Keyword TOK_ENUM)) (\<lambda>_.
     pbind (nnc_parser_expect TOK_OBRACE) (\<lambda>_.
     pbind (while_p (r_fuel R) (not_at_end TOK_CBRACE)
       (\<lambda>es. pbind (nnc_parse_enumerator R) (\<lambda>e.
          pbind current_scope (\<lambda>st. pbind (put_ident st (enumerator_ident (fst e))) (\<lambda>_.
          pbind (nnc_parser_match TOK_CBRACE) (\<lambda>c.
            if c then ret (es @ [e]) else pbind (nnc_parser_expect TOK_COMMA) (\<lambda>_. ret (es @ [e]))))))) []) (\<lambda>es.
     pbind (nnc_parser_expect TOK_CBRACE) (\<lambda>_. ret (PT_ENUM es)))))"

definition nnc_parse_struct_or_union_type :: "rec_parsers \<Rightarrow> ptype parse" where
  "nnc_parse_struct_or_union_type R =
     pbind nnc_parser_peek (\<lambda>k.
     if k \<noteq> Keyword TOK_UNION \<and> k \<noteq> Keyword TOK_STRUCT then syntax_error else
     pbind nnc_parser_next (\<lambda>_.
     pbind (nnc_parser_expect TOK_OBRACE) (\<lambda>_.
     pbind (while_p (r_fuel R) (not_at_end TOK_CBRACE)
       (\<lambda>ms. pbind (nnc_parse_struct_member R) (\<lambda>m. pbind (nnc_parser_expect TOK_SEMICOLON) (\<lambda>_. ret (ms @ [m])))) []) (\<lambda>ms.
     pbind (nnc_parser_expect TOK_CBRACE) (\<lambda>_.
       ret (if k = Keyword TOK_UNION then PT_UNION ms else PT_STRUCT ms))))))"

definition nnc_parse_arr_declarator :: "rec_parsers \<Rightarrow> ptype \<Rightarrow> ptype parse" where
  "nnc_parse_arr_declarator R t =
     pbind (nnc_parser_expect TOK_OBRACKET) (\<lambda>_. pbind (r_reduced R) (\<lambda>d.
     pbind (nnc_parser_expect TOK_CBRACKET) (\<lambda>_. ret (PT_ARR t d))))"

definition is_arr :: "ptype \<Rightarrow> bool" where
  "is_arr t = (case t of PT_ARR _ _ \<Rightarrow> True | _ \<Rightarrow> False)"

definition nnc_parse_ptr_declarator :: "ptype \<Rightarrow> ptype parse" where
  "nnc_parse_ptr_declarator t =
     pbind (nnc_parser_expect TOK_ASTERISK) (\<lambda>_. if is_arr t then syntax_error else ret (PT_PTR t))"

definition nnc_parse_type_declarators :: "rec_parsers \<Rightarrow> ptype \<Rightarrow> ptype parse" where
  "nnc_parse_type_declarators R =
     while_p (r_fuel R) (\<lambda>_. pbind nnc_parser_peek (\<lambda>k. ret (k = TOK_ASTERISK \<or> k = TOK_OBRACKET)))
       (\<lambda>t. pbind nnc_parser_peek (\<lambda>k.
          if k = TOK_OBRACKET then nnc_parse_arr_declarator R t else nnc_parse_ptr_declarator t))"

definition nnc_parse_type :: "rec_parsers \<Rightarrow> ptype parse" where
  "nnc_parse_type R =
     pbind nnc_parser_peek (\<lambda>k.
     pbind (case map_of base_kinds k of
         Some t \<Rightarrow> ret (PT_BASE t)
       | None \<Rightarrow>
           if k = Keyword TOK_FN then nnc_parse_fn_type R
           else if k = TOK_IDENT then nnc_parse_user_type
           else if k = Keyword TOK_ENUM then nnc_parse_enum_type R
           else if k = Keyword TOK_UNION \<or> k = Keyword TOK_STRUCT then nnc_parse_struct_or_union_type R
           else syntax_error) (\<lambda>t.
     pbind (if k \<noteq> TOK_IDENT then pbind (nnc_parser_match_type k) (\<lambda>m. if m then nnc_parser_next else ret ()) else ret ()) (\<lambda>_.
       nnc_parse_type_declarators R t)))"

definition nnc_parse_type_expr :: "rec_parsers \<Rightarrow> ptexpr parse" where
  "nnc_parse_type_expr R =
     pbind (nnc_parse_nesting R) (\<lambda>ns. pbind nnc_parser_get_ctx (\<lambda>_. pbind (nnc_parse_type R) (\<lambda>t. ret (TExpr ns t))))"

definition nnc_parse_fn_ret_type_expr :: "rec_parsers \<Rightarrow> ptexpr parse" where
  "nnc_parse_fn_ret_type_expr R =
     pbind (nnc_parser_match TOK_COLON) (\<lambda>c.
       if c then pbind (nnc_parser_expect TOK_COLON) (\<lambda>_. r_type R)
       else pbind nnc_parser_get_ctx (\<lambda>_. ret (TExpr [] (PT_BASE void_type))))"

section \<open>Expressions\<close>

definition from_res :: "'a res \<Rightarrow> 'a parse" where
  "from_res r p = bind_res r (\<lambda>x. Inr (x, p))"

definition nnc_parse_dbl :: "rec_parsers \<Rightarrow> pexpr parse" where
  "nnc_parse_dbl R =
     pbind nnc_parser_get (\<lambda>tok. pbind nnc_parser_get_ctx (\<lambda>_. pbind (from_res (nnc_dbl_new (r_strtod R) (lexeme tok))) (\<lambda>d.
     pbind nnc_parser_next (\<lambda>_. ret (PE_DBL d)))))"

definition nnc_parse_int :: "pexpr parse" where
  "nnc_parse_int =
     pbind nnc_parser_get (\<lambda>tok. pbind nnc_parser_get_ctx (\<lambda>_. pbind (from_res (nnc_int_new (lexeme tok))) (\<lambda>i.
     pbind nnc_parser_next (\<lambda>_. ret (PE_INT i)))))"

definition nnc_parse_chr :: "pexpr parse" where
  "nnc_parse_chr =
     pbind nnc_parser_get (\<lambda>tok. pbind nnc_parser_get_ctx (\<lambda>_. pbind (from_res (nnc_chr_new (lexeme tok))) (\<lambda>c.
     pbind nnc_parser_next (\<lambda>_. ret (PE_CHR c)))))"

definition nnc_parse_str :: "pexpr parse" where
  "nnc_parse_str =
     pbind nnc_parser_get (\<lambda>tok. pbind nnc_parser_get_ctx (\<lambda>_. pbind (from_res (nnc_str_new (lexeme tok))) (\<lambda>s.
     pbind nnc_parser_next (\<lambda>_. ret (PE_STR s)))))"

text \<open>The token behind the namespaces is taken as the name, whatever it is.\<close>

definition nnc_parse_ident :: "rec_parsers \<Rightarrow> pexpr parse" where
  "nnc_parse_ident R =
     pbind (nnc_parse_nesting R) (\<lambda>ns. pbind nnc_parser_get (\<lambda>tok. pbind nnc_parser_get_ctx (\<lambda>_.
     pbind nnc_parser_next (\<lambda>_. ret (PE_IDENT ns (lexeme tok))))))"

definition nnc_parse_number :: "rec_parsers \<Rightarrow> pexpr parse" where
  "nnc_parse_number R = pbind nnc_parser_get (\<lambda>tok. if CHR ''.'' \<in> set (lexeme tok) then nnc_parse_dbl R else nnc_parse_int)"

definition nnc_parse_parens :: "rec_parsers \<Rightarrow> pexpr parse" where
  "nnc_parse_parens R =
     pbind (nnc_parser_expect TOK_OPAREN) (\<lambda>_. pbind (r_expr R) (\<lambda>e. pbind (nnc_parser_expect TOK_CPAREN) (\<lambda>_. ret e)))"

definition nnc_parse_primary_expr :: "rec_parsers \<Rightarrow> pexpr parse" where
  "nnc_parse_primary_expr R =
     pbind nnc_parser_peek (\<lambda>k.
       if k = TOK_STR then nnc_parse_str
       else if k = TOK_CHR then nnc_parse_chr
       else if k = TOK_IDENT then nnc_parse_ident R
       else if k = TOK_NUMBER then nnc_parse_number R
       else if k = TOK_OPAREN then nnc_parse_parens R
       else syntax_error)"


definition nnc_parse_cast_expr :: "rec_parsers \<Rightarrow> pexpr parse" where
  "nnc_parse_cast_expr R =
     pbind (nnc_parser_expect TOK_OPAREN) (\<lambda>_. pbind nnc_parser_get_ctx (\<lambda>_. pbind (r_type R) (\<lambda>t.
     pbind (nnc_parser_expect TOK_CPAREN) (\<lambda>_. pbind (r_unary R) (\<lambda>e. ret (PE_CAST UNARY_CAST t e))))))"

text \<open>The prefix operators, which differ in their token and kind only.\<close>

definition prefix_expr :: "nnc_tok_kind \<Rightarrow> nnc_unary_kind \<Rightarrow> rec_parsers \<Rightarrow> pexpr parse" where
  "prefix_expr t k R =
     pbind (nnc_parser_expect t) (\<lambda>_. pbind nnc_parser_get_ctx (\<lambda>_. pbind (r_unary R) (\<lambda>e. ret (PE_UN k e))))"

definition nnc_parse_plus_expr :: "rec_parsers \<Rightarrow> pexpr parse" where
  "nnc_parse_plus_expr = prefix_expr TOK_PLUS UNARY_PLUS"

definition nnc_parse_minus_expr :: "rec_parsers \<Rightarrow> pexpr parse" where
  "nnc_parse_minus_expr = prefix_expr TOK_MINUS UNARY_MINUS"

definition nnc_parse_bitwise_not_expr :: "rec_parsers \<Rightarrow> pexpr parse" where
  "nnc_parse_bitwise_not_expr = prefix_expr TOK_TILDE UNARY_BITWISE_NOT"

definition nnc_parse_deref_expr :: "rec_parsers \<Rightarrow> pexpr parse" where
  "nnc_parse_deref_expr = prefix_expr TOK_ASTERISK UNARY_DEREF"

definition nnc_parse_ref_expr :: "rec_parsers \<Rightarrow> pexpr parse" where
  "nnc_parse_ref_expr = prefix_expr TOK_AMPERSAND UNARY_REF"

definition nnc_parse_not_expr :: "rec_parsers \<Rightarrow> pexpr parse" where
  "nnc_parse_not_expr = prefix_expr TOK_EXCMARK UNARY_NOT"

definition nnc_parse_sizeof_expr :: "rec_parsers \<Rightarrow> pexpr parse" where
  "nnc_parse_sizeof_expr R =
     pbind (nnc_parser_expect (Keyword TOK_SIZEOF)) (\<lambda>_. pbind nnc_parser_get_ctx (\<lambda>_.
     pbind (nnc_parser_expect TOK_OPAREN) (\<lambda>_. pbind (r_type R) (\<lambda>t.
     pbind (nnc_parser_expect TOK_CPAREN) (\<lambda>_. ret (PE_SIZEOF t))))))"

definition nnc_parse_lengthof_expr :: "rec_parsers \<Rightarrow> pexpr parse" where
  "nnc_parse_lengthof_expr R =
     pbind (nnc_parser_expect (Keyword TOK_LENGTHOF)) (\<lambda>_. pbind nnc_parser_get_ctx (\<lambda>_.
     pbind (nnc_parser_expect TOK_OPAREN) (\<lambda>_. pbind (r_expr R) (\<lambda>e.
     pbind (nnc_parser_expect TOK_CPAREN) (\<lambda>_. ret (PE_UN UNARY_LENGTHOF e))))))"

definition nnc_parse_as_expr :: "rec_parsers \<Rightarrow> pexpr \<Rightarrow> pexpr parse" where
  "nnc_parse_as_expr R prefix' =
     pbind (nnc_parser_expect (Keyword TOK_AS)) (\<lambda>_. pbind nnc_parser_get_ctx (\<lambda>_.
     pbind (r_type R) (\<lambda>t. ret (PE_CAST UNARY_POSTFIX_AS t prefix'))))"

definition nnc_parse_dot_expr :: "rec_parsers \<Rightarrow> pexpr \<Rightarrow> pexpr parse" where
  "nnc_parse_dot_expr R prefix' =
     pbind (nnc_parser_expect TOK_DOT) (\<lambda>_. pbind (nnc_parser_match TOK_IDENT) (\<lambda>i.
       if \<not> i then syntax_error
       else pbind nnc_parser_get_ctx (\<lambda>_. pbind (nnc_parse_ident R) (\<lambda>m. ret (PE_DOT prefix' m)))))"

definition nnc_parse_call_expr :: "rec_parsers \<Rightarrow> pexpr \<Rightarrow> pexpr parse" where
  "nnc_parse_call_expr R prefix' =
     pbind (nnc_parser_expect TOK_OPAREN) (\<lambda>_. pbind nnc_parser_get_ctx (\<lambda>_.
     pbind (while_p (r_fuel R) (not_at_end TOK_CPAREN)
       (\<lambda>as. pbind (r_reduced R) (\<lambda>a. pbind (at_end TOK_CPAREN) (\<lambda>e.
          if e then ret (as @ [a]) else pbind (nnc_parser_expect TOK_COMMA) (\<lambda>_. ret (as @ [a]))))) []) (\<lambda>as.
     pbind (nnc_parser_expect TOK_CPAREN) (\<lambda>_. ret (PE_CALL prefix' as)))))"

definition nnc_parse_index_expr :: "rec_parsers \<Rightarrow> pexpr \<Rightarrow> pexpr parse" where
  "nnc_parse_index_expr R prefix' =
     pbind (nnc_parser_expect TOK_OBRACKET) (\<lambda>_. pbind nnc_parser_get_ctx (\<lambda>_. pbind (r_expr R) (\<lambda>i.
     pbind (nnc_parser_expect TOK_CBRACKET) (\<lambda>_. ret (PE_INDEX prefix' i)))))"

definition nnc_parse_postfix_expr :: "rec_parsers \<Rightarrow> pexpr parse" where
  "nnc_parse_postfix_expr R =
     pbind (nnc_parse_primary_expr R) (\<lambda>primary.
     pbind (nnc_parser_match (Keyword TOK_AS)) (\<lambda>a.
       if a then nnc_parse_as_expr R primary
       else while_p (r_fuel R) (\<lambda>_. pbind nnc_parser_peek (\<lambda>k. ret (k = TOK_DOT \<or> k = TOK_OPAREN \<or> k = TOK_OBRACKET)))
         (\<lambda>e. pbind nnc_parser_peek (\<lambda>k.
            if k = TOK_DOT then nnc_parse_dot_expr R e
            else if k = TOK_OPAREN then nnc_parse_call_expr R e
            else nnc_parse_index_expr R e)) primary))"

definition nnc_parse_unary_expr :: "rec_parsers \<Rightarrow> pexpr parse" where
  "nnc_parse_unary_expr R =
     pbind (nnc_parser_match TOK_OPAREN) (\<lambda>o'.
     pbind (if o' then pbind nnc_parser_peek_lookup nnc_parser_match_type else ret False) (\<lambda>cast.
       if cast then nnc_parse_cast_expr R
       else pbind nnc_parser_peek (\<lambda>k.
         if k = TOK_PLUS then nnc_parse_plus_expr R
         else if k = TOK_MINUS then nnc_parse_minus_expr R
         else if k = TOK_TILDE then nnc_parse_bitwise_not_expr R
         else if k = Keyword TOK_SIZEOF then nnc_parse_sizeof_expr R
         else if k = TOK_EXCMARK then nnc_parse_not_expr R
         else if k = Keyword TOK_LENGTHOF then nnc_parse_lengthof_expr R
         else if k = TOK_ASTERISK then nnc_parse_deref_expr R
         else if k = TOK_AMPERSAND then nnc_parse_ref_expr R
         else nnc_parse_postfix_expr R)))"

text \<open>
  One level of binary operators: operands of the next level, nested to the left. The levels differ
  in their table of operators.
\<close>

definition binary_level :: "(nnc_tok_kind \<times> nnc_binary_kind) list \<Rightarrow> (rec_parsers \<Rightarrow> pexpr parse) \<Rightarrow> rec_parsers \<Rightarrow> pexpr parse" where
  "binary_level ops sub R =
     pbind nnc_parser_get_ctx (\<lambda>_. pbind (sub R) (\<lambda>nether_expr.
       while_p (r_fuel R) (\<lambda>_. pbind nnc_parser_peek (\<lambda>k. ret (k \<in> fst ` set ops)))
         (\<lambda>l. pbind nnc_parser_peek (\<lambda>k. pbind nnc_parser_next (\<lambda>_. pbind (sub R) (\<lambda>r.
            ret (PE_BIN (the (map_of ops k)) l r))))) nether_expr))"

definition nnc_parse_arith_multiplication_expr :: "rec_parsers \<Rightarrow> pexpr parse" where
  "nnc_parse_arith_multiplication_expr =
     binary_level [(TOK_SLASH, BINARY_DIV), (TOK_PERCENT, BINARY_MOD), (TOK_ASTERISK, BINARY_MUL)] nnc_parse_unary_expr"

definition nnc_parse_arith_addition_expr :: "rec_parsers \<Rightarrow> pexpr parse" where
  "nnc_parse_arith_addition_expr =
     binary_level [(TOK_PLUS, BINARY_ADD), (TOK_MINUS, BINARY_SUB)] nnc_parse_arith_multiplication_expr"

definition nnc_parse_arith_shift_expr :: "rec_parsers \<Rightarrow> pexpr parse" where
  "nnc_parse_arith_shift_expr =
     binary_level [(TOK_LSHIFT, BINARY_SHL), (TOK_RSHIFT, BINARY_SHR)] nnc_parse_arith_addition_expr"

definition nnc_parse_relation_expr :: "rec_parsers \<Rightarrow> pexpr parse" where
  "nnc_parse_relation_expr =
     binary_level [(TOK_LT, BINARY_LT), (TOK_GT, BINARY_GT), (TOK_LTE, BINARY_LTE), (TOK_GTE, BINARY_GTE)] nnc_parse_arith_shift_expr"

definition nnc_parse_equality_expr :: "rec_parsers \<Rightarrow> pexpr parse" where
  "nnc_parse_equality_expr = binary_level [(TOK_EQ, BINARY_EQ), (TOK_NEQ, BINARY_NEQ)] nnc_parse_relation_expr"

definition nnc_parse_bitwise_and_expr :: "rec_parsers \<Rightarrow> pexpr parse" where
  "nnc_parse_bitwise_and_expr = binary_level [(TOK_AMPERSAND, BINARY_BW_AND)] nnc_parse_equality_expr"

definition nnc_parse_bitwise_xor_expr :: "rec_parsers \<Rightarrow> pexpr parse" where
  "nnc_parse_bitwise_xor_expr = binary_level [(TOK_CIRCUMFLEX, BINARY_BW_XOR)] nnc_parse_bitwise_and_expr"

definition nnc_parse_bitwise_or_expr :: "rec_parsers \<Rightarrow> pexpr parse" where
  "nnc_parse_bitwise_or_expr = binary_level [(TOK_VLINE, BINARY_BW_OR)] nnc_parse_bitwise_xor_expr"

definition nnc_parse_and_expr :: "rec_parsers \<Rightarrow> pexpr parse" where
  "nnc_parse_and_expr = binary_level [(TOK_AND, BINARY_AND)] nnc_parse_bitwise_or_expr"

definition nnc_parse_or_expr :: "rec_parsers \<Rightarrow> pexpr parse" where
  "nnc_parse_or_expr = binary_level [(TOK_OR, BINARY_OR)] nnc_parse_and_expr"

definition nnc_parse_ternary_expr :: "rec_parsers \<Rightarrow> pexpr parse" where
  "nnc_parse_ternary_expr R =
     pbind nnc_parser_get_ctx (\<lambda>_. pbind (nnc_parse_or_expr R) (\<lambda>nether_expr.
     pbind (nnc_parser_match TOK_QUESTION) (\<lambda>q.
       if q then pbind nnc_parser_next (\<lambda>_. pbind (r_expr R) (\<lambda>l. pbind (nnc_parser_expect TOK_COLON) (\<lambda>_.
              pbind (r_expr R) (\<lambda>r. ret (PE_TERN nether_expr l r)))))
       else ret nether_expr)))"

definition nnc_parse_assignment_expr :: "rec_parsers \<Rightarrow> pexpr parse" where
  "nnc_parse_assignment_expr = binary_level [(TOK_ASSIGN, BINARY_ASSIGN)] nnc_parse_ternary_expr"

definition nnc_parse_comma_expr :: "rec_parsers \<Rightarrow> pexpr parse" where
  "nnc_parse_comma_expr = binary_level [(TOK_COMMA, BINARY_COMMA)] nnc_parse_assignment_expr"

definition nnc_parse_expr_reduced :: "rec_parsers \<Rightarrow> pexpr parse" where
  "nnc_parse_expr_reduced = nnc_parse_assignment_expr"

definition nnc_parse_expr :: "rec_parsers \<Rightarrow> pexpr parse" where
  "nnc_parse_expr = nnc_parse_comma_expr"


section \<open>Statements\<close>

abbreviation (input) ST_CTX_IF :: u32 where "ST_CTX_IF \<equiv> 0x10000"
abbreviation (input) ST_CTX_ELIF :: u32 where "ST_CTX_ELIF \<equiv> 0x100000"
abbreviation (input) ST_CTX_ELSE :: u32 where "ST_CTX_ELSE \<equiv> 0x1000000"

definition nnc_parse_compound_stmt :: "rec_parsers \<Rightarrow> u32 \<Rightarrow> pstmt parse" where
  "nnc_parse_compound_stmt R c =
     pbind nnc_parser_enter_scope (\<lambda>_. pbind current_scope (\<lambda>scope. pbind (set_scope_ctx c) (\<lambda>_.
     pbind (nnc_parser_expect TOK_OBRACE) (\<lambda>_.
     pbind (while_p (r_fuel R) (not_at_end TOK_CBRACE) (\<lambda>ss. pbind (r_stmt R) (\<lambda>s. ret (ss @ [s]))) []) (\<lambda>ss.
     pbind (nnc_parser_expect TOK_CBRACE) (\<lambda>_. pbind nnc_parser_leave_scope (\<lambda>_. ret (PS_COMPOUND scope ss))))))))"

text \<open>The table of a body, \<^verbatim>\<open>NNC_GET_SYMTABLE\<close>.\<close>

definition NNC_GET_SYMTABLE :: "pstmt \<Rightarrow> nat parse" where
  "NNC_GET_SYMTABLE body = (case body of PS_COMPOUND st _ \<Rightarrow> ret st | _ \<Rightarrow> pfail Crash)"

definition nnc_parse_if_stmt :: "rec_parsers \<Rightarrow> pstmt parse" where
  "nnc_parse_if_stmt R =
     pbind (nnc_parser_expect (Keyword TOK_IF)) (\<lambda>_. pbind (nnc_parse_parens R) (\<lambda>c.
     pbind (nnc_parse_compound_stmt R ST_CTX_IF) (\<lambda>body.
     pbind (while_p (r_fuel R) (\<lambda>_. nnc_parser_match (Keyword TOK_ELIF))
       (\<lambda>bs. pbind nnc_parser_next (\<lambda>_. pbind (nnc_parse_parens R) (\<lambda>c.
          pbind (nnc_parse_compound_stmt R ST_CTX_ELIF) (\<lambda>b. ret (bs @ [(c, b)]))))) []) (\<lambda>bs.
     pbind (nnc_parser_match (Keyword TOK_ELSE)) (\<lambda>e.
       if e then pbind nnc_parser_next (\<lambda>_. pbind (nnc_parse_compound_stmt R ST_CTX_ELSE) (\<lambda>s. ret (PS_IF c body bs (Some s))))
       else ret (PS_IF c body bs None))))))"

definition nnc_parse_do_stmt :: "rec_parsers \<Rightarrow> pstmt parse" where
  "nnc_parse_do_stmt R =
     pbind (nnc_parser_expect (Keyword TOK_DO)) (\<lambda>_. pbind (nnc_parse_compound_stmt R ST_CTX_LOOP) (\<lambda>body.
     pbind (nnc_parser_expect (Keyword TOK_WHILE)) (\<lambda>_. pbind (nnc_parse_parens R) (\<lambda>c. ret (PS_DO body c)))))"

definition nnc_parse_let_stmt_with_opt_st :: "rec_parsers \<Rightarrow> bool \<Rightarrow> pstmt parse" where
  "nnc_parse_let_stmt_with_opt_st R put_in_st =
     pbind (nnc_parser_expect (Keyword TOK_LET)) (\<lambda>_. pbind nnc_parser_get (\<lambda>tok. pbind nnc_parser_get_ctx (\<lambda>_.
     pbind (nnc_parser_expect TOK_IDENT) (\<lambda>_. pbind (nnc_parser_expect TOK_COLON) (\<lambda>_. pbind (r_type R) (\<lambda>t.
     pbind (scope_flags (\<lambda>s. SCOPE_GLOBAL s \<or> SCOPE_NAMESPACE s)) (\<lambda>glob.
     let var = (nnc_ident_new (lexeme tok))\<lparr>ictx := (if glob then IDENT_GLOBAL else IDENT_DEFAULT)\<rparr> in
     pbind (nnc_parser_match TOK_ASSIGN) (\<lambda>a.
     pbind (if a then pbind (nnc_parser_expect TOK_ASSIGN) (\<lambda>_. pbind (r_expr R) (\<lambda>e. ret (Some e))) else ret None) (\<lambda>init.
     pbind (nnc_parser_expect TOK_SEMICOLON) (\<lambda>_.
     pbind (if put_in_st then pbind current_scope (\<lambda>st. put_ident st var) else ret ()) (\<lambda>_.
       ret (PS_LET var t init))))))))))))"

definition nnc_parse_let_stmt :: "rec_parsers \<Rightarrow> pstmt parse" where
  "nnc_parse_let_stmt R = nnc_parse_let_stmt_with_opt_st R True"

definition nnc_parse_expr_stmt :: "rec_parsers \<Rightarrow> pstmt parse" where
  "nnc_parse_expr_stmt R =
     pbind (nnc_parser_match TOK_SEMICOLON) (\<lambda>s.
       if s then pbind nnc_parser_next (\<lambda>_. ret PS_EMPTY)
       else pbind (r_expr R) (\<lambda>e. pbind (nnc_parser_expect TOK_SEMICOLON) (\<lambda>_. ret (PS_EXPR e))))"

text \<open>The variable of a \<^verbatim>\<open>for\<close> is declared in the table of its body, after the body.\<close>

definition nnc_parse_for_stmt :: "rec_parsers \<Rightarrow> pstmt parse" where
  "nnc_parse_for_stmt R =
     pbind (nnc_parser_expect (Keyword TOK_FOR)) (\<lambda>_. pbind (nnc_parser_expect TOK_OPAREN) (\<lambda>_.
     pbind (nnc_parser_match (Keyword TOK_LET)) (\<lambda>l.
     pbind (if l then nnc_parse_let_stmt_with_opt_st R False else nnc_parse_expr_stmt R) (\<lambda>init.
     pbind (nnc_parse_expr_stmt R) (\<lambda>c.
     pbind (nnc_parser_match TOK_CPAREN) (\<lambda>e.
     pbind (if e then ret PS_EMPTY else pbind (r_expr R) (\<lambda>s. ret (PS_EXPR s))) (\<lambda>step.
     pbind (nnc_parser_expect TOK_CPAREN) (\<lambda>_.
     pbind (nnc_parse_compound_stmt R ST_CTX_LOOP) (\<lambda>body.
     pbind (case init of PS_LET x _ _ \<Rightarrow> pbind (NNC_GET_SYMTABLE body) (\<lambda>inner. put_ident inner x) | _ \<Rightarrow> ret ()) (\<lambda>_.
       ret (PS_FOR init c step body)))))))))))"

definition nnc_parse_goto_stmt :: "rec_parsers \<Rightarrow> pstmt parse" where
  "nnc_parse_goto_stmt R =
     pbind (nnc_parser_expect (Keyword TOK_GOTO)) (\<lambda>_. pbind (nnc_parse_expr_stmt R) (\<lambda>body.
     pbind (case body of PS_EXPR (PE_IDENT _ _) \<Rightarrow> ret () | _ \<Rightarrow> nnc_parser_expect TOK_IDENT) (\<lambda>_. ret (PS_GOTO body))))"

definition nnc_parse_type_stmt :: "rec_parsers \<Rightarrow> pstmt parse" where
  "nnc_parse_type_stmt R =
     pbind (nnc_parser_expect (Keyword TOK_TYPE)) (\<lambda>_. pbind (r_type R) (\<lambda>t.
     pbind (nnc_parser_expect (Keyword TOK_AS)) (\<lambda>_. pbind nnc_parser_get (\<lambda>tok.
     pbind (nnc_parser_expect TOK_IDENT) (\<lambda>_. pbind (nnc_parser_expect TOK_SEMICOLON) (\<lambda>_.
     pbind current_scope (\<lambda>st. pbind (put_alias st (lexeme tok)) (\<lambda>_. ret (PS_TYPE t (lexeme tok))))))))))"

definition nnc_parse_while_stmt :: "rec_parsers \<Rightarrow> pstmt parse" where
  "nnc_parse_while_stmt R =
     pbind (nnc_parser_expect (Keyword TOK_WHILE)) (\<lambda>_. pbind (nnc_parse_parens R) (\<lambda>c.
     pbind (nnc_parse_compound_stmt R ST_CTX_LOOP) (\<lambda>body. ret (PS_WHILE c body))))"

definition nnc_parse_break_stmt :: "pstmt parse" where
  "nnc_parse_break_stmt =
     pbind (nnc_parser_expect (Keyword TOK_BREAK)) (\<lambda>_. pbind nnc_parser_get_ctx (\<lambda>_.
     pbind (nnc_parser_expect TOK_SEMICOLON) (\<lambda>_. ret PS_BREAK)))"

definition nnc_parse_continue_stmt :: "pstmt parse" where
  "nnc_parse_continue_stmt =
     pbind (nnc_parser_expect (Keyword TOK_CONTINUE)) (\<lambda>_. pbind nnc_parser_get_ctx (\<lambda>_.
     pbind (nnc_parser_expect TOK_SEMICOLON) (\<lambda>_. ret PS_CONTINUE)))"

definition nnc_parse_return_stmt :: "rec_parsers \<Rightarrow> pstmt parse" where
  "nnc_parse_return_stmt R =
     pbind (nnc_parser_expect (Keyword TOK_RETURN)) (\<lambda>_. pbind nnc_parser_get_ctx (\<lambda>_.
     pbind (nnc_parse_expr_stmt R) (\<lambda>body. ret (PS_RETURN body))))"

text \<open>The flags \<^verbatim>\<open>FN_ST_PUBLIC\<close> and \<^verbatim>\<open>FN_ST_EXTERN\<close>.\<close>

definition nnc_parse_fn_storage :: "(bool \<times> bool) parse" where
  "nnc_parse_fn_storage =
     pbind nnc_parser_peek (\<lambda>k.
     pbind (if k = Keyword TOK_PUB then nnc_parser_expect (Keyword TOK_PUB) else ret ()) (\<lambda>_.
     pbind (nnc_parser_expect (Keyword TOK_FN)) (\<lambda>_.
     pbind nnc_parser_peek (\<lambda>e.
     pbind (if e = Keyword TOK_EXT then nnc_parser_next else ret ()) (\<lambda>_. ret (k = Keyword TOK_PUB, e = Keyword TOK_EXT))))))"

text \<open>A parameter that cannot be declared is reported, and the next one is tried.\<close>

definition put_param :: "nat \<Rightarrow> nnc_ident \<Rightarrow> unit parse" where
  "put_param st i p = (case put_ident st i p of Inl (Throw _) \<Rightarrow> Inr ((), p\<lparr>shown := shown p + 1\<rparr>) | r \<Rightarrow> r)"

fun put_params :: "nat \<Rightarrow> nnc_ident list \<Rightarrow> unit parse" where
  "put_params st [] = ret ()"
| "put_params st (i # is) = pbind (put_param st i) (\<lambda>_. put_params st is)"

definition new_type :: "(types \<Rightarrow> types \<times> tref) \<Rightarrow> tref parse" where
  "new_type f p = (let (ts, t) = f (htypes (pheap p)) in Inr (t, p\<lparr>pheap := (pheap p)\<lparr>htypes := ts\<rparr>\<rparr>))"

definition nnc_parse_fn_stmt :: "rec_parsers \<Rightarrow> pstmt parse" where
  "nnc_parse_fn_stmt R =
     pbind nnc_parse_fn_storage (\<lambda>storage. pbind nnc_parser_get (\<lambda>tok.
     pbind (nnc_parser_match TOK_IDENT) (\<lambda>i. pbind (if i then nnc_parser_get_ctx else ret ()) (\<lambda>_.
     pbind (nnc_parser_expect TOK_IDENT) (\<lambda>_. pbind (new_type nnc_fn_type_new) (\<lambda>t.
     let var = (nnc_ident_new (lexeme tok))\<lparr>ictx := IDENT_FUNCTION, itype := t\<rparr> in
     pbind current_scope (\<lambda>st. pbind (put_ident st var) (\<lambda>_.
     pbind (nnc_parser_expect TOK_OPAREN) (\<lambda>_.
     pbind (while_p (r_fuel R) (not_at_end TOK_CPAREN)
       (\<lambda>xs. pbind (nnc_parse_fn_param R) (\<lambda>x. pbind (nnc_parser_match TOK_CPAREN) (\<lambda>c.
          if c then ret (xs @ [x]) else pbind (nnc_parser_expect TOK_COMMA) (\<lambda>_. ret (xs @ [x]))))) []) (\<lambda>xs.
     pbind (nnc_parser_expect TOK_CPAREN) (\<lambda>_.
     pbind (nnc_parse_fn_ret_type_expr R) (\<lambda>rt.
       if snd storage then pbind (nnc_parser_expect TOK_SEMICOLON) (\<lambda>_. ret (PS_EXT_FN storage var xs rt))
       else pbind (nnc_parse_compound_stmt R ST_CTX_FN) (\<lambda>body. pbind (NNC_GET_SYMTABLE body) (\<lambda>inner.
              pbind (put_params inner (map fst xs)) (\<lambda>_. ret (PS_FN storage var xs rt body))))))))))))))))"

definition nnc_parse_pub_stmt :: "rec_parsers \<Rightarrow> pstmt parse" where
  "nnc_parse_pub_stmt R =
     pbind (scope_flags SCOPE_GLOBAL) (\<lambda>g.
       if \<not> g then pfail (Throw NNC_SYNTAX)
       else pbind nnc_parser_peek_lookup (\<lambda>k. if k = Keyword TOK_FN then nnc_parse_fn_stmt R else pfail (Throw NNC_SYNTAX)))"

definition nnc_parse_namespace_stmt :: "rec_parsers \<Rightarrow> pstmt parse" where
  "nnc_parse_namespace_stmt R =
     pbind (nnc_parser_expect (Keyword TOK_NAMESPACE)) (\<lambda>_. pbind nnc_parser_get (\<lambda>tok.
     pbind (nnc_parser_match TOK_IDENT) (\<lambda>i. pbind (if i then nnc_parser_get_ctx else ret ()) (\<lambda>_.
     pbind (nnc_parser_expect TOK_IDENT) (\<lambda>_. pbind (new_type nnc_namespace_type_new) (\<lambda>t.
     let var = (nnc_ident_new (lexeme tok))\<lparr>ictx := IDENT_NAMESPACE, itype := t\<rparr> in
     pbind (nnc_parse_compound_stmt R ST_CTX_NAMESPACE) (\<lambda>body.
     pbind current_scope (\<lambda>st. pbind (put_ident st var) (\<lambda>_. ret (PS_NAMESPACE var body))))))))))"

definition nnc_parse_stmt :: "rec_parsers \<Rightarrow> pstmt parse" where
  "nnc_parse_stmt R =
     pbind nnc_parser_peek (\<lambda>k.
       if k = Keyword TOK_IF then nnc_parse_if_stmt R
       else if k = Keyword TOK_FN then nnc_parse_fn_stmt R
       else if k = Keyword TOK_DO then nnc_parse_do_stmt R
       else if k = Keyword TOK_LET then nnc_parse_let_stmt R
       else if k = Keyword TOK_FOR then nnc_parse_for_stmt R
       else if k = Keyword TOK_PUB then nnc_parse_pub_stmt R
       else if k = Keyword TOK_GOTO then nnc_parse_goto_stmt R
       else if k = Keyword TOK_TYPE then nnc_parse_type_stmt R
       else if k = Keyword TOK_WHILE then nnc_parse_while_stmt R
       else if k = Keyword TOK_BREAK then nnc_parse_break_stmt
       else if k = Keyword TOK_RETURN then nnc_parse_return_stmt R
       else if k = Keyword TOK_CONTINUE then nnc_parse_continue_stmt
       else if k = Keyword TOK_NAMESPACE then nnc_parse_namespace_stmt R
       else nnc_parse_expr_stmt R)"

section \<open>The recursion\<close>

primrec parsers :: "(string \<Rightarrow> u64) \<Rightarrow> nat \<Rightarrow> rec_parsers" where
  "parsers d 0 = \<lparr>r_fuel = 1, r_strtod = d, r_unary = pfail NoFuel, r_expr = pfail NoFuel, r_reduced = pfail NoFuel,
     r_type = pfail NoFuel, r_stmt = pfail NoFuel\<rparr>"
| "parsers d (Suc n) =
     (let R = parsers d n in
      \<lparr>r_fuel = Suc (Suc n), r_strtod = d, r_unary = nnc_parse_unary_expr R, r_expr = nnc_parse_expr R,
       r_reduced = nnc_parse_expr_reduced R, r_type = nnc_parse_type_expr R, r_stmt = nnc_parse_stmt R\<rparr>)"

definition no_tok :: ptok where
  "no_tok = (\<lparr>tok_size = 0, tok_kind = TOK_AMPERSAND, lexeme = []\<rparr>, 0)"

text \<open>A parser on a file, with the first two tokens read.\<close>

definition nnc_parser_init :: "kw_map \<Rightarrow> string \<Rightarrow> nnc_parser res" where
  "nnc_parser_init km file =
     bind_res (nnc_parser_next \<lparr>plex = nnc_lex_init file, pkm = km, cur = no_tok, look = no_tok, is_first = True, pst = 0,
       pheap = \<lparr>tables = [nnc_st_init\<lparr>st_ctx := ST_CTX_GLOBAL\<rparr>], idents = [], htypes = static_types\<rparr>, shown = 0\<rparr>) (\<lambda>r. Inr (snd r))"

text \<open>The statements of a file and the parser behind them, whose table 0 is the one of the file.\<close>

definition nnc_parse :: "(string \<Rightarrow> u64) \<Rightarrow> kw_map \<Rightarrow> string \<Rightarrow> (pstmt list \<times> nnc_parser) res" where
  "nnc_parse d km file =
     bind_res (nnc_parser_init km file) (\<lambda>p.
       let R = parsers d (length file + 5) in
       while_p (length file + 4) (\<lambda>_. pbind nnc_parser_peek (\<lambda>k. ret (k \<noteq> TOK_EOF))) (\<lambda>ss. pbind (r_stmt R) (\<lambda>s. ret (ss @ [s]))) [] p)"


end
