(* ===== verification/Nnc_Parse_Ends.thy ===== *)
theory Nnc_Parse_Ends
  imports Nnc_Parse
begin

text \<open>
  The parser ends on every input: the fuel of the recursion is the number of tokens that can
  still be read, and no run uses it up. The same lemmas carry the state through a run: scopes that are entered are left
  again, the tables stay well formed and only grow.
\<close>

section \<open>Progress\<close>

text \<open>A bound on the tokens left: the characters of the file and the two tokens read ahead.\<close>

definition tok_left :: "ptok \<Rightarrow> nat" where
  "tok_left t = (if kind_of_tok t = TOK_EOF then 0 else 1)"

definition left_over :: "nnc_parser \<Rightarrow> nat" where
  "left_over p = length (fp (plex p)) + tok_left (look p) + tok_left (cur p)"

definition p_inv :: "nnc_parser \<Rightarrow> bool" where
  "p_inv p \<longleftrightarrow> \<not> is_first p \<and> pst p < length (tables (pheap p)) \<and> st_wf (tables (pheap p))"

text \<open>The tables of \<open>ts\<close> are those of \<open>ts'\<close>, up to their declarations and new branches.\<close>

definition grown :: "nnc_st list \<Rightarrow> nnc_st list \<Rightarrow> bool" where
  "grown ts ts' \<longleftrightarrow> length ts \<le> length ts' \<and> (\<forall>i < length ts. st_root (ts' ! i) = st_root (ts ! i) \<and> st_ctx (ts' ! i) = st_ctx (ts ! i))"

definition adv :: "nnc_parser \<Rightarrow> nnc_parser \<Rightarrow> bool" where
  "adv p p' \<longleftrightarrow> p_inv p' \<and> left_over p' \<le> left_over p \<and> pst p' = pst p \<and> grown (tables (pheap p)) (tables (pheap p'))"

definition safe :: "nat \<Rightarrow> 'a parse \<Rightarrow> bool" where
  "safe b f \<longleftrightarrow> (\<forall>p. p_inv p \<and> left_over p < b \<longrightarrow> f p \<noteq> Inl NoFuel \<and> (\<forall>x p'. f p = Inr (x, p') \<longrightarrow> adv p p'))"

text \<open>\<open>eats\<close>: at least one token is read, on every input or, with \<open>eats_tok\<close>, before the end of the file.\<close>

definition eats :: "nat \<Rightarrow> 'a parse \<Rightarrow> bool" where
  "eats b f \<longleftrightarrow> safe b f \<and> (\<forall>p. p_inv p \<and> left_over p < b \<longrightarrow> (\<forall>x p'. f p = Inr (x, p') \<longrightarrow> left_over p' < left_over p))"

definition eats_tok :: "nat \<Rightarrow> 'a parse \<Rightarrow> bool" where
  "eats_tok b f \<longleftrightarrow> safe b f \<and> (\<forall>p. p_inv p \<and> left_over p < b \<and> kind_of_tok (cur p) \<noteq> TOK_EOF \<longrightarrow>
     (\<forall>x p'. f p = Inr (x, p') \<longrightarrow> left_over p' < left_over p))"

text \<open>\<open>looks\<close>: the state does not change.\<close>

definition looks :: "'a parse \<Rightarrow> bool" where
  "looks f \<longleftrightarrow> (\<forall>p. p_inv p \<longrightarrow> f p \<noteq> Inl NoFuel \<and> (\<forall>x p'. f p = Inr (x, p') \<longrightarrow> p' = p))"

lemma grown_refl: "grown ts ts"
  by (simp add: grown_def)

lemma grown_trans: "grown ts ts' \<Longrightarrow> grown ts' ts'' \<Longrightarrow> grown ts ts''"
  by (auto simp: grown_def dest: order_less_le_trans)

lemma adv_refl: "p_inv p \<Longrightarrow> adv p p"
  by (simp add: adv_def grown_refl)

lemma adv_trans: "adv p p' \<Longrightarrow> adv p' p'' \<Longrightarrow> adv p p''"
  unfolding adv_def by (auto intro: grown_trans)

lemma advD: "adv p p' \<Longrightarrow> p_inv p'" "adv p p' \<Longrightarrow> left_over p' \<le> left_over p" "adv p p' \<Longrightarrow> pst p' = pst p"
  "adv p p' \<Longrightarrow> grown (tables (pheap p)) (tables (pheap p'))"
  by (simp_all add: adv_def)

lemma eats_safe: "eats b f \<Longrightarrow> safe b f"
  by (simp add: eats_def)

lemma eats_eats_tok: "eats b f \<Longrightarrow> eats_tok b f"
  by (auto simp: eats_def eats_tok_def)

lemma looks_safe: "looks f \<Longrightarrow> safe b f"
  by (auto simp: looks_def safe_def intro: adv_refl)

lemma safe_mono: "safe b f \<Longrightarrow> b' \<le> b \<Longrightarrow> safe b' f"
  by (auto simp: safe_def)

lemma eats_mono: "eats b f \<Longrightarrow> b' \<le> b \<Longrightarrow> eats b' f"
  by (auto simp: eats_def safe_def)

section \<open>Composition\<close>

lemma pbind_Inr: "pbind m f p = Inr (y, p') \<longleftrightarrow> (\<exists>x q. m p = Inr (x, q) \<and> f x q = Inr (y, p'))"
  by (auto simp: pbind_def bind_res_eq_Inr)

lemma pbind_Inl: "pbind m f p = Inl e \<longleftrightarrow> m p = Inl e \<or> (\<exists>x q. m p = Inr (x, q) \<and> f x q = Inl e)"
  by (auto simp: pbind_def bind_res_eq_Inl)

lemma safeD:
  assumes "safe b f" "p_inv p" "left_over p < b"
  shows "f p \<noteq> Inl NoFuel" "f p = Inr (x, p') \<Longrightarrow> adv p p'"
  using assms by (auto simp: safe_def)

lemma eatsD: "eats b f \<Longrightarrow> p_inv p \<Longrightarrow> left_over p < b \<Longrightarrow> f p = Inr (x, p') \<Longrightarrow> left_over p' < left_over p"
  by (simp add: eats_def)

lemma eats_tokD: "eats_tok b f \<Longrightarrow> p_inv p \<Longrightarrow> left_over p < b \<Longrightarrow> kind_of_tok (cur p) \<noteq> TOK_EOF \<Longrightarrow> f p = Inr (x, p') \<Longrightarrow>
    left_over p' < left_over p"
  by (simp add: eats_tok_def)

lemma eats_tok_safe: "eats_tok b f \<Longrightarrow> safe b f"
  by (simp add: eats_tok_def)

lemma safe_bind:
  assumes "safe b m" "\<And>x. safe b (f x)"
  shows "safe b (pbind m f)"
  unfolding safe_def
proof (intro allI impI conjI)
  fix p assume p: "p_inv p \<and> left_over p < b"
  have step: "p_inv q \<and> left_over q < b \<and> adv p q" if "m p = Inr (x, q)" for x q
  proof -
    have a: "adv p q" using safeD(2) [OF assms(1) _ _ that] p by blast
    then show ?thesis using advD(1,2) [OF a] p by simp
  qed
  show "pbind m f p \<noteq> Inl NoFuel"
    using safeD(1) [OF assms(1)] safeD(1) [OF assms(2)] p step by (auto simp: pbind_Inl)
  fix x p' assume "pbind m f p = Inr (x, p')"
  then obtain y q where q: "m p = Inr (y, q)" "f y q = Inr (x, p')" by (auto simp: pbind_Inr)
  then show "adv p p'" using safeD(2) [OF assms(2)] step [OF q(1)] adv_trans by blast
qed

lemma safe_after_eats:
  assumes "eats (Suc b) m" "\<And>x. safe b (f x)"
  shows "eats (Suc b) (pbind m f)"
proof -
  have m: "safe (Suc b) m" using assms(1) by (rule eats_safe)
  have step: "p_inv q \<and> left_over q < left_over p \<and> left_over q < b \<and> adv p q" if "m p = Inr (x, q)" "p_inv p" "left_over p < Suc b" for p x q
  proof -
    have a: "adv p q" by (rule safeD(2) [OF m that(2,3,1)])
    have "left_over q < left_over p" by (rule eatsD [OF assms(1) that(2,3,1)])
    then show ?thesis using a advD(1) [OF a] that(3) by simp
  qed
  show ?thesis
    unfolding eats_def safe_def
  proof (intro conjI allI impI)
    fix p assume p: "p_inv p \<and> left_over p < Suc b"
    show "pbind m f p \<noteq> Inl NoFuel"
      using safeD(1) [OF m] safeD(1) [OF assms(2)] p step by (auto simp: pbind_Inl)
    fix x p' assume "pbind m f p = Inr (x, p')"
    then obtain y q where q: "m p = Inr (y, q)" "f y q = Inr (x, p')" by (auto simp: pbind_Inr)
    have r: "p_inv q" "left_over q < left_over p" "left_over q < b" "adv p q" using step [OF q(1)] p by blast+
    have a: "adv q p'" by (rule safeD(2) [OF assms(2) r(1,3) q(2)])
    show "adv p p'" by (rule adv_trans [OF r(4) a])
    show "left_over p' < left_over p" using advD(2) [OF a] r(2) by simp
  qed
qed

lemma eats_after_safe:
  assumes "safe b m" "\<And>x. eats b (f x)"
  shows "eats b (pbind m f)"
proof -
  have s: "safe b (pbind m f)" using safe_bind [OF assms(1)] eats_safe [OF assms(2)] by blast
  show ?thesis
    unfolding eats_def
  proof (intro conjI s allI impI)
    fix p x p' assume p: "p_inv p \<and> left_over p < b" and "pbind m f p = Inr (x, p')"
    then obtain y q where q: "m p = Inr (y, q)" "f y q = Inr (x, p')" by (auto simp: pbind_Inr)
    have a: "adv p q" using safeD(2) [OF assms(1) _ _ q(1)] p by blast
    have "left_over q < b" using advD(2) [OF a] p by simp
    from eatsD [OF assms(2) advD(1) [OF a] this q(2)] show "left_over p' < left_over p" using advD(2) [OF a] by simp
  qed
qed

lemma eats_tok_after_looks:
  assumes "looks m" "\<And>x. eats_tok b (f x)"
  shows "eats_tok b (pbind m f)"
proof -
  have "safe b (pbind m f)" by (rule safe_bind [OF looks_safe [OF assms(1)] eats_tok_safe [OF assms(2)]])
  then show ?thesis using assms unfolding eats_tok_def looks_def pbind_Inr by blast
qed

lemma eats_tok_before_safe:
  assumes "eats_tok b m" "\<And>x. safe b (f x)"
  shows "eats_tok b (pbind m f)"
proof -
  have m: "safe b m" using assms(1) by (simp add: eats_tok_def)
  have s: "safe b (pbind m f)" using safe_bind [OF m] assms(2) by blast
  show ?thesis
    unfolding eats_tok_def
  proof (intro conjI s allI impI)
    fix p x p' assume p: "p_inv p \<and> left_over p < b \<and> kind_of_tok (cur p) \<noteq> TOK_EOF" and "pbind m f p = Inr (x, p')"
    then obtain y q where q: "m p = Inr (y, q)" "f y q = Inr (x, p')" by (auto simp: pbind_Inr)
    have a: "adv p q" using safeD(2) [OF m _ _ q(1)] p by blast
    have l: "left_over q < left_over p" using eats_tokD [OF assms(1) _ _ _ q(1)] p by blast
    have "left_over q < b" using l p by simp
    from advD(2) [OF safeD(2) [OF assms(2) advD(1) [OF a] this q(2)]] show "left_over p' < left_over p" using l by simp
  qed
qed

lemma eats_on_peek:
  assumes "eats b (f TOK_EOF)" "\<And>k. k \<noteq> TOK_EOF \<Longrightarrow> eats_tok b (f k)"
  shows "eats b (pbind nnc_parser_peek f)"
proof -
  have e: "pbind nnc_parser_peek f p = f (kind_of_tok (cur p)) p" for p
    by (simp add: pbind_def nnc_parser_peek_def)
  have "safe b (f k)" for k using assms by (cases "k = TOK_EOF") (simp_all add: eats_def eats_tok_def)
  then have s: "safe b (pbind nnc_parser_peek f)" unfolding safe_def e by blast
  show ?thesis
    unfolding eats_def
  proof (intro conjI s allI impI)
    fix p x p' assume p: "p_inv p \<and> left_over p < b" "pbind nnc_parser_peek f p = Inr (x, p')"
    show "left_over p' < left_over p"
    proof (cases "kind_of_tok (cur p) = TOK_EOF")
      case True
      then show ?thesis using assms(1) p unfolding e eats_def by auto
    next
      case False
      then show ?thesis using assms(2) [OF False] p unfolding e eats_tok_def by auto
    qed
  qed
qed

lemma safe_ret: "safe b (ret x)"
  by (auto simp: safe_def ret_def intro: adv_refl)

lemma eats_fail: "e \<noteq> NoFuel \<Longrightarrow> eats b (pfail e)"
  by (simp add: eats_def safe_def pfail_def)

lemma safe_if: "(c \<Longrightarrow> safe b f) \<Longrightarrow> (\<not> c \<Longrightarrow> safe b g) \<Longrightarrow> safe b (if c then f else g)"
  by simp

lemma eats_if: "(c \<Longrightarrow> eats b f) \<Longrightarrow> (\<not> c \<Longrightarrow> eats b g) \<Longrightarrow> eats b (if c then f else g)"
  by simp

lemma eats_tok_if: "(c \<Longrightarrow> eats_tok b f) \<Longrightarrow> (\<not> c \<Longrightarrow> eats_tok b g) \<Longrightarrow> eats_tok b (if c then f else g)"
  by simp

text \<open>A loop whose body reads a token ends within as many rounds as there are tokens.\<close>

lemma safe_while:
  assumes "\<And>s. looks (c s)" "\<And>s. eats b (f s)" "b \<le> n"
  shows "safe b (while_p n c f s)"
  using assms(2,3)
proof (induction n arbitrary: b s)
  case 0
  then show ?case by (simp add: safe_def)
next
  case (Suc n)
  show ?case
  proof (cases b)
    case 0
    then show ?thesis by (simp add: safe_def)
  next
    case (Suc b')
    have "safe b (pbind (f s) (while_p n c f))"
      unfolding Suc
    proof (rule eats_safe, rule safe_after_eats)
      show "eats (Suc b') (f s)" using Suc.prems(1) Suc by simp
      have "eats b' (f s)" for s using eats_mono [OF Suc.prems(1)] Suc by simp
      then show "safe b' (while_p n c f s)" for s using Suc.prems(2) Suc by (intro Suc.IH) simp_all
    qed
    then show ?thesis unfolding while_p.simps
      by (intro safe_bind [OF looks_safe [OF assms(1)]] safe_if safe_ret) simp
  qed
qed

section \<open>Tokens\<close>

lemma lex_step_left:
  assumes "lex_step p = Inr q"
  shows "length (fp (plex q)) + tok_left (tok_here (plex q)) \<le> length (fp (plex p))"
    "q = p\<lparr>plex := plex q\<rparr>"
  using lex_step_consumes [OF assms] assms by (auto simp: tok_left_def lex_step_def split: lres.splits)

lemma lex_step_fuel: "lex_step p \<noteq> Inl NoFuel"
  by (simp add: lex_step_def split: lres.splits)

lemma concat_tok_fuel: "concat_tok c l \<noteq> Inl NoFuel"
  by (simp add: concat_tok_def)

lemma concat_tok_kind: "concat_tok c l = Inr t \<Longrightarrow> tok_kind t = tok_kind c"
  by (auto simp: concat_tok_def split: if_splits)

text \<open>What reading tokens leaves alone.\<close>

definition same_scope :: "nnc_parser \<Rightarrow> nnc_parser \<Rightarrow> bool" where
  "same_scope p q \<longleftrightarrow> is_first q = is_first p \<and> pst q = pst p \<and> pheap q = pheap p"

lemma same_scope_adv: "p_inv p \<Longrightarrow> same_scope p q \<Longrightarrow> left_over q \<le> left_over p \<Longrightarrow> adv p q"
  by (auto simp: same_scope_def adv_def p_inv_def grown_refl)

lemma lex_step_scope: "lex_step p = Inr q \<Longrightarrow> same_scope p q \<and> cur q = cur p \<and> look q = look p"
  by (auto simp: same_scope_def lex_step_def split: lres.splits)

lemma concat_str_left:
  assumes "nnc_parser_concat_str p = r"
  shows "r \<noteq> Inl NoFuel \<and> (\<forall>q. r = Inr q \<longrightarrow> left_over q \<le> left_over p \<and> same_scope p q)"
  using assms
proof (induction p arbitrary: r rule: nnc_parser_concat_str.induct)
  case (1 p)
  show ?case
  proof (cases "kind_of_tok (look p) \<noteq> TOK_STR")
    case True
    then show ?thesis using "1.prems" by (subst (asm) nnc_parser_concat_str.simps) (auto simp: same_scope_def)
  next
    case str: False
    show ?thesis
    proof (cases "concat_tok (fst (cur p)) (fst (look p))")
      case (Inl e)
      then show ?thesis using "1.prems" str concat_tok_fuel [of "fst (cur p)" "fst (look p)"]
        by (subst (asm) nnc_parser_concat_str.simps) auto
    next
      case t: (Inr t)
      let ?p = "p\<lparr>cur := (t, snd (cur p))\<rparr>"
      show ?thesis
      proof (cases "lex_step ?p")
        case (Inl e)
        then show ?thesis using "1.prems" str t lex_step_fuel [of ?p]
          by (subst (asm) nnc_parser_concat_str.simps) auto
      next
        case p1: (Inr p1)
        let ?q = "p1\<lparr>look := tok_here (plex p1)\<rparr>"
        have r: "nnc_parser_concat_str ?q = r"
          using "1.prems" str t p1 by (subst (asm) (1) nnc_parser_concat_str.simps) simp
        note ih = "1.IH" [OF str t p1 r]
        have "left_over ?q \<le> left_over p"
          using lex_step_left(1) [OF p1] lex_step_scope [OF p1] str concat_tok_kind [OF t]
          by (simp add: left_over_def tok_left_def kind_of_tok_def)
        moreover have "same_scope p ?q" using lex_step_scope [OF p1] by (simp add: same_scope_def)
        ultimately show ?thesis using ih by (auto simp: same_scope_def)
      qed
    qed
  qed
qed

lemma next_left:
  assumes "\<not> is_first p" "nnc_parser_next p = r"
  shows "r \<noteq> Inl NoFuel \<and> (\<forall>x q. r = Inr (x, q) \<longrightarrow> left_over q + tok_left (cur p) \<le> left_over p \<and> same_scope p q)"
proof (cases "lex_step p")
  case (Inl e)
  then show ?thesis using assms lex_step_fuel [of p] by (auto simp: nnc_parser_next_def)
next
  case (Inr p1)
  let ?q = "p1\<lparr>cur := look p1, look := tok_here (plex p1)\<rparr>"
  have q: "left_over ?q + tok_left (cur p) \<le> left_over p" "same_scope p ?q"
    using lex_step_left(1) [OF Inr] lex_step_scope [OF Inr] by (simp_all add: left_over_def same_scope_def)
  have f: "\<not> is_first p1" using assms(1) lex_step_scope [OF Inr] by (simp add: same_scope_def)
  have r: "r = bind_res (if kind_of_tok (look p1) = TOK_STR \<and> kind_of_tok (tok_here (plex p1)) = TOK_STR
      then nnc_parser_concat_str ?q else Inr ?q) (\<lambda>q. Inr ((), q))"
    unfolding assms(2) [symmetric] using Inr f by (simp add: nnc_parser_next_def Let_def)
  show ?thesis
    using concat_str_left [OF refl, of ?q] q unfolding r
    by (auto simp: bind_res_eq_Inl bind_res_eq_Inr same_scope_def)
qed

lemma next_safe: "safe b nnc_parser_next"
  unfolding safe_def
proof (intro allI impI conjI)
  fix p assume p: "p_inv p \<and> left_over p < b"
  then have f: "\<not> is_first p" by (simp add: p_inv_def)
  show "nnc_parser_next p \<noteq> Inl NoFuel" using next_left [OF f refl] by blast
  fix x q assume "nnc_parser_next p = Inr (x, q)"
  then show "adv p q" using next_left [OF f refl] p by (intro same_scope_adv) auto
qed

lemma next_eats_tok: "eats_tok b nnc_parser_next"
  unfolding eats_tok_def
proof (intro conjI next_safe allI impI)
  fix p x q assume p: "p_inv p \<and> left_over p < b \<and> kind_of_tok (cur p) \<noteq> TOK_EOF" "nnc_parser_next p = Inr (x, q)"
  then have f: "\<not> is_first p" by (simp add: p_inv_def)
  show "left_over q < left_over p" using next_left [OF f p(2)] p(1) by (simp add: tok_left_def)
qed

lemma looks_basic:
  "looks nnc_parser_peek" "looks nnc_parser_peek_lookup" "looks (nnc_parser_match k)" "looks nnc_parser_get"
  "looks current_scope" "looks (ret x)" "looks (scope_flags f)"
  by (simp_all add: looks_def nnc_parser_peek_def nnc_parser_peek_lookup_def nnc_parser_match_def nnc_parser_get_def
    current_scope_def ret_def scope_flags_def)

lemma looks_get_ctx: "looks nnc_parser_get_ctx"
  by (auto simp: looks_def nnc_parser_get_ctx_def bind_res_eq_Inr bind_res_eq_Inl assert_res_def)

lemma looks_from_res: "r \<noteq> Inl NoFuel \<Longrightarrow> looks (from_res r)"
  by (auto simp: looks_def from_res_def bind_res_eq_Inr bind_res_eq_Inl)

lemma looks_match_type: "looks (nnc_parser_match_type k)"
  by (auto simp: looks_def nnc_parser_match_type_def p_inv_def nnc_st_get_visible)

lemma looks_bind: "looks m \<Longrightarrow> (\<And>x. looks (f x)) \<Longrightarrow> looks (pbind m f)"
  unfolding looks_def pbind_Inr pbind_Inl by blast

lemma looks_if: "(c \<Longrightarrow> looks f) \<Longrightarrow> (\<not> c \<Longrightarrow> looks g) \<Longrightarrow> looks (if c then f else g)"
  by simp

lemma looks_end: "looks (at_end k)" "looks (not_at_end k s)"
  unfolding not_at_end_def at_end_def by (intro looks_bind looks_basic)+

lemmas looks_simps = looks_basic looks_get_ctx looks_match_type looks_end

lemma syntax_error_eats: "eats b syntax_error"
  unfolding syntax_error_def by (rule eats_after_safe [OF looks_safe [OF looks_get_ctx] eats_fail]) simp

lemma expect_eats: "k \<noteq> TOK_EOF \<Longrightarrow> eats b (nnc_parser_expect k)"
  unfolding nnc_parser_expect_def
proof (rule eats_on_peek)
  show "eats_tok b (if k' \<noteq> k then syntax_error else nnc_parser_next)" for k'
    by (simp add: next_eats_tok eats_eats_tok [OF syntax_error_eats])
qed (simp add: syntax_error_eats)

lemma get_esc_chr_fuel: "nnc_get_esc_chr c \<noteq> Inl NoFuel"
  by (simp add: nnc_get_esc_chr_def)

lemma zip_chars_fuel: "zip_chars esc s \<noteq> Inl NoFuel"
  by (induction esc s rule: zip_chars.induct) (auto simp: bind_res_eq_Inl get_esc_chr_fuel)

lemma literal_fuel: "nnc_int_new s \<noteq> Inl NoFuel" "nnc_chr_new s \<noteq> Inl NoFuel" "nnc_str_new s \<noteq> Inl NoFuel"
  "nnc_dbl_new d s \<noteq> Inl NoFuel"
proof -
  have "nnc_get_int_suffix s \<noteq> Inl NoFuel"
    by (auto simp: nnc_get_int_suffix_def suffix_at_def bind_res_eq_Inl Let_def split: prod.split)
  then show "nnc_int_new s \<noteq> Inl NoFuel"
    by (auto simp: nnc_int_new_def nnc_int_check_overflow_def bind_res_eq_Inl Let_def split: prod.split)
  have "nnc_get_dbl_suffix s \<noteq> Inl NoFuel" by (simp add: nnc_get_dbl_suffix_def Let_def split: prod.split)
  then show "nnc_dbl_new d s \<noteq> Inl NoFuel"
    by (auto simp: nnc_dbl_new_def nnc_dbl_check_overflow_def bind_res_eq_Inl Let_def split: prod.split)
  show "nnc_chr_new s \<noteq> Inl NoFuel" by (simp add: nnc_chr_new_def get_esc_chr_fuel Let_def)
  show "nnc_str_new s \<noteq> Inl NoFuel"
    by (simp add: nnc_str_new_def nnc_str_zip_def bind_res_eq_Inl zip_chars_fuel Let_def)
qed


section \<open>Scopes and declarations\<close>

lemma put_done:
  assumes "put_ready H st x k key"
  shows "nnc_st_put H st x k = Inl (Throw (already k)) \<or>
    (\<exists>ts. nnc_st_put H st x k = Inr (H\<lparr>tables := ts\<rparr>) \<and> st_wf ts \<and> same_shape (tables H) ts)"
proof (cases "first_some (declared (tables H) k key) (clash_scope H st x k) = None")
  case False
  then show ?thesis using put_cases [OF assms] by simp
next
  case True
  have wf: "st_wf (tables H)" and st: "st < length (tables H)" using assms by (simp_all add: put_ready_def)
  have "st \<in> set (clash_scope H st x k)" using wf st by (simp add: clash_scope_def visible_eq below_eq)
  then have "declared (tables H) k key st = None" using True by (simp add: first_some_None)
  from insert_declared [OF wf st this, of x] show ?thesis using put_cases [OF assms] True by auto
qed

lemma same_shape_grown: "same_shape ts ts' \<Longrightarrow> grown ts ts'"
  by (simp add: same_shape_def grown_def)

lemma heap_adv:
  assumes "p_inv p" "st_wf (tables H)" "grown (tables (pheap p)) (tables H)"
  shows "adv p (p\<lparr>pheap := H\<rparr>)"
  using assms by (auto simp: adv_def p_inv_def left_over_def grown_def)

text \<open>\<open>safe_in st\<close>: safe where \<open>st\<close> is a table.\<close>

definition safe_in :: "nat \<Rightarrow> nat \<Rightarrow> 'a parse \<Rightarrow> bool" where
  "safe_in b st f \<longleftrightarrow> (\<forall>p. p_inv p \<and> left_over p < b \<and> st < length (tables (pheap p)) \<longrightarrow>
     f p \<noteq> Inl NoFuel \<and> (\<forall>x p'. f p = Inr (x, p') \<longrightarrow> adv p p'))"

lemma safe_in_bind:
  assumes "safe_in b st m" "\<And>x. safe_in b st (f x)"
  shows "safe_in b st (pbind m f)"
  unfolding safe_in_def
proof (intro allI impI conjI)
  fix p assume p: "p_inv p \<and> left_over p < b \<and> st < length (tables (pheap p))"
  have step: "p_inv q \<and> left_over q < b \<and> st < length (tables (pheap q)) \<and> adv p q" if "m p = Inr (x, q)" for x q
  proof -
    have a: "adv p q" using assms(1) p that unfolding safe_in_def by blast
    then show ?thesis using advD(1,2,4) [OF a] p by (simp add: grown_def)
  qed
  show "pbind m f p \<noteq> Inl NoFuel"
    using assms p step unfolding safe_in_def pbind_Inl by blast
  fix x p' assume "pbind m f p = Inr (x, p')"
  then obtain y q where q: "m p = Inr (y, q)" "f y q = Inr (x, p')" by (auto simp: pbind_Inr)
  then show "adv p p'" using assms(2) step [OF q(1)] adv_trans unfolding safe_in_def by blast
qed

lemma safe_safe_in: "safe b f \<Longrightarrow> safe_in b st f"
  by (simp add: safe_def safe_in_def)

lemma put_adv:
  assumes "p_inv p" "put_ready H st x k key" "tables H = tables (pheap p)"
  shows "nnc_st_put H st x k \<noteq> Inl NoFuel" "nnc_st_put H st x k = Inr H' \<Longrightarrow> adv p (p\<lparr>pheap := H'\<rparr>)"
  using put_done [OF assms(2)] assms(1,3) by (auto simp: heap_adv same_shape_grown)

lemma put_ident_in: "safe_in b st (put_ident st i)"
  unfolding safe_in_def
proof (intro allI impI conjI)
  fix p assume p: "p_inv p \<and> left_over p < b \<and> st < length (tables (pheap p))"
  let ?H = "(pheap p)\<lparr>idents := idents (pheap p) @ [i]\<rparr>"
  have r: "put_ready ?H st (length (idents (pheap p))) ST_SYM_IDENT (iname i)"
    using p by (simp add: put_ready_def p_inv_def)
  note a = put_adv [OF _ r]
  show "put_ident st i p \<noteq> Inl NoFuel" using a(1) p by (auto simp: put_ident_def Let_def bind_res_eq_Inl)
  show "adv p q" if "put_ident st i p = Inr (x, q)" for x q
    using a(2) p that by (auto simp: put_ident_def Let_def bind_res_eq_Inr)
qed

lemma put_alias_in: "safe_in b st (put_alias st n)"
  unfolding safe_in_def
proof (intro allI impI conjI)
  fix p assume p: "p_inv p \<and> left_over p < b \<and> st < length (tables (pheap p))"
  obtain ts t where t: "nnc_alias_type_new (htypes (pheap p)) = (ts, t)" by fastforce
  let ?H = "(pheap p)\<lparr>htypes := ts[t := (ts ! t)\<lparr>trepr := Some n\<rparr>]\<rparr>"
  have r: "put_ready ?H st t ST_SYM_TYPE n"
    using p t by (auto simp: put_ready_def p_inv_def nnc_alias_type_new_def alloc_type_def nth_append nnc_type_new_def)
  note a = put_adv [OF _ r]
  show "put_alias st n p \<noteq> Inl NoFuel" using a(1) p t by (auto simp: put_alias_def Let_def bind_res_eq_Inl)
  show "adv p q" if "put_alias st n p = Inr (x, q)" for x q
    using a(2) p t that by (auto simp: put_alias_def Let_def bind_res_eq_Inr)
qed

lemma put_params_in: "safe_in b st (put_params st is)"
proof (induction "is")
  case Nil
  then show ?case by (simp add: safe_safe_in safe_ret)
next
  case (Cons i "is")
  have "adv p (p\<lparr>shown := n\<rparr>)" if "p_inv p" for p n
    using that by (simp add: adv_def p_inv_def left_over_def grown_refl)
  then have "safe_in b st (put_param st i)"
    using put_ident_in [of b st i] by (auto simp: safe_in_def put_param_def split: sum.splits fault.splits)
  then show ?case using Cons.IH by (simp add: safe_in_bind)
qed

lemma safe_here:
  assumes "\<And>st. safe_in b st (f st)"
  shows "safe b (pbind current_scope f)"
proof -
  have e: "pbind current_scope f p = f (pst p) p" for p by (simp add: pbind_def current_scope_def)
  show ?thesis
    unfolding safe_def e
  proof (intro allI impI)
    fix p assume "p_inv p \<and> left_over p < b"
    then show "f (pst p) p \<noteq> Inl NoFuel \<and> (\<forall>x p'. f (pst p) p = Inr (x, p') \<longrightarrow> adv p p')"
      using assms [of "pst p", unfolded safe_in_def, rule_format, of p] by (simp add: p_inv_def)
  qed
qed

lemma new_type_safe: "safe b (new_type f)"
  unfolding safe_def
proof (intro allI impI conjI)
  fix p x q assume p: "p_inv p \<and> left_over p < b"
  show "new_type f p \<noteq> Inl NoFuel" by (simp add: new_type_def split: prod.split)
  assume "new_type f p = Inr (x, q)"
  then obtain ts where "q = p\<lparr>pheap := (pheap p)\<lparr>htypes := ts\<rparr>\<rparr>" by (auto simp: new_type_def split: prod.splits)
  then show "adv p q" using p by (auto intro!: heap_adv simp: p_inv_def grown_refl)
qed

text \<open>A new table: it is the last one, its root is the current one, and the current one has it as a branch.\<close>

lemma enter_scope:
  assumes "p_inv p"
  shows "\<exists>q. pbind nnc_parser_enter_scope (\<lambda>_. pbind current_scope (\<lambda>scope. pbind (set_scope_ctx c) (\<lambda>_. f scope))) p =
      f (pst q) q \<and> p_inv q \<and> left_over q = left_over p \<and> pst q = length (tables (pheap p)) \<and>
      st_root (tables (pheap q) ! pst q) = Some (pst p) \<and> grown (tables (pheap p)) (tables (pheap q))"
proof -
  let ?ts = "tables (pheap p)" and ?i = "pst p"
  let ?new = "length ?ts"
  have i: "?i < ?new" and wf: "st_wf ?ts" using assms by (simp_all add: p_inv_def)
  define us where "us = ?ts[?i := (?ts ! ?i)\<lparr>branches := branches (?ts ! ?i) @ [?new]\<rparr>]
     @ [nnc_st_init\<lparr>st_ctx := c, st_root := Some ?i\<rparr>]"
  define q where "q = p\<lparr>pst := ?new, pheap := (pheap p)\<lparr>tables := us\<rparr>\<rparr>"
  have nth: "us ! j = (if j = ?new then nnc_st_init\<lparr>st_ctx := c, st_root := Some ?i\<rparr>
      else if j = ?i then (?ts ! ?i)\<lparr>branches := branches (?ts ! ?i) @ [?new]\<rparr> else ?ts ! j)" if "j \<le> ?new" for j
    using that i by (simp add: us_def nth_append)
  have len: "length us = Suc ?new" by (simp add: us_def)
  have e: "pbind nnc_parser_enter_scope (\<lambda>_. pbind current_scope (\<lambda>scope. pbind (set_scope_ctx c) (\<lambda>_. f scope))) p = f (pst q) q"
    using i by (simp add: pbind_def nnc_parser_enter_scope_def Let_def current_scope_def set_scope_ctx_def nth_append
      list_update_append q_def us_def nnc_st_init_def)
  have "st_wf us"
    unfolding st_wf_def len
  proof (intro allI impI)
    fix j assume j: "j < Suc ?new"
    show "map_inv str_keys (st_types (us ! j)) \<and> map_inv str_keys (st_syms (us ! j)) \<and>
      (\<forall>r. st_root (us ! j) = Some r \<longrightarrow> r < j) \<and> (\<forall>b \<in> set (branches (us ! j)). j < b \<and> b < Suc ?new)"
    proof (cases "j = ?new")
      case True
      then show ?thesis using i by (simp add: nth nnc_st_init_def nncmap_init_inv)
    next
      case False
      then have j': "j < ?new" using j by simp
      note w = wf [unfolded st_wf_def, rule_format, OF j']
      have "\<forall>b \<in> set (branches (?ts ! j)). j < b \<and> b < Suc ?new" using w by auto
      then show ?thesis using w j' by (auto simp: nth)
    qed
  qed
  then have "p_inv q" using assms by (simp add: p_inv_def q_def len)
  moreover have "grown ?ts us" using len by (simp add: grown_def nth)
  ultimately show ?thesis using e by (intro exI [of _ q]) (simp add: q_def left_over_def nth)
qed


section \<open>One level of the recursion\<close>

text \<open>
  Rules by which a chain of steps is safe, or reads a token: the first step that reads one
  lowers the bound by one.
\<close>

named_theorems parse_rules \<open>safe steps of the parser\<close>

lemma eats_at: "eats k f \<Longrightarrow> b \<le> k \<Longrightarrow> eats b f"
  by (rule eats_mono)

lemma safe_at: "eats k f \<Longrightarrow> b \<le> k \<Longrightarrow> safe b f"
  by (rule eats_safe [OF eats_mono])

lemma eats_first:
  assumes "eats b m" "\<And>x. safe b (f x)"
  shows "eats b (pbind m f)"
proof (cases b)
  case (Suc b')
  have "safe b' (f x)" for x using assms(2) [of x] by (rule safe_mono) (simp add: Suc)
  then show ?thesis using safe_after_eats [of b' m f] assms(1) Suc by simp
qed (simp add: eats_def safe_def)

lemma expect_safe: "k \<noteq> TOK_EOF \<Longrightarrow> safe b (nnc_parser_expect k)"
  by (rule eats_safe [OF expect_eats])

lemma syntax_error_safe: "safe b syntax_error"
  by (rule eats_safe [OF syntax_error_eats])

lemma fail_safe: "e \<noteq> NoFuel \<Longrightarrow> safe b (pfail e)"
  by (rule eats_safe [OF eats_fail])

lemmas looks_safe_simps = looks_simps [THEN looks_safe]

declare safe_bind [parse_rules] safe_if [parse_rules] safe_while [parse_rules] looks_safe_simps [parse_rules]
  eats_if [parse_rules] eats_after_safe [parse_rules] eats_first [parse_rules] safe_after_eats [parse_rules]
  expect_eats [parse_rules] expect_safe [parse_rules] syntax_error_eats [parse_rules] syntax_error_safe [parse_rules]
  eats_fail [parse_rules] fail_safe [parse_rules] next_safe [parse_rules] new_type_safe [parse_rules]
  looks_basic [parse_rules] looks_get_ctx [parse_rules] looks_end [parse_rules] looks_match_type [parse_rules]
  looks_bind [parse_rules]

locale parser_calls =
  fixes R :: rec_parsers and k :: nat
  assumes fuel: "k < r_fuel R"
    and unary: "eats k (r_unary R)"
    and expr: "eats k (r_expr R)"
    and reduced: "eats k (r_reduced R)"
    and type_expr: "eats k (r_type R)"
    and stmt: "eats (k - 1) (r_stmt R)"
begin

lemma fuel': "b \<le> Suc k \<Longrightarrow> b \<le> r_fuel R"
  using fuel by simp

lemmas call_rules = unary [THEN eats_at] unary [THEN safe_at] expr [THEN eats_at] expr [THEN safe_at]
  reduced [THEN eats_at] reduced [THEN safe_at] type_expr [THEN eats_at] type_expr [THEN safe_at] fuel'

declare call_rules [parse_rules]

lemma nesting: "safe (Suc k) (nnc_parse_nesting R)"
  by (simp add: nnc_parse_nesting_def parse_rules)

lemma var_type: "eats (Suc k) (nnc_parse_var_type R)"
  by (simp add: nnc_parse_var_type_def parse_rules)

lemmas var_type_rules [parse_rules] = var_type [THEN eats_at] var_type [THEN safe_at]

lemma fn_param: "eats (Suc k) (nnc_parse_fn_param R)"
  by (simp add: nnc_parse_fn_param_def parse_rules)

lemma enumerator: "eats (Suc k) (nnc_parse_enumerator R)"
  by (simp add: nnc_parse_enumerator_def parse_rules)

lemmas member_rules [parse_rules] = fn_param [THEN eats_at] fn_param [THEN safe_at]
  enumerator [THEN eats_at] enumerator [THEN safe_at]

lemma fn_type: "eats (Suc k) (nnc_parse_fn_type R)"
  by (simp add: nnc_parse_fn_type_def parse_rules)

lemma user_type: "eats (Suc k) nnc_parse_user_type"
  by (simp add: nnc_parse_user_type_def parse_rules)

text \<open>The enumerator is put into the current table before the comma behind it is read.\<close>

lemma put_here: "(\<And>x. safe b (f x)) \<Longrightarrow> safe b (pbind current_scope (\<lambda>st. pbind (put_ident st i) f))"
  by (intro safe_here safe_in_bind put_ident_in safe_safe_in)

lemma enum_type: "eats (Suc k) (nnc_parse_enum_type R)"
  by (simp add: nnc_parse_enum_type_def parse_rules put_here)

lemma struct_type: "eats (Suc k) (nnc_parse_struct_or_union_type R)"
  unfolding nnc_parse_struct_or_union_type_def
proof (rule eats_on_peek)
  show "eats_tok (Suc k) (if k' \<noteq> Keyword TOK_UNION \<and> k' \<noteq> Keyword TOK_STRUCT then syntax_error else
      pbind nnc_parser_next (\<lambda>_. pbind (nnc_parser_expect TOK_OBRACE) (\<lambda>_.
      pbind (while_p (r_fuel R) (not_at_end TOK_CBRACE)
        (\<lambda>ms. pbind (nnc_parse_struct_member R) (\<lambda>m. pbind (nnc_parser_expect TOK_SEMICOLON) (\<lambda>_. ret (ms @ [m])))) []) (\<lambda>ms.
      pbind (nnc_parser_expect TOK_CBRACE) (\<lambda>_. ret (if k' = Keyword TOK_UNION then PT_UNION ms else PT_STRUCT ms))))))" for k'
    by (rule eats_tok_if) (simp_all add: eats_eats_tok eats_tok_before_safe next_eats_tok nnc_parse_struct_member_def parse_rules)
qed (simp add: parse_rules)

lemmas type_rules [parse_rules] = fn_type [THEN eats_at] user_type [THEN eats_at] enum_type [THEN eats_at] struct_type [THEN eats_at]

lemma arr_declarator: "eats (Suc k) (nnc_parse_arr_declarator R t)"
  by (simp add: nnc_parse_arr_declarator_def parse_rules)

lemma ptr_declarator: "eats (Suc k) (nnc_parse_ptr_declarator t)"
  by (simp add: nnc_parse_ptr_declarator_def parse_rules)

lemma type_declarators: "b \<le> Suc k \<Longrightarrow> safe b (nnc_parse_type_declarators R t)"
  by (simp add: nnc_parse_type_declarators_def parse_rules arr_declarator [THEN eats_at] ptr_declarator [THEN eats_at])

lemma parse_type: "eats (Suc k) (nnc_parse_type R)"
  unfolding nnc_parse_type_def
proof (rule eats_on_peek)
  show "eats_tok (Suc k) (pbind (case map_of base_kinds k' of
         Some t \<Rightarrow> ret (PT_BASE t)
       | None \<Rightarrow>
           if k' = Keyword TOK_FN then nnc_parse_fn_type R
           else if k' = TOK_IDENT then nnc_parse_user_type
           else if k' = Keyword TOK_ENUM then nnc_parse_enum_type R
           else if k' = Keyword TOK_UNION \<or> k' = Keyword TOK_STRUCT then nnc_parse_struct_or_union_type R
           else syntax_error) (\<lambda>t.
     pbind (if k' \<noteq> TOK_IDENT then pbind (nnc_parser_match_type k') (\<lambda>m. if m then nnc_parser_next else ret ()) else ret ()) (\<lambda>_.
       nnc_parse_type_declarators R t)))" for k'
  proof (cases "map_of base_kinds k'")
    case None
    then show ?thesis by (simp add: eats_eats_tok type_declarators parse_rules)
  next
    case (Some t)
    then have "k' \<in> fst ` set base_kinds" by (metis map_of_eq_None_iff option.distinct(1))
    moreover from this have "k' \<noteq> TOK_IDENT" by (auto simp: base_kinds_def)
    ultimately have "pbind (nnc_parser_match_type k') (\<lambda>m. if m then nnc_parser_next else ret ()) = nnc_parser_next"
      by (auto simp: fun_eq_iff pbind_def nnc_parser_match_type_def)
    then show ?thesis using Some \<open>k' \<noteq> TOK_IDENT\<close>
      by (simp add: eats_tok_after_looks looks_basic eats_tok_before_safe next_eats_tok type_declarators)
  qed
qed (simp add: base_kinds_def parse_rules type_declarators)

lemma parse_type_expr: "eats (Suc k) (nnc_parse_type_expr R)"
  by (simp add: nnc_parse_type_expr_def parse_rules nesting parse_type)

lemma ret_type: "b \<le> k \<Longrightarrow> safe b (nnc_parse_fn_ret_type_expr R)"
  by (simp add: nnc_parse_fn_ret_type_expr_def parse_rules)

end


text \<open>The loop over the namespaces reads a token or leaves the parser as it is.\<close>

lemma while_moves:
  assumes "\<And>s. looks (c s)" "\<And>s. eats b (f s)" "p_inv p" "left_over p < b" "while_p n c f s p = Inr (x, q)"
  shows "q = p \<or> left_over q < left_over p"
proof (cases n)
  case (Suc n')
  then obtain h p1 where h: "c s p = Inr (h, p1)" "(if h then pbind (f s) (while_p n' c f) else ret s) p1 = Inr (x, q)"
    using assms(5) by (auto simp: pbind_Inr)
  have p1: "p1 = p" using assms(1) [of s] assms(3) h(1) by (auto simp: looks_def)
  show ?thesis
  proof (cases h)
    case True
    then obtain s1 p2 where s1: "f s p = Inr (s1, p2)" "while_p n' c f s1 p2 = Inr (x, q)"
      using h(2) p1 by (auto simp: pbind_Inr)
    have a: "adv p p2" by (rule safeD(2) [OF eats_safe [OF assms(2)] assms(3,4) s1(1)])
    have l: "left_over p2 < left_over p" by (rule eatsD [OF assms(2-4) s1(1)])
    have "left_over q \<le> left_over p2" if "p_inv p2" "left_over p2 < b" "while_p n' c f s1 p2 = Inr (x, q)"
      using that
    proof (induction n' arbitrary: s1 p2)
      case (Suc n')
      then obtain h p3 where h: "c s1 p2 = Inr (h, p3)" "(if h then pbind (f s1) (while_p n' c f) else ret s1) p3 = Inr (x, q)"
        by (auto simp: pbind_Inr)
      have p3: "p3 = p2" using assms(1) [of s1] Suc.prems(1) h(1) by (auto simp: looks_def)
      show ?case
      proof (cases h)
        case True
        then obtain s2 p4 where s2: "f s1 p2 = Inr (s2, p4)" "while_p n' c f s2 p4 = Inr (x, q)"
          using h(2) p3 by (auto simp: pbind_Inr)
        have a: "adv p2 p4" by (rule safeD(2) [OF eats_safe [OF assms(2)] Suc.prems(1,2) s2(1)])
        then show ?thesis using Suc.IH [OF advD(1) [OF a] _ s2(2)] advD(2) [OF a] Suc.prems(2) by simp
      qed (use h p3 in \<open>simp add: ret_def\<close>)
    qed (simp add: pfail_def)
    then show ?thesis using s1(2) l advD(1) [OF a] assms(4) by simp
  qed (use h p1 in \<open>simp add: ret_def\<close>)
qed (use assms(5) in \<open>simp add: pfail_def\<close>)

context parser_calls begin

lemma nesting_moves:
  assumes "p_inv p" "left_over p < Suc k" "nnc_parse_nesting R p = Inr (x, q)"
  shows "q = p \<or> left_over q < left_over p"
  by (rule while_moves [OF _ _ assms(1,2) assms(3) [unfolded nnc_parse_nesting_def]]) (simp_all add: parse_rules)

lemma ident_safe: "b \<le> Suc k \<Longrightarrow> safe b (nnc_parse_ident R)"
  by (rule safe_mono [of "Suc k"]) (simp_all add: nnc_parse_ident_def parse_rules nesting)

lemma ident: "eats_tok (Suc k) (nnc_parse_ident R)"
  unfolding eats_tok_def
proof (intro conjI allI impI)
  show "safe (Suc k) (nnc_parse_ident R)" by (rule ident_safe) simp
  fix p x q
  assume p: "p_inv p \<and> left_over p < Suc k \<and> kind_of_tok (cur p) \<noteq> TOK_EOF" "nnc_parse_ident R p = Inr (x, q)"
  then obtain ns p1 where n: "nnc_parse_nesting R p = Inr (ns, p1)"
    "pbind nnc_parser_get (\<lambda>tok. pbind nnc_parser_get_ctx (\<lambda>_. pbind nnc_parser_next (\<lambda>_. ret (PE_IDENT ns (lexeme tok))))) p1 = Inr (x, q)"
    (is "?rest p1 = _") by (auto simp: nnc_parse_ident_def pbind_Inr)
  have e: "eats_tok (Suc k) ?rest"
    by (intro eats_tok_after_looks eats_tok_before_safe next_eats_tok) (simp_all add: parse_rules)
  have a: "adv p p1" using safeD(2) [OF nesting _ _ n(1)] p by blast
  have "p_inv p1" "left_over p1 < Suc k" using advD(1,2) [OF a] p by simp_all
  from this n(2) have "left_over q \<le> left_over p1" using safeD(2) [OF eats_tok_safe [OF e]] advD(2) by blast
  moreover have "left_over q < left_over p" if "p1 = p" using eats_tokD [OF e _ _ _ n(2)] p that by blast
  ultimately show "left_over q < left_over p" using nesting_moves [OF _ _ n(1)] p by fastforce
qed

lemma literal_steps: "eats_tok b nnc_parse_str" "eats_tok b nnc_parse_chr" "eats_tok b nnc_parse_int" "eats_tok b (nnc_parse_dbl R)"
  unfolding nnc_parse_str_def nnc_parse_chr_def nnc_parse_int_def nnc_parse_dbl_def
  by (intro eats_tok_after_looks eats_tok_before_safe next_eats_tok looks_basic looks_get_ctx looks_from_res literal_fuel
    looks_safe)+

lemma number: "eats_tok b (nnc_parse_number R)"
  unfolding nnc_parse_number_def by (intro eats_tok_after_looks eats_tok_if looks_basic literal_steps)

lemma parens: "eats (Suc k) (nnc_parse_parens R)"
  by (simp add: nnc_parse_parens_def parse_rules)

lemmas parens_rules [parse_rules] = parens [THEN eats_at] parens [THEN safe_at]

lemma primary: "eats (Suc k) (nnc_parse_primary_expr R)"
  unfolding nnc_parse_primary_expr_def
proof (rule eats_on_peek)
  show "eats_tok (Suc k) (if k' = TOK_STR then nnc_parse_str else if k' = TOK_CHR then nnc_parse_chr
      else if k' = TOK_IDENT then nnc_parse_ident R else if k' = TOK_NUMBER then nnc_parse_number R
      else if k' = TOK_OPAREN then nnc_parse_parens R else syntax_error)" for k'
    by (intro eats_tok_if literal_steps ident number eats_eats_tok [OF parens] eats_eats_tok [OF syntax_error_eats])
qed (simp add: parse_rules)

lemma prefix: "eats (Suc k) (prefix_expr t u R)" if "t \<noteq> TOK_EOF"
  using that by (simp add: prefix_expr_def parse_rules)

lemma cast: "eats (Suc k) (nnc_parse_cast_expr R)"
  by (simp add: nnc_parse_cast_expr_def parse_rules)

lemma sizeof: "eats (Suc k) (nnc_parse_sizeof_expr R)"
  by (simp add: nnc_parse_sizeof_expr_def parse_rules)

lemma lengthof: "eats (Suc k) (nnc_parse_lengthof_expr R)"
  by (simp add: nnc_parse_lengthof_expr_def parse_rules)

lemma as_expr: "eats (Suc k) (nnc_parse_as_expr R e)"
  by (simp add: nnc_parse_as_expr_def parse_rules)

lemma dot: "eats (Suc k) (nnc_parse_dot_expr R e)"
  by (simp add: nnc_parse_dot_expr_def parse_rules ident_safe)

lemma call: "eats (Suc k) (nnc_parse_call_expr R e)"
  by (simp add: nnc_parse_call_expr_def parse_rules)

lemma index: "eats (Suc k) (nnc_parse_index_expr R e)"
  by (simp add: nnc_parse_index_expr_def parse_rules)

lemmas postfix_rules = as_expr [THEN safe_at] dot [THEN eats_at] call [THEN eats_at] index [THEN eats_at]

lemma postfix: "eats (Suc k) (nnc_parse_postfix_expr R)"
  unfolding nnc_parse_postfix_expr_def
  by (rule safe_after_eats [OF primary]) (simp add: parse_rules postfix_rules)

lemma unary_expr: "eats (Suc k) (nnc_parse_unary_expr R)"
proof -
  have c: "safe (Suc k) (if o' then pbind nnc_parser_peek_lookup nnc_parser_match_type else ret False)" for o'
    by (intro looks_safe looks_if looks_bind looks_simps)
  show ?thesis
    unfolding nnc_parse_unary_expr_def
    by (intro eats_after_safe [OF looks_safe [OF looks_basic(3)]] eats_after_safe [OF c] eats_if cast
      eats_after_safe [OF looks_safe [OF looks_basic(1)]] sizeof lengthof postfix)
      (simp_all add: prefix nnc_parse_plus_expr_def nnc_parse_minus_expr_def nnc_parse_bitwise_not_expr_def
        nnc_parse_not_expr_def nnc_parse_deref_expr_def nnc_parse_ref_expr_def)
qed

lemma level: "eats (Suc k) (binary_level ops sub R)" if "eats (Suc k) (sub R)"
  unfolding binary_level_def
  using that [THEN eats_at] that [THEN safe_at] by (simp add: parse_rules)

lemma or_expr: "eats (Suc k) (nnc_parse_or_expr R)"
  unfolding nnc_parse_or_expr_def nnc_parse_and_expr_def nnc_parse_bitwise_or_expr_def nnc_parse_bitwise_xor_expr_def
    nnc_parse_bitwise_and_expr_def nnc_parse_equality_expr_def nnc_parse_relation_expr_def nnc_parse_arith_shift_expr_def
    nnc_parse_arith_addition_expr_def nnc_parse_arith_multiplication_expr_def
  by (intro level unary_expr)

lemma ternary: "eats (Suc k) (nnc_parse_ternary_expr R)"
  unfolding nnc_parse_ternary_expr_def
  by (rule eats_after_safe [OF looks_safe [OF looks_get_ctx] safe_after_eats [OF or_expr]]) (simp add: parse_rules)

lemma assignment: "eats (Suc k) (nnc_parse_expr_reduced R)"
  unfolding nnc_parse_expr_reduced_def nnc_parse_assignment_expr_def by (intro level ternary)

lemma parse_expr: "eats (Suc k) (nnc_parse_expr R)"
  unfolding nnc_parse_expr_def nnc_parse_comma_expr_def
  using assignment unfolding nnc_parse_expr_reduced_def by (rule level)

end


section \<open>Statements\<close>

text \<open>A compound statement has a table.\<close>

definition gives_scope :: "nat \<Rightarrow> pstmt parse \<Rightarrow> bool" where
  "gives_scope b f \<longleftrightarrow> safe b f \<and> (\<forall>p s q. p_inv p \<and> left_over p < b \<and> f p = Inr (s, q) \<longrightarrow>
     (\<exists>st ss. s = PS_COMPOUND st ss \<and> st < length (tables (pheap q))))"

lemma safe_scope_bind:
  assumes "gives_scope b m" "\<And>st ss. safe_in b st (f (PS_COMPOUND st ss))"
  shows "safe b (pbind m f)"
  unfolding safe_def
proof (intro allI impI conjI)
  fix p assume p: "p_inv p \<and> left_over p < b"
  have m: "safe b m" using assms(1) by (simp add: gives_scope_def)
  have step: "\<exists>st ss. s = PS_COMPOUND st ss \<and> p_inv q \<and> left_over q < b \<and> st < length (tables (pheap q)) \<and> adv p q"
    if r: "m p = Inr (s, q)" for s q
  proof -
    have a: "adv p q" using safeD(2) [OF m _ _ r] p by blast
    obtain st ss where s: "s = PS_COMPOUND st ss" "st < length (tables (pheap q))"
      using assms(1) [unfolded gives_scope_def, THEN conjunct2, rule_format, of p s q] p r by blast
    have "p_inv q \<and> left_over q < b" using advD(1,2) [OF a] p by simp
    then show ?thesis using s a by blast
  qed
  show "pbind m f p \<noteq> Inl NoFuel"
  proof
    assume "pbind m f p = Inl NoFuel"
    then obtain s q where "m p = Inr (s, q)" "f s q = Inl NoFuel" using safeD(1) [OF m] p by (auto simp: pbind_Inl)
    then show False using step assms(2) unfolding safe_in_def by blast
  qed
  fix x p' assume "pbind m f p = Inr (x, p')"
  then obtain s q where q: "m p = Inr (s, q)" "f s q = Inr (x, p')" by (auto simp: pbind_Inr)
  then obtain st ss where s: "s = PS_COMPOUND st ss" "p_inv q" "left_over q < b" "st < length (tables (pheap q))" "adv p q"
    using step by blast
  then have "adv q p'" using assms(2) q(2) unfolding safe_in_def by blast
  then show "adv p p'" using adv_trans s(5) by blast
qed

lemma ret_bind: "pbind (ret x) f = f x"
  by (simp add: fun_eq_iff pbind_def ret_def)

lemma symtable_in: "safe_in b st (f st) \<Longrightarrow> safe_in b st (pbind (NNC_GET_SYMTABLE (PS_COMPOUND st ss)) f)"
  by (simp add: NNC_GET_SYMTABLE_def ret_bind)

lemma leave_scope:
  assumes "p_inv p" "st_root (tables (pheap p) ! pst p) = Some r"
  shows "nnc_parser_leave_scope p = Inr ((), p\<lparr>pst := r\<rparr>)" "p_inv (p\<lparr>pst := r\<rparr>)"
proof -
  have l: "pst p < length (tables (pheap p))" and w: "st_wf (tables (pheap p))" using assms(1) by (simp_all add: p_inv_def)
  show "nnc_parser_leave_scope p = Inr ((), p\<lparr>pst := r\<rparr>)" using assms(2) l by (simp add: nnc_parser_leave_scope_def)
  have "r < pst p" by (rule st_wfD(2) [OF w l assms(2)])
  then show "p_inv (p\<lparr>pst := r\<rparr>)" using assms(1) by (simp add: p_inv_def)
qed

lemma match_peek: "pbind (nnc_parser_match t) f = pbind nnc_parser_peek (\<lambda>k. f (k = t))"
  by (simp add: fun_eq_iff pbind_def nnc_parser_match_def nnc_parser_peek_def)

text \<open>A body that is parsed in a table of its own, which is left again behind it.\<close>

definition in_scope :: "u32 \<Rightarrow> (nat \<Rightarrow> 'a parse) \<Rightarrow> 'a parse" where
  "in_scope c body = pbind nnc_parser_enter_scope (\<lambda>_. pbind current_scope (\<lambda>scope. pbind (set_scope_ctx c) (\<lambda>_.
     pbind (body scope) (\<lambda>s. pbind nnc_parser_leave_scope (\<lambda>_. ret s)))))"

lemma in_scope_run:
  assumes safe: "\<And>scope. safe b (body scope)" and p: "p_inv p" "left_over p < b"
  shows "in_scope c body p \<noteq> Inl NoFuel"
    "in_scope c body p = Inr (s, q) \<Longrightarrow> adv p q \<and> (\<exists>st p1 p2. body st p1 = Inr (s, p2) \<and> st < length (tables (pheap q)))"
proof -
  obtain p1 where p1: "in_scope c body p = pbind (body (pst p1)) (\<lambda>s. pbind nnc_parser_leave_scope (\<lambda>_. ret s)) p1"
    "p_inv p1" "left_over p1 = left_over p" "st_root (tables (pheap p1) ! pst p1) = Some (pst p)"
    "grown (tables (pheap p)) (tables (pheap p1))"
    unfolding in_scope_def
    using enter_scope [OF p(1), of c "\<lambda>scope. pbind (body scope) (\<lambda>s. pbind nnc_parser_leave_scope (\<lambda>_. ret s))"] by blast
  have l1: "left_over p1 < b" and len: "pst p1 < length (tables (pheap p1))" using p1(2,3) p(2) by (simp_all add: p_inv_def)
  have out: "pbind nnc_parser_leave_scope (\<lambda>_. ret s) p2 = Inr (s, p2\<lparr>pst := pst p\<rparr>) \<and> adv p (p2\<lparr>pst := pst p\<rparr>) \<and>
      pst p1 < length (tables (pheap p2))" if "body (pst p1) p1 = Inr (s, p2)" for s p2
  proof -
    have a: "adv p1 p2" by (rule safeD(2) [OF safe p1(2) l1 that])
    have r: "st_root (tables (pheap p2) ! pst p2) = Some (pst p)"
      using advD(3,4) [OF a] p1(4) len by (simp add: grown_def)
    note lv = leave_scope [OF advD(1) [OF a] r]
    have "adv p (p2\<lparr>pst := pst p\<rparr>)"
      using lv(2) advD(2) [OF a] grown_trans [OF p1(5) advD(4) [OF a]] p1(3) by (simp add: adv_def left_over_def)
    then show ?thesis using lv(1) len advD(4) [OF a] by (simp add: pbind_def ret_def grown_def)
  qed
  show "in_scope c body p \<noteq> Inl NoFuel"
    using p1(1) safeD(1) [OF safe p1(2) l1] out by (auto simp: pbind_Inl [of "body (pst p1)"])
  assume "in_scope c body p = Inr (s, q)"
  then obtain s' p2 where s': "body (pst p1) p1 = Inr (s', p2)" "pbind nnc_parser_leave_scope (\<lambda>_. ret s') p2 = Inr (s, q)"
    unfolding p1(1) by (auto simp: pbind_Inr [of "body (pst p1)"])
  then show "adv p q \<and> (\<exists>st p1 p2. body st p1 = Inr (s, p2) \<and> st < length (tables (pheap q)))" proof -
    have "s' = s" "q = p2\<lparr>pst := pst p\<rparr>" using s'(2) out [OF s'(1)] by simp_all
    then show ?thesis using out [OF s'(1)] s'(1) by (intro conjI exI [of _ "pst p1"] exI [of _ p1] exI [of _ p2]) simp_all
  qed
qed

definition compound_body :: "rec_parsers \<Rightarrow> nat \<Rightarrow> pstmt parse" where
  "compound_body R scope = pbind (nnc_parser_expect TOK_OBRACE) (\<lambda>_.
     pbind (while_p (r_fuel R) (not_at_end TOK_CBRACE) (\<lambda>ss. pbind (r_stmt R) (\<lambda>s. ret (ss @ [s]))) []) (\<lambda>ss.
     pbind (nnc_parser_expect TOK_CBRACE) (\<lambda>_. ret (PS_COMPOUND scope ss))))"

context parser_calls begin

lemma compound_in_scope: "nnc_parse_compound_stmt R c = in_scope c (compound_body R)"
  unfolding nnc_parse_compound_stmt_def compound_body_def in_scope_def
  by (simp add: fun_eq_iff pbind_def bind_res_assoc ret_def)

lemma compound_body_safe: "safe k (compound_body R scope)"
proof (cases k)
  case (Suc j)
  have r: "safe j (pbind (while_p (r_fuel R) (not_at_end TOK_CBRACE) (\<lambda>ss. pbind (r_stmt R) (\<lambda>s. ret (ss @ [s]))) []) (\<lambda>ss.
     pbind (nnc_parser_expect TOK_CBRACE) (\<lambda>_. ret (PS_COMPOUND scope ss))))"
    using stmt [THEN eats_at] Suc by (simp add: parse_rules)
  show ?thesis unfolding Suc compound_body_def by (rule eats_safe, rule safe_after_eats, rule expect_eats, simp, rule r)
qed (simp add: safe_def)

lemma compound_gives_scope: "gives_scope k (nnc_parse_compound_stmt R c)"
  unfolding gives_scope_def safe_def compound_in_scope
proof (intro conjI allI impI)
  note run = in_scope_run [where body = "compound_body R" and b = k and c = c, OF compound_body_safe]
  show "in_scope c (compound_body R) p \<noteq> Inl NoFuel" if "p_inv p \<and> left_over p < k" for p
    using run(1) that by blast
  show "adv p q" if "p_inv p \<and> left_over p < k" "in_scope c (compound_body R) p = Inr (s, q)" for p s q
    using run(2) that by blast
  show "\<exists>st ss. s = PS_COMPOUND st ss \<and> st < length (tables (pheap q))"
    if "p_inv p \<and> left_over p < k \<and> in_scope c (compound_body R) p = Inr (s, q)" for p s q
    using run(2) [of p s q] that by (auto simp: compound_body_def pbind_Inr ret_def)
qed

lemma compound_safe: "safe k (nnc_parse_compound_stmt R c)"
  using compound_gives_scope by (simp add: gives_scope_def)

lemmas stmt_rules = compound_safe parens [THEN safe_at, OF le_SucI, OF order_refl] parens_rules

lemma if_stmt: "eats k (nnc_parse_if_stmt R)"
  by (simp add: nnc_parse_if_stmt_def parse_rules stmt_rules)

lemma do_stmt: "eats k (nnc_parse_do_stmt R)"
  by (simp add: nnc_parse_do_stmt_def parse_rules stmt_rules)

lemma let_stmt: "eats k (nnc_parse_let_stmt_with_opt_st R b)"
  by (simp add: nnc_parse_let_stmt_with_opt_st_def Let_def parse_rules stmt_rules put_here safe_here put_ident_in)

lemma expr_stmt: "eats k (nnc_parse_expr_stmt R)"
  unfolding nnc_parse_expr_stmt_def match_peek
proof (rule eats_on_peek)
  have rest: "eats k (pbind (r_expr R) (\<lambda>e. pbind (nnc_parser_expect TOK_SEMICOLON) (\<lambda>_. ret (PS_EXPR e))))"
    by (simp add: parse_rules)
  then show "eats_tok k (if k' = TOK_SEMICOLON then pbind nnc_parser_next (\<lambda>_. ret PS_EMPTY)
      else pbind (r_expr R) (\<lambda>e. pbind (nnc_parser_expect TOK_SEMICOLON) (\<lambda>_. ret (PS_EXPR e))))" for k'
    by (intro eats_tok_if eats_tok_before_safe next_eats_tok eats_eats_tok) (simp add: parse_rules)
  show "eats k (if TOK_EOF = TOK_SEMICOLON then pbind nnc_parser_next (\<lambda>_. ret PS_EMPTY)
      else pbind (r_expr R) (\<lambda>e. pbind (nnc_parser_expect TOK_SEMICOLON) (\<lambda>_. ret (PS_EXPR e))))" using rest by simp
qed

lemma while_stmt: "eats k (nnc_parse_while_stmt R)"
  by (simp add: nnc_parse_while_stmt_def parse_rules stmt_rules)

lemma type_stmt: "eats k (nnc_parse_type_stmt R)"
  by (simp add: nnc_parse_type_stmt_def parse_rules safe_here safe_in_bind put_alias_in safe_safe_in)

lemma break_stmt: "eats k nnc_parse_break_stmt" "eats k nnc_parse_continue_stmt"
  by (simp_all add: nnc_parse_break_stmt_def nnc_parse_continue_stmt_def parse_rules)

lemma return_stmt: "eats k (nnc_parse_return_stmt R)"
  by (simp add: nnc_parse_return_stmt_def parse_rules eats_safe [OF expr_stmt])

lemma goto_stmt: "eats k (nnc_parse_goto_stmt R)"
proof -
  have "safe k (case b of PS_EXPR (PE_IDENT x y) \<Rightarrow> ret () | _ \<Rightarrow> nnc_parser_expect TOK_IDENT)" for b
    by (simp add: parse_rules split: pstmt.split pexpr.split)
  then show ?thesis by (simp add: nnc_parse_goto_stmt_def parse_rules eats_safe [OF expr_stmt])
qed

lemma for_stmt: "eats k (nnc_parse_for_stmt R)"
proof -
  have d: "safe_in k st (pbind (case init of PS_LET x t e \<Rightarrow> pbind (NNC_GET_SYMTABLE (PS_COMPOUND st ss)) (\<lambda>inner. put_ident inner x)
      | _ \<Rightarrow> ret ()) (\<lambda>_. ret (PS_FOR init c s (PS_COMPOUND st ss))))" for st ss init c s
    by (cases init) (simp_all add: safe_in_bind safe_safe_in safe_ret symtable_in put_ident_in)
  have body: "safe k (pbind (nnc_parse_compound_stmt R ST_CTX_LOOP) (\<lambda>body.
      pbind (case init of PS_LET x t e \<Rightarrow> pbind (NNC_GET_SYMTABLE body) (\<lambda>inner. put_ident inner x) | _ \<Rightarrow> ret ()) (\<lambda>_.
        ret (PS_FOR init c s body))))" for init c s
    by (rule safe_scope_bind [OF compound_gives_scope d])
  show ?thesis
    by (simp add: nnc_parse_for_stmt_def parse_rules eats_safe [OF expr_stmt] eats_safe [OF let_stmt] body)
qed

lemma fn_storage: "eats b nnc_parse_fn_storage"
  by (simp add: nnc_parse_fn_storage_def parse_rules)

lemma fn_stmt: "eats k (nnc_parse_fn_stmt R)"
proof -
  have d: "safe k (pbind (nnc_parse_compound_stmt R ST_CTX_FN) (\<lambda>body. pbind (NNC_GET_SYMTABLE body) (\<lambda>inner.
      pbind (put_params inner xs) (\<lambda>_. ret (g body)))))" for xs and g :: "pstmt \<Rightarrow> pstmt"
    by (rule safe_scope_bind [OF compound_gives_scope])
      (intro symtable_in safe_in_bind put_params_in safe_safe_in safe_ret)
  show ?thesis
    by (simp add: nnc_parse_fn_stmt_def Let_def fn_storage ret_type put_here d parse_rules)
qed

lemma pub_stmt: "eats k (nnc_parse_pub_stmt R)"
  by (simp add: nnc_parse_pub_stmt_def parse_rules fn_stmt)

lemma namespace_stmt: "eats k (nnc_parse_namespace_stmt R)"
  by (simp add: nnc_parse_namespace_stmt_def Let_def parse_rules compound_safe put_here)

lemma parse_stmt: "eats k (nnc_parse_stmt R)"
  unfolding nnc_parse_stmt_def nnc_parse_let_stmt_def
  by (intro eats_after_safe [OF looks_safe [OF looks_basic(1)]] eats_if if_stmt fn_stmt do_stmt let_stmt for_stmt pub_stmt
    goto_stmt type_stmt while_stmt break_stmt return_stmt namespace_stmt expr_stmt)

end


section \<open>Every depth\<close>

text \<open>The parsers of each depth keep the contract: with as many levels as tokens none runs out of fuel.\<close>

interpretation level: parser_calls "parsers strtod n" n for strtod n
proof (induction n)
  case 0
  show ?case by unfold_locales (simp_all add: eats_def safe_def)
next
  case (Suc n)
  note bodies = parser_calls.unary_expr [OF Suc] parser_calls.parse_expr [OF Suc] parser_calls.assignment [OF Suc]
    parser_calls.parse_type_expr [OF Suc] parser_calls.parse_stmt [OF Suc]
  show ?case by unfold_locales (simp_all add: bodies Let_def)
qed

lemma init_ready:
  shows "nnc_parser_init km file \<noteq> Inl NoFuel"
    "nnc_parser_init km file = Inr p \<Longrightarrow> p_inv p \<and> pst p = 0 \<and> left_over p \<le> length file"
proof -
  define p0 where "p0 = \<lparr>plex = nnc_lex_init file, pkm = km, cur = no_tok, look = no_tok, is_first = True, pst = 0,
    pheap = \<lparr>tables = [nnc_st_init\<lparr>st_ctx := ST_CTX_GLOBAL\<rparr>], idents = [], htypes = static_types\<rparr>, shown = 0\<rparr>"
  have wf: "st_wf [nnc_st_init\<lparr>st_ctx := ST_CTX_GLOBAL\<rparr>]"
    by (simp add: st_wf_def nnc_st_init_def nncmap_init_inv)
  have init: "nnc_parser_init km file = bind_res (nnc_parser_next p0) (\<lambda>r. Inr (snd r))"
    by (simp add: nnc_parser_init_def p0_def)
  have main: "nnc_parser_init km file \<noteq> Inl NoFuel \<and>
      (\<forall>q. nnc_parser_init km file = Inr q \<longrightarrow> p_inv q \<and> pst q = 0 \<and> left_over q \<le> length file)"
  proof (cases "lex_step p0")
    case (Inl e)
    then show ?thesis using lex_step_fuel [of p0] by (auto simp: init nnc_parser_next_def)
  next
    case p1: (Inr p1)
    let ?p1 = "p1\<lparr>is_first := False, cur := tok_here (plex p1)\<rparr>"
    have first: "is_first p1" using lex_step_scope [OF p1] by (simp add: same_scope_def p0_def)
    show ?thesis
    proof (cases "lex_step ?p1")
      case (Inl e)
      then show ?thesis using p1 first lex_step_fuel [of ?p1] by (auto simp: init nnc_parser_next_def)
    next
      case p2: (Inr p2)
      let ?q = "p2\<lparr>look := tok_here (plex p2)\<rparr>"
      have "left_over ?q \<le> length file"
        using lex_step_left(1) [OF p1] lex_step_left(1) [OF p2] lex_step_scope [OF p2]
        by (simp add: left_over_def p0_def nnc_lex_init_def)
      moreover have "same_scope ?p1 ?q" using lex_step_scope [OF p2] by (simp add: same_scope_def)
      then have "\<not> is_first ?q \<and> pst ?q = 0 \<and> pheap ?q = pheap p0"
        using lex_step_scope [OF p1] by (simp add: same_scope_def p0_def)
      ultimately have q: "left_over ?q \<le> length file" "\<not> is_first ?q" "pst ?q = 0" "pheap ?q = pheap p0" by simp_all
      have step: "nnc_parser_init km file =
          (if kind_of_tok (cur ?q) = TOK_STR \<and> kind_of_tok (look ?q) = TOK_STR then nnc_parser_concat_str ?q else Inr ?q)"
        using p1 p2 first by (simp add: init nnc_parser_next_def Let_def bind_res_def split: sum.split)
      show ?thesis
        using concat_str_left [OF refl, of ?q] q wf unfolding step
        by (auto simp: same_scope_def p_inv_def p0_def)
    qed
  qed
  then show "nnc_parser_init km file \<noteq> Inl NoFuel"
    "nnc_parser_init km file = Inr p \<Longrightarrow> p_inv p \<and> pst p = 0 \<and> left_over p \<le> length file" by blast+
qed

text \<open>The loop over the statements of a file stops at the end of the file.\<close>

lemma while_stops:
  "while_p n (\<lambda>_. pbind nnc_parser_peek (\<lambda>k. ret (k \<noteq> t))) f s p = Inr (x, q) \<Longrightarrow> kind_of_tok (cur q) = t"
  by (induction n arbitrary: s p) (auto simp: pfail_def pbind_Inr nnc_parser_peek_def ret_def split: if_splits)

lemma file_loop: "safe (length file + 4) (while_p (length file + 4) (\<lambda>_. pbind nnc_parser_peek (\<lambda>k. ret (k \<noteq> TOK_EOF)))
    (\<lambda>ss. pbind (r_stmt (parsers strtod (length file + 5))) (\<lambda>s. ret (ss @ [s]))) [])"
proof -
  have "eats (length file + 4) (r_stmt (parsers strtod (length file + 5)))"
    using level.stmt [where n = "length file + 5" and strtod = strtod] by (simp add: add.commute)
  then show ?thesis by (simp add: parse_rules)
qed

lemma parse_run:
  "nnc_parse strtod km file \<noteq> Inl NoFuel"
  "nnc_parse strtod km file = Inr (ss, q) \<Longrightarrow> p_inv q \<and> pst q = 0 \<and> kind_of_tok (cur q) = TOK_EOF"
proof -
  let ?loop = "while_p (length file + 4) (\<lambda>_. pbind nnc_parser_peek (\<lambda>k. ret (k \<noteq> TOK_EOF)))
    (\<lambda>ss. pbind (r_stmt (parsers strtod (length file + 5))) (\<lambda>s. ret (ss @ [s]))) []"
  have e: "nnc_parse strtod km file = bind_res (nnc_parser_init km file) ?loop"
    by (simp add: nnc_parse_def Let_def)
  show "nnc_parse strtod km file \<noteq> Inl NoFuel"
  proof
    assume "nnc_parse strtod km file = Inl NoFuel"
    then obtain p where p: "nnc_parser_init km file = Inr p" "?loop p = Inl NoFuel"
      using init_ready(1) [of km "file"] unfolding e by (auto simp: bind_res_eq_Inl)
    have "p_inv p" "left_over p < length file + 4" using init_ready(2) [OF p(1)] by simp_all
    from safeD(1) [OF file_loop this] show False using p(2) by blast
  qed
  assume "nnc_parse strtod km file = Inr (ss, q)"
  then obtain p where p: "nnc_parser_init km file = Inr p" "?loop p = Inr (ss, q)"
    unfolding e by (auto simp: bind_res_eq_Inr)
  have r: "p_inv p" "pst p = 0" "left_over p < length file + 4" using init_ready(2) [OF p(1)] by simp_all
  have a: "adv p q" by (rule safeD(2) [OF file_loop r(1,3) p(2)])
  show "p_inv q \<and> pst q = 0 \<and> kind_of_tok (cur q) = TOK_EOF"
    using advD(1,3) [OF a] r(2) while_stops [OF p(2)] by simp
qed

text \<open>
  C7. The parser ends on every input: whatever the file, the keyword table and the values of \<^verbatim>\<open>strtod\<close>
  are, \<open>nnc_parse\<close> never comes to the end of its fuel, so each loop and each recursion of the
  parser stops and the run is a list of statements, an exception, a failed assertion or a crash.
\<close>

theorem parse_ends:
  "\<exists>r. nnc_parse strtod km file = r \<and> (r = Inl Crash \<or> r = Inl Abort \<or> r = Inl AssertFail \<or>
     (\<exists>e. r = Inl (Throw e)) \<or> (\<exists>ss p. r = Inr (ss, p)))"
proof (cases "nnc_parse strtod km file")
  case (Inl e)
  then show ?thesis using parse_run(1) [of strtod km "file"] by (cases e) simp_all
next
  case (Inr x)
  then show ?thesis by (cases x) simp
qed

text \<open>
  C18. A parse that succeeds has read the file to its end, has left every scope it entered, so
  that the current table is again the one of the file, and its tables are well formed: the maps keep
  their invariant, a table is created after its root, and its branches are tables.
\<close>

theorem parse_balanced:
  assumes "nnc_parse strtod km file = Inr (ss, p)"
  shows "kind_of_tok (cur p) = TOK_EOF \<and> pst p = 0 \<and> 0 < length (tables (pheap p)) \<and> st_wf (tables (pheap p))"
  using parse_run(2) [OF assms] by (auto simp: p_inv_def)



text \<open>A file that is one empty statement, for the examples.\<close>

lemma semicolon_next: "\<exists>lx. nnc_lex_next km (nnc_lex_init '';'') = LOk TOK_SEMICOLON lx \<and> fp lx = [] \<and>
    tok_kind (ctok lx) = TOK_SEMICOLON"
  by (simp add: nnc_lex_init_def nnc_lex_next.simps lex_try_def nnc_lex_skip.simps nnc_lex_grab_def fgetc_def single_toks_def
    compound_toks_def eof_byte_def blank_def nl_def nnc_lex_commit_def Let_def)

lemma eof_next: "fp lx = [] \<Longrightarrow> \<exists>lx'. nnc_lex_next km lx = LOk TOK_EOF lx' \<and> fp lx' = [] \<and> tok_kind (ctok lx') = TOK_EOF"
  by (cases "cc lx") (simp_all add: nnc_lex_next.simps lex_try_def nnc_lex_skip.simps nnc_lex_grab_def fgetc_def
    nnc_lex_commit_def Let_def)

lemma parse_semicolon: "\<exists>p. nnc_parse strtod km '';'' = Inr ([PS_EMPTY], p)"
proof -
  obtain l1 where l1: "nnc_lex_next km (nnc_lex_init '';'') = LOk TOK_SEMICOLON l1" "fp l1 = []" "tok_kind (ctok l1) = TOK_SEMICOLON"
    using semicolon_next by blast
  obtain l2 where l2: "nnc_lex_next km l1 = LOk TOK_EOF l2" "fp l2 = []" "tok_kind (ctok l2) = TOK_EOF"
    using eof_next [OF l1(2)] by blast
  obtain l3 where l3: "nnc_lex_next km l2 = LOk TOK_EOF l3" "tok_kind (ctok l3) = TOK_EOF"
    using eof_next [OF l2(2)] by blast
  note steps = nnc_parser_init_def nnc_parser_next_def lex_step_def tok_here_def kind_of_tok_def no_tok_def
  obtain p where p: "nnc_parser_init km '';'' = Inr p" "plex p = l2" "pkm p = km" "fst (cur p) = ctok l1" "fst (look p) = ctok l2"
    "is_first p = False"
    using l1 l2 by (simp add: steps Let_def)
  have stmt: "r_stmt (parsers strtod (Suc n)) p = Inr (PS_EMPTY, p\<lparr>plex := l3, cur := look p, look := tok_here l3\<rparr>)" for n
    using p l1 l2 l3 by (simp add: Let_def nnc_parse_stmt_def nnc_parse_expr_stmt_def pbind_def nnc_parser_peek_def
      nnc_parser_match_def ret_def steps)
  show ?thesis
    using p(1,4,5) l1(3) l2(3) stmt [of 5]
    by (simp add: nnc_parse_def Let_def pbind_def nnc_parser_peek_def kind_of_tok_def ret_def eval_nat_numeral del: parsers.simps)
qed

lemma parse_balanced_witness:
  "\<exists>p. nnc_parse (\<lambda>_. 0) (nncmap_init 63) '';'' = Inr ([PS_EMPTY], p) \<and> pst p = 0 \<and> st_wf (tables (pheap p))"
  using parse_semicolon [of "\<lambda>_. 0" "nncmap_init 63"] parse_balanced by blast


end
