(* ===== verification/Nnc_Parse_Grammar.thy ===== *)
theory Nnc_Parse_Grammar
  imports Nnc_Parse_Ends
begin

text \<open>
  What the expression parser accepts. The grammar of expressions is stated over lists of tokens,
  with one relation per level of precedence; with each sentence comes the set of tokens that
  would continue it. The property: behind a sentence of the grammar and any token that does not continue it, the parser
  has read exactly the sentence and returns its tree.
\<close>

section \<open>Reading a list of tokens\<close>

text \<open>The parser is in front of the tokens \<open>ts\<close>, each at a position that is not less than its size.\<close>

fun feeds :: "nnc_parser \<Rightarrow> nnc_tok list \<Rightarrow> bool" where
  "feeds p [] \<longleftrightarrow> True"
| "feeds p (t # ts) \<longleftrightarrow> fst (cur p) = t \<and> tok_size t \<le> unat (snd (cur p)) \<and>
     (case ts of [] \<Rightarrow> True | u # us \<Rightarrow> fst (look p) = u) \<and>
     (case nnc_parser_next p of Inl e \<Rightarrow> ts = [] | Inr r \<Rightarrow> feeds (snd r) ts)"

text \<open>
  \<open>yields h f ts x ts'\<close>: with the tables \<open>h\<close>, in front of \<open>ts\<close>, the parser \<open>f\<close> returns \<open>x\<close> and stops in
  front of \<open>ts'\<close>, unless it is out of fuel.
\<close>

definition yields :: "nat \<times> st_heap \<Rightarrow> 'a parse \<Rightarrow> nnc_tok list \<Rightarrow> 'a \<Rightarrow> nnc_tok list \<Rightarrow> bool" where
  "yields h f ts x ts' \<longleftrightarrow> (\<forall>p. p_inv p \<and> feeds p ts \<and> (pst p, pheap p) = h \<longrightarrow>
     f p = Inl NoFuel \<or> (\<exists>q. f p = Inr (x, q) \<and> p_inv q \<and> feeds q ts' \<and> (pst q, pheap q) = h))"

lemma yields_bind: "yields h m ts x ts1 \<Longrightarrow> yields h (f x) ts1 y ts2 \<Longrightarrow> yields h (pbind m f) ts y ts2"
  unfolding yields_def pbind_Inl pbind_Inr by blast

lemma yields_ret: "yields h (ret x) ts x ts"
  by (simp add: yields_def ret_def)

lemma yields_fuel: "yields h (pfail NoFuel) ts x ts'"
  by (simp add: yields_def pfail_def)

lemma yields_looks:
  "ts \<noteq> [] \<Longrightarrow> yields h nnc_parser_peek ts (tok_kind (hd ts)) ts"
  "ts \<noteq> [] \<Longrightarrow> yields h nnc_parser_get ts (hd ts) ts"
  "ts \<noteq> [] \<Longrightarrow> yields h (nnc_parser_match k) ts (tok_kind (hd ts) = k) ts"
  "ts \<noteq> [] \<Longrightarrow> yields h nnc_parser_get_ctx ts () ts"
  "yields h nnc_parser_peek_lookup (t # u # ts) (tok_kind u) (t # u # ts)"
  by (cases ts; auto simp: yields_def nnc_parser_peek_def nnc_parser_get_def nnc_parser_match_def nnc_parser_get_ctx_def
    nnc_parser_peek_lookup_def kind_of_tok_def)+

lemma yields_next:
  assumes "ts \<noteq> []"
  shows "yields h nnc_parser_next (t # ts) () ts"
  unfolding yields_def
proof (intro allI impI disjI2)
  fix p assume p: "p_inv p \<and> feeds p (t # ts) \<and> (pst p, pheap p) = h"
  then have f: "\<not> is_first p" by (simp add: p_inv_def)
  obtain x q where q: "nnc_parser_next p = Inr (x, q)" "feeds q ts"
    using p assms by (cases "nnc_parser_next p") auto
  have "same_scope p q" using next_left [OF f q(1)] by simp
  then show "\<exists>q. nnc_parser_next p = Inr ((), q) \<and> p_inv q \<and> feeds q ts \<and> (pst q, pheap q) = h"
    using q p by (auto simp: same_scope_def p_inv_def)
qed

lemma yields_expect: "tok_kind t = k \<Longrightarrow> ts \<noteq> [] \<Longrightarrow> yields h (nnc_parser_expect k) (t # ts) () ts"
  unfolding nnc_parser_expect_def
  by (rule yields_bind [OF yields_looks(1)]) (simp_all add: yields_next)

text \<open>Loops: a round, and the end.\<close>

lemma yields_round:
  assumes "yields h (c s) ts True ts" "yields h (f s) ts s1 ts1" "\<forall>n. yields h (while_p n c f s1) ts1 x ts2"
  shows "\<forall>n. yields h (while_p n c f s) ts x ts2"
proof
  fix n
  show "yields h (while_p n c f s) ts x ts2"
  proof (cases n)
    case (Suc n')
    have "yields h (if True then pbind (f s) (while_p n' c f) else ret s) ts x ts2"
      using yields_bind [OF assms(2), of "while_p n' c f" x ts2] assms(3) by simp
    then show ?thesis unfolding Suc while_p.simps by (rule yields_bind [OF assms(1)])
  qed (simp add: yields_fuel)
qed

lemma yields_stop:
  assumes "yields h (c s) ts False ts"
  shows "yields h (while_p n c f s) ts s ts"
proof (cases n)
  case (Suc n')
  show ?thesis unfolding Suc while_p.simps by (rule yields_bind [OF assms]) (simp add: yields_ret)
qed (simp add: yields_fuel)

text \<open>Whether the token begins a type in the tables \<open>h\<close>.\<close>

definition type_name :: "nat \<times> st_heap \<Rightarrow> string \<Rightarrow> bool" where
  "type_name h w \<longleftrightarrow> first_some (declared (tables (snd h)) ST_SYM_TYPE w) (visible (tables (snd h)) (fst h)) \<noteq> None"

definition type_start :: "nat \<times> st_heap \<Rightarrow> nnc_tok \<Rightarrow> bool" where
  "type_start h t \<longleftrightarrow> tok_kind t \<in> fst ` set base_kinds \<or> tok_kind t = TOK_IDENT \<and> type_name h (lexeme t)"

lemma yields_match_type: "yields h (nnc_parser_match_type (tok_kind u)) (t # u # ts) (type_start h u) (t # u # ts)"
proof -
  have "TOK_IDENT \<notin> fst ` set base_kinds" by (auto simp: base_kinds_def)
  then show ?thesis
    by (auto simp: yields_def nnc_parser_match_type_def type_start_def type_name_def p_inv_def nnc_st_get_visible)
qed

section \<open>The grammar\<close>

definition prefix_ops :: "(nnc_tok_kind \<times> nnc_unary_kind) list" where
  "prefix_ops = [(TOK_PLUS, UNARY_PLUS), (TOK_MINUS, UNARY_MINUS), (TOK_TILDE, UNARY_BITWISE_NOT), (TOK_EXCMARK, UNARY_NOT),
     (TOK_ASTERISK, UNARY_DEREF), (TOK_AMPERSAND, UNARY_REF)]"

text \<open>
  The levels: 0 are primary, 1 postfix and 2 prefix expressions, 3 to 12 the binary operators
  from multiplication to \<^verbatim>\<open>||\<close>, 13 the conditional, 14 the assignment, 15 the comma.
\<close>

definition binary_ops :: "nat \<Rightarrow> (nnc_tok_kind \<times> nnc_binary_kind) list" where
  "binary_ops n =
     (if n = 3 then [(TOK_SLASH, BINARY_DIV), (TOK_PERCENT, BINARY_MOD), (TOK_ASTERISK, BINARY_MUL)]
      else if n = 4 then [(TOK_PLUS, BINARY_ADD), (TOK_MINUS, BINARY_SUB)]
      else if n = 5 then [(TOK_LSHIFT, BINARY_SHL), (TOK_RSHIFT, BINARY_SHR)]
      else if n = 6 then [(TOK_LT, BINARY_LT), (TOK_GT, BINARY_GT), (TOK_LTE, BINARY_LTE), (TOK_GTE, BINARY_GTE)]
      else if n = 7 then [(TOK_EQ, BINARY_EQ), (TOK_NEQ, BINARY_NEQ)]
      else if n = 8 then [(TOK_AMPERSAND, BINARY_BW_AND)] else if n = 9 then [(TOK_CIRCUMFLEX, BINARY_BW_XOR)]
      else if n = 10 then [(TOK_VLINE, BINARY_BW_OR)] else if n = 11 then [(TOK_AND, BINARY_AND)]
      else if n = 12 then [(TOK_OR, BINARY_OR)] else if n = 14 then [(TOK_ASSIGN, BINARY_ASSIGN)]
      else [(TOK_COMMA, BINARY_COMMA)])"

definition binary_levels :: "nat set" where
  "binary_levels = {3, 4, 5, 6, 7, 8, 9, 10, 11, 12, 14, 15}"

text \<open>Namespaces in front of a name.\<close>

inductive nesting :: "nnc_tok list \<Rightarrow> string list \<Rightarrow> bool" where
  nesting_none: "nesting [] []"
| nesting_more: "tok_kind t = TOK_IDENT \<Longrightarrow> tok_kind c = TOK_DCOLON \<Longrightarrow> nesting ts ns \<Longrightarrow> nesting (t # c # ts) (lexeme t # ns)"

text \<open>
  \<open>expr_at n ts e F\<close>: the tokens \<open>ts\<close> are the expression \<open>e\<close> of level \<open>n\<close>, unless a token of a
  kind in \<open>F\<close> follows. In \<open>chain\<close> and \<open>postfix\<close> the operators of the level itself are not in \<open>F\<close>. A parenthesis in front
  of a type begins a cast. The postfix \<^verbatim>\<open>as\<close> is for a primary expression.
\<close>

inductive expr_at :: "nat \<times> st_heap \<Rightarrow> (string \<Rightarrow> u64) \<Rightarrow> nat \<Rightarrow> nnc_tok list \<Rightarrow> pexpr \<Rightarrow> nnc_tok_kind set \<Rightarrow> bool"
  and chain :: "nat \<times> st_heap \<Rightarrow> (string \<Rightarrow> u64) \<Rightarrow> nat \<Rightarrow> nnc_tok list \<Rightarrow> pexpr \<Rightarrow> nnc_tok_kind set \<Rightarrow> bool"
  and postfix :: "nat \<times> st_heap \<Rightarrow> (string \<Rightarrow> u64) \<Rightarrow> nnc_tok list \<Rightarrow> pexpr \<Rightarrow> nnc_tok_kind set \<Rightarrow> bool"
  and args :: "nat \<times> st_heap \<Rightarrow> (string \<Rightarrow> u64) \<Rightarrow> nnc_tok list \<Rightarrow> pexpr list \<Rightarrow> bool"
  and type_at :: "nat \<times> st_heap \<Rightarrow> (string \<Rightarrow> u64) \<Rightarrow> nnc_tok list \<Rightarrow> ptype \<Rightarrow> nnc_tok_kind set \<Rightarrow> bool"
  and type_expr_at :: "nat \<times> st_heap \<Rightarrow> (string \<Rightarrow> u64) \<Rightarrow> nnc_tok list \<Rightarrow> ptexpr \<Rightarrow> nnc_tok_kind set \<Rightarrow> bool"
  for h strtod where
  ident: "nesting ts ns \<Longrightarrow> tok_kind t = TOK_IDENT \<Longrightarrow> expr_at h strtod 0 (ts @ [t]) (PE_IDENT ns (lexeme t)) {TOK_DCOLON}"
| str: "tok_kind t = TOK_STR \<Longrightarrow> nnc_str_new (lexeme t) = Inr s \<Longrightarrow> expr_at h strtod 0 [t] (PE_STR s) {}"
| chr: "tok_kind t = TOK_CHR \<Longrightarrow> nnc_chr_new (lexeme t) = Inr c \<Longrightarrow> expr_at h strtod 0 [t] (PE_CHR c) {}"
| int: "tok_kind t = TOK_NUMBER \<Longrightarrow> CHR ''.'' \<notin> set (lexeme t) \<Longrightarrow> nnc_int_new (lexeme t) = Inr i \<Longrightarrow>
    expr_at h strtod 0 [t] (PE_INT i) {}"
| dbl: "tok_kind t = TOK_NUMBER \<Longrightarrow> CHR ''.'' \<in> set (lexeme t) \<Longrightarrow> nnc_dbl_new strtod (lexeme t) = Inr d \<Longrightarrow>
    expr_at h strtod 0 [t] (PE_DBL d) {}"
| parens: "tok_kind l = TOK_OPAREN \<Longrightarrow> expr_at h strtod 15 ts e F \<Longrightarrow> tok_kind r = TOK_CPAREN \<Longrightarrow> TOK_CPAREN \<notin> F \<Longrightarrow>
    expr_at h strtod 0 (l # ts @ [r]) e {}"
| primary: "expr_at h strtod 0 ts e F \<Longrightarrow> postfix h strtod ts e (insert (Keyword TOK_AS) F)"
| dot: "postfix h strtod ts e F \<Longrightarrow> tok_kind d = TOK_DOT \<Longrightarrow> TOK_DOT \<notin> F \<Longrightarrow> nesting us ns \<Longrightarrow> tok_kind t = TOK_IDENT \<Longrightarrow>
    postfix h strtod (ts @ d # us @ [t]) (PE_DOT e (PE_IDENT ns (lexeme t))) {TOK_DCOLON}"
| call: "postfix h strtod ts e F \<Longrightarrow> tok_kind l = TOK_OPAREN \<Longrightarrow> TOK_OPAREN \<notin> F \<Longrightarrow> args h strtod us es \<Longrightarrow>
    tok_kind r = TOK_CPAREN \<Longrightarrow> postfix h strtod (ts @ l # us @ [r]) (PE_CALL e es) {}"
| index: "postfix h strtod ts e F \<Longrightarrow> tok_kind l = TOK_OBRACKET \<Longrightarrow> TOK_OBRACKET \<notin> F \<Longrightarrow> expr_at h strtod 15 us i G \<Longrightarrow>
    tok_kind r = TOK_CBRACKET \<Longrightarrow> TOK_CBRACKET \<notin> G \<Longrightarrow> postfix h strtod (ts @ l # us @ [r]) (PE_INDEX e i) {}"
| no_args: "args h strtod [] []"
| one_arg: "expr_at h strtod 14 ts e F \<Longrightarrow> TOK_CPAREN \<notin> F \<Longrightarrow> args h strtod ts [e]"
| more_args: "expr_at h strtod 14 ts e F \<Longrightarrow> tok_kind c = TOK_COMMA \<Longrightarrow> TOK_COMMA \<notin> F \<Longrightarrow> args h strtod us es \<Longrightarrow> es \<noteq> [] \<Longrightarrow>
    args h strtod (ts @ c # us) (e # es)"
| postfixes: "postfix h strtod ts e F \<Longrightarrow> expr_at h strtod 1 ts e (F \<union> {TOK_DOT, TOK_OPAREN, TOK_OBRACKET})"
| as_cast: "expr_at h strtod 0 ts e F \<Longrightarrow> tok_kind a = Keyword TOK_AS \<Longrightarrow> Keyword TOK_AS \<notin> F \<Longrightarrow> type_expr_at h strtod us t G \<Longrightarrow>
    expr_at h strtod 1 (ts @ a # us) (PE_CAST UNARY_POSTFIX_AS t e) G"
| unprefixed: "expr_at h strtod 1 ts e F \<Longrightarrow> tok_kind (hd ts) = TOK_OPAREN \<longrightarrow> \<not> type_start h (hd (tl ts)) \<Longrightarrow> expr_at h strtod 2 ts e F"
| prefixed: "(tok_kind t, u) \<in> set prefix_ops \<Longrightarrow> expr_at h strtod 2 ts e F \<Longrightarrow> expr_at h strtod 2 (t # ts) (PE_UN u e) F"
| size_of: "tok_kind s = Keyword TOK_SIZEOF \<Longrightarrow> tok_kind l = TOK_OPAREN \<Longrightarrow> type_expr_at h strtod ts t F \<Longrightarrow>
    tok_kind r = TOK_CPAREN \<Longrightarrow> TOK_CPAREN \<notin> F \<Longrightarrow> expr_at h strtod 2 (s # l # ts @ [r]) (PE_SIZEOF t) {}"
| length_of: "tok_kind s = Keyword TOK_LENGTHOF \<Longrightarrow> tok_kind l = TOK_OPAREN \<Longrightarrow> expr_at h strtod 15 ts e F \<Longrightarrow>
    tok_kind r = TOK_CPAREN \<Longrightarrow> TOK_CPAREN \<notin> F \<Longrightarrow> expr_at h strtod 2 (s # l # ts @ [r]) (PE_UN UNARY_LENGTHOF e) {}"
| cast: "tok_kind l = TOK_OPAREN \<Longrightarrow> type_expr_at h strtod ts t F \<Longrightarrow> type_start h (hd ts) \<Longrightarrow> tok_kind r = TOK_CPAREN \<Longrightarrow>
    TOK_CPAREN \<notin> F \<Longrightarrow> expr_at h strtod 2 us e G \<Longrightarrow> expr_at h strtod 2 (l # ts @ r # us) (PE_CAST UNARY_CAST t e) G"
| operand: "expr_at h strtod n ts e F \<Longrightarrow> Suc n \<in> binary_levels \<Longrightarrow> chain h strtod (Suc n) ts e F"
| operator: "chain h strtod (Suc n) ts l F \<Longrightarrow> (tok_kind t, k) \<in> set (binary_ops (Suc n)) \<Longrightarrow> tok_kind t \<notin> F \<Longrightarrow>
    expr_at h strtod n us r G \<Longrightarrow> Suc n \<in> binary_levels \<Longrightarrow> chain h strtod (Suc n) (ts @ t # us) (PE_BIN k l r) G"
| binary: "chain h strtod n ts e F \<Longrightarrow> n \<in> binary_levels \<Longrightarrow> expr_at h strtod n ts e (F \<union> fst ` set (binary_ops n))"
| unconditional: "expr_at h strtod 12 ts e F \<Longrightarrow> expr_at h strtod 13 ts e (insert TOK_QUESTION F)"
| conditional: "expr_at h strtod 12 ts c F \<Longrightarrow> tok_kind q = TOK_QUESTION \<Longrightarrow> TOK_QUESTION \<notin> F \<Longrightarrow> expr_at h strtod 15 us l G \<Longrightarrow>
    tok_kind d = TOK_COLON \<Longrightarrow> TOK_COLON \<notin> G \<Longrightarrow> expr_at h strtod 15 vs r H \<Longrightarrow>
    expr_at h strtod 13 (ts @ q # us @ d # vs) (PE_TERN c l r) H"
| base_type: "(tok_kind t, b) \<in> set base_kinds \<Longrightarrow> type_at h strtod [t] (PT_BASE b) {}"
| named_type: "tok_kind t = TOK_IDENT \<Longrightarrow> type_at h strtod [t] (PT_USER (lexeme t)) {TOK_DCOLON}"
| pointer: "type_at h strtod ts t F \<Longrightarrow> tok_kind a = TOK_ASTERISK \<Longrightarrow> TOK_ASTERISK \<notin> F \<Longrightarrow> \<not> is_arr t \<Longrightarrow>
    type_at h strtod (ts @ [a]) (PT_PTR t) {}"
| array: "type_at h strtod ts t F \<Longrightarrow> tok_kind l = TOK_OBRACKET \<Longrightarrow> TOK_OBRACKET \<notin> F \<Longrightarrow> expr_at h strtod 14 us e G \<Longrightarrow>
    tok_kind r = TOK_CBRACKET \<Longrightarrow> TOK_CBRACKET \<notin> G \<Longrightarrow> type_at h strtod (ts @ l # us @ [r]) (PT_ARR t e) {}"
| type_expr: "nesting us ns \<Longrightarrow> type_at h strtod ts t F \<Longrightarrow>
    type_expr_at h strtod (us @ ts) (TExpr ns t) (F \<union> {TOK_ASTERISK, TOK_OBRACKET})"

lemmas grammar_induct = expr_at_chain_postfix_args_type_at_type_expr_at.inducts

text \<open>The first token of a sentence.\<close>

lemma nesting_first: "nesting ts ns \<Longrightarrow> ts \<noteq> [] \<Longrightarrow> tok_kind (hd ts) = TOK_IDENT"
  by (cases rule: nesting.cases) auto

definition first_kinds :: "nnc_tok_kind set" where
  "first_kinds = {TOK_IDENT, TOK_STR, TOK_CHR, TOK_NUMBER, TOK_OPAREN}"

lemma first_token:
  "expr_at h strtod n ts e F \<Longrightarrow> ts \<noteq> [] \<and> tok_kind (hd ts) \<notin> {TOK_CPAREN, TOK_EOF} \<and>
     (n \<le> 1 \<longrightarrow> tok_kind (hd ts) \<in> first_kinds \<and> (tok_kind (hd ts) = TOK_OPAREN \<longrightarrow> tl ts \<noteq> []))"
  "chain h strtod n ts e F \<Longrightarrow> ts \<noteq> [] \<and> tok_kind (hd ts) \<notin> {TOK_CPAREN, TOK_EOF} \<and> 1 < n"
  "postfix h strtod ts e F \<Longrightarrow> ts \<noteq> [] \<and> tok_kind (hd ts) \<in> first_kinds \<and> (tok_kind (hd ts) = TOK_OPAREN \<longrightarrow> tl ts \<noteq> [])"
  "args h strtod ts es \<Longrightarrow> (ts = [] \<longleftrightarrow> es = [])"
  "type_at h strtod ts t F \<Longrightarrow> ts \<noteq> []"
  "type_expr_at h strtod ts te F \<Longrightarrow> ts \<noteq> []"
proof (induction rule: grammar_induct)
  case (ident ts ns t)
  then show ?case using nesting_first [OF ident(1)] by (cases ts) (auto simp: first_kinds_def)
qed (auto simp: first_kinds_def binary_levels_def hd_append prefix_ops_def split: if_splits)


section \<open>The parser on a sentence\<close>

text \<open>The parser of a level, and the loops with their bound.\<close>

fun level_parser :: "nat \<Rightarrow> rec_parsers \<Rightarrow> pexpr parse" where
  "level_parser 0 = nnc_parse_primary_expr"
| "level_parser (Suc n) =
     (if n = 0 then nnc_parse_postfix_expr else if n = 1 then nnc_parse_unary_expr else if n = 12 then nnc_parse_ternary_expr
      else binary_level (binary_ops (Suc n)) (level_parser n))"

lemma level_parsers:
  "level_parser 0 = nnc_parse_primary_expr" "level_parser 1 = nnc_parse_postfix_expr" "level_parser 2 = nnc_parse_unary_expr"
  "level_parser 12 = nnc_parse_or_expr" "level_parser 13 = nnc_parse_ternary_expr"
  "level_parser 14 = nnc_parse_expr_reduced" "level_parser 15 = nnc_parse_expr"
  by (simp_all add: eval_nat_numeral binary_ops_def nnc_parse_expr_def nnc_parse_comma_expr_def nnc_parse_expr_reduced_def
    nnc_parse_assignment_expr_def nnc_parse_or_expr_def nnc_parse_and_expr_def nnc_parse_bitwise_or_expr_def
    nnc_parse_bitwise_xor_expr_def nnc_parse_bitwise_and_expr_def nnc_parse_equality_expr_def nnc_parse_relation_expr_def
    nnc_parse_arith_shift_expr_def nnc_parse_arith_addition_expr_def nnc_parse_arith_multiplication_expr_def)

lemma level_parser_binary:
  "Suc n \<in> binary_levels \<Longrightarrow> level_parser (Suc n) = binary_level (binary_ops (Suc n)) (level_parser n)"
  by (auto simp: binary_levels_def)

definition binary_loop :: "nat \<Rightarrow> rec_parsers \<Rightarrow> nat \<Rightarrow> pexpr \<Rightarrow> pexpr parse" where
  "binary_loop n R j = while_p j (\<lambda>_. pbind nnc_parser_peek (\<lambda>k. ret (k \<in> fst ` set (binary_ops n))))
     (\<lambda>l. pbind nnc_parser_peek (\<lambda>k. pbind nnc_parser_next (\<lambda>_. pbind (level_parser (n - 1) R) (\<lambda>r.
        ret (PE_BIN (the (map_of (binary_ops n) k)) l r)))))"

definition postfix_loop :: "rec_parsers \<Rightarrow> nat \<Rightarrow> pexpr \<Rightarrow> pexpr parse" where
  "postfix_loop R j = while_p j (\<lambda>_. pbind nnc_parser_peek (\<lambda>k. ret (k = TOK_DOT \<or> k = TOK_OPAREN \<or> k = TOK_OBRACKET)))
     (\<lambda>e. pbind nnc_parser_peek (\<lambda>k.
        if k = TOK_DOT then nnc_parse_dot_expr R e
        else if k = TOK_OPAREN then nnc_parse_call_expr R e
        else nnc_parse_index_expr R e))"

definition args_loop :: "rec_parsers \<Rightarrow> nat \<Rightarrow> pexpr list \<Rightarrow> pexpr list parse" where
  "args_loop R j = while_p j (not_at_end TOK_CPAREN)
     (\<lambda>as. pbind (r_reduced R) (\<lambda>a. pbind (at_end TOK_CPAREN) (\<lambda>e.
        if e then ret (as @ [a]) else pbind (nnc_parser_expect TOK_COMMA) (\<lambda>_. ret (as @ [a])))))"

definition type_loop :: "rec_parsers \<Rightarrow> nat \<Rightarrow> ptype \<Rightarrow> ptype parse" where
  "type_loop R j = while_p j (\<lambda>_. pbind nnc_parser_peek (\<lambda>k. ret (k = TOK_ASTERISK \<or> k = TOK_OBRACKET)))
     (\<lambda>t. pbind nnc_parser_peek (\<lambda>k.
        if k = TOK_OBRACKET then nnc_parse_arr_declarator R t else nnc_parse_ptr_declarator t))"

text \<open>What each relation of the grammar says of the parser; \<open>R\<close> is the bundle at any depth.\<close>

definition good_expr :: "nat \<times> st_heap \<Rightarrow> (string \<Rightarrow> u64) \<Rightarrow> nat \<Rightarrow> nnc_tok list \<Rightarrow> pexpr \<Rightarrow> nnc_tok_kind set \<Rightarrow> bool" where
  "good_expr h d n ts e F \<longleftrightarrow> (\<forall>m t rest. tok_kind t \<notin> F \<longrightarrow> yields h (level_parser n (parsers d m)) (ts @ t # rest) e (t # rest))"

definition good_chain :: "nat \<times> st_heap \<Rightarrow> (string \<Rightarrow> u64) \<Rightarrow> nat \<Rightarrow> nnc_tok list \<Rightarrow> pexpr \<Rightarrow> nnc_tok_kind set \<Rightarrow> bool" where
  "good_chain h d n ts e F \<longleftrightarrow> (\<forall>m t rest x us. tok_kind t \<notin> F \<longrightarrow> (\<forall>j. yields h (binary_loop n (parsers d m) j e) (t # rest) x us) \<longrightarrow>
     yields h (level_parser n (parsers d m)) (ts @ t # rest) x us)"

definition good_postfix :: "nat \<times> st_heap \<Rightarrow> (string \<Rightarrow> u64) \<Rightarrow> nnc_tok list \<Rightarrow> pexpr \<Rightarrow> nnc_tok_kind set \<Rightarrow> bool" where
  "good_postfix h d ts e F \<longleftrightarrow> (\<forall>m t rest x us. tok_kind t \<notin> F \<longrightarrow> (\<forall>j. yields h (postfix_loop (parsers d m) j e) (t # rest) x us) \<longrightarrow>
     yields h (nnc_parse_postfix_expr (parsers d m)) (ts @ t # rest) x us)"

definition good_args :: "nat \<times> st_heap \<Rightarrow> (string \<Rightarrow> u64) \<Rightarrow> nnc_tok list \<Rightarrow> pexpr list \<Rightarrow> bool" where
  "good_args h d ts es \<longleftrightarrow> (\<forall>m t rest acc. tok_kind t = TOK_CPAREN \<longrightarrow>
     (\<forall>j. yields h (args_loop (parsers d m) j acc) (ts @ t # rest) (acc @ es) (t # rest)))"

definition good_type :: "nat \<times> st_heap \<Rightarrow> (string \<Rightarrow> u64) \<Rightarrow> nnc_tok list \<Rightarrow> ptype \<Rightarrow> nnc_tok_kind set \<Rightarrow> bool" where
  "good_type h d ts ty F \<longleftrightarrow> (\<forall>m t rest x us. tok_kind t \<notin> F \<longrightarrow> (\<forall>j. yields h (type_loop (parsers d m) j ty) (t # rest) x us) \<longrightarrow>
     yields h (nnc_parse_type (parsers d m)) (ts @ t # rest) x us)"

definition good_type_expr :: "nat \<times> st_heap \<Rightarrow> (string \<Rightarrow> u64) \<Rightarrow> nnc_tok list \<Rightarrow> ptexpr \<Rightarrow> nnc_tok_kind set \<Rightarrow> bool" where
  "good_type_expr h d ts te F \<longleftrightarrow> (\<forall>m t rest. tok_kind t \<notin> F \<longrightarrow>
     yields h (nnc_parse_type_expr (parsers d m)) (ts @ t # rest) te (t # rest))"

lemma good_exprD: "good_expr h d n ts e F \<Longrightarrow> tok_kind t \<notin> F \<Longrightarrow> yields h (level_parser n (parsers d m)) (ts @ t # rest) e (t # rest)"
  by (simp add: good_expr_def)

lemma calls_yield:
  "good_expr h d 15 ts e F \<Longrightarrow> tok_kind t \<notin> F \<Longrightarrow> yields h (r_expr (parsers d m)) (ts @ t # rest) e (t # rest)"
  "good_expr h d 14 ts e F \<Longrightarrow> tok_kind t \<notin> F \<Longrightarrow> yields h (r_reduced (parsers d m)) (ts @ t # rest) e (t # rest)"
  "good_expr h d 2 ts e F \<Longrightarrow> tok_kind t \<notin> F \<Longrightarrow> yields h (r_unary (parsers d m)) (ts @ t # rest) e (t # rest)"
  "good_type_expr h d ts te F \<Longrightarrow> tok_kind t \<notin> F \<Longrightarrow> yields h (r_type (parsers d m)) (ts @ t # rest) te (t # rest)"
  by (cases m; simp add: good_expr_def good_type_expr_def level_parsers yields_fuel Let_def)+

lemma r_fuel_pos: "\<exists>n. r_fuel (parsers d m) = Suc n"
  by (cases m) (simp_all add: Let_def)

text \<open>Namespaces.\<close>

lemma nesting_loop:
  assumes "nesting ts ns" "tok_kind t = TOK_IDENT \<longrightarrow> tok_kind u \<noteq> TOK_DCOLON"
  shows "\<forall>j. yields h (while_p j (\<lambda>_. pbind (nnc_parser_match TOK_IDENT) (\<lambda>i. pbind nnc_parser_peek_lookup (\<lambda>k. ret (i \<and> k = TOK_DCOLON))))
       (\<lambda>ns. pbind nnc_parser_get (\<lambda>tok. pbind nnc_parser_get_ctx (\<lambda>_. pbind (nnc_parser_expect TOK_IDENT) (\<lambda>_.
          pbind (nnc_parser_expect TOK_DCOLON) (\<lambda>_. ret (ns @ [lexeme tok])))))) acc) (ts @ t # u # rest) (acc @ ns) (t # u # rest)"
  using assms(1)
proof (induction arbitrary: acc)
  case nesting_none
  have c: "(tok_kind t = TOK_IDENT \<and> tok_kind u = TOK_DCOLON) = False" using assms(2) by blast
  have s: "yields h (pbind (nnc_parser_match TOK_IDENT) (\<lambda>i. pbind nnc_parser_peek_lookup (\<lambda>k. ret (i \<and> k = TOK_DCOLON))))
      (t # u # rest) (tok_kind t = TOK_IDENT \<and> tok_kind u = TOK_DCOLON) (t # u # rest)"
    by (rule yields_bind [OF yields_looks(3)], simp, rule yields_bind [OF yields_looks(5)]) (simp add: yields_ret)
  show ?case unfolding append_Nil append_Nil2 by (rule allI, rule yields_stop, rule s [unfolded c])
next
  case (nesting_more s c ts ns)
  show ?case
  proof (rule yields_round)
    show "yields h (pbind (nnc_parser_match TOK_IDENT) (\<lambda>i. pbind nnc_parser_peek_lookup (\<lambda>k. ret (i \<and> k = TOK_DCOLON))))
        ((s # c # ts) @ t # u # rest) True ((s # c # ts) @ t # u # rest)"
      unfolding append_Cons
      by (rule yields_bind [OF yields_looks(3)], simp, rule yields_bind [OF yields_looks(5)])
        (use nesting_more(1,2) in \<open>simp add: yields_ret [where x = True, simplified]\<close>)
    show "yields h (pbind nnc_parser_get (\<lambda>tok. pbind nnc_parser_get_ctx (\<lambda>_. pbind (nnc_parser_expect TOK_IDENT) (\<lambda>_.
          pbind (nnc_parser_expect TOK_DCOLON) (\<lambda>_. ret (acc @ [lexeme tok])))))) ((s # c # ts) @ t # u # rest)
        (acc @ [lexeme s]) (ts @ t # u # rest)"
      unfolding append_Cons
      by (rule yields_bind [OF yields_looks(2)], simp, rule yields_bind [OF yields_looks(4)], simp,
        rule yields_bind [OF yields_expect [OF nesting_more(1)]], simp, rule yields_bind [OF yields_expect [OF nesting_more(2)]], simp)
        (simp add: yields_ret)
    show "\<forall>j. yields h (while_p j (\<lambda>_. pbind (nnc_parser_match TOK_IDENT) (\<lambda>i. pbind nnc_parser_peek_lookup (\<lambda>k. ret (i \<and> k = TOK_DCOLON))))
         (\<lambda>ns. pbind nnc_parser_get (\<lambda>tok. pbind nnc_parser_get_ctx (\<lambda>_. pbind (nnc_parser_expect TOK_IDENT) (\<lambda>_.
            pbind (nnc_parser_expect TOK_DCOLON) (\<lambda>_. ret (ns @ [lexeme tok])))))) (acc @ [lexeme s]))
         (ts @ t # u # rest) (acc @ lexeme s # ns) (t # u # rest)"
      using nesting_more.IH [of "acc @ [lexeme s]"] by simp
  qed
qed

lemma nesting_yields:
  assumes "nesting ts ns" "tok_kind t = TOK_IDENT \<longrightarrow> tok_kind u \<noteq> TOK_DCOLON"
  shows "yields h (nnc_parse_nesting R) (ts @ t # u # rest) ns (t # u # rest)"
  using nesting_loop [OF assms, of h "[]" rest] by (simp add: nnc_parse_nesting_def)


section \<open>Each rule of the grammar\<close>

lemmas yields_steps = yields_bind yields_looks yields_expect yields_next yields_ret
lemmas flat = append_Cons append_Nil append_assoc

lemma yields_ident:
  assumes "nesting ts ns" "tok_kind t = TOK_IDENT" "tok_kind u \<noteq> TOK_DCOLON"
  shows "yields h (nnc_parse_ident R) (ts @ t # u # rest) (PE_IDENT ns (lexeme t)) (u # rest)"
  unfolding nnc_parse_ident_def
  by (rule yields_bind, rule nesting_yields [OF assms(1)], simp add: assms(3)) (rule yields_steps | simp)+

lemma yields_from_res: "r = Inr x \<Longrightarrow> yields h (from_res r) ts x ts"
  by (simp add: yields_def from_res_def)

lemma good_literals:
  "tok_kind t = TOK_STR \<Longrightarrow> nnc_str_new (lexeme t) = Inr s \<Longrightarrow> good_expr h d 0 [t] (PE_STR s) {}"
  "tok_kind t = TOK_CHR \<Longrightarrow> nnc_chr_new (lexeme t) = Inr c \<Longrightarrow> good_expr h d 0 [t] (PE_CHR c) {}"
  "tok_kind t = TOK_NUMBER \<Longrightarrow> CHR ''.'' \<notin> set (lexeme t) \<Longrightarrow> nnc_int_new (lexeme t) = Inr i \<Longrightarrow> good_expr h d 0 [t] (PE_INT i) {}"
  unfolding good_expr_def level_parsers nnc_parse_primary_expr_def flat nnc_parse_str_def nnc_parse_chr_def nnc_parse_int_def
    nnc_parse_number_def
  by (intro allI impI, (rule yields_steps yields_from_res | simp)+)+

lemma strtod_at: "r_strtod (parsers d m) = d"
  by (cases m) (simp_all add: Let_def)

lemma good_dbl:
  "tok_kind t = TOK_NUMBER \<Longrightarrow> CHR ''.'' \<in> set (lexeme t) \<Longrightarrow> nnc_dbl_new d (lexeme t) = Inr x \<Longrightarrow> good_expr h d 0 [t] (PE_DBL x) {}"
  unfolding good_expr_def level_parsers nnc_parse_primary_expr_def flat nnc_parse_dbl_def nnc_parse_number_def strtod_at
  by (intro allI impI, (rule yields_steps yields_from_res | simp)+)

lemma good_ident:
  assumes "nesting ts ns" "tok_kind t = TOK_IDENT"
  shows "good_expr h d 0 (ts @ [t]) (PE_IDENT ns (lexeme t)) {TOK_DCOLON}"
proof -
  have "tok_kind (hd (ts @ t # u)) = TOK_IDENT" for u using nesting_first [OF assms(1)] assms(2) by (cases ts) simp_all
  then show ?thesis
    unfolding good_expr_def level_parsers nnc_parse_primary_expr_def flat
    by (intro allI impI) (rule yields_bind, rule yields_looks(1), simp, simp add: yields_ident [OF assms])
qed

lemma good_parens:
  assumes "tok_kind l = TOK_OPAREN" "good_expr h d 15 ts e F" "tok_kind r = TOK_CPAREN" "TOK_CPAREN \<notin> F"
  shows "good_expr h d 0 (l # ts @ [r]) e {}"
  unfolding good_expr_def level_parsers nnc_parse_primary_expr_def flat nnc_parse_parens_def
  by (intro allI impI, (rule yields_steps calls_yield(1) [OF assms(2)] | simp add: assms)+)


lemma postfix_run:
  "nnc_parse_postfix_expr R = pbind (nnc_parse_primary_expr R) (\<lambda>e. pbind (nnc_parser_match (Keyword TOK_AS)) (\<lambda>a.
     if a then nnc_parse_as_expr R e else postfix_loop R (r_fuel R) e))"
  unfolding nnc_parse_postfix_expr_def postfix_loop_def ..

lemma good_primary:
  assumes "good_expr h d 0 ts e F"
  shows "good_postfix h d ts e (insert (Keyword TOK_AS) F)"
  unfolding good_postfix_def postfix_run
  by (intro allI impI, rule yields_bind, rule good_exprD [OF assms, unfolded level_parsers]) (simp, (rule yields_steps | simp)+)

lemma good_as:
  assumes "good_expr h d 0 ts e F" "tok_kind a = Keyword TOK_AS" "Keyword TOK_AS \<notin> F" "good_type_expr h d us t G"
  shows "good_expr h d 1 (ts @ a # us) (PE_CAST UNARY_POSTFIX_AS t e) G"
  unfolding good_expr_def level_parsers postfix_run nnc_parse_as_expr_def flat
  by (intro allI impI, rule yields_bind, rule good_exprD [OF assms(1), unfolded level_parsers])
    (simp add: assms, (rule yields_steps calls_yield(4) [OF assms(4)] | simp add: assms)+)

lemma good_postfixes:
  assumes "good_postfix h d ts e F"
  shows "good_expr h d 1 ts e (F \<union> {TOK_DOT, TOK_OPAREN, TOK_OBRACKET})"
  unfolding good_expr_def level_parsers
proof (intro allI impI)
  fix m and t :: nnc_tok and rest assume t: "tok_kind t \<notin> F \<union> {TOK_DOT, TOK_OPAREN, TOK_OBRACKET}"
  have "yields h (pbind nnc_parser_peek (\<lambda>k. ret (k = TOK_DOT \<or> k = TOK_OPAREN \<or> k = TOK_OBRACKET))) (t # rest)
      (tok_kind t = TOK_DOT \<or> tok_kind t = TOK_OPAREN \<or> tok_kind t = TOK_OBRACKET) (t # rest)"
    by (rule yields_steps | simp)+
  then have "yields h (postfix_loop (parsers d m) j e) (t # rest) e (t # rest)" for j
    unfolding postfix_loop_def using t by (intro yields_stop) simp
  then show "yields h (nnc_parse_postfix_expr (parsers d m)) (ts @ t # rest) e (t # rest)"
    using assms t unfolding good_postfix_def by blast
qed

text \<open>One more postfix operator: a round of the loop.\<close>

lemma good_postfix_more:
  assumes pre: "good_postfix h d ts e F" "tok_kind o' \<in> {TOK_DOT, TOK_OPAREN, TOK_OBRACKET}" "tok_kind o' \<notin> F"
    and step: "\<And>m t rest. tok_kind t \<notin> G \<Longrightarrow> yields h (if tok_kind o' = TOK_DOT then nnc_parse_dot_expr (parsers d m) e
        else if tok_kind o' = TOK_OPAREN then nnc_parse_call_expr (parsers d m) e
        else nnc_parse_index_expr (parsers d m) e) (o' # us @ t # rest) e' (t # rest)"
  shows "good_postfix h d (ts @ o' # us) e' G"
  unfolding good_postfix_def flat
proof (intro allI impI)
  fix m and t :: nnc_tok and rest x vs
  assume t: "tok_kind t \<notin> G" and rest: "\<forall>j. yields h (postfix_loop (parsers d m) j e') (t # rest) x vs"
  have "\<forall>j. yields h (postfix_loop (parsers d m) j e) (o' # us @ t # rest) x vs"
    unfolding postfix_loop_def
  proof (rule yields_round)
    show "yields h (pbind nnc_parser_peek (\<lambda>k. ret (k = TOK_DOT \<or> k = TOK_OPAREN \<or> k = TOK_OBRACKET))) (o' # us @ t # rest)
        True (o' # us @ t # rest)"
      using pre(2) by (intro yields_bind [OF yields_looks(1)]) (simp_all add: yields_ret [where x = True, simplified])
    show "yields h (pbind nnc_parser_peek (\<lambda>k. if k = TOK_DOT then nnc_parse_dot_expr (parsers d m) e
        else if k = TOK_OPAREN then nnc_parse_call_expr (parsers d m) e
        else nnc_parse_index_expr (parsers d m) e)) (o' # us @ t # rest) e' (t # rest)"
      by (rule yields_bind [OF yields_looks(1)]) (simp_all only: list.sel step [OF t] list.distinct not_False_eq_True)
  qed (use rest in \<open>simp add: postfix_loop_def\<close>)
  then show "yields h (nnc_parse_postfix_expr (parsers d m)) (ts @ o' # us @ t # rest) x vs"
    using pre unfolding good_postfix_def by blast
qed

lemma good_dot:
  assumes "good_postfix h d ts e F" "tok_kind o' = TOK_DOT" "TOK_DOT \<notin> F" "nesting us ns" "tok_kind t = TOK_IDENT"
  shows "good_postfix h d (ts @ o' # us @ [t]) (PE_DOT e (PE_IDENT ns (lexeme t))) {TOK_DCOLON}"
proof (rule good_postfix_more [OF assms(1)])
  have "tok_kind (hd (us @ t # u)) = TOK_IDENT" for u using nesting_first [OF assms(4)] assms(5) by (cases us) simp_all
  then show "yields h (if tok_kind o' = TOK_DOT then nnc_parse_dot_expr (parsers d m) e
        else if tok_kind o' = TOK_OPAREN then nnc_parse_call_expr (parsers d m) e
        else nnc_parse_index_expr (parsers d m) e) (o' # (us @ [t]) @ u # rest) (PE_DOT e (PE_IDENT ns (lexeme t))) (u # rest)"
    if "tok_kind u \<notin> {TOK_DCOLON}" for m u rest
    using that unfolding assms(2) nnc_parse_dot_expr_def flat
    by (simp only: refl if_True) ((rule yields_steps yields_ident [OF assms(4,5)] | simp add: assms)+)
qed (use assms in simp_all)

lemma good_index:
  assumes "good_postfix h d ts e F" "tok_kind l = TOK_OBRACKET" "TOK_OBRACKET \<notin> F" "good_expr h d 15 us i G"
    "tok_kind r = TOK_CBRACKET" "TOK_CBRACKET \<notin> G"
  shows "good_postfix h d (ts @ l # us @ [r]) (PE_INDEX e i) {}"
proof (rule good_postfix_more [OF assms(1)])
  show "yields h (if tok_kind l = TOK_DOT then nnc_parse_dot_expr (parsers d m) e
        else if tok_kind l = TOK_OPAREN then nnc_parse_call_expr (parsers d m) e
        else nnc_parse_index_expr (parsers d m) e) (l # (us @ [r]) @ u # rest) (PE_INDEX e i) (u # rest)" for m u rest
    unfolding assms(2) nnc_parse_index_expr_def flat
    by (simp, (rule yields_steps calls_yield(1) [OF assms(4)] | simp add: assms)+)
qed (use assms in simp_all)

text \<open>Arguments.\<close>

lemma args_end: "ts \<noteq> [] \<Longrightarrow> yields h (at_end TOK_CPAREN) ts (tok_kind (hd ts) = TOK_CPAREN \<or> tok_kind (hd ts) = TOK_EOF) ts"
  unfolding at_end_def by (rule yields_steps | simp)+


lemma args_done: "tok_kind t = TOK_CPAREN \<Longrightarrow> \<forall>j. yields h (args_loop R j acc) (t # rest) acc (t # rest)"
proof -
  assume t: "tok_kind t = TOK_CPAREN"
  have "yields h (not_at_end TOK_CPAREN acc) (t # rest) False (t # rest)"
    unfolding not_at_end_def by (rule yields_bind [OF args_end]) (simp_all add: t yields_ret [where x = False, simplified])
  then show ?thesis unfolding args_loop_def by (intro allI yields_stop)
qed

lemma arg_follows:
  assumes "tok_kind t \<notin> {TOK_CPAREN, TOK_EOF}"
  shows "yields h (not_at_end TOK_CPAREN acc) (t # rest) True (t # rest)"
  unfolding not_at_end_def by (rule yields_bind [OF args_end]) (use assms in \<open>simp_all add: yields_ret [where x = True, simplified]\<close>)

text \<open>One argument, with the comma behind it when it is not the last.\<close>

definition parse_arg :: "rec_parsers \<Rightarrow> pexpr list \<Rightarrow> pexpr list parse" where
  "parse_arg R as = pbind (r_reduced R) (\<lambda>a. pbind (at_end TOK_CPAREN) (\<lambda>e.
     if e then ret (as @ [a]) else pbind (nnc_parser_expect TOK_COMMA) (\<lambda>_. ret (as @ [a]))))"

lemma args_round:
  assumes "ts \<noteq> []" "tok_kind (hd ts) \<notin> {TOK_CPAREN, TOK_EOF}" "yields h (parse_arg R acc) (ts @ us) (acc @ [e]) vs"
    "\<forall>j. yields h (args_loop R j (acc @ [e])) vs x ws"
  shows "\<forall>j. yields h (args_loop R j acc) (ts @ us) x ws"
proof -
  obtain t ts' where t: "ts = t # ts'" using assms(1) by (cases ts) auto
  show ?thesis
    unfolding args_loop_def
  proof (rule yields_round)
    show "yields h (not_at_end TOK_CPAREN acc) (ts @ us) True (ts @ us)"
      using arg_follows [of t] assms(2) by (simp add: t)
  qed (use assms(3,4) in \<open>simp_all add: parse_arg_def args_loop_def\<close>)
qed

lemma good_args_one:
  assumes "good_expr h d 14 ts e F" "TOK_CPAREN \<notin> F" "ts \<noteq> []" "tok_kind (hd ts) \<notin> {TOK_CPAREN, TOK_EOF}"
  shows "good_args h d ts [e]"
  unfolding good_args_def
proof (intro allI impI)
  fix m and t :: nnc_tok and rest acc assume t: "tok_kind t = TOK_CPAREN"
  have "yields h (parse_arg (parsers d m) acc) (ts @ t # rest) (acc @ [e]) (t # rest)"
    unfolding parse_arg_def
    by (rule yields_bind, rule calls_yield(2) [OF assms(1)], simp add: t assms, rule yields_bind, rule args_end)
      (simp_all add: t yields_ret)
  then show "yields h (args_loop (parsers d m) j acc) (ts @ t # rest) (acc @ [e]) (t # rest)" for j
    using args_round [OF assms(3,4)] args_done [OF t] by blast
qed

lemma good_args_more:
  assumes "good_expr h d 14 ts e F" "tok_kind c = TOK_COMMA" "TOK_COMMA \<notin> F" "good_args h d us es"
    "ts \<noteq> []" "tok_kind (hd ts) \<notin> {TOK_CPAREN, TOK_EOF}"
  shows "good_args h d (ts @ c # us) (e # es)"
  unfolding good_args_def flat
proof (intro allI impI)
  fix m and t :: nnc_tok and rest acc assume t: "tok_kind t = TOK_CPAREN"
  have "yields h (parse_arg (parsers d m) acc) (ts @ c # us @ t # rest) (acc @ [e]) (us @ t # rest)"
    unfolding parse_arg_def
    by (rule yields_bind, rule calls_yield(2) [OF assms(1)], simp add: assms, rule yields_bind, rule args_end)
      (simp, simp add: assms(2), (rule yields_steps | simp add: assms)+)
  moreover have "\<forall>j. yields h (args_loop (parsers d m) j (acc @ [e])) (us @ t # rest) ((acc @ [e]) @ es) (t # rest)"
    using assms(4) t unfolding good_args_def by blast
  ultimately show "yields h (args_loop (parsers d m) j acc) (ts @ c # us @ t # rest) (acc @ e # es) (t # rest)" for j
    using args_round [OF assms(5,6)] unfolding append_assoc append_Cons append_Nil by blast
qed

lemma good_call:
  assumes "good_postfix h d ts e F" "tok_kind l = TOK_OPAREN" "TOK_OPAREN \<notin> F" "good_args h d us es" "tok_kind r = TOK_CPAREN"
  shows "good_postfix h d (ts @ l # us @ [r]) (PE_CALL e es) {}"
proof (rule good_postfix_more [OF assms(1)])
  fix m and u :: nnc_tok and rest
  have "\<forall>j. yields h (args_loop (parsers d m) j []) (us @ r # u # rest) ([] @ es) (r # u # rest)"
    using assms(4,5) unfolding good_args_def by blast
  then have a: "yields h (while_p (r_fuel (parsers d m)) (not_at_end TOK_CPAREN)
      (\<lambda>as. pbind (r_reduced (parsers d m)) (\<lambda>a. pbind (at_end TOK_CPAREN) (\<lambda>e.
        if e then ret (as @ [a]) else pbind (nnc_parser_expect TOK_COMMA) (\<lambda>_. ret (as @ [a]))))) [])
      (us @ r # u # rest) es (r # u # rest)" by (simp add: args_loop_def)
  show "yields h (if tok_kind l = TOK_DOT then nnc_parse_dot_expr (parsers d m) e
        else if tok_kind l = TOK_OPAREN then nnc_parse_call_expr (parsers d m) e
        else nnc_parse_index_expr (parsers d m) e) (l # (us @ [r]) @ u # rest) (PE_CALL e es) (u # rest)"
    unfolding assms(2) nnc_parse_call_expr_def flat
    by (simp, (rule yields_steps a | simp add: assms)+)
qed (use assms in simp_all)


text \<open>Prefix expressions.\<close>

lemma good_unprefixed:
  assumes "good_expr h d 1 ts e F" "ts \<noteq> []" "tok_kind (hd ts) \<in> first_kinds"
    "tok_kind (hd ts) = TOK_OPAREN \<Longrightarrow> tl ts \<noteq> [] \<and> \<not> type_start h (hd (tl ts))"
  shows "good_expr h d 2 ts e F"
  unfolding good_expr_def level_parsers
proof (intro allI impI)
  fix m and t :: nnc_tok and rest assume t: "tok_kind t \<notin> F"
  obtain a us where ts: "ts = a # us" using assms(2) by (cases ts) auto
  have c: "yields h (if tok_kind a = TOK_OPAREN then pbind nnc_parser_peek_lookup nnc_parser_match_type else ret False)
      (ts @ t # rest) False (ts @ t # rest)"
  proof (cases "tok_kind a = TOK_OPAREN")
    case True
    then obtain b vs where us: "us = b # vs" using assms(4) ts by (cases us) auto
    have "type_start h b = False" using assms(4) True ts us by simp
    from yields_match_type [of h b a "vs @ t # rest", unfolded this] show ?thesis
      unfolding ts us flat using True by (simp, intro yields_bind [OF yields_looks(5)])
  qed (simp add: yields_ret)
  have "yields h (nnc_parse_postfix_expr (parsers d m)) (ts @ t # rest) e (t # rest)"
    using good_exprD [OF assms(1) t] by (simp add: level_parsers)
  then have "yields h (pbind nnc_parser_peek (\<lambda>k.
         if k = TOK_PLUS then nnc_parse_plus_expr (parsers d m)
         else if k = TOK_MINUS then nnc_parse_minus_expr (parsers d m)
         else if k = TOK_TILDE then nnc_parse_bitwise_not_expr (parsers d m)
         else if k = Keyword TOK_SIZEOF then nnc_parse_sizeof_expr (parsers d m)
         else if k = TOK_EXCMARK then nnc_parse_not_expr (parsers d m)
         else if k = Keyword TOK_LENGTHOF then nnc_parse_lengthof_expr (parsers d m)
         else if k = TOK_ASTERISK then nnc_parse_deref_expr (parsers d m)
         else if k = TOK_AMPERSAND then nnc_parse_ref_expr (parsers d m)
         else nnc_parse_postfix_expr (parsers d m))) (ts @ t # rest) e (t # rest)"
    by (intro yields_bind [OF yields_looks(1)]) (use assms(3) ts in \<open>auto simp: first_kinds_def\<close>)
  then show "yields h (nnc_parse_unary_expr (parsers d m)) (ts @ t # rest) e (t # rest)"
    unfolding nnc_parse_unary_expr_def
    by (intro yields_bind [OF yields_looks(3)]) (use c ts in \<open>auto intro: yields_bind\<close>)
qed

text \<open>The first token of the other prefix expressions is no parenthesis.\<close>

lemma unary_dispatch:
  assumes "tok_kind a \<noteq> TOK_OPAREN" "yields h (if tok_kind a = TOK_PLUS then nnc_parse_plus_expr R
         else if tok_kind a = TOK_MINUS then nnc_parse_minus_expr R
         else if tok_kind a = TOK_TILDE then nnc_parse_bitwise_not_expr R
         else if tok_kind a = Keyword TOK_SIZEOF then nnc_parse_sizeof_expr R
         else if tok_kind a = TOK_EXCMARK then nnc_parse_not_expr R
         else if tok_kind a = Keyword TOK_LENGTHOF then nnc_parse_lengthof_expr R
         else if tok_kind a = TOK_ASTERISK then nnc_parse_deref_expr R
         else if tok_kind a = TOK_AMPERSAND then nnc_parse_ref_expr R
         else nnc_parse_postfix_expr R) (a # ts) e us"
  shows "yields h (nnc_parse_unary_expr R) (a # ts) e us"
  unfolding nnc_parse_unary_expr_def
proof (rule yields_bind [OF yields_looks(3)])
  have "yields h (if tok_kind (hd (a # ts)) = TOK_OPAREN then pbind nnc_parser_peek_lookup nnc_parser_match_type else ret False)
      (a # ts) False (a # ts)" using assms(1) by (simp add: yields_ret)
  then show "yields h (pbind (if tok_kind (hd (a # ts)) = TOK_OPAREN then pbind nnc_parser_peek_lookup nnc_parser_match_type else ret False)
      (\<lambda>cast. if cast then nnc_parse_cast_expr R else pbind nnc_parser_peek (\<lambda>k.
         if k = TOK_PLUS then nnc_parse_plus_expr R
         else if k = TOK_MINUS then nnc_parse_minus_expr R
         else if k = TOK_TILDE then nnc_parse_bitwise_not_expr R
         else if k = Keyword TOK_SIZEOF then nnc_parse_sizeof_expr R
         else if k = TOK_EXCMARK then nnc_parse_not_expr R
         else if k = Keyword TOK_LENGTHOF then nnc_parse_lengthof_expr R
         else if k = TOK_ASTERISK then nnc_parse_deref_expr R
         else if k = TOK_AMPERSAND then nnc_parse_ref_expr R
         else nnc_parse_postfix_expr R))) (a # ts) e us"
    by (rule yields_bind) (simp only: if_False, rule yields_bind [OF yields_looks(1)],
      simp_all only: list.sel assms(2) list.distinct not_False_eq_True)
qed simp

lemma good_prefixed:
  assumes "(tok_kind t, u) \<in> set prefix_ops" "good_expr h d 2 ts e F"
  shows "good_expr h d 2 (t # ts) (PE_UN u e) F"
  unfolding good_expr_def level_parsers flat
proof (intro allI impI)
  fix m and s :: nnc_tok and rest assume s: "tok_kind s \<notin> F"
  have "yields h (prefix_expr (tok_kind t) u (parsers d m)) (t # ts @ s # rest) (PE_UN u e) (s # rest)"
    unfolding prefix_expr_def by (rule yields_steps calls_yield(3) [OF assms(2)] | simp add: s)+
  then show "yields h (nnc_parse_unary_expr (parsers d m)) (t # ts @ s # rest) (PE_UN u e) (s # rest)"
    using assms(1) by (intro unary_dispatch) (auto simp: prefix_ops_def nnc_parse_plus_expr_def nnc_parse_minus_expr_def
      nnc_parse_bitwise_not_expr_def nnc_parse_not_expr_def nnc_parse_deref_expr_def nnc_parse_ref_expr_def)
qed

lemma good_size_of:
  assumes "tok_kind s = Keyword TOK_SIZEOF" "tok_kind l = TOK_OPAREN" "good_type_expr h d ts t F" "tok_kind r = TOK_CPAREN" "TOK_CPAREN \<notin> F"
  shows "good_expr h d 2 (s # l # ts @ [r]) (PE_SIZEOF t) {}"
  unfolding good_expr_def level_parsers flat
  by (intro allI impI, rule unary_dispatch, simp add: assms, simp add: assms nnc_parse_sizeof_expr_def,
    (rule yields_steps calls_yield(4) [OF assms(3)] | simp add: assms)+)

lemma good_length_of:
  assumes "tok_kind s = Keyword TOK_LENGTHOF" "tok_kind l = TOK_OPAREN" "good_expr h d 15 ts e F" "tok_kind r = TOK_CPAREN" "TOK_CPAREN \<notin> F"
  shows "good_expr h d 2 (s # l # ts @ [r]) (PE_UN UNARY_LENGTHOF e) {}"
  unfolding good_expr_def level_parsers flat
  by (intro allI impI, rule unary_dispatch, simp add: assms, simp add: assms nnc_parse_lengthof_expr_def,
    (rule yields_steps calls_yield(1) [OF assms(3)] | simp add: assms)+)

lemma good_cast:
  assumes "tok_kind l = TOK_OPAREN" "good_type_expr h d ts t F" "type_start h (hd ts)" "tok_kind r = TOK_CPAREN" "TOK_CPAREN \<notin> F"
    "good_expr h d 2 us e G" "ts \<noteq> []"
  shows "good_expr h d 2 (l # ts @ r # us) (PE_CAST UNARY_CAST t e) G"
  unfolding good_expr_def level_parsers flat
proof (intro allI impI)
  fix m and s :: nnc_tok and rest assume s: "tok_kind s \<notin> G"
  obtain a vs where ts: "ts = a # vs" using assms(7) by (cases ts) auto
  have type: "type_start h a = True" using assms(3) ts by simp
  have c: "yields h (pbind nnc_parser_peek_lookup nnc_parser_match_type) (l # ts @ r # us @ s # rest) True (l # ts @ r # us @ s # rest)"
    unfolding ts flat by (rule yields_bind [OF yields_looks(5)]) (rule yields_match_type [of h a, unfolded type])
  have "yields h (nnc_parse_cast_expr (parsers d m)) (l # ts @ r # us @ s # rest) (PE_CAST UNARY_CAST t e) (s # rest)"
    unfolding nnc_parse_cast_expr_def
    by (rule yields_steps calls_yield(4) [OF assms(2)] calls_yield(3) [OF assms(6)] | simp add: assms s)+
  then show "yields h (nnc_parse_unary_expr (parsers d m)) (l # ts @ r # us @ s # rest) (PE_CAST UNARY_CAST t e) (s # rest)"
    unfolding nnc_parse_unary_expr_def
    by (intro yields_bind [OF yields_looks(3)]) (use c assms(1) in \<open>auto intro: yields_bind\<close>)
qed

text \<open>Binary operators.\<close>

lemma level_run:
  assumes "Suc n \<in> binary_levels"
  shows "level_parser (Suc n) R = pbind nnc_parser_get_ctx (\<lambda>_. pbind (level_parser n R) (\<lambda>e. binary_loop (Suc n) R (r_fuel R) e))"
  unfolding level_parser_binary [OF assms] binary_level_def binary_loop_def by simp

lemma good_operand:
  assumes "good_expr h d n ts e F" "Suc n \<in> binary_levels"
  shows "good_chain h d (Suc n) ts e F"
  unfolding good_chain_def level_run [OF assms(2)]
  by (intro allI impI) (rule yields_bind, rule yields_looks(4), simp, rule yields_bind, rule good_exprD [OF assms(1)], simp, blast)

lemma binary_ops_map: "(k, b) \<in> set (binary_ops n) \<Longrightarrow> map_of (binary_ops n) k = Some b"
  by (rule map_of_is_SomeI) (simp_all add: binary_ops_def)

lemma good_operator:
  assumes "good_chain h d (Suc n) ts l F" "(tok_kind t, k) \<in> set (binary_ops (Suc n))" "tok_kind t \<notin> F" "good_expr h d n us r G"
  shows "good_chain h d (Suc n) (ts @ t # us) (PE_BIN k l r) G"
  unfolding good_chain_def flat
proof (intro allI impI)
  fix m and s :: nnc_tok and rest x vs
  assume s: "tok_kind s \<notin> G" and rest: "\<forall>j. yields h (binary_loop (Suc n) (parsers d m) j (PE_BIN k l r)) (s # rest) x vs"
  note k = binary_ops_map [OF assms(2)]
  have op: "(tok_kind t \<in> fst ` set (binary_ops (Suc n))) = True" using assms(2) by force
  have "\<forall>j. yields h (binary_loop (Suc n) (parsers d m) j l) (t # us @ s # rest) x vs"
    unfolding binary_loop_def
  proof (rule yields_round)
    show "yields h (pbind nnc_parser_peek (\<lambda>k. ret (k \<in> fst ` set (binary_ops (Suc n))))) (t # us @ s # rest) True (t # us @ s # rest)"
      by (rule yields_bind [OF yields_looks(1)], simp) (simp only: list.sel op yields_ret)
    show "yields h (pbind nnc_parser_peek (\<lambda>k. pbind nnc_parser_next (\<lambda>_. pbind (level_parser (Suc n - 1) (parsers d m)) (\<lambda>r.
        ret (PE_BIN (the (map_of (binary_ops (Suc n)) k)) l r))))) (t # us @ s # rest) (PE_BIN k l r) (s # rest)"
      unfolding diff_Suc_1
      by (rule yields_bind [OF yields_looks(1)], simp, rule yields_bind [OF yields_next], simp, rule yields_bind,
        rule good_exprD [OF assms(4) s]) (simp add: k yields_ret)
  qed (use rest in \<open>simp add: binary_loop_def\<close>)
  then show "yields h (level_parser (Suc n) (parsers d m)) (ts @ t # us @ s # rest) x vs"
    using assms(1,3) unfolding good_chain_def by blast
qed

lemma good_binary:
  assumes "good_chain h d n ts e F"
  shows "good_expr h d n ts e (F \<union> fst ` set (binary_ops n))"
  unfolding good_expr_def
proof (intro allI impI)
  fix m and t :: nnc_tok and rest assume t: "tok_kind t \<notin> F \<union> fst ` set (binary_ops n)"
  have no: "(tok_kind t \<in> fst ` set (binary_ops n)) = False" using t by blast
  have "yields h (binary_loop n (parsers d m) j e) (t # rest) e (t # rest)" for j
    unfolding binary_loop_def
    by (rule yields_stop, rule yields_bind [OF yields_looks(1)], simp) (simp only: list.sel no yields_ret)
  then show "yields h (level_parser n (parsers d m)) (ts @ t # rest) e (t # rest)"
    using assms t unfolding good_chain_def by blast
qed

text \<open>The conditional.\<close>

lemma good_unconditional:
  assumes "good_expr h d 12 ts e F"
  shows "good_expr h d 13 ts e (insert TOK_QUESTION F)"
  unfolding good_expr_def level_parsers nnc_parse_ternary_expr_def
  by (intro allI impI, rule yields_bind, rule yields_looks(4), simp, rule yields_bind, rule good_exprD [OF assms, unfolded level_parsers])
    (simp, (rule yields_steps | simp)+)

lemma good_conditional:
  assumes "good_expr h d 12 ts c F" "tok_kind q = TOK_QUESTION" "TOK_QUESTION \<notin> F" "good_expr h d 15 us l G"
    "tok_kind k = TOK_COLON" "TOK_COLON \<notin> G" "good_expr h d 15 vs r H"
  shows "good_expr h d 13 (ts @ q # us @ k # vs) (PE_TERN c l r) H"
  unfolding good_expr_def level_parsers nnc_parse_ternary_expr_def flat
  by (intro allI impI, rule yields_bind, rule yields_looks(4), simp, rule yields_bind, rule good_exprD [OF assms(1), unfolded level_parsers])
    (simp add: assms, (rule yields_steps calls_yield(1) [OF assms(4)] calls_yield(1) [OF assms(7)] | simp add: assms)+)


text \<open>Types.\<close>

definition type_head :: "rec_parsers \<Rightarrow> ptype parse" where
  "type_head R = pbind nnc_parser_peek (\<lambda>k.
     pbind (case map_of base_kinds k of
         Some t \<Rightarrow> ret (PT_BASE t)
       | None \<Rightarrow>
           if k = Keyword TOK_FN then nnc_parse_fn_type R
           else if k = TOK_IDENT then nnc_parse_user_type
           else if k = Keyword TOK_ENUM then nnc_parse_enum_type R
           else if k = Keyword TOK_UNION \<or> k = Keyword TOK_STRUCT then nnc_parse_struct_or_union_type R
           else syntax_error) (\<lambda>t.
     pbind (if k \<noteq> TOK_IDENT then pbind (nnc_parser_match_type k) (\<lambda>m. if m then nnc_parser_next else ret ()) else ret ()) (\<lambda>_.
       ret t)))"

lemma type_run: "nnc_parse_type R = pbind (type_head R) (\<lambda>t. type_loop R (r_fuel R) t)"
  unfolding nnc_parse_type_def type_head_def type_loop_def nnc_parse_type_declarators_def
  by (simp add: fun_eq_iff pbind_def bind_res_assoc ret_def)

lemma good_type_head:
  assumes "\<And>m t rest. tok_kind t \<notin> F \<Longrightarrow> yields h (type_head (parsers d m)) (ts @ t # rest) ty (t # rest)"
  shows "good_type h d ts ty F"
  unfolding good_type_def type_run by (intro allI impI) (rule yields_bind [OF assms], assumption, blast)

lemma good_base_type:
  assumes "(tok_kind t, b) \<in> set base_kinds"
  shows "good_type h d [t] (PT_BASE b) {}"
proof (rule good_type_head)
  fix m and u :: nnc_tok and rest
  have b: "map_of base_kinds (tok_kind t) = Some b" using assms by (intro map_of_is_SomeI) (simp_all add: base_kinds_def)
  have k: "tok_kind t \<noteq> TOK_IDENT" using assms by (auto simp: base_kinds_def)
  have "type_start h t = True" using assms by (force simp: type_start_def)
  have m: "yields h (nnc_parser_match_type (tok_kind t)) (t # u # rest) True (t # u # rest)"
    using assms by (force simp: yields_def nnc_parser_match_type_def)
  show "yields h (type_head (parsers d m)) ([t] @ u # rest) (PT_BASE b) (u # rest)"
    unfolding type_head_def flat
    by (rule yields_bind [OF yields_looks(1)], simp, simp add: b k)
      (rule yields_bind, rule yields_ret, rule yields_bind, rule yields_bind, rule m, simp,
        rule yields_next, simp, rule yields_ret)
qed

lemma good_named_type:
  assumes "tok_kind t = TOK_IDENT"
  shows "good_type h d [t] (PT_USER (lexeme t)) {TOK_DCOLON}"
proof (rule good_type_head)
  fix m and u :: nnc_tok and rest
  have b: "map_of base_kinds TOK_IDENT = None" by (simp add: base_kinds_def)
  show "yields h (type_head (parsers d m)) ([t] @ u # rest) (PT_USER (lexeme t)) (u # rest)"
    unfolding type_head_def flat
    by (rule yields_bind [OF yields_looks(1)], simp, simp add: b assms nnc_parse_user_type_def)
      ((rule yields_steps | simp add: assms)+)
qed

lemma good_declarator:
  assumes pre: "good_type h d ts ty F" "tok_kind a \<in> {TOK_ASTERISK, TOK_OBRACKET}" "tok_kind a \<notin> F"
    and step: "\<And>m t rest. tok_kind t \<notin> G \<Longrightarrow> yields h (if tok_kind a = TOK_OBRACKET then nnc_parse_arr_declarator (parsers d m) ty
        else nnc_parse_ptr_declarator ty) (a # us @ t # rest) ty' (t # rest)"
  shows "good_type h d (ts @ a # us) ty' G"
  unfolding good_type_def flat
proof (intro allI impI)
  fix m and t :: nnc_tok and rest x vs
  assume t: "tok_kind t \<notin> G" and rest: "\<forall>j. yields h (type_loop (parsers d m) j ty') (t # rest) x vs"
  have "\<forall>j. yields h (type_loop (parsers d m) j ty) (a # us @ t # rest) x vs"
    unfolding type_loop_def
  proof (rule yields_round)
    have c: "(tok_kind a = TOK_ASTERISK \<or> tok_kind a = TOK_OBRACKET) = True" using pre(2) by blast
    show "yields h (pbind nnc_parser_peek (\<lambda>k. ret (k = TOK_ASTERISK \<or> k = TOK_OBRACKET))) (a # us @ t # rest) True (a # us @ t # rest)"
      by (rule yields_bind [OF yields_looks(1)], simp) (simp only: list.sel c yields_ret)
    show "yields h (pbind nnc_parser_peek (\<lambda>k. if k = TOK_OBRACKET then nnc_parse_arr_declarator (parsers d m) ty
        else nnc_parse_ptr_declarator ty)) (a # us @ t # rest) ty' (t # rest)"
      by (rule yields_bind [OF yields_looks(1)]) (simp_all only: list.sel step [OF t] list.distinct not_False_eq_True)
  qed (use rest in \<open>simp add: type_loop_def\<close>)
  then show "yields h (nnc_parse_type (parsers d m)) (ts @ a # us @ t # rest) x vs"
    using pre unfolding good_type_def by blast
qed

lemma good_pointer:
  assumes "good_type h d ts ty F" "tok_kind a = TOK_ASTERISK" "TOK_ASTERISK \<notin> F" "\<not> is_arr ty"
  shows "good_type h d (ts @ [a]) (PT_PTR ty) {}"
proof (rule good_declarator [OF assms(1)])
  fix m and t :: nnc_tok and rest
  show "yields h (if tok_kind a = TOK_OBRACKET then nnc_parse_arr_declarator (parsers d m) ty
      else nnc_parse_ptr_declarator ty) (a # [] @ t # rest) (PT_PTR ty) (t # rest)"
    unfolding flat by (simp add: assms nnc_parse_ptr_declarator_def, (rule yields_steps | simp add: assms)+)
qed (use assms in simp_all)

lemma good_array:
  assumes "good_type h d ts ty F" "tok_kind l = TOK_OBRACKET" "TOK_OBRACKET \<notin> F" "good_expr h d 14 us e G"
    "tok_kind r = TOK_CBRACKET" "TOK_CBRACKET \<notin> G"
  shows "good_type h d (ts @ l # us @ [r]) (PT_ARR ty e) {}"
proof (rule good_declarator [OF assms(1)])
  fix m and t :: nnc_tok and rest
  show "yields h (if tok_kind l = TOK_OBRACKET then nnc_parse_arr_declarator (parsers d m) ty
      else nnc_parse_ptr_declarator ty) (l # (us @ [r]) @ t # rest) (PT_ARR ty e) (t # rest)"
    unfolding flat nnc_parse_arr_declarator_def
    by (simp add: assms, (rule yields_steps calls_yield(2) [OF assms(4)] | simp add: assms)+)
qed (use assms in simp_all)

lemma type_at_first:
  "expr_at h strtod n ts e F \<Longrightarrow> True" "chain h strtod n ts e F \<Longrightarrow> True" "postfix h strtod ts e F \<Longrightarrow> True" "args h strtod ts es \<Longrightarrow> True"
  "type_at h strtod ts t F \<Longrightarrow> ts \<noteq> [] \<and> (tok_kind (hd ts) = TOK_IDENT \<longrightarrow> (if tl ts = [] then TOK_DCOLON \<in> F else tok_kind (hd (tl ts)) \<noteq> TOK_DCOLON))"
  "type_expr_at h strtod ts te F \<Longrightarrow> True"
  by (induction rule: grammar_induct) (auto simp: base_kinds_def hd_append tl_append split: list.split)

text \<open>The type behind the namespaces does not itself begin with one.\<close>

lemma good_full_type:
  assumes "nesting us ns" "good_type h d ts ty F" "type_at h d ts ty F"
  shows "good_type_expr h d (us @ ts) (TExpr ns ty) (F \<union> {TOK_ASTERISK, TOK_OBRACKET})"
  unfolding good_type_expr_def nnc_parse_type_expr_def flat
proof (intro allI impI)
  fix m and t :: nnc_tok and rest assume t: "tok_kind t \<notin> F \<union> {TOK_ASTERISK, TOK_OBRACKET}"
  have no: "(tok_kind t = TOK_ASTERISK \<or> tok_kind t = TOK_OBRACKET) = False" using t by blast
  have "yields h (type_loop (parsers d m) j ty) (t # rest) ty (t # rest)" for j
    unfolding type_loop_def by (rule yields_stop, rule yields_bind [OF yields_looks(1)], simp) (simp only: list.sel no yields_ret)
  then have ty: "yields h (nnc_parse_type (parsers d m)) (ts @ t # rest) ty (t # rest)"
    using assms(2) t unfolding good_type_def by blast
  have "\<exists>a b vs. ts @ t # rest = a # b # vs \<and> (tok_kind a = TOK_IDENT \<longrightarrow> tok_kind b \<noteq> TOK_DCOLON)"
    using type_at_first(5) [OF assms(3)] t by (cases ts; cases "tl ts") auto
  then obtain a b vs where ab: "ts @ t # rest = a # b # vs" "tok_kind a = TOK_IDENT \<longrightarrow> tok_kind b \<noteq> TOK_DCOLON" by blast
  have "yields h (nnc_parse_nesting (parsers d m)) (us @ ts @ t # rest) ns (ts @ t # rest)"
    unfolding ab(1) by (rule nesting_yields [OF assms(1) ab(2)])
  then show "yields h (pbind (nnc_parse_nesting (parsers d m)) (\<lambda>ns. pbind nnc_parser_get_ctx (\<lambda>_.
      pbind (nnc_parse_type (parsers d m)) (\<lambda>t. ret (TExpr ns t))))) (us @ ts @ t # rest) (TExpr ns ty) (t # rest)"
    by (rule yields_bind) (rule yields_bind, rule yields_looks(4), simp, rule yields_bind, rule ty, rule yields_ret)
qed


section \<open>All sentences\<close>

lemma sentence_good:
  "expr_at h d n ts e F \<Longrightarrow> good_expr h d n ts e F"
  "chain h d n ts e F \<Longrightarrow> good_chain h d n ts e F"
  "postfix h d ts e F \<Longrightarrow> good_postfix h d ts e F"
  "args h d ts es \<Longrightarrow> good_args h d ts es"
  "type_at h d ts ty F \<Longrightarrow> good_type h d ts ty F"
  "type_expr_at h d ts te F \<Longrightarrow> good_type_expr h d ts te F"
proof (induction rule: grammar_induct)
  case no_args
  then show ?case by (simp add: good_args_def args_done)
next
  case (one_arg ts e F)
  show ?case by (rule good_args_one) (use one_arg in \<open>auto dest: first_token(1,6)\<close>)
next
  case (more_args ts e F c us es)
  show ?case by (rule good_args_more) (use more_args in \<open>auto dest: first_token(1,6)\<close>)
next
  case (unprefixed ts e F)
  show ?case by (rule good_unprefixed) (use unprefixed in \<open>auto dest: first_token(1,6)\<close>)
next
  case (cast l ts t F r us e G)
  show ?case by (rule good_cast) (use cast in \<open>auto dest: first_token(1,6)\<close>)
next
  case (type_expr us ns ts t F)
  show ?case by (rule good_full_type) (use type_expr in \<open>auto\<close>)
qed (fact good_ident good_literals good_dbl good_parens good_primary good_dot good_call good_index good_postfixes good_as
    good_prefixed good_size_of good_length_of good_operand good_operator good_binary good_unconditional good_conditional
    good_base_type good_named_type good_pointer good_array |
  (rule good_ident good_literals good_dbl good_parens good_primary good_dot good_call good_index good_postfixes good_as
    good_prefixed good_size_of good_length_of good_operand good_operator good_binary good_unconditional good_conditional
    good_base_type good_named_type good_pointer good_array; assumption))+

lemma sentence_run:
  assumes "expr_at (pst p, pheap p) strtod 15 ts e F" "tok_kind t \<notin> F"
    "p_inv p" "feeds p (ts @ t # rest)" "left_over p \<le> n"
  shows "\<exists>q. nnc_parse_expr (parsers strtod n) p = Inr (e, q) \<and> p_inv q \<and> feeds q (t # rest) \<and> pst q = pst p \<and> pheap q = pheap p"
proof -
  have "yields (pst p, pheap p) (nnc_parse_expr (parsers strtod n)) (ts @ t # rest) e (t # rest)"
    using good_exprD [OF sentence_good(1) [OF assms(1)] assms(2)] by (simp add: level_parsers)
  moreover have "nnc_parse_expr (parsers strtod n) p \<noteq> Inl NoFuel"
    using safeD(1) [OF eats_safe [OF level.parse_expr] assms(3)] assms(5) by simp
  ultimately show ?thesis using assms(3,4) unfolding yields_def by auto
qed


end
