(* ===== verification/Nnc_Lex_Column.thy ===== *)
theory Nnc_Lex_Column
  imports Nnc_Lex_Read
begin

text \<open>
  Columns of the lexer: how the column \<^verbatim>\<open>hint_ch\<close> moves while a token that is no comment is
  read from a single line. The parser subtracts the size of a token from the column behind it
  under an assertion, and this says when it holds.
\<close>



text \<open>
  On a line without comments the column advances with the file: what is left of the
  line and the column add up to the same number. The end of the file counts as a character.
\<close>

definition col :: "nnc_lex \<Rightarrow> u32" where
  "col lx = hint_ch lx + of_nat (length (fp lx)) - (if cc lx = None then 1 else 0)"

definition one_line :: "nnc_lex \<Rightarrow> bool" where
  "one_line lx \<longleftrightarrow> set (fp lx) \<inter> {eof_byte, nl} = {} \<and> cc lx \<notin> {Some eof_byte, Some nl} \<and> pc lx \<notin> {eof_byte, nl}"

definition moves :: "nnc_lex \<Rightarrow> nnc_lex \<Rightarrow> bool" where
  "moves lx lx' \<longleftrightarrow> (one_line lx \<longrightarrow> one_line lx' \<and> col lx' = col lx)"

definition keeps :: "nnc_lex \<Rightarrow> 'a lres \<Rightarrow> bool" where
  "keeps lx m \<longleftrightarrow> (case m of LOk x lx' \<Rightarrow> moves lx lx' | _ \<Rightarrow> True)"

lemma moves_refl [simp]: "moves lx lx"
  by (simp add: moves_def)

lemma moves_trans: "moves lx lx1 \<Longrightarrow> moves lx1 lx2 \<Longrightarrow> moves lx lx2"
  by (auto simp: moves_def)

lemma moves_grab [simp]: "moves lx (nnc_lex_grab lx)"
  by (auto simp: moves_def one_line_def col_def nnc_lex_grab_def fgetc_def split: option.split list.split)

lemma moves_undo [simp]: "moves lx (nnc_lex_undo lx)"
  by (auto simp: moves_def one_line_def col_def nnc_lex_undo_def split: option.split)

lemma moves_token [simp]: "moves lx (lx\<lparr>ctok := t\<rparr>)"
  by (simp add: moves_def one_line_def col_def)

lemma moves_commit [simp]: "moves lx (nnc_lex_commit k lx)" "moves lx (nnc_lex_tok_clear lx)"
  by (simp_all add: nnc_lex_commit_def nnc_lex_tok_clear_def)

lemma keeps_LOk [simp]: "keeps lx (LOk x lx') \<longleftrightarrow> moves lx lx'"
  by (simp add: keeps_def)

lemma keeps_stop [simp]: "keeps lx (LThrow k lx')" "keeps lx LCrash" "keeps lx (undo_throw k lx')"
  by (simp_all add: keeps_def undo_throw_def)

lemma keeps_bind:
  assumes "keeps lx m" "\<And>x lx'. m = LOk x lx' \<Longrightarrow> keeps lx' (f x lx')"
  shows "keeps lx (bind_lex m f)"
proof (cases m)
  case (LOk x lx1)
  then have "moves lx lx1" "keeps lx1 (f x lx1)" using assms by (simp_all add: keeps_def)
  then show ?thesis using LOk by (cases "f x lx1") (auto simp: keeps_def intro: moves_trans)
qed (simp_all add: keeps_def)

lemma keeps_after: "moves lx lx1 \<Longrightarrow> keeps lx1 m \<Longrightarrow> keeps lx m"
  by (auto simp: keeps_def split: lres.splits intro: moves_trans)

lemma keeps_let: "keeps (nnc_lex_grab lx) (f (nnc_lex_grab lx)) \<Longrightarrow> keeps lx (let l = nnc_lex_grab lx in f l)"
  by (simp add: keeps_after [OF moves_grab])

lemma keeps_put [simp]: "keeps lx (put_c c lx)" "keeps lx (put_cc lx)"
  by (simp_all add: put_cc_def put_c_def Let_def)

lemma keeps_if: "(b \<Longrightarrow> keeps lx m) \<Longrightarrow> (\<not> b \<Longrightarrow> keeps lx n) \<Longrightarrow> keeps lx (if b then m else n)"
  by simp

lemma keeps_option: "keeps lx m \<Longrightarrow> (\<And>c. keeps lx (f c)) \<Longrightarrow> keeps lx (case b of None \<Rightarrow> m | Some c \<Rightarrow> f c)"
  by (cases b) simp_all

lemma keeps_esc [simp]: "keeps lx (nnc_lex_grab_esc lx)"
  by (simp add: nnc_lex_grab_esc_def split: option.split)

lemma keeps_escaped [simp]: "keeps lx (grab_escaped lx)"
  unfolding grab_escaped_def by (intro keeps_bind keeps_put keeps_after [OF moves_grab keeps_esc])

lemma keeps_chr: "keeps lx (nnc_lex_grab_chr lx)"
  unfolding nnc_lex_grab_chr_def Let_def
  by (rule keeps_bind, rule keeps_after [OF moves_commit(2)], simp, rule keeps_bind, rule keeps_after [OF moves_grab])
    (auto split: option.split intro!: keeps_bind)

lemma keeps_str_loop: "keeps lx (str_loop lx)"
proof (induction lx rule: str_loop.induct)
  case (1 lx)
  show ?case
    by (subst str_loop.simps, unfold Let_def, rule keeps_after [OF moves_grab])
      (auto split: option.split intro!: keeps_bind 1)
qed

lemma keeps_str: "keeps lx (nnc_lex_grab_str lx)"
  unfolding nnc_lex_grab_str_def
  by (rule keeps_bind, rule keeps_after [OF moves_commit(2)]) (auto intro!: keeps_bind keeps_str_loop)

lemma keeps_while: "keeps lx (grab_while P n lx)"
proof (induction P n lx rule: grab_while.induct)
  case (1 P n lx)
  show ?case
    by (subst grab_while.simps, unfold Let_def, rule keeps_after [OF moves_grab])
      (auto split: option.split intro!: keeps_bind 1)
qed

lemma keeps_pair: "keeps lx (grab_pair c lx)"
  unfolding grab_pair_def by (intro keeps_bind keeps_let keeps_if keeps_put keeps_stop)

lemma keeps_suffix: "keeps lx (nnc_lex_grab_int_suffix lx)" "keeps lx (nnc_lex_grab_float_suffix lx)"
  unfolding nnc_lex_grab_int_suffix_def nnc_lex_grab_float_suffix_def
  by (rule keeps_option, simp, intro keeps_if keeps_bind keeps_let keeps_pair keeps_put keeps_stop, simp)+

lemma keeps_exponent: "keeps lx (nnc_lex_grab_exponent lx)"
  unfolding nnc_lex_grab_exponent_def
  by (intro keeps_bind keeps_put keeps_let) (auto split: option.split intro!: keeps_bind keeps_while)

lemma keeps_float: "keeps lx (nnc_lex_grab_float lx)"
  unfolding nnc_lex_grab_float_def by (auto intro!: keeps_bind keeps_while keeps_exponent keeps_suffix split: prod.split)

lemma keeps_based: "keeps lx (grab_based P lx)"
  unfolding grab_based_def
  by (rule keeps_bind, rule keeps_after [OF moves_commit(2)]) (auto intro!: keeps_bind keeps_while keeps_suffix split: prod.split)

lemma keeps_dec: "keeps lx (nnc_lex_grab_dec lx)"
  unfolding nnc_lex_grab_dec_def
  by (rule keeps_bind, rule keeps_after [OF moves_commit(2)])
    (auto intro!: keeps_bind keeps_while keeps_suffix keeps_float split: prod.split)

lemma keeps_number: "keeps lx (nnc_lex_grab_number lx)"
proof -
  have dec: "keeps lx (nnc_lex_grab_dec (nnc_lex_undo lx))" for lx by (rule keeps_after [OF moves_undo keeps_dec])
  show ?thesis
    unfolding nnc_lex_grab_number_def nnc_lex_grab_hex_def nnc_lex_grab_oct_def nnc_lex_grab_bin_def
    by (intro keeps_if keeps_dec keeps_let) (auto split: option.split intro: keeps_based dec)
qed

lemma keeps_ident: "keeps lx (nnc_lex_grab_ident km lx)"
proof -
  have look: "keeps lx (lookup_keyword km (nnc_lex_undo lx))" for lx
    by (rule keeps_after [OF moves_undo]) (auto simp: lookup_keyword_def Let_def split: sum.splits bool.splits)
  have put: "keeps lx (put_cc (nnc_lex_tok_clear lx))" by (rule keeps_after [OF moves_commit(2)]) simp
  show ?thesis unfolding nnc_lex_grab_ident_def by (intro keeps_bind keeps_while look put)
qed

lemma moves_adjust: "nnc_lex_adjust c lx = (b, lx') \<Longrightarrow> moves lx lx'"
  by (auto simp: nnc_lex_adjust_def Let_def split: if_splits intro: moves_trans [OF moves_grab moves_undo])

lemma moves_commit_first: "moves lx (commit_first alts d lx)"
proof (induction alts arbitrary: lx)
  case (Cons p alts)
  obtain c k where p: "p = (c, k)" by (cases p)
  obtain b lx1 where a: "nnc_lex_adjust c lx = (b, lx1)" by (cases "nnc_lex_adjust c lx")
  show ?case using moves_trans [OF moves_adjust [OF a]] Cons [of lx1] by (simp add: p a)
qed simp

lemma moves_skip: "one_line lx \<Longrightarrow> moves lx (nnc_lex_skip lx)"
proof (induction lx rule: nnc_lex_skip.induct)
  case (1 lx)
  have g: "one_line (nnc_lex_grab lx)" using 1(3) moves_grab [of lx] by (simp add: moves_def)
  show ?case
  proof (cases "cc (nnc_lex_grab lx)")
    case None
    then show ?thesis by (subst nnc_lex_skip.simps) (simp add: Let_def)
  next
    case (Some c)
    have n: "c \<noteq> nl" using g Some by (simp add: one_line_def)
    show ?thesis
      using Some n 1(1) [OF refl Some _ g] moves_trans [OF moves_grab, of lx "nnc_lex_skip (nnc_lex_grab lx)"]
      by (subst nnc_lex_skip.simps) (simp add: Let_def)
  qed
qed

text \<open>A token that is no comment.\<close>

lemma moves_try:
  assumes "lex_try km lx = LOk False lx'"
  shows "moves lx lx'"
proof -
  define l0 where "l0 = nnc_lex_skip lx"
  have r: "keeps l0 (commit_result m)" if "keeps l0 m" for m
    using that by (simp add: commit_result_def keeps_bind)
  have "moves l0 lx'"
  proof (cases "cc l0")
    case None
    then show ?thesis using assms by (auto simp: lex_try_def Let_def l0_def [symmetric])
  next
    case (Some c)
    obtain yes l1 where adj: "nnc_lex_adjust CHR ''/'' l0 = (yes, l1)" by (cases "nnc_lex_adjust CHR ''/'' l0")
    have slash: "moves l0 (nnc_lex_commit TOK_SLASH l1)" using moves_trans [OF moves_adjust [OF adj]] by simp
    have "keeps l0 (LOk False lx')"
    proof (cases "map_of single_toks c")
      case None
      note single = this
      show ?thesis
      proof (cases "map_of compound_toks c")
        case None
        have "keeps l0 (lex_try km lx) \<or> (\<exists>lx'. lex_try km lx = LOk True lx')"
          unfolding lex_try_def Let_def l0_def [symmetric] Some option.case single None adj prod.case
          using r [OF keeps_chr] r [OF keeps_str] r [OF keeps_number] r [OF keeps_ident [where km = km]] slash by simp
        then show ?thesis using assms by simp
      next
        case (Some alt)
        then show ?thesis using assms \<open>cc l0 = Some c\<close> single moves_commit_first [of l0]
          by (cases alt) (auto simp: lex_try_def Let_def l0_def [symmetric])
      qed
    next
      case (Some k)
      then show ?thesis using assms \<open>cc l0 = Some c\<close> by (auto simp: lex_try_def Let_def l0_def [symmetric])
    qed
    then show ?thesis by simp
  qed
  then show ?thesis using moves_skip [of lx] moves_trans by (auto simp: l0_def moves_def)
qed


end
