(* ===== verification/Nnc_Parse_Text.thy ===== *)
theory Nnc_Parse_Text
  imports Nnc_Parse_Grammar Nnc_Lex_Column
begin

text \<open>
  From text to tree: what the lexer and the parser make together of the text of an expression
  statement on one line.
\<close>

section \<open>The tokens of a text\<close>

definition token_of :: "tok_spec \<Rightarrow> nnc_tok \<Rightarrow> bool" where
  "token_of t tok \<longleftrightarrow> tok_kind tok = spec_kind t \<and> (spec_lexeme t = None \<or> spec_lexeme t = Some (lexeme tok))"

text \<open>No string literal follows another: those are joined to one token.\<close>

fun strings_apart :: "nnc_tok_kind list \<Rightarrow> bool" where
  "strings_apart (k # l # ks) \<longleftrightarrow> \<not> (k = TOK_STR \<and> l = TOK_STR) \<and> strings_apart (l # ks)"
| "strings_apart _ \<longleftrightarrow> True"

text \<open>The lexer behind the two tokens of the parser, in front of the texts of \<open>specs\<close>.\<close>

definition column_ok :: "ptok \<Rightarrow> bool" where
  "column_ok t \<longleftrightarrow> tok_size (fst t) \<le> unat (snd t)"

definition behind :: "nnc_lex \<Rightarrow> tok_spec list \<Rightarrow> bool" where
  "behind lx specs \<longleftrightarrow> one_line lx \<and> ready lx (spell_all specs) \<and>
     (specs \<noteq> [] \<longrightarrow> unat (hint_ch lx) + length (fp lx) + 1 < 2 ^ 32)"

lemma column_advance:
  assumes "one_line lx" "one_line lx'" "col lx' = col lx" "cc lx \<noteq> None" "length (fp lx) = Suc n + length (fp lx')"
    "unat (hint_ch lx) + length (fp lx) + 1 < 2 ^ 32"
  shows "n \<le> unat (hint_ch lx')" "cc lx' \<noteq> None \<Longrightarrow> unat (hint_ch lx') + length (fp lx') + 1 < 2 ^ 32"
proof -
  define d :: nat where "d = (if cc lx' = None then 1 else 0)"
  have "hint_ch lx' + of_nat (length (fp lx')) - of_nat d = hint_ch lx + of_nat (Suc n + length (fp lx'))"
    using assms(3,4,5) by (cases "cc lx'") (simp_all add: col_def d_def algebra_simps)
  then have "hint_ch lx' = hint_ch lx + of_nat (Suc n + d)" by (simp add: algebra_simps)
  moreover have "unat (hint_ch lx + of_nat (Suc n + d)) = unat (hint_ch lx) + (Suc n + d)"
  proof -
    have b: "unat (hint_ch lx) + (Suc n + d) < 2 ^ 32" using assms(5,6) by (simp add: d_def)
    then have "unat (of_nat (Suc n + d) :: u32) = Suc n + d" by (simp add: unat_of_nat take_bit_nat_eq_self del: of_nat_Suc of_nat_add)
    then show ?thesis using b by (simp add: unat_word_ariths(1) del: of_nat_Suc of_nat_add)
  qed
  ultimately have "unat (hint_ch lx') = unat (hint_ch lx) + (Suc n + d)" by simp
  then show "n \<le> unat (hint_ch lx')" "cc lx' \<noteq> None \<Longrightarrow> unat (hint_ch lx') + length (fp lx') + 1 < 2 ^ 32"
    using assms(5,6) by (auto simp: d_def)
qed

lemma next_step:
  assumes "\<not> is_first p" "nnc_lex_next (pkm p) (plex p) = LOk k lx'" "\<not> (kind_of_tok (look p) = TOK_STR \<and> tok_kind (ctok lx') = TOK_STR)"
  shows "nnc_parser_next p = Inr ((), p\<lparr>plex := lx', cur := look p, look := tok_here lx'\<rparr>)"
  using assms by (auto simp: nnc_parser_next_def lex_step_def tok_here_def kind_of_tok_def Let_def)

lemma eof_token: "fp lx = [] \<Longrightarrow> \<exists>lx'. nnc_lex_next km lx = LOk TOK_EOF lx' \<and> fp lx' = [] \<and> tok_kind (ctok lx') = TOK_EOF \<and> tok_size (ctok lx') = 0"
  by (cases "cc lx") (simp_all add: nnc_lex_next.simps lex_try_def nnc_lex_skip.simps nnc_lex_grab_def fgetc_def
    commit_size has_lexeme_def is_keyword_kind_def nnc_tok_sizes_def Let_def)

text \<open>A token is read: the lexer is in front of the rest and the column is not less than the size.\<close>

lemma behind_next:
  assumes km: "init_keywords = Inr km" and ok: "spec_ok t" and b: "behind lx (t # specs)"
  shows "\<exists>lx'. nnc_lex_next km lx = LOk (spec_kind t) lx' \<and> token_of t (ctok lx') \<and> column_ok (tok_here lx') \<and> behind lx' specs"
proof -
  have r: "ready lx (CHR '' '' # spell t @ spell_all specs)" and line: "one_line lx"
    and bound: "unat (hint_ch lx) + length (fp lx) + 1 < 2 ^ 32"
    using b by (simp_all add: behind_def spell_all_def)
  obtain lx' where lx': "lex_try km lx = LOk False lx'" "nnc_lex_next km lx = LOk (spec_kind t) lx'" "ready lx' (spell_all specs)"
    "\<forall>w. spec_lexeme t = Some w \<longrightarrow> lexeme (ctok lx') = w" "tok_size (ctok lx') \<le> length (spell t)"
    using next_spec [OF km ok spell_all_separated r] by blast
  have m: "one_line lx'" "col lx' = col lx" using moves_try [OF lx'(1)] line by (simp_all add: moves_def)
  have c: "cc lx \<noteq> None" and len: "length (fp lx) = Suc (length (spell t)) + length (fp lx')"
    using r lx'(3) by (auto simp: ready_def)
  note adv = column_advance [OF line m c len bound]
  have "tok_kind (ctok lx') = spec_kind t" using lex_next_reads [OF lx'(2)] by simp
  then have "token_of t (ctok lx')" using lx'(4) by (cases "spec_lexeme t") (auto simp: token_of_def)
  moreover have "column_ok (tok_here lx')" using lx'(5) adv(1) by (simp add: column_ok_def tok_here_def)
  moreover have "cc lx' \<noteq> None" if "specs \<noteq> []"
    using that lx'(3) by (cases specs) (auto simp: ready_def spell_all_def)
  then have "behind lx' specs" using m(1) lx'(3) adv(2) by (auto simp: behind_def)
  ultimately show ?thesis using lx'(2) by blast
qed

lemma feeds_text:
  assumes "init_keywords = Inr km"
  shows "list_all spec_ok specs \<Longrightarrow> behind (plex p) specs \<Longrightarrow> column_ok (cur p) \<Longrightarrow> column_ok (look p) \<Longrightarrow> \<not> is_first p \<Longrightarrow>
    pkm p = km \<Longrightarrow> strings_apart (kind_of_tok (look p) # map spec_kind specs) \<Longrightarrow>
    \<exists>ts eof. list_all2 token_of specs ts \<and> tok_kind eof = TOK_EOF \<and> feeds p (fst (cur p) # fst (look p) # ts @ [eof])"
proof (induction specs arbitrary: p)
  case Nil
  have "fp (plex p) = []" using Nil(2) by (simp add: behind_def ready_def spell_all_def)
  from eof_token [OF this, of km] obtain l1 where
    l1: "nnc_lex_next km (plex p) = LOk TOK_EOF l1" "fp l1 = []" "tok_kind (ctok l1) = TOK_EOF" "tok_size (ctok l1) = 0" by blast
  obtain l2 where l2: "nnc_lex_next km l1 = LOk TOK_EOF l2" "fp l2 = []" "tok_kind (ctok l2) = TOK_EOF" using eof_token [OF l1(2)] by blast
  define q where "q = p\<lparr>plex := l1, cur := look p, look := tok_here l1\<rparr>"
  have q: "nnc_parser_next p = Inr ((), q)" unfolding q_def using Nil l1 by (intro next_step) simp_all
  have r: "nnc_parser_next q = Inr ((), q\<lparr>plex := l2, cur := look q, look := tok_here l2\<rparr>)"
    using Nil l1 l2 by (intro next_step) (simp_all add: q_def tok_here_def kind_of_tok_def)
  have "feeds p (fst (cur p) # fst (look p) # [] @ [ctok l1])"
    using q r Nil l1 by (simp add: column_ok_def) (simp add: q_def tok_here_def split: sum.split)
  then show ?case using l1(3) by (intro exI [of _ "[]"] exI [of _ "ctok l1"]) simp
next
  case (Cons t specs)
  obtain lx' where lx': "nnc_lex_next km (plex p) = LOk (spec_kind t) lx'" "token_of t (ctok lx')" "column_ok (tok_here lx')" "behind lx' specs"
    using behind_next [OF assms _ Cons.prems(2)] Cons.prems(1) by auto
  define q where "q = p\<lparr>plex := lx', cur := look p, look := tok_here lx'\<rparr>"
  have k: "tok_kind (ctok lx') = spec_kind t" using lx'(2) by (simp add: token_of_def)
  have q: "nnc_parser_next p = Inr ((), q)"
    unfolding q_def using Cons.prems lx'(1) k by (intro next_step) simp_all
  obtain ts eof where ts: "list_all2 token_of specs ts" "tok_kind eof = TOK_EOF" "feeds q (fst (cur q) # fst (look q) # ts @ [eof])"
    using Cons.IH [of q] Cons.prems lx'(3,4) k by (auto simp: q_def kind_of_tok_def tok_here_def)
  have "feeds p (fst (cur p) # fst (look p) # (ctok lx' # ts) @ [eof])"
    using ts(3) q Cons.prems(3) by (simp add: q_def column_ok_def tok_here_def)
  then show ?case using ts(1,2) lx'(2) by (intro exI [of _ "ctok lx' # ts"] exI [of _ eof]) simp
qed


section \<open>Expression statements\<close>

definition expr_first :: "nnc_tok_kind set" where
  "expr_first = first_kinds \<union> fst ` set prefix_ops \<union> {Keyword TOK_SIZEOF, Keyword TOK_LENGTHOF}"

lemma expr_first_token:
  "expr_at h d n ts e F \<Longrightarrow> ts \<noteq> [] \<and> tok_kind (hd ts) \<in> expr_first"
  "chain h d n ts e F \<Longrightarrow> ts \<noteq> [] \<and> tok_kind (hd ts) \<in> expr_first"
  "postfix h d ts e F \<Longrightarrow> ts \<noteq> [] \<and> tok_kind (hd ts) \<in> expr_first"
  "args h d ts es \<Longrightarrow> True"
  "type_at h d ts ty F \<Longrightarrow> True"
  "type_expr_at h d ts te F \<Longrightarrow> True"
proof (induction rule: grammar_induct)
  case (ident ts ns t)
  then show ?case using nesting_first [OF ident(1)] by (cases ts) (auto simp: first_kinds_def expr_first_def)
qed (force simp: first_kinds_def expr_first_def hd_append)+

lemma statement_yields:
  assumes "expr_at h d 15 ts e F" "tok_kind t = TOK_SEMICOLON" "TOK_SEMICOLON \<notin> F" "rest \<noteq> []"
  shows "yields h (nnc_parse_stmt (parsers d m)) (ts @ t # rest) (PS_EXPR e) rest"
proof -
  note good = sentence_good(1) [OF assms(1)]
  have k: "tok_kind (hd (ts @ t # rest)) \<in> expr_first" using expr_first_token(1) [OF assms(1)] by (cases ts) simp_all
  then have semi: "tok_kind (hd (ts @ t # rest)) \<noteq> TOK_SEMICOLON" by (auto simp: expr_first_def first_kinds_def prefix_ops_def)
  have e: "yields h (nnc_parse_expr_stmt (parsers d m)) (ts @ t # rest) (PS_EXPR e) rest"
    unfolding nnc_parse_expr_stmt_def
    by (rule yields_bind, rule yields_looks(3), simp, simp only: semi if_False)
      (rule yields_bind, rule calls_yield(1) [OF good], simp add: assms, rule yields_bind, rule yields_expect [OF assms(2,4)], rule yields_ret)
  show ?thesis
    unfolding nnc_parse_stmt_def
    by (rule yields_bind, rule yields_looks(1), simp) (use k e in \<open>auto simp: expr_first_def first_kinds_def prefix_ops_def\<close>)
qed

lemma statement_call:
  assumes "expr_at h d 15 ts e F" "tok_kind t = TOK_SEMICOLON" "TOK_SEMICOLON \<notin> F" "rest \<noteq> []"
  shows "yields h (r_stmt (parsers d m)) (ts @ t # rest) (PS_EXPR e) rest"
  by (cases m) (simp_all add: yields_fuel Let_def statement_yields [OF assms])

text \<open>The text of expression statements, each with the semicolon behind it.\<close>

definition semicolon :: tok_spec where
  "semicolon = SPunct '';'' TOK_SEMICOLON"

definition statement_specs :: "(tok_spec list \<times> pexpr) list \<Rightarrow> tok_spec list" where
  "statement_specs ss = concat (map (\<lambda>s. fst s @ [semicolon]) ss)"

text \<open>\<open>denotes\<close>: tokens of these texts are this expression, by the grammar.\<close>

definition denotes :: "nat \<times> st_heap \<Rightarrow> (string \<Rightarrow> u64) \<Rightarrow> tok_spec list \<Rightarrow> pexpr \<Rightarrow> bool" where
  "denotes h d specs e \<longleftrightarrow> (\<forall>ts. list_all2 token_of specs ts \<longrightarrow> (\<exists>F. expr_at h d 15 ts e F \<and> TOK_SEMICOLON \<notin> F))"

definition file_loop :: "(string \<Rightarrow> u64) \<Rightarrow> nat \<Rightarrow> nat \<Rightarrow> pstmt list \<Rightarrow> pstmt list parse" where
  "file_loop d m n = while_p n (\<lambda>_. pbind nnc_parser_peek (\<lambda>k. ret (k \<noteq> TOK_EOF)))
     (\<lambda>ss. pbind (r_stmt (parsers d m)) (\<lambda>s. ret (ss @ [s])))"

lemma statements_yield:
  assumes "list_all (\<lambda>s. denotes h d (fst s) (snd s)) ss" "list_all2 token_of (statement_specs ss) ts" "tok_kind eof = TOK_EOF"
  shows "\<forall>n. yields h (file_loop d m n acc) (ts @ [eof]) (acc @ map (\<lambda>s. PS_EXPR (snd s)) ss) [eof]"
  using assms(1,2)
proof (induction ss arbitrary: ts acc)
  case Nil
  have "yields h (pbind nnc_parser_peek (\<lambda>k. ret (k \<noteq> TOK_EOF))) [eof] False [eof]"
    by (rule yields_bind, rule yields_looks(1), simp) (simp add: assms(3) yields_ret [where x = False, simplified])
  then have "yields h (file_loop d m n acc) [eof] acc [eof]" for n unfolding file_loop_def by (rule yields_stop)
  then show ?case using Nil by (simp add: statement_specs_def)
next
  case (Cons s ss)
  obtain us t vs where ts: "ts = us @ t # vs" "list_all2 token_of (fst s) us" "token_of semicolon t"
    "list_all2 token_of (statement_specs ss) vs"
    using Cons.prems(2) by (auto simp: statement_specs_def list_all2_append1 list_all2_Cons1)
  obtain F where e: "expr_at h d 15 us (snd s) F" "TOK_SEMICOLON \<notin> F" using Cons.prems(1) ts(2) by (auto simp: denotes_def)
  have t: "tok_kind t = TOK_SEMICOLON" using ts(3) by (simp add: token_of_def semicolon_def)
  have "tok_kind (hd (us @ t # vs @ [eof])) \<in> expr_first" using expr_first_token(1) [OF e(1)] by (cases us) simp_all
  then have more: "(tok_kind (hd (us @ t # vs @ [eof])) \<noteq> TOK_EOF) = True"
    by (auto simp: expr_first_def first_kinds_def prefix_ops_def)
  have "\<forall>n. yields h (file_loop d m n acc) (us @ t # vs @ [eof]) ((acc @ [PS_EXPR (snd s)]) @ map (\<lambda>s. PS_EXPR (snd s)) ss) [eof]"
    unfolding file_loop_def
  proof (rule yields_round)
    show "yields h (pbind nnc_parser_peek (\<lambda>k. ret (k \<noteq> TOK_EOF))) (us @ t # vs @ [eof]) True (us @ t # vs @ [eof])"
      by (rule yields_bind, rule yields_looks(1), simp) (simp only: more yields_ret)
    show "yields h (pbind (r_stmt (parsers d m)) (\<lambda>s. ret (acc @ [s]))) (us @ t # vs @ [eof]) (acc @ [PS_EXPR (snd s)]) (vs @ [eof])"
      by (rule yields_bind, rule statement_call [OF e(1) t e(2)], simp, rule yields_ret)
    show "\<forall>n. yields h (while_p n (\<lambda>_. pbind nnc_parser_peek (\<lambda>k. ret (k \<noteq> TOK_EOF)))
        (\<lambda>ss. pbind (r_stmt (parsers d m)) (\<lambda>s. ret (ss @ [s]))) (acc @ [PS_EXPR (snd s)])) (vs @ [eof])
        ((acc @ [PS_EXPR (snd s)]) @ map (\<lambda>s. PS_EXPR (snd s)) ss) [eof]"
      using Cons.IH [of vs "acc @ [PS_EXPR (snd s)]"] Cons.prems(1) ts(4) unfolding file_loop_def by simp
  qed
  then show ?case by (simp add: ts(1))
qed


section \<open>A whole file\<close>

definition initial_heap :: st_heap where
  "initial_heap = \<lparr>tables = [nnc_st_init\<lparr>st_ctx := ST_CTX_GLOBAL\<rparr>], idents = [], htypes = static_types\<rparr>"

lemma init_feeds:
  assumes km: "init_keywords = Inr km" and ok: "list_all spec_ok (t0 # t1 # specs)" and f: "file = spell_all (t0 # t1 # specs)"
    and line: "set file \<inter> {eof_byte, nl} = {}" "length file + 1 < 2 ^ 32" and apart: "strings_apart (map spec_kind (t0 # t1 # specs))"
  shows "\<exists>p ts eof. nnc_parser_init km file = Inr p \<and> p_inv p \<and> (pst p, pheap p) = (0, initial_heap) \<and>
    list_all2 token_of (t0 # t1 # specs) ts \<and> tok_kind eof = TOK_EOF \<and> feeds p (ts @ [eof])"
proof -
  have b: "behind (nnc_lex_init file) (t0 # t1 # specs)"
    using line by (auto simp: behind_def one_line_def ready_def nnc_lex_init_def f eof_byte_def nl_def)
  obtain l0 where l0: "nnc_lex_next km (nnc_lex_init file) = LOk (spec_kind t0) l0" "token_of t0 (ctok l0)" "column_ok (tok_here l0)"
    "behind l0 (t1 # specs)" using behind_next [OF km _ b] ok by auto
  obtain l1 where l1: "nnc_lex_next km l0 = LOk (spec_kind t1) l1" "token_of t1 (ctok l1)" "column_ok (tok_here l1)"
    "behind l1 specs" using behind_next [OF km _ l0(4)] ok by auto
  have k: "tok_kind (ctok l0) = spec_kind t0" "tok_kind (ctok l1) = spec_kind t1" using l0(2) l1(2) by (simp_all add: token_of_def)
  have no: "\<not> (spec_kind t0 = TOK_STR \<and> spec_kind t1 = TOK_STR)" using apart by simp
  obtain p where p: "nnc_parser_init km file = Inr p" "plex p = l1" "cur p = tok_here l0" "look p = tok_here l1" "\<not> is_first p"
    "pkm p = km" "pst p = 0" "pheap p = initial_heap"
    using l0(1) l1(1) k no
    by (simp add: nnc_parser_init_def nnc_parser_next_def lex_step_def tok_here_def kind_of_tok_def Let_def initial_heap_def del: de_Morgan_conj)
  have inv: "p_inv p" using init_ready(2) [OF p(1)] by blast
  obtain ts eof where ts: "list_all2 token_of specs ts" "tok_kind eof = TOK_EOF" "feeds p (fst (cur p) # fst (look p) # ts @ [eof])"
    using feeds_text [OF km, of specs p] ok l0(3) l1(3,4) apart k p by (auto simp: kind_of_tok_def tok_here_def)
  have "list_all2 token_of (t0 # t1 # specs) (fst (cur p) # fst (look p) # ts)" using ts(1) l0(2) l1(2) p by (simp add: tok_here_def)
  moreover have "feeds p ((fst (cur p) # fst (look p) # ts) @ [eof])" using ts(3) by simp
  moreover have "(pst p, pheap p) = (0, initial_heap)" using p by simp
  ultimately show ?thesis using p(1) inv ts(2) by (intro exI [of _ p] exI [of _ "fst (cur p) # fst (look p) # ts"] exI [of _ eof] conjI) blast+
qed

lemma parse_file:
  assumes "init_keywords = Inr km" "list_all spec_ok (statement_specs ss)" "file = spell_all (statement_specs ss)" "ss \<noteq> []"
    "set file \<inter> {eof_byte, nl} = {}" "length file + 1 < 2 ^ 32" "strings_apart (map spec_kind (statement_specs ss))"
    "list_all (\<lambda>s. fst s \<noteq> [] \<and> denotes (0, initial_heap) strtod (fst s) (snd s)) ss"
  shows "\<exists>p. nnc_parse strtod km file = Inr (map (\<lambda>s. PS_EXPR (snd s)) ss, p)"
proof -
  obtain t0 t1 specs where specs: "statement_specs ss = t0 # t1 # specs"
  proof (cases ss)
    case (Cons s ss')
    then obtain t us where "fst s = t # us" using assms(8) by (cases "fst s") auto
    then show ?thesis using that [of t] Cons by (cases us) (auto simp: statement_specs_def)
  qed (use assms(4) in simp)
  obtain p ts eof where p: "nnc_parser_init km file = Inr p" "p_inv p" "(pst p, pheap p) = (0, initial_heap)"
    "list_all2 token_of (statement_specs ss) ts" "tok_kind eof = TOK_EOF" "feeds p (ts @ [eof])"
    using init_feeds [OF assms(1), of t0 t1 specs "file"] assms(2,3,5-7) unfolding specs by blast
  have "list_all (\<lambda>s. denotes (0, initial_heap) strtod (fst s) (snd s)) ss" using assms(8) by (simp add: list_all_iff)
  from statements_yield [OF this p(4,5), of "length file + 5" "[]"]
  have "yields (0, initial_heap) (file_loop strtod (length file + 5) (length file + 4) []) (ts @ [eof]) (map (\<lambda>s. PS_EXPR (snd s)) ss) [eof]"
    by simp
  moreover have run: "nnc_parse strtod km file = file_loop strtod (length file + 5) (length file + 4) [] p"
    by (simp add: nnc_parse_def p(1) file_loop_def Let_def)
  moreover have "nnc_parse strtod km file \<noteq> Inl NoFuel" by (rule parse_run(1))
  ultimately show ?thesis using p(2,3,6) unfolding yields_def by auto
qed


end
