(* ===== verification/Nnc_Digits.thy ===== *)
theory Nnc_Digits
  imports Nnc_Prelude
begin

text \<open>
  Numbers as the formats of \<^verbatim>\<open>printf\<close> write them: decimal, hexadecimal, signed; different numbers
  have different texts.
\<close>

definition digit_chr :: "nat \<Rightarrow> char" where
  "digit_chr n = ''0123456789abcdef'' ! n"

fun dec_digits :: "nat \<Rightarrow> string" where
  "dec_digits n = (if n < 10 then [digit_chr n] else dec_digits (n div 10) @ [digit_chr (n mod 10)])"

fun hex_digits :: "nat \<Rightarrow> string" where
  "hex_digits n = (if n < 16 then [digit_chr n] else hex_digits (n div 16) @ [digit_chr (n mod 16)])"

declare dec_digits.simps [simp del] hex_digits.simps [simp del]

text \<open>The formats \<^verbatim>\<open>%d\<close> and \<^verbatim>\<open>%02x\<close>.\<close>

definition signed_digits :: "int \<Rightarrow> string" where
  "signed_digits i = (if i < 0 then CHR ''-'' # dec_digits (nat (- i)) else dec_digits (nat i))"

definition hex_byte :: "nat \<Rightarrow> string" where
  "hex_byte n = [digit_chr (n div 16), digit_chr (n mod 16)]"

definition chr_digit :: "char \<Rightarrow> nat" where
  "chr_digit c = of_char c - 48"

definition dec_value :: "string \<Rightarrow> nat" where
  "dec_value s = foldl (\<lambda>n c. n * 10 + chr_digit c) 0 s"

lemma chr_digit: "n < 10 \<Longrightarrow> chr_digit (digit_chr n) = n"
proof -
  assume "n < 10"
  then have "n \<in> {0, 1, 2, 3, 4, 5, 6, 7, 8, 9}" by auto
  then show ?thesis by (auto simp: digit_chr_def chr_digit_def)
qed

lemma dec_value_digits: "dec_value (dec_digits n) = n"
proof (induction n rule: dec_digits.induct)
  case (1 n)
  have "n mod 10 < 10" by simp
  then have "chr_digit (digit_chr (n mod 10)) = n mod 10" by (rule chr_digit)
  moreover have "n < 10 \<Longrightarrow> chr_digit (digit_chr n) = n" by (rule chr_digit)
  ultimately show ?case using 1 by (subst dec_digits.simps) (auto simp: dec_value_def)
qed

lemma dec_digits_inj [simp]: "dec_digits n = dec_digits m \<longleftrightarrow> n = m"
  by (metis dec_value_digits)

lemma dec_digits_length: "n < 10 ^ Suc k \<Longrightarrow> length (dec_digits n) \<le> Suc k"
proof (induction k arbitrary: n)
  case (Suc k)
  have "n div 10 < 10 ^ Suc k" using Suc.prems by (simp add: less_mult_imp_div_less mult.commute)
  from Suc.IH [OF this] show ?case by (subst dec_digits.simps) simp
qed (simp add: dec_digits.simps)

end
