(* ===== verification/Nnc_Parse_Print.thy ===== *)
theory Nnc_Parse_Print
  imports Nnc_Parse_Text Nnc_Digits
begin

text \<open>
  Printing expressions with the fewest parentheses the grammar needs, and reading them back: the
  lexer and the parser return the trees that were printed.
\<close>

section \<open>Printing\<close>

definition suffix_text :: "nnc_int_suffix \<Rightarrow> string" where
  "suffix_text s = (case s of SUFFIX_U8 \<Rightarrow> ''u8'' | SUFFIX_U16 \<Rightarrow> ''u16'' | SUFFIX_U32 \<Rightarrow> ''u32'' | SUFFIX_U64 \<Rightarrow> ''u64''
     | SUFFIX_I8 \<Rightarrow> ''i8'' | SUFFIX_I16 \<Rightarrow> ''i16'' | SUFFIX_I32 \<Rightarrow> [] | SUFFIX_I64 \<Rightarrow> ''i64'')"

definition int_spec :: "nnc_int_literal \<Rightarrow> tok_spec" where
  "int_spec i = (let w = dec_digits (unat (int_exact i)) in SDec (hd w) (tl w) (suffix_text (int_suffix i)))"

definition punct :: "nnc_tok_kind \<Rightarrow> tok_spec" where
  "punct k = SPunct (the (map_of (map prod.swap punct_table) k)) k"

fun name_specs :: "string list \<Rightarrow> string \<Rightarrow> tok_spec list" where
  "name_specs [] x = [SWord x]"
| "name_specs (n # ns) x = SWord n # punct TOK_DCOLON # name_specs ns x"

fun commas :: "tok_spec list list \<Rightarrow> tok_spec list" where
  "commas [] = []"
| "commas [ts] = ts"
| "commas (ts # tss) = ts @ punct TOK_COMMA # commas tss"

text \<open>The level and the token of an operator, from the table of the grammar.\<close>

definition binary_table :: "(nnc_binary_kind \<times> nat \<times> nnc_tok_kind) list" where
  "binary_table = concat (map (\<lambda>n. map (\<lambda>(t, k). (k, n, t)) (binary_ops n)) [3, 4, 5, 6, 7, 8, 9, 10, 11, 12, 14, 15])"

definition op_entry :: "nnc_binary_kind \<Rightarrow> nat \<times> nnc_tok_kind" where
  "op_entry k = the (map_of binary_table k)"

definition prefix_tok :: "nnc_unary_kind \<Rightarrow> nnc_tok_kind" where
  "prefix_tok u = the (map_of (map prod.swap prefix_ops) u)"

text \<open>A conditional extends as far to the right as it can, so it is printed bare only where nothing follows it.\<close>

fun level_of :: "pexpr \<Rightarrow> nat" where
  "level_of (PE_BIN k l r) = fst (op_entry k)"
| "level_of (PE_TERN c l r) = 16"
| "level_of (PE_UN u e) = 2"
| "level_of (PE_CALL e es) = 1"
| "level_of (PE_INDEX e i) = 1"
| "level_of (PE_DOT e m) = 1"
| "level_of _ = 0"

definition wrap :: "nat \<Rightarrow> pexpr \<Rightarrow> tok_spec list \<Rightarrow> tok_spec list" where
  "wrap n e ts = (if n < level_of e then punct TOK_OPAREN # ts @ [punct TOK_CPAREN] else ts)"

fun bare :: "pexpr \<Rightarrow> tok_spec list" where
  "bare (PE_IDENT ns x) = name_specs ns x"
| "bare (PE_INT i) = [int_spec i]"
| "bare (PE_DOT e m) = wrap 1 e (bare e) @ punct TOK_DOT # bare m"
| "bare (PE_CALL e es) = wrap 1 e (bare e) @ punct TOK_OPAREN # commas (map (\<lambda>e. wrap 14 e (bare e)) es) @ [punct TOK_CPAREN]"
| "bare (PE_INDEX e i) = wrap 1 e (bare e) @ punct TOK_OBRACKET # bare i @ [punct TOK_CBRACKET]"
| "bare (PE_UN u e) =
     (if u = UNARY_LENGTHOF then SWord ''lengthof'' # punct TOK_OPAREN # bare e @ [punct TOK_CPAREN]
      else punct (prefix_tok u) # wrap 2 e (bare e))"
| "bare (PE_BIN k l r) =
     (case op_entry k of (n, t) \<Rightarrow> wrap n l (bare l) @ punct t # wrap (n - 1) r (bare r))"
| "bare (PE_TERN c l r) = wrap 12 c (bare c) @ punct TOK_QUESTION # bare l @ punct TOK_COLON # bare r"
| "bare _ = []"

text \<open>What can be printed: names that are no keywords and, where a cast is possible, no types; decimal literals in the bounds of their suffix.\<close>

definition name_ok :: "string \<Rightarrow> bool" where
  "name_ok w \<longleftrightarrow> word_ok w \<and> spelling_kind w = TOK_IDENT"

definition int_ok :: "nnc_int_literal \<Rightarrow> bool" where
  "int_ok i \<longleftrightarrow> int_base i = 10 \<and> is_signed i = signed_suffix (int_suffix i) \<and> int (unat (int_exact i)) \<le> snd (int_bounds (int_suffix i))"

fun printable :: "nat \<times> st_heap \<Rightarrow> pexpr \<Rightarrow> bool" where
  "printable h (PE_IDENT ns x) \<longleftrightarrow> list_all name_ok (ns @ [x]) \<and> \<not> type_name h (hd (ns @ [x]))"
| "printable h (PE_INT i) \<longleftrightarrow> int_ok i"
| "printable h (PE_DOT e m) \<longleftrightarrow> printable h e \<and> (case m of PE_IDENT ns x \<Rightarrow> list_all name_ok (ns @ [x]) | _ \<Rightarrow> False)"
| "printable h (PE_CALL e es) \<longleftrightarrow> printable h e \<and> list_all (printable h) es"
| "printable h (PE_INDEX e i) \<longleftrightarrow> printable h e \<and> printable h i"
| "printable h (PE_UN u e) \<longleftrightarrow> printable h e"
| "printable h (PE_BIN k l r) \<longleftrightarrow> printable h l \<and> printable h r"
| "printable h (PE_TERN c l r) \<longleftrightarrow> printable h c \<and> printable h l \<and> printable h r"
| "printable h _ \<longleftrightarrow> False"

section \<open>The tables\<close>

lemma op_entries: "op_entry k = (n, t) \<Longrightarrow> n \<in> binary_levels \<and> 3 \<le> n \<and> n \<le> 15 \<and> (t, k) \<in> set (binary_ops n)"
  by (cases k) (auto simp: op_entry_def binary_table_def binary_ops_def binary_levels_def)

lemma prefix_entries: "u \<noteq> UNARY_LENGTHOF \<Longrightarrow> (prefix_tok u, u) \<in> set prefix_ops"
  by (cases u) (auto simp: prefix_tok_def prefix_ops_def)

definition printed_puncts :: "nnc_tok_kind list" where
  "printed_puncts = [TOK_DCOLON, TOK_COMMA, TOK_OPAREN, TOK_CPAREN, TOK_OBRACKET, TOK_CBRACKET, TOK_DOT, TOK_QUESTION, TOK_COLON,
     TOK_SEMICOLON] @ map fst prefix_ops @ map (snd \<circ> snd) binary_table"

text \<open>Tokens that do not disturb others on the line.\<close>

definition fit :: "tok_spec \<Rightarrow> bool" where
  "fit t \<longleftrightarrow> spec_ok t \<and> spec_kind t \<noteq> TOK_STR \<and> set (spell t) \<inter> {eof_byte, nl} = {}"

lemma puncts_fit: "list_all (\<lambda>k. fit (punct k)) printed_puncts"
  by code_simp

lemma punct_kind [simp]: "spec_kind (punct k) = k" "token_of (punct k) t \<longleftrightarrow> tok_kind t = k"
  by (simp_all add: punct_def token_of_def)

lemma punct_fit: "k \<in> set printed_puncts \<Longrightarrow> fit (punct k)"
  using puncts_fit by (simp add: list_all_iff)

lemma op_fit: "op_entry k = (n, t) \<Longrightarrow> fit (punct t)"
proof -
  assume "op_entry k = (n, t)"
  then have "t \<in> (snd \<circ> snd) ` set binary_table" by (cases k) (auto simp: op_entry_def binary_table_def binary_ops_def)
  then show ?thesis by (intro punct_fit) (auto simp: printed_puncts_def)
qed

lemma prefix_fit: "u \<noteq> UNARY_LENGTHOF \<Longrightarrow> fit (punct (prefix_tok u))"
  using prefix_entries [of u] by (intro punct_fit) (force simp: printed_puncts_def)


section \<open>Printed tokens\<close>

lemma digit_char:
  assumes "n < 10"
  shows "dec_digit (digit_chr n)" "digit_val (digit_chr n) = Some n"
    "digit_chr n \<notin> set ''iIuU''" "digit_chr n \<noteq> CHR ''.''" "digit_chr n \<notin> {eof_byte, nl}"
proof -
  have "n \<in> {0, 1, 2, 3, 4, 5, 6, 7, 8, 9}" using assms by auto
  then show "dec_digit (digit_chr n)" "digit_val (digit_chr n) = Some n"
    "digit_chr n \<notin> set ''iIuU''" "digit_chr n \<noteq> CHR ''.''" "digit_chr n \<notin> {eof_byte, nl}"
    by (auto simp: digit_chr_def dec_digit_def between_def digit_val_def eof_byte_def nl_def)
qed

definition digit_text :: "string \<Rightarrow> bool" where
  "digit_text w \<longleftrightarrow> w \<noteq> [] \<and> list_all (\<lambda>c. dec_digit c \<and> c \<notin> set ''iIuU'' \<and> c \<noteq> CHR ''.'' \<and> c \<notin> {eof_byte, nl}) w"

lemma dec_digits_text: "digit_text (dec_digits n)"
proof (induction n rule: dec_digits.induct)
  case (1 n)
  have s: "dec_digits n = (if n < 10 then [digit_chr n] else dec_digits (n div 10) @ [digit_chr (n mod 10)])"
    by (rule dec_digits.simps)
  show ?case
  proof (cases "n < 10")
    case True
    then show ?thesis using digit_char [OF True] by (simp only: s if_True digit_text_def) simp
  next
    case False
    have "n mod 10 < 10" by simp
    from digit_char [OF this] 1 [OF False] False show ?thesis
      by (simp only: s if_False digit_text_def list_all_append) simp
  qed
qed

lemma dec_digits_value: "digits_value 10 (dec_digits n) = n"
proof (induction n rule: dec_digits.induct)
  case (1 n)
  have "n mod 10 < 10" by simp
  then have "digit_val (digit_chr (n mod 10)) = Some (n mod 10)" by (rule digit_char(2))
  moreover have "n < 10 \<Longrightarrow> digit_val (digit_chr n) = Some n" by (rule digit_char(2))
  ultimately show ?case using 1 by (subst dec_digits.simps) (auto simp: digits_value_def)
qed

lemma suffix_text_ok: "suffix_ok (suffix_text s)" "suffix_meaning (suffix_text s) = s" "length (suffix_text s) \<le> 3"
  "CHR ''.'' \<notin> set (suffix_text s)" "set (suffix_text s) \<inter> {eof_byte, nl} = {}"
  by (cases s; simp add: suffix_text_def suffix_ok_def int_suffixes_def suffix_meaning_def suffix_table_def eof_byte_def nl_def)+

lemma int_spec_fit: "fit (int_spec i)"
proof -
  define w where "w = dec_digits (unat (int_exact i))"
  obtain d ds where w': "w = d # ds" and t: "digit_text (d # ds)"
    using dec_digits_text [of "unat (int_exact i)"] unfolding w_def by (cases "dec_digits (unat (int_exact i))") (auto simp: digit_text_def)
  have "unat (int_exact i) < 2 ^ LENGTH(64)" by (rule unsigned_less)
  then have "unat (int_exact i) < 10 ^ Suc 19" by simp
  then have "length (d # ds) \<le> 20" using dec_digits_length w' w_def by fastforce
  then show ?thesis
    using t suffix_text_ok [of "int_suffix i"]
    by (auto simp: int_spec_def w_def [symmetric] w' fit_def digit_text_def list_all_iff NNC_TOK_BUF_MAX_def)
qed

lemma int_token:
  assumes "int_ok i" "token_of (int_spec i) t"
  shows "tok_kind t = TOK_NUMBER" "CHR ''.'' \<notin> set (lexeme t)" "nnc_int_new (lexeme t) = Inr i"
proof -
  define w where "w = dec_digits (unat (int_exact i))"
  have t: "digit_text w" unfolding w_def by (rule dec_digits_text)
  then have l: "lexeme t = w @ suffix_text (int_suffix i)" "tok_kind t = TOK_NUMBER"
    using assms(2) by (cases w; auto simp: int_spec_def w_def [symmetric] token_of_def digit_text_def)+
  show "tok_kind t = TOK_NUMBER" "CHR ''.'' \<notin> set (lexeme t)"
    using l t suffix_text_ok(4) by (auto simp: digit_text_def list_all_iff)
  have "base_of (w @ suffix_text (int_suffix i)) = 10"
    using t dec_digit_class [of "hd w"] by (cases w) (auto simp: digit_text_def base_of_def)
  moreover have "list_all (is_digit 10) w" "list_all (\<lambda>c. c \<notin> set ''iIuU'') w"
    using t is_digit_dec by (auto simp: digit_text_def list_all_iff)
  ultimately have "nnc_int_new (lexeme t) = int_result 10 (int_suffix i) (digits_value 10 w)"
    using int_new_checked [OF suffix_text_ok(1), of "[]" w "int_suffix i" 10] suffix_text_ok(2) by (simp add: l)
  then show "nnc_int_new (lexeme t) = Inr i"
    using assms(1) by (simp add: w_def dec_digits_value int_result_def int_ok_def)
qed

lemma name_fit: "name_ok w \<Longrightarrow> fit (SWord w)"
  by (auto simp: name_ok_def fit_def word_ok_def ident_char_def ident_start_def between_def eof_byte_def nl_def list_all_iff split: list.splits)

lemma names_fit: "list_all name_ok (ns @ [x]) \<Longrightarrow> list_all fit (name_specs ns x)"
  by (induction ns) (auto intro!: name_fit punct_fit simp: printed_puncts_def)

lemma wrap_fit: "list_all fit ts \<Longrightarrow> list_all fit (wrap n e ts)"
  by (auto simp: wrap_def printed_puncts_def intro!: punct_fit)

lemma commas_fit: "list_all (list_all fit) tss \<Longrightarrow> list_all fit (commas tss)"
  by (induction tss rule: commas.induct) (auto simp: printed_puncts_def intro!: punct_fit)

lemma bare_fit: "printable h e \<Longrightarrow> list_all fit (bare e)"
proof (induction e rule: bare.induct)
  case (4 e es)
  then show ?case
    by (auto simp: printed_puncts_def list_all_iff [of _ es] intro!: punct_fit wrap_fit commas_fit simp: list_all_iff [of "list_all fit"])
next
  case (6 u e)
  have "fit (SWord ''lengthof'')" by code_simp
  then show ?case using 6 by (auto simp: printed_puncts_def intro!: punct_fit wrap_fit prefix_fit)
next
  case (7 k l r)
  obtain n t where "op_entry k = (n, t)" by fastforce
  then show ?case using 7 op_fit by (auto intro!: wrap_fit)
next
  case (3 e m)
  then show ?case by (cases m) (auto simp: printed_puncts_def intro!: punct_fit wrap_fit names_fit)
qed (auto simp: printed_puncts_def int_spec_fit intro!: punct_fit wrap_fit names_fit)


section \<open>Printed expressions are sentences\<close>

definition follow :: "nat \<Rightarrow> nnc_tok_kind set" where
  "follow n = {Keyword TOK_AS, TOK_DOT, TOK_OPAREN, TOK_OBRACKET, TOK_DCOLON} \<union> (if 13 \<le> n then {TOK_QUESTION} else {}) \<union>
     (\<Union>m \<in> binary_levels \<inter> {..n}. fst ` set (binary_ops m))"

definition safe_start :: "nat \<times> st_heap \<Rightarrow> nnc_tok list \<Rightarrow> bool" where
  "safe_start h ts \<longleftrightarrow> ts \<noteq> [] \<and> \<not> type_start h (hd ts) \<and>
     (tok_kind (hd ts) = TOK_OPAREN \<longrightarrow> tl ts \<noteq> [] \<and> \<not> type_start h (hd (tl ts)))"

lemma follow_mono: "m \<le> n \<Longrightarrow> follow m \<subseteq> follow n"
  unfolding follow_def by (intro Un_mono UN_mono) auto

lemma follow_level: "n \<in> binary_levels \<Longrightarrow> fst ` set (binary_ops n) \<subseteq> follow n"
  by (auto simp: follow_def)

lemma closers: "{TOK_CPAREN, TOK_CBRACKET, TOK_SEMICOLON, TOK_COLON} \<inter> follow n = {}" "TOK_COMMA \<notin> follow 14" "TOK_QUESTION \<notin> follow 12"
  by (auto simp: follow_def binary_ops_def binary_levels_def split: if_splits)

lemma op_not_followed: "(t, k) \<in> set (binary_ops (Suc n)) \<Longrightarrow> Suc n \<in> binary_levels \<Longrightarrow> t \<notin> follow n"
  by (auto simp: follow_def binary_ops_def binary_levels_def split: if_splits)

lemma safe_start_append: "safe_start h ts \<Longrightarrow> safe_start h (ts @ us)"
  by (cases ts; cases "tl ts") (auto simp: safe_start_def)

lemma lift_level:
  assumes "expr_at h d m ts e F" "safe_start h ts" "m \<le> n" "n \<le> 15"
  shows "\<exists>F'. expr_at h d n ts e F' \<and> F' \<subseteq> F \<union> follow n"
  using assms(3,4)
proof (induction n)
  case 0
  then show ?case using assms(1) by auto
next
  case (Suc n)
  show ?case
  proof (cases "m = Suc n")
    case True
    then show ?thesis using assms(1) by auto
  next
    case False
    then obtain F' where F: "expr_at h d n ts e F'" "F' \<subseteq> F \<union> follow n" using Suc by auto
    have sub: "F' \<subseteq> F \<union> follow (Suc n)" using F(2) follow_mono [of n "Suc n"] by auto
    have "n = 0 \<or> n = 1 \<or> n = 12 \<or> Suc n \<in> binary_levels" using Suc.prems(2) unfolding binary_levels_def insert_iff empty_iff by presburger
    then consider "n = 0" | "n = 1" | "n = 12" | "Suc n \<in> binary_levels" by blast
    then show ?thesis
    proof cases
      case 1
      have "expr_at h d 0 ts e F'" using F(1) 1 by simp
      then have "expr_at h d (Suc n) ts e (insert (Keyword TOK_AS) F' \<union> {TOK_DOT, TOK_OPAREN, TOK_OBRACKET})"
        using postfixes [OF primary] 1 by simp
      then show ?thesis
        using sub by (intro exI [of _ "insert (Keyword TOK_AS) F' \<union> {TOK_DOT, TOK_OPAREN, TOK_OBRACKET}"]) (auto simp: follow_def)
    next
      case 2
      then have "expr_at h d 2 ts e F'" using F(1) assms(2) by (intro unprefixed) (auto simp: safe_start_def)
      then show ?thesis using 2 sub by (auto simp: numeral_2_eq_2)
    next
      case 3
      then have "expr_at h d 13 ts e (insert TOK_QUESTION F')" using F(1) by (intro unconditional) simp
      then show ?thesis using 3 sub by (intro exI [of _ "insert TOK_QUESTION F'"]) (auto simp: follow_def)
    next
      case 4
      then show ?thesis using binary [OF operand [OF F(1) 4] 4] sub follow_level [OF 4] by blast
    qed
  qed
qed

text \<open>What the tokens of a printed expression are.\<close>

definition reads :: "nat \<times> st_heap \<Rightarrow> (string \<Rightarrow> u64) \<Rightarrow> pexpr \<Rightarrow> bool" where
  "reads h d e \<longleftrightarrow> level_of e \<le> 16 \<and> (\<forall>ts. list_all2 token_of (bare e) ts \<longrightarrow> safe_start h ts \<and>
     (level_of e \<le> 1 \<longrightarrow> (\<exists>F. postfix h d ts e F \<and> F \<subseteq> {Keyword TOK_AS, TOK_DCOLON})) \<and>
     (level_of e \<in> binary_levels \<longrightarrow> (\<exists>F. chain h d (level_of e) ts e F \<and> F \<subseteq> follow (level_of e - 1))) \<and>
     (\<exists>F. expr_at h d (min (level_of e) 15) ts e F \<and> F \<subseteq> follow (level_of e)))"

lemma readsD:
  assumes "reads h d e" "list_all2 token_of (bare e) ts"
  shows "safe_start h ts" "level_of e \<le> n \<Longrightarrow> \<exists>F. expr_at h d (min n 15) ts e F \<and> F \<subseteq> follow n"
proof -
  show s: "safe_start h ts" using assms by (simp add: reads_def)
  assume n: "level_of e \<le> n"
  obtain F where F: "expr_at h d (min (level_of e) 15) ts e F" "F \<subseteq> follow (level_of e)"
    using assms unfolding reads_def by blast
  obtain F' where "expr_at h d (min n 15) ts e F'" "F' \<subseteq> F \<union> follow (min n 15)"
    using lift_level [OF F(1) s, of "min n 15"] min.mono [OF n order_refl] by auto
  then show "\<exists>F. expr_at h d (min n 15) ts e F \<and> F \<subseteq> follow n"
    using F(2) follow_mono [OF n] follow_mono [of "min n 15" n] by (intro exI [of _ F']) auto
qed

lemma open_not_type: "tok_kind t = TOK_OPAREN \<Longrightarrow> \<not> type_start h t"
  by (auto simp: type_start_def base_kinds_def)

lemma parens_split:
  assumes "list_all2 token_of (punct TOK_OPAREN # ss @ [punct TOK_CPAREN]) ts"
  obtains l us r where "ts = l # us @ [r]" "tok_kind l = TOK_OPAREN" "tok_kind r = TOK_CPAREN" "list_all2 token_of ss us"
  using assms by (auto simp: list_all2_Cons1 list_all2_append1)

lemma parens_read:
  assumes "reads h d e" "list_all2 token_of (bare e) us" "tok_kind l = TOK_OPAREN" "tok_kind r = TOK_CPAREN"
  shows "expr_at h d 0 (l # us @ [r]) e {} \<and> safe_start h (l # us @ [r])"
proof -
  obtain F where "expr_at h d 15 us e F" "F \<subseteq> follow 16"
    using readsD(2) [OF assms(1,2), of 16] assms(1) by (auto simp: reads_def)
  then have "expr_at h d 0 (l # us @ [r]) e {}" using assms(3,4) closers(1) [of 16] by (intro parens) auto
  moreover have "safe_start h (l # us @ [r])"
    using readsD(1) [OF assms(1,2)] assms(3) by (auto simp: safe_start_def open_not_type hd_append)
  ultimately show ?thesis by simp
qed

lemma wrap_reads:
  assumes "reads h d e" "list_all2 token_of (wrap n e (bare e)) ts" "n \<le> 16"
  shows "safe_start h ts" "\<exists>F. expr_at h d (min n 15) ts e F \<and> F \<subseteq> follow n"
proof -
  have "safe_start h ts \<and> (\<exists>F. expr_at h d (min n 15) ts e F \<and> F \<subseteq> follow n)"
  proof (cases "n < level_of e")
    case True
    then obtain l us r where ts: "ts = l # us @ [r]" "tok_kind l = TOK_OPAREN" "tok_kind r = TOK_CPAREN" "list_all2 token_of (bare e) us"
      using assms(2) parens_split [of "bare e" ts] by (auto simp: wrap_def)
    have p: "expr_at h d 0 ts e {}" "safe_start h ts" using parens_read [OF assms(1) ts(4,2,3)] by (simp_all add: ts(1))
    obtain F where "expr_at h d (min n 15) ts e F" "F \<subseteq> follow (min n 15)" using lift_level [OF p, of "min n 15"] by auto
    then show ?thesis using p(2) follow_mono [of "min n 15" n] by (intro conjI exI [of _ F]) auto
  next
    case False
    then show ?thesis using assms(2) readsD [OF assms(1)] by (simp add: wrap_def)
  qed
  then show "safe_start h ts" "\<exists>F. expr_at h d (min n 15) ts e F \<and> F \<subseteq> follow n" by simp_all
qed

lemma wrap_postfix:
  assumes "reads h d e" "list_all2 token_of (wrap 1 e (bare e)) ts"
  shows "\<exists>F. postfix h d ts e F \<and> F \<subseteq> {Keyword TOK_AS, TOK_DCOLON}"
proof (cases "1 < level_of e")
  case True
  then obtain l us r where ts: "ts = l # us @ [r]" "tok_kind l = TOK_OPAREN" "tok_kind r = TOK_CPAREN" "list_all2 token_of (bare e) us"
    using assms(2) parens_split [of "bare e" ts] by (auto simp: wrap_def)
  then show ?thesis using primary parens_read [OF assms(1) ts(4,2,3)] by (intro exI [of _ "{Keyword TOK_AS}"]) (auto simp: ts(1))
next
  case False
  then show ?thesis using assms by (auto simp: wrap_def reads_def)
qed

lemma wrap_chain:
  assumes "reads h d e" "list_all2 token_of (wrap n e (bare e)) ts" "n \<in> binary_levels"
  shows "\<exists>F. chain h d n ts e F \<and> F \<subseteq> follow (n - 1)"
proof (cases "level_of e = n")
  case True
  then show ?thesis using assms by (auto simp: wrap_def reads_def)
next
  case False
  obtain m where m: "n = Suc m" "m \<le> 14" using assms(3) by (auto simp: binary_levels_def)
  have "list_all2 token_of (wrap m e (bare e)) ts" using assms(2) False m by (auto simp: wrap_def split: if_splits)
  from wrap_reads(2) [OF assms(1) this] obtain F where "expr_at h d m ts e F" "F \<subseteq> follow m" using m by auto
  then have "chain h d n ts e F \<and> F \<subseteq> follow (n - 1)" using operand assms(3) m(1) by simp
  then show ?thesis by blast
qed


lemma names_tokens:
  assumes "list_all name_ok (ns @ [x])" "list_all2 token_of (name_specs ns x) ts"
  shows "\<exists>us t. ts = us @ [t] \<and> nesting us ns \<and> tok_kind t = TOK_IDENT \<and> lexeme t = x \<and> tok_kind (hd ts) = TOK_IDENT \<and>
     lexeme (hd ts) = hd (ns @ [x])"
  using assms
proof (induction ns arbitrary: ts)
  case Nil
  then obtain t where "ts = [t]" "tok_kind t = TOK_IDENT" "lexeme t = x"
    by (auto simp: list_all2_Cons1 token_of_def name_ok_def)
  then show ?case using nesting_none by (intro exI [of _ "[]"]) simp
next
  case (Cons n ns)
  then obtain a c vs where ts: "ts = a # c # vs" "tok_kind a = TOK_IDENT" "lexeme a = n" "tok_kind c = TOK_DCOLON"
    "list_all2 token_of (name_specs ns x) vs"
    by (auto simp: list_all2_Cons1 token_of_def [of "SWord n"] name_ok_def)
  obtain us t where "vs = us @ [t]" "nesting us ns" "tok_kind t = TOK_IDENT" "lexeme t = x" using Cons.IH [OF _ ts(5)] Cons.prems by auto
  then show ?case using ts nesting_more [OF ts(2,4)] by (intro exI [of _ "a # c # us"] exI [of _ t]) auto
qed

text \<open>An expression of a level below the prefix operators, by its postfix form.\<close>

lemma reads_postfix:
  assumes "level_of e \<le> 1" "\<And>ts. list_all2 token_of (bare e) ts \<Longrightarrow> safe_start h ts"
    "\<And>ts. list_all2 token_of (bare e) ts \<Longrightarrow> (\<exists>F. expr_at h d 0 ts e F \<and> F \<subseteq> {TOK_DCOLON}) \<or>
       level_of e = 1 \<and> (\<exists>F. postfix h d ts e F \<and> F \<subseteq> {TOK_DCOLON})"
  shows "reads h d e"
  unfolding reads_def
proof (intro conjI allI impI)
  show "level_of e \<le> 16" using assms(1) by simp
  fix ts assume ts: "list_all2 token_of (bare e) ts"
  show "safe_start h ts" by (rule assms(2) [OF ts])
  have nb: "level_of e \<notin> binary_levels" using assms(1) by (auto simp: binary_levels_def)
  show "\<exists>F. chain h d (level_of e) ts e F \<and> F \<subseteq> follow (level_of e - 1)" if "level_of e \<in> binary_levels" using that nb by blast
  have "\<exists>F G. postfix h d ts e F \<and> F \<subseteq> {Keyword TOK_AS, TOK_DCOLON} \<and> expr_at h d (level_of e) ts e G \<and> G \<subseteq> follow (level_of e)"
    using assms(3) [OF ts]
  proof (elim disjE exE conjE)
    fix F assume F: "expr_at h d 0 ts e F" "F \<subseteq> {TOK_DCOLON}"
    have P: "postfix h d ts e (insert (Keyword TOK_AS) F)" by (rule primary [OF F(1)])
    obtain G where "expr_at h d (level_of e) ts e G" "G \<subseteq> F \<union> follow (level_of e)"
      using lift_level [OF F(1) assms(2) [OF ts], of "level_of e"] assms(1) by auto
    then have "expr_at h d (level_of e) ts e G \<and> G \<subseteq> follow (level_of e)" using F(2) by (auto simp: follow_def)
    then show ?thesis using P F(2) by blast
  next
    fix F assume F: "postfix h d ts e F" "F \<subseteq> {TOK_DCOLON}" and l: "level_of e = 1"
    have "expr_at h d (level_of e) ts e (F \<union> {TOK_DOT, TOK_OPAREN, TOK_OBRACKET})" using postfixes [OF F(1)] l by simp
    moreover have "F \<union> {TOK_DOT, TOK_OPAREN, TOK_OBRACKET} \<subseteq> follow (level_of e)" using F(2) by (auto simp: follow_def)
    ultimately show ?thesis using F by blast
  qed
  then obtain F G where "postfix h d ts e F \<and> F \<subseteq> {Keyword TOK_AS, TOK_DCOLON}" "expr_at h d (level_of e) ts e G \<and> G \<subseteq> follow (level_of e)"
    by blast
  moreover have "min (level_of e) 15 = level_of e" using assms(1) by simp
  ultimately show "\<exists>F. postfix h d ts e F \<and> F \<subseteq> {Keyword TOK_AS, TOK_DCOLON}"
    "\<exists>F. expr_at h d (min (level_of e) 15) ts e F \<and> F \<subseteq> follow (level_of e)" by auto
qed

lemma not_type: "tok_kind t \<notin> insert TOK_IDENT (fst ` set base_kinds) \<Longrightarrow> \<not> type_start h t"
  by (auto simp: type_start_def)

lemma kinds_no_type: "{TOK_NUMBER, TOK_OPAREN, Keyword TOK_LENGTHOF} \<inter> insert TOK_IDENT (fst ` set base_kinds) = {}"
  "fst ` set prefix_ops \<inter> insert TOK_OPAREN (insert TOK_IDENT (fst ` set base_kinds)) = {}"
  by (auto simp: base_kinds_def prefix_ops_def)

lemma reads_ident:
  assumes "printable h (PE_IDENT ns x)"
  shows "reads h d (PE_IDENT ns x)"
proof (rule reads_postfix)
  fix ts assume "list_all2 token_of (bare (PE_IDENT ns x)) ts"
  then obtain us t where ts: "ts = us @ [t]" "nesting us ns" "tok_kind t = TOK_IDENT" "lexeme t = x" "tok_kind (hd ts) = TOK_IDENT"
    "lexeme (hd ts) = hd (ns @ [x])" using names_tokens [of ns x ts] assms by auto
  have "TOK_IDENT \<notin> fst ` set base_kinds" by (auto simp: base_kinds_def)
  then show "safe_start h ts" using ts assms by (auto simp: safe_start_def type_start_def)
  show "(\<exists>F. expr_at h d 0 ts (PE_IDENT ns x) F \<and> F \<subseteq> {TOK_DCOLON}) \<or>
     level_of (PE_IDENT ns x) = 1 \<and> (\<exists>F. postfix h d ts (PE_IDENT ns x) F \<and> F \<subseteq> {TOK_DCOLON})"
    using ident [OF ts(2,3), of h d] ts(1,4) by blast
qed simp

lemma reads_int:
  assumes "int_ok i"
  shows "reads h d (PE_INT i)"
proof (rule reads_postfix)
  fix ts assume "list_all2 token_of (bare (PE_INT i)) ts"
  then obtain t where t: "ts = [t]" "token_of (int_spec i) t" by (auto simp: list_all2_Cons1)
  note tok = int_token [OF assms t(2)]
  show "safe_start h ts" using tok(1) t(1) not_type kinds_no_type(1) by (auto simp: safe_start_def)
  show "(\<exists>F. expr_at h d 0 ts (PE_INT i) F \<and> F \<subseteq> {TOK_DCOLON}) \<or>
     level_of (PE_INT i) = 1 \<and> (\<exists>F. postfix h d ts (PE_INT i) F \<and> F \<subseteq> {TOK_DCOLON})"
    using int [OF tok, of h d] t(1) by blast
qed simp

lemma reads_dot:
  assumes "reads h d e" "list_all name_ok (ns @ [x])"
  shows "reads h d (PE_DOT e (PE_IDENT ns x))"
proof (rule reads_postfix)
  fix ts assume "list_all2 token_of (bare (PE_DOT e (PE_IDENT ns x))) ts"
  then obtain us c vs where ts: "ts = us @ c # vs" "list_all2 token_of (wrap 1 e (bare e)) us" "tok_kind c = TOK_DOT"
    "list_all2 token_of (name_specs ns x) vs"
    by (auto simp: list_all2_append1 list_all2_Cons1)
  show "safe_start h ts" unfolding ts(1) by (rule safe_start_append, rule wrap_reads(1) [OF assms(1) ts(2)]) simp
  obtain F where F: "postfix h d us e F" "F \<subseteq> {Keyword TOK_AS, TOK_DCOLON}" using wrap_postfix [OF assms(1) ts(2)] by blast
  obtain ws t where t: "vs = ws @ [t]" "nesting ws ns" "tok_kind t = TOK_IDENT" "lexeme t = x"
    using names_tokens [OF assms(2) ts(4)] by blast
  have "TOK_DOT \<notin> F" using F(2) by auto
  from dot [OF F(1) ts(3) this t(2,3)] have "postfix h d ts (PE_DOT e (PE_IDENT ns x)) {TOK_DCOLON}" by (simp add: ts(1) t)
  then show "(\<exists>F. expr_at h d 0 ts (PE_DOT e (PE_IDENT ns x)) F \<and> F \<subseteq> {TOK_DCOLON}) \<or>
     level_of (PE_DOT e (PE_IDENT ns x)) = 1 \<and> (\<exists>F. postfix h d ts (PE_DOT e (PE_IDENT ns x)) F \<and> F \<subseteq> {TOK_DCOLON})" by auto
qed simp

lemma reads_index:
  assumes "reads h d e" "reads h d i"
  shows "reads h d (PE_INDEX e i)"
proof (rule reads_postfix)
  fix ts assume "list_all2 token_of (bare (PE_INDEX e i)) ts"
  then obtain us l vs r where ts: "ts = us @ l # vs @ [r]" "list_all2 token_of (wrap 1 e (bare e)) us" "tok_kind l = TOK_OBRACKET"
    "list_all2 token_of (bare i) vs" "tok_kind r = TOK_CBRACKET"
    by (auto simp: list_all2_append1 list_all2_Cons1)
  show "safe_start h ts" unfolding ts(1) by (rule safe_start_append, rule wrap_reads(1) [OF assms(1) ts(2)]) simp
  obtain F where F: "postfix h d us e F" "F \<subseteq> {Keyword TOK_AS, TOK_DCOLON}" using wrap_postfix [OF assms(1) ts(2)] by blast
  obtain G where G: "expr_at h d 15 vs i G" "G \<subseteq> follow 16" using readsD(2) [OF assms(2) ts(4), of 16] assms(2) by (auto simp: reads_def)
  have "TOK_OBRACKET \<notin> F" "TOK_CBRACKET \<notin> G" using F(2) G(2) closers(1) [of 16] by auto
  from index [OF F(1) ts(3) this(1) G(1) ts(5) this(2)] have "postfix h d ts (PE_INDEX e i) {}" by (simp add: ts(1))
  then show "(\<exists>F. expr_at h d 0 ts (PE_INDEX e i) F \<and> F \<subseteq> {TOK_DCOLON}) \<or>
     level_of (PE_INDEX e i) = 1 \<and> (\<exists>F. postfix h d ts (PE_INDEX e i) F \<and> F \<subseteq> {TOK_DCOLON})" by auto
qed simp

lemma args_read:
  "\<forall>e \<in> set es. reads h d e \<Longrightarrow> list_all2 token_of (commas (map (\<lambda>e. wrap 14 e (bare e)) es)) ts \<Longrightarrow> args h d ts es"
proof (induction es arbitrary: ts)
  case Nil
  then show ?case using no_args by simp
next
  case (Cons e es)
  show ?case
  proof (cases es)
    case Nil
    then have w: "reads h d e" "list_all2 token_of (wrap 14 e (bare e)) ts" using Cons.prems by simp_all
    obtain F where "expr_at h d 14 ts e F" "F \<subseteq> follow 14" using wrap_reads(2) [OF w] by auto
    moreover from this have "TOK_CPAREN \<notin> F" using closers(1) [of 14] by auto
    ultimately show ?thesis using one_arg Nil by simp
  next
    case (Cons e' es')
    then obtain us c vs where ts: "ts = us @ c # vs" "list_all2 token_of (wrap 14 e (bare e)) us" "tok_kind c = TOK_COMMA"
      "list_all2 token_of (commas (map (\<lambda>e. wrap 14 e (bare e)) es)) vs"
      using Cons.prems(2) by (auto simp: list_all2_append1 list_all2_Cons1)
    have e: "reads h d e" using Cons.prems(1) by simp
    obtain F where "expr_at h d 14 us e F" "F \<subseteq> follow 14" using wrap_reads(2) [OF e ts(2)] by auto
    moreover have "args h d vs es" using Cons.IH ts(4) Cons.prems(1) by simp
    moreover have "TOK_COMMA \<notin> F" using calculation(2) closers(2) by auto
    ultimately show ?thesis using more_args [OF _ ts(3)] ts(1) Cons by simp
  qed
qed

lemma reads_call:
  assumes "reads h d e" "\<forall>e \<in> set es. reads h d e"
  shows "reads h d (PE_CALL e es)"
proof (rule reads_postfix)
  fix ts assume "list_all2 token_of (bare (PE_CALL e es)) ts"
  then obtain us l vs r where ts: "ts = us @ l # vs @ [r]" "list_all2 token_of (wrap 1 e (bare e)) us" "tok_kind l = TOK_OPAREN"
    "list_all2 token_of (commas (map (\<lambda>e. wrap 14 e (bare e)) es)) vs" "tok_kind r = TOK_CPAREN"
    by (auto simp: list_all2_append1 list_all2_Cons1)
  show "safe_start h ts" unfolding ts(1) by (rule safe_start_append, rule wrap_reads(1) [OF assms(1) ts(2)]) simp
  obtain F where F: "postfix h d us e F" "F \<subseteq> {Keyword TOK_AS, TOK_DCOLON}" using wrap_postfix [OF assms(1) ts(2)] by blast
  have "TOK_OPAREN \<notin> F" using F(2) by auto
  from call [OF F(1) ts(3) this args_read [OF assms(2) ts(4)] ts(5)] have "postfix h d ts (PE_CALL e es) {}" by (simp add: ts(1))
  then show "(\<exists>F. expr_at h d 0 ts (PE_CALL e es) F \<and> F \<subseteq> {TOK_DCOLON}) \<or>
     level_of (PE_CALL e es) = 1 \<and> (\<exists>F. postfix h d ts (PE_CALL e es) F \<and> F \<subseteq> {TOK_DCOLON})" by auto
qed simp


lemma reads_prefix:
  assumes "reads h d e"
  shows "reads h d (PE_UN u e)"
  unfolding reads_def
proof (intro conjI allI impI)
  fix ts assume b: "list_all2 token_of (bare (PE_UN u e)) ts"
  have "safe_start h ts \<and> (\<exists>F. expr_at h d 2 ts (PE_UN u e) F \<and> F \<subseteq> follow 2)"
  proof (cases "u = UNARY_LENGTHOF")
    case True
    have "spelling_kind ''lengthof'' = Keyword TOK_LENGTHOF" by code_simp
    then obtain s l us r where ts: "ts = s # l # us @ [r]" "tok_kind s = Keyword TOK_LENGTHOF" "tok_kind l = TOK_OPAREN"
      "list_all2 token_of (bare e) us" "tok_kind r = TOK_CPAREN"
      using b True by (auto simp: list_all2_append1 list_all2_Cons1 token_of_def [of "SWord ''lengthof''"])
    obtain F where F: "expr_at h d 15 us e F" "F \<subseteq> follow 16" using readsD(2) [OF assms ts(4), of 16] assms by (auto simp: reads_def)
    have "TOK_CPAREN \<notin> F" using F(2) closers(1) [of 16] by auto
    from length_of [OF ts(2,3) F(1) ts(5) this] have "expr_at h d 2 ts (PE_UN u e) {}" by (simp add: ts(1) True)
    moreover have "safe_start h ts" using ts(1,2) not_type kinds_no_type(1) by (auto simp: safe_start_def)
    ultimately show ?thesis by blast
  next
    case False
    then obtain t us where ts: "ts = t # us" "tok_kind t = prefix_tok u" "list_all2 token_of (wrap 2 e (bare e)) us"
      using b by (auto simp: list_all2_Cons1)
    obtain F where F: "expr_at h d 2 us e F" "F \<subseteq> follow 2" using wrap_reads(2) [OF assms ts(3)] by auto
    have p: "(tok_kind t, u) \<in> set prefix_ops" using prefix_entries [OF False] ts(2) by simp
    from prefixed [OF p F(1)] have "expr_at h d 2 ts (PE_UN u e) F" by (simp add: ts(1))
    moreover have "tok_kind t \<in> fst ` set prefix_ops" using p by force
    then have "tok_kind t \<notin> insert TOK_OPAREN (insert TOK_IDENT (fst ` set base_kinds))" using kinds_no_type(2) by blast
    then have "safe_start h ts" using not_type by (auto simp: safe_start_def ts(1))
    ultimately show ?thesis using F(2) by blast
  qed
  then show "safe_start h ts" "\<exists>F. expr_at h d (min (level_of (PE_UN u e)) 15) ts (PE_UN u e) F \<and> F \<subseteq> follow (level_of (PE_UN u e))"
    by simp_all
qed (simp_all add: binary_levels_def)

lemma reads_binary:
  assumes "reads h d l" "reads h d r"
  shows "reads h d (PE_BIN k l r)"
proof -
  obtain n t where nt: "op_entry k = (Suc n, t)" using op_entries [of k] by (cases "op_entry k"; cases "fst (op_entry k)") auto
  have n: "Suc n \<in> binary_levels" "Suc n \<le> 15" "2 \<le> n" and t: "(t, k) \<in> set (binary_ops (Suc n))" using op_entries [OF nt] by auto
  show ?thesis
    unfolding reads_def
  proof (intro conjI allI impI)
    fix ts assume "list_all2 token_of (bare (PE_BIN k l r)) ts"
    then obtain us o' vs where ts: "ts = us @ o' # vs" "list_all2 token_of (wrap (Suc n) l (bare l)) us" "tok_kind o' = t"
      "list_all2 token_of (wrap n r (bare r)) vs"
      by (auto simp: nt list_all2_append1 list_all2_Cons1)
    show "safe_start h ts" unfolding ts(1) by (rule safe_start_append, rule wrap_reads(1) [OF assms(1) ts(2)]) (use n(2) in simp)
    obtain F where F: "chain h d (Suc n) us l F" "F \<subseteq> follow n" using wrap_chain [OF assms(1) ts(2) n(1)] by auto
    obtain G where G: "expr_at h d n vs r G" "G \<subseteq> follow n" using wrap_reads(2) [OF assms(2) ts(4)] n(2) by auto
    have "tok_kind o' \<notin> F" using F(2) op_not_followed [OF t n(1)] ts(3) by auto
    then have c: "chain h d (Suc n) ts (PE_BIN k l r) G" unfolding ts(1) using operator [OF F(1) _ _ G(1) n(1)] t ts(3) by blast
    then show "\<exists>F. chain h d (level_of (PE_BIN k l r)) ts (PE_BIN k l r) F \<and> F \<subseteq> follow (level_of (PE_BIN k l r) - 1)"
      using G(2) by (auto simp: nt)
    have "G \<union> fst ` set (binary_ops (Suc n)) \<subseteq> follow (Suc n)" using G(2) follow_mono [of n "Suc n"] follow_level [OF n(1)] by auto
    moreover have "min (Suc n) 15 = Suc n" using n(2) by simp
    ultimately show "\<exists>F. expr_at h d (min (level_of (PE_BIN k l r)) 15) ts (PE_BIN k l r) F \<and> F \<subseteq> follow (level_of (PE_BIN k l r))"
      using binary [OF c n(1)] by (simp add: nt) blast
  qed (use n nt in simp_all)
qed

lemma reads_ternary:
  assumes "reads h d c" "reads h d l" "reads h d r"
  shows "reads h d (PE_TERN c l r)"
  unfolding reads_def
proof (intro conjI allI impI)
  fix ts assume "list_all2 token_of (bare (PE_TERN c l r)) ts"
  then obtain us q vs m ws where ts: "ts = us @ q # vs @ m # ws" "list_all2 token_of (wrap 12 c (bare c)) us" "tok_kind q = TOK_QUESTION"
    "list_all2 token_of (bare l) vs" "tok_kind m = TOK_COLON" "list_all2 token_of (bare r) ws"
    by (auto simp: list_all2_append1 list_all2_Cons1)
  show s: "safe_start h ts" unfolding ts(1) by (rule safe_start_append, rule wrap_reads(1) [OF assms(1) ts(2)]) simp
  obtain F where F: "expr_at h d 12 us c F" "F \<subseteq> follow 12" using wrap_reads(2) [OF assms(1) ts(2)] by auto
  obtain G where G: "expr_at h d 15 vs l G" "G \<subseteq> follow 16" using readsD(2) [OF assms(2) ts(4), of 16] assms(2) by (auto simp: reads_def)
  obtain H where H: "expr_at h d 15 ws r H" "H \<subseteq> follow 16" using readsD(2) [OF assms(3) ts(6), of 16] assms(3) by (auto simp: reads_def)
  have "TOK_QUESTION \<notin> F" "TOK_COLON \<notin> G" using F(2) G(2) closers(1) [of 16] closers(3) by auto
  from conditional [OF F(1) ts(3) this(1) G(1) ts(5) this(2) H(1)] have "expr_at h d 13 ts (PE_TERN c l r) H" by (simp add: ts(1))
  from lift_level [OF this s, of 15] obtain F' where "expr_at h d 15 ts (PE_TERN c l r) F'" "F' \<subseteq> H \<union> follow 15" by auto
  then show "\<exists>F. expr_at h d (min (level_of (PE_TERN c l r)) 15) ts (PE_TERN c l r) F \<and> F \<subseteq> follow (level_of (PE_TERN c l r))"
    using H(2) follow_mono [of 15 16] by (intro exI [of _ F']) auto
qed (simp_all add: binary_levels_def)

lemma printable_reads: "printable h e \<Longrightarrow> reads h d e"
proof (induction h e rule: printable.induct)
  case (3 h e m)
  then show ?case by (cases m) (auto intro: reads_dot)
next
  case (4 h e es)
  then show ?case by (auto simp: list_all_iff intro: reads_call)
qed (auto intro: reads_ident reads_int reads_index reads_prefix reads_binary reads_ternary)

lemma printable_denotes:
  assumes "printable h e"
  shows "denotes h d (bare e) e"
  unfolding denotes_def
proof (intro allI impI)
  fix ts assume ts: "list_all2 token_of (bare e) ts"
  have r: "reads h d e" by (rule printable_reads [OF assms])
  obtain F where "expr_at h d 15 ts e F" "F \<subseteq> follow 16"
    using readsD(2) [OF r ts, of 16] r by (auto simp: reads_def)
  then show "\<exists>F. expr_at h d 15 ts e F \<and> TOK_SEMICOLON \<notin> F" using closers(1) [of 16] by blast
qed

section \<open>Printed files\<close>

definition print_specs :: "pexpr list \<Rightarrow> tok_spec list" where
  "print_specs es = statement_specs (map (\<lambda>e. (bare e, e)) es)"

definition print_file :: "pexpr list \<Rightarrow> string" where
  "print_file es = spell_all (print_specs es)"

lemma strings_apart_none: "TOK_STR \<notin> set ks \<Longrightarrow> strings_apart ks"
  by (induction ks rule: strings_apart.induct) auto

lemma wrap_nonempty: "ts \<noteq> [] \<Longrightarrow> wrap n e ts \<noteq> []"
  by (simp add: wrap_def)

lemma bare_nonempty: "printable h e \<Longrightarrow> bare e \<noteq> []"
  by (cases e) (auto simp: wrap_nonempty split: prod.splits elim: name_specs.elims)

lemma print_specs_fit: "list_all (printable h) es \<Longrightarrow> list_all fit (print_specs es)"
proof (induction es)
  case (Cons e es)
  have "fit semicolon" by code_simp
  moreover have "list_all fit (bare e)" using Cons.prems by (intro bare_fit [of h]) simp
  ultimately show ?case using Cons by (simp add: print_specs_def statement_specs_def)
qed (simp add: print_specs_def statement_specs_def)

lemma spell_fit: "list_all fit specs \<Longrightarrow> set (spell_all specs) \<inter> {eof_byte, nl} = {}"
  by (induction specs) (auto simp: spell_all_def fit_def eof_byte_def nl_def)



lemma initial_no_types: "\<not> type_name (0, initial_heap) w"
proof -
  have root: "st_root (tables initial_heap ! 0) = None" "st_types (tables initial_heap ! 0) = nncmap_init 8"
    by (simp_all add: initial_heap_def nnc_st_init_def)
  have "visible (tables initial_heap) 0 = [0]" by (simp add: visible.simps root)
  then show ?thesis by (simp add: type_name_def declared_def st_map_def root nncmap_init_abs)
qed

definition printed_example :: pexpr where
  "printed_example = PE_BIN BINARY_ASSIGN (PE_INDEX (PE_IDENT [] ''a'') (PE_IDENT [] ''i''))
     (PE_BIN BINARY_MUL (PE_BIN BINARY_SUB (PE_IDENT [] ''b'') (PE_INT \<lparr>int_base = 10, is_signed = False, int_suffix = SUFFIX_U8, int_exact = 10\<rparr>))
       (PE_UN UNARY_MINUS (PE_IDENT [''m''] ''c'')))"



end
