(* ===== verification/Nnc_SA.thy ===== *)
theory Nnc_SA
  imports Nnc_LR Nnc_AST Nnc_Digits
begin

text \<open>
  Storage allocation, \<^verbatim>\<open>src/src/nnc_gen_sa.c\<close>: where each address of the quads lives. The state is the
  one the allocator shares with the code generator: the tables of live ranges of the current
  procedure, for each register the stack of ranges that hold it, the map from labels of addresses to
  locations. Ranges and locations are heap objects, an address is a position in a list.
\<close>

section \<open>State\<close>

datatype (plugins only: code size) nnc_reg =
    R_RAX | R_RBX | R_RCX | R_RDX | R_RSI | R_RDI | R_R8 | R_R9 | R_R10 | R_R11 | R_R12 | R_R13 | R_R14 | R_R15
  | R_XMM0 | R_XMM1 | R_XMM2 | R_XMM3 | R_XMM4 | R_XMM5 | R_XMM6 | R_XMM7 | R_NONE

text \<open>The tag \<^verbatim>\<open>where\<close> of a location and the union under it.\<close>

datatype nnc_where = L_NONE | L_IMM u64 | L_REG nnc_reg | L_DATA string | L_STACK u16

record nnc_loc =
  deref :: bool
  has_offset :: bool
  loc_at :: nnc_where
  loc_type :: "tref option"

datatype nnc_pclass = C_INTEGER | C_MEMORY

record nnc_pclass_state =
  int_iter :: nat
  on_stack :: u32
  was_init :: bool
  was_res_pushed :: bool
  pc_stack_pad :: u16
  pc_res :: "nnc_3a_addr option"
  pushed :: "nnc_reg list"
  abi_used :: "nnc_reg list"

text \<open>
  \<open>lr_vec\<close>: \<open>None\<close> is a vector that was never allocated, an element \<open>None\<close> a pushed NULL. The parts of
  \<^verbatim>\<open>glob_asm_proc\<close> are fields of their own.
\<close>

record cgen =
  a_types :: types
  a_lr :: lr_proc
  lr_vec :: "nnc_reg \<Rightarrow> nat option list option"
  str_counter :: u32
  str_map :: "(string, string) nnc_map option"
  locs :: "nnc_loc list"
  loc_map :: "(string, nat) nnc_map option"
  a_name :: string
  a_quads :: "nnc_quad list"
  quad_pointer :: u64
  p_stack :: u32
  p_stack_pad :: u16
  l_stack :: u32
  stack_alloc :: u32
  junk :: "nnc_reg \<Rightarrow> nat"
  call_states :: "nnc_pclass_state list"
  seg_text :: string
  seg_data :: string

type_synonym 'a gen = "cgen \<Rightarrow> ('a \<times> cgen) res"

definition gret :: "'a \<Rightarrow> 'a gen" where
  "gret x s = Inr (x, s)"

definition gbind :: "'a gen \<Rightarrow> ('a \<Rightarrow> 'b gen) \<Rightarrow> 'b gen" where
  "gbind m f s = bind_res (m s) (\<lambda>r. f (fst r) (snd r))"

definition gfail :: "fault \<Rightarrow> 'a gen" where
  "gfail e s = Inl e"

definition gassert :: "bool \<Rightarrow> unit gen" where
  "gassert b = (if b then gret () else gfail AssertFail)"

definition gget :: "(cgen \<Rightarrow> 'a) \<Rightarrow> 'a gen" where
  "gget f s = Inr (f s, s)"

definition gput :: "(cgen \<Rightarrow> cgen) \<Rightarrow> unit gen" where
  "gput f s = Inr ((), f s)"

definition from_opt :: "'a option \<Rightarrow> 'a gen" where
  "from_opt x = (case x of None \<Rightarrow> gfail Crash | Some y \<Rightarrow> gret y)"

text \<open>A question about a type; a NULL type is dereferenced.\<close>

definition gtype :: "(types \<Rightarrow> tref \<Rightarrow> 'a option) \<Rightarrow> tref option \<Rightarrow> 'a gen" where
  "gtype f t = gbind (from_opt t) (\<lambda>t. gbind (gget a_types) (\<lambda>ts. from_opt (f ts t)))"

fun giter :: "('a \<Rightarrow> unit gen) \<Rightarrow> 'a list \<Rightarrow> unit gen" where
  "giter f [] = gret ()"
| "giter f (x # xs) = gbind (f x) (\<lambda>_. giter f xs)"

text \<open>An operation of a hash map, which may fail on its own.\<close>

definition from_res_gen :: "'a res \<Rightarrow> 'a gen" where
  "from_res_gen r = (case r of Inl e \<Rightarrow> gfail e | Inr x \<Rightarrow> gret x)"

section \<open>Registers\<close>

definition int_p_param :: "nnc_reg list" where
  "int_p_param = [R_RDI, R_RSI, R_RDX, R_RCX, R_R8, R_R9]"

definition int_p_local :: "nnc_reg list" where
  "int_p_local = [R_RAX, R_RBX, R_R10, R_R11, R_R12, R_R13, R_R14, R_R15, R_R9, R_R8, R_RCX, R_RDX, R_RDI, R_RSI]"

definition glob_reg_str :: "nnc_reg \<Rightarrow> string" where
  "glob_reg_str r = (case r of R_RAX \<Rightarrow> ''rax'' | R_RBX \<Rightarrow> ''rbx'' | R_RCX \<Rightarrow> ''rcx'' | R_RDX \<Rightarrow> ''rdx''
     | R_RSI \<Rightarrow> ''rsi'' | R_RDI \<Rightarrow> ''rdi'' | R_R8 \<Rightarrow> ''r8'' | R_R9 \<Rightarrow> ''r9'' | R_R10 \<Rightarrow> ''r10'' | R_R11 \<Rightarrow> ''r11''
     | R_R12 \<Rightarrow> ''r12'' | R_R13 \<Rightarrow> ''r13'' | R_R14 \<Rightarrow> ''r14'' | R_R15 \<Rightarrow> ''r15'' | R_XMM0 \<Rightarrow> ''xmm0'' | R_XMM1 \<Rightarrow> ''xmm1''
     | R_XMM2 \<Rightarrow> ''xmm2'' | R_XMM3 \<Rightarrow> ''xmm3'' | R_XMM4 \<Rightarrow> ''xmm4'' | R_XMM5 \<Rightarrow> ''xmm5'' | R_XMM6 \<Rightarrow> ''xmm6'' | R_XMM7 \<Rightarrow> ''xmm7''
     | R_NONE \<Rightarrow> [])"

text \<open>\<open>glob_lr_vec\<close> has 21 entries: the last register is not one of them.\<close>

definition in_lr_vec :: "nnc_reg \<Rightarrow> bool" where
  "in_lr_vec r \<longleftrightarrow> r \<noteq> R_XMM7 \<and> r \<noteq> R_NONE"

definition nnc_lr_intersects :: "nnc_3a_lr option \<Rightarrow> nnc_3a_lr option \<Rightarrow> bool" where
  "nnc_lr_intersects lr wth = (case (lr, wth) of
     (Some l, Some w) \<Rightarrow> starts l \<le> ends w \<and> starts w \<le> ends l | _ \<Rightarrow> False)"

definition lr_at :: "cgen \<Rightarrow> nat option \<Rightarrow> nnc_3a_lr option" where
  "lr_at s p = map_option (\<lambda>j. ranges (a_lr s) ! j) p"

definition reg_stack :: "cgen \<Rightarrow> nnc_reg \<Rightarrow> nat option list" where
  "reg_stack s r = (case lr_vec s r of None \<Rightarrow> [] | Some xs \<Rightarrow> xs)"

definition nnc_reg_lr_empty :: "nnc_reg \<Rightarrow> bool gen" where
  "nnc_reg_lr_empty r s = (if \<not> in_lr_vec r then Inl Crash else Inr (reg_stack s r = [], s))"

definition nnc_peek_reg :: "nnc_reg \<Rightarrow> nat option gen" where
  "nnc_peek_reg r = gbind (nnc_reg_lr_empty r) (\<lambda>e. if e then gret None else gget (\<lambda>s. last (reg_stack s r)))"

definition nnc_reg_busy :: "nnc_reg \<Rightarrow> bool gen" where
  "nnc_reg_busy r = gbind (nnc_peek_reg r) (\<lambda>top.
     gget (\<lambda>s. nnc_lr_intersects (Some (nnc_3a_mklr (ucast (quad_pointer s)) (- 1))) (lr_at s top)))"

definition set_reg :: "nnc_reg \<Rightarrow> nat option list \<Rightarrow> unit gen" where
  "set_reg r xs = gput (\<lambda>s. s\<lparr>lr_vec := (lr_vec s)(r := Some xs)\<rparr>)"

definition nnc_update_reg :: "nnc_reg \<Rightarrow> nat option \<Rightarrow> unit gen" where
  "nnc_update_reg r by_lr = gbind (nnc_reg_lr_empty r) (\<lambda>e. gbind (gget (\<lambda>s. reg_stack s r)) (\<lambda>xs.
     set_reg r (if e then [by_lr] else xs[length xs - 1 := by_lr])))"

definition nnc_pop_reg :: "nnc_reg \<Rightarrow> unit gen" where
  "nnc_pop_reg r = gbind (nnc_reg_lr_empty r) (\<lambda>e. gbind (gget (\<lambda>s. reg_stack s r)) (\<lambda>xs.
     if e then gret () else set_reg r (butlast xs)))"

definition nnc_unreserve_reg :: "nnc_reg \<Rightarrow> unit gen" where
  "nnc_unreserve_reg r = gbind (nnc_reg_lr_empty r) (\<lambda>e. gbind (gget (\<lambda>s. reg_stack s r)) (\<lambda>xs.
     if e then gret () else set_reg r (butlast xs)))"

text \<open>
  The NULL is added through a copy of the pointer: when the vector is full, it moves and the table keeps the
  address that was freed. The vectors have 32 elements, they grow nowhere else.
\<close>

definition nnc_push_reg :: "nnc_reg \<Rightarrow> unit gen" where
  "nnc_push_reg r = gbind (nnc_reg_lr_empty r) (\<lambda>e. gbind (gget (\<lambda>s. reg_stack s r)) (\<lambda>xs.
     if e then gfail Crash else if last xs = None then gfail AssertFail
     else if 32 \<le> length xs then gfail Crash else set_reg r (xs @ [None])))"

definition nnc_reserve_reg :: "nnc_reg \<Rightarrow> bool gen" where
  "nnc_reserve_reg r =
     gbind (gget (\<lambda>s. length (ranges (a_lr s)))) (\<lambda>lr.
     gbind (gput (\<lambda>s. s\<lparr>a_lr := (a_lr s)\<lparr>ranges := ranges (a_lr s) @ [nnc_3a_mklr (ucast (quad_pointer s)) (- 1)]\<rparr>\<rparr>)) (\<lambda>_.
     gbind (nnc_reg_busy r) (\<lambda>b.
     gbind (if b then nnc_push_reg r else gret ()) (\<lambda>_.
     gbind (nnc_update_reg r (Some lr)) (\<lambda>_. gret b)))))"

definition nnc_get_lr :: "nnc_3a_addr \<Rightarrow> nat option gen" where
  "nnc_get_lr a = gbind (gget a_lr) (\<lambda>p.
     case akind a of
       ADDR_CGT \<Rightarrow> gbind (from_res_gen (nncmap_has int_keys (lr_cgt p) (exact a))) (\<lambda>h.
         if h then gbind (from_res_gen (nncmap_get int_keys (lr_cgt p) (exact a))) (\<lambda>j. gret (Some j)) else gret None)
     | ADDR_NAME \<Rightarrow> gbind (from_res_gen (nncmap_has str_keys (lr_var p) (aname a))) (\<lambda>h.
         if h then gbind (from_res_gen (nncmap_get str_keys (lr_var p) (aname a))) (\<lambda>j. gret (Some j)) else gret None)
     | _ \<Rightarrow> gfail Abort)"

section \<open>Labels\<close>

definition LOC_LABEL_SIZE :: nat where "LOC_LABEL_SIZE = 512"

definition nnc_make_cgt_loc_label :: "nnc_3a_addr \<Rightarrow> string gen" where
  "nnc_make_cgt_loc_label a = gbind (gassert (akind a = ADDR_CGT)) (\<lambda>_. gret (''c_'' @ dec_digits (unat (exact a))))"

text \<open>A name that does not fit the buffer is written behind it.\<close>

definition nnc_make_var_loc_label :: "nnc_3a_addr \<Rightarrow> string gen" where
  "nnc_make_var_loc_label a = gbind (gassert (akind a = ADDR_NAME)) (\<lambda>_.
     if LOC_LABEL_SIZE \<le> length (aname a) then gfail Crash else gret (aname a))"

definition nnc_make_str_loc_label :: "nnc_3a_addr \<Rightarrow> string gen" where
  "nnc_make_str_loc_label a = gbind (gassert (akind a = ADDR_SCONST)) (\<lambda>_.
     gbind (gget (\<lambda>s. case str_map s of None \<Rightarrow> nncmap_init 8 | Some m \<Rightarrow> m)) (\<lambda>m.
     gbind (from_res_gen (nncmap_has str_keys m (aname a))) (\<lambda>h.
       if h then gbind (gput (\<lambda>s. s\<lparr>str_map := Some m\<rparr>)) (\<lambda>_. from_res_gen (nncmap_get str_keys m (aname a)))
       else gbind (gget str_counter) (\<lambda>c. let label = ''s_'' @ dec_digits (unat c) in
         gbind (from_res_gen (nncmap_put str_keys m (aname a) label)) (\<lambda>m.
         gbind (gput (\<lambda>s. s\<lparr>str_counter := c + 1, str_map := Some m\<rparr>)) (\<lambda>_. gret label))))))"

text \<open>\<open>None\<close> is the result \<^verbatim>\<open>false\<close>, which leaves the buffer empty.\<close>

definition nnc_make_loc_label :: "nnc_3a_addr \<Rightarrow> string option gen" where
  "nnc_make_loc_label a = (case akind a of
     ADDR_CGT \<Rightarrow> gbind (nnc_make_cgt_loc_label a) (\<lambda>l. gret (Some l))
   | ADDR_NAME \<Rightarrow> gbind (nnc_make_var_loc_label a) (\<lambda>l. gret (Some l))
   | ADDR_SCONST \<Rightarrow> gbind (nnc_make_str_loc_label a) (\<lambda>l. gret (Some l))
   | _ \<Rightarrow> gret None)"

section \<open>Locations\<close>

definition NNC_MAP_INICAP :: nat where "NNC_MAP_INICAP = 128"

definition the_loc_map :: "cgen \<Rightarrow> (string, nat) nnc_map" where
  "the_loc_map s = (case loc_map s of None \<Rightarrow> nncmap_init NNC_MAP_INICAP | Some m \<Rightarrow> m)"

definition nnc_get_loc :: "nnc_3a_addr \<Rightarrow> nat option gen" where
  "nnc_get_loc a =
     gbind (nnc_make_loc_label a) (\<lambda>l. let key = (case l of None \<Rightarrow> [] | Some l \<Rightarrow> l) in
     gbind (gget the_loc_map) (\<lambda>m. gbind (gput (\<lambda>s. s\<lparr>loc_map := Some m\<rparr>)) (\<lambda>_.
     gbind (from_res_gen (nncmap_has str_keys m key)) (\<lambda>h.
       if \<not> h then gret None else gbind (from_res_gen (nncmap_get str_keys m key)) (\<lambda>i. gret (Some i))))))"

definition nnc_put_loc :: "nat \<Rightarrow> nnc_3a_addr \<Rightarrow> unit gen" where
  "nnc_put_loc i a =
     gbind (nnc_make_loc_label a) (\<lambda>l. case l of None \<Rightarrow> gfail AssertFail
     | Some key \<Rightarrow> gbind (gget the_loc_map) (\<lambda>m. gbind (from_res_gen (nncmap_put str_keys m key i)) (\<lambda>m.
         gput (\<lambda>s. s\<lparr>loc_map := Some m\<rparr>))))"

definition new_loc :: "nnc_loc \<Rightarrow> nat gen" where
  "new_loc l s = Inr (length (locs s), s\<lparr>locs := locs s @ [l]\<rparr>)"

definition loc_value :: "nat \<Rightarrow> nnc_loc gen" where
  "loc_value i = gget (\<lambda>s. locs s ! i)"

definition mk_loc :: "nnc_where \<Rightarrow> tref option \<Rightarrow> nnc_loc" where
  "mk_loc w t = \<lparr>deref = False, has_offset = False, loc_at = w, loc_type = t\<rparr>"

definition place_loc :: "nnc_where \<Rightarrow> nnc_3a_addr \<Rightarrow> nat gen" where
  "place_loc w a = gbind (new_loc (mk_loc w (atype a))) (\<lambda>i. gbind (nnc_put_loc i a) (\<lambda>_. gret i))"

definition nnc_make_reg_loc :: "nnc_reg \<Rightarrow> nnc_3a_addr \<Rightarrow> nat gen" where
  "nnc_make_reg_loc r a = place_loc (L_REG r) a"

definition nnc_make_ds_loc :: "nnc_3a_addr \<Rightarrow> nat gen" where
  "nnc_make_ds_loc a = gbind (nnc_make_loc_label a) (\<lambda>l. place_loc (L_DATA (case l of None \<Rightarrow> [] | Some l \<Rightarrow> l)) a)"

text \<open>The offset is a 16 bit integer, the size of the frame is not.\<close>

definition nnc_make_ss_loc :: "nnc_3a_addr \<Rightarrow> nat gen" where
  "nnc_make_ss_loc a =
     gbind (gtype nnc_sizeof (atype a)) (\<lambda>n.
     gbind (gput (\<lambda>s. s\<lparr>l_stack := l_stack s + ucast n\<rparr>)) (\<lambda>_.
     gbind (gget l_stack) (\<lambda>t. place_loc (L_STACK (ucast (- t))) a)))"

definition nnc_make_pss_loc :: "nnc_3a_addr \<Rightarrow> nnc_pclass_state \<Rightarrow> nat gen" where
  "nnc_make_pss_loc a st = place_loc (L_STACK (ucast (8 + ucast (pc_stack_pad st) + on_stack st))) a"

definition nnc_reset_lr_vec :: "unit gen" where
  "nnc_reset_lr_vec = gput (\<lambda>s. s\<lparr>lr_vec := (\<lambda>r. if in_lr_vec r then None else lr_vec s r)\<rparr>)"

text \<open>The locations in the data segment stay.\<close>

definition nnc_reloc_glob_sym :: "string \<times> nat \<Rightarrow> unit gen" where
  "nnc_reloc_glob_sym = (\<lambda>(label, i). gbind (loc_value i) (\<lambda>l.
     case loc_at l of L_DATA _ \<Rightarrow> gbind (gget the_loc_map) (\<lambda>m. gbind (from_res_gen (nncmap_put str_keys m label i)) (\<lambda>m.
         gput (\<lambda>s. s\<lparr>loc_map := Some m\<rparr>)))
     | _ \<Rightarrow> gret ()))"

definition nnc_reset_str_map :: "unit gen" where
  "nnc_reset_str_map = gput (\<lambda>s. s\<lparr>str_map := None\<rparr>)"

definition nnc_reset_loc_map :: "unit gen" where
  "nnc_reset_loc_map = gbind (gget loc_map) (\<lambda>m. case m of None \<Rightarrow> gret ()
     | Some prev \<Rightarrow> gbind (gput (\<lambda>s. s\<lparr>loc_map := Some (nncmap_init NNC_MAP_INICAP)\<rparr>)) (\<lambda>_.
         giter nnc_reloc_glob_sym (map_entries prev)))"

section \<open>Parameters\<close>

definition nnc_pclass_state_init :: "nnc_pclass_state \<Rightarrow> nnc_pclass_state gen" where
  "nnc_pclass_state_init st = gbind (gassert (\<not> was_init st)) (\<lambda>_.
     gret (st\<lparr>was_init := True, int_iter := 0, pushed := [], abi_used := []\<rparr>))"

definition nnc_get_pclass :: "tref option \<Rightarrow> nnc_pclass_state \<Rightarrow> (nnc_pclass \<times> nnc_pclass_state) gen" where
  "nnc_get_pclass t st =
     gbind (if was_init st then gret st else nnc_pclass_state_init st) (\<lambda>st.
     gbind (gtype nnc_real_type t) (\<lambda>b. gbind (gassert (\<not> b)) (\<lambda>_.
     gbind (gtype nnc_incomplete_type t) (\<lambda>b. gbind (gassert (\<not> b)) (\<lambda>_.
     gbind (gtype nnc_struct_or_union_type t) (\<lambda>b. gbind (gassert (\<not> b)) (\<lambda>_.
       if int_iter st < length int_p_param then gret (C_INTEGER, st\<lparr>int_iter := int_iter st + 1\<rparr>) else gret (C_MEMORY, st))))))))"

definition nnc_pclass_state_fini :: "nnc_pclass_state \<Rightarrow> unit gen" where
  "nnc_pclass_state_fini st = gbind (giter nnc_unreserve_reg (abi_used st)) (\<lambda>_. giter nnc_pop_reg (pushed st))"

section \<open>Storing\<close>

text \<open>The first register whose latest range does not meet the given one.\<close>

fun find_reg :: "nnc_reg list \<Rightarrow> nat option \<Rightarrow> nnc_reg option gen" where
  "find_reg [] lr = gret None"
| "find_reg (r # rs) lr =
     gbind (gassert (in_lr_vec r)) (\<lambda>_. gbind (nnc_peek_reg r) (\<lambda>top.
     gbind (gget (\<lambda>s. nnc_lr_intersects (lr_at s lr) (lr_at s top))) (\<lambda>i.
       if \<not> i then gret (Some r) else find_reg rs lr)))"

definition nnc_store_cgt :: "nnc_3a_addr \<Rightarrow> nnc_loc gen" where
  "nnc_store_cgt a =
     gbind (gassert (akind a = ADDR_CGT)) (\<lambda>_.
     gbind (gtype nnc_real_type (atype a)) (\<lambda>b. gbind (gassert (\<not> b)) (\<lambda>_.
     gbind (nnc_get_lr a) (\<lambda>lr.
     gbind (find_reg int_p_local lr) (\<lambda>r.
     gbind (case r of None \<Rightarrow> nnc_make_ss_loc a | Some r \<Rightarrow> gbind (nnc_update_reg r lr) (\<lambda>_. nnc_make_reg_loc r a)) loc_value)))))"

definition set_offset :: "nat \<Rightarrow> unit gen" where
  "set_offset i = gput (\<lambda>s. s\<lparr>locs := (locs s)[i := (locs s ! i)\<lparr>has_offset := True\<rparr>]\<rparr>)"

definition nnc_store_var :: "nnc_3a_addr \<Rightarrow> nnc_loc gen" where
  "nnc_store_var a =
     gbind (gassert (akind a = ADDR_NAME)) (\<lambda>_.
     gbind (if exact a = ictx_num IDENT_GLOBAL \<or> exact a = ictx_num IDENT_FUNCTION then
              gbind (nnc_make_ds_loc a) (\<lambda>i. gbind (if exact a = ictx_num IDENT_FUNCTION then set_offset i else gret ()) (\<lambda>_. gret i))
            else nnc_make_ss_loc a) loc_value)"

definition nnc_store_str :: "nnc_3a_addr \<Rightarrow> nnc_loc gen" where
  "nnc_store_str a =
     gbind (gassert (akind a = ADDR_SCONST)) (\<lambda>_.
     gbind (nnc_make_ds_loc a) (\<lambda>i. gbind (set_offset i) (\<lambda>_. loc_value i)))"

definition nnc_store_imm :: "nnc_3a_addr \<Rightarrow> nnc_loc gen" where
  "nnc_store_imm a =
     gbind (gassert (akind a = ADDR_ICONST \<or> akind a = ADDR_FCONST)) (\<lambda>_.
       if akind a = ADDR_FCONST then gfail AssertFail else gret (mk_loc (L_IMM (exact a)) None))"

definition nnc_store :: "nnc_3a_addr \<Rightarrow> nnc_loc gen" where
  "nnc_store a = gbind (nnc_get_loc a) (\<lambda>i. case i of Some i \<Rightarrow> loc_value i | None \<Rightarrow>
     (case akind a of ADDR_CGT \<Rightarrow> nnc_store_cgt a | ADDR_NAME \<Rightarrow> nnc_store_var a | ADDR_SCONST \<Rightarrow> nnc_store_str a
      | ADDR_FCONST \<Rightarrow> nnc_store_imm a | ADDR_ICONST \<Rightarrow> nnc_store_imm a | ADDR_NONE \<Rightarrow> gfail Abort))"

definition nnc_spill :: "nnc_3a_addr \<Rightarrow> nnc_loc gen" where
  "nnc_spill a =
     gbind (gassert (akind a = ADDR_NAME)) (\<lambda>_. gbind (gassert (exact a = ictx_num IDENT_FUNCTION_PARAM)) (\<lambda>_.
     gbind (nnc_get_loc a) (\<lambda>i. case i of None \<Rightarrow> gfail Abort | Some i \<Rightarrow> gbind (loc_value i) (\<lambda>l.
       case loc_at l of L_REG r \<Rightarrow> gbind (nnc_unreserve_reg r) (\<lambda>_. gbind (nnc_make_ss_loc a) loc_value)
       | _ \<Rightarrow> gfail Abort))))"

definition in_reg :: "nnc_loc \<Rightarrow> bool" where
  "in_reg l \<longleftrightarrow> (case loc_at l of L_REG _ \<Rightarrow> True | _ \<Rightarrow> False)"

text \<open>The locations are read before they are tested for NULL.\<close>

definition nnc_swap_loc :: "nnc_3a_addr \<Rightarrow> nnc_3a_addr \<Rightarrow> unit gen" where
  "nnc_swap_loc a1 a2 =
     gbind (nnc_get_loc a1) (\<lambda>i1. gbind (nnc_get_loc a2) (\<lambda>i2.
     gbind (from_opt i1) (\<lambda>i1. gbind (loc_value i1) (\<lambda>l1. gbind (gassert (in_reg l1)) (\<lambda>_.
     gbind (from_opt i2) (\<lambda>i2. gbind (loc_value i2) (\<lambda>l2. gbind (gassert (in_reg l2)) (\<lambda>_.
     gbind (nnc_put_loc i1 a2) (\<lambda>_. nnc_put_loc i2 a1)))))))))"

definition nnc_store_int_param :: "nnc_3a_addr \<Rightarrow> nnc_pclass_state \<Rightarrow> nnc_loc gen" where
  "nnc_store_int_param a st =
     (let r = int_p_param ! (int_iter st - 1) in
      gbind (nnc_reserve_reg r) (\<lambda>_. gbind (nnc_make_reg_loc r a) loc_value))"

definition nnc_store_mem_param :: "nnc_3a_addr \<Rightarrow> nnc_pclass_state \<Rightarrow> (nnc_loc \<times> nnc_pclass_state) gen" where
  "nnc_store_mem_param a st =
     gbind (gtype nnc_sizeof (atype a)) (\<lambda>n. gbind (gassert (n \<le> 8)) (\<lambda>_.
     let st = st\<lparr>on_stack := on_stack st + 8\<rparr> in
     gbind (nnc_make_pss_loc a st) (\<lambda>i. gbind (loc_value i) (\<lambda>l. gret (l, st)))))"

definition nnc_store_param :: "nnc_3a_addr \<Rightarrow> nnc_pclass_state \<Rightarrow> (nnc_loc \<times> nnc_pclass_state) gen" where
  "nnc_store_param a st =
     gbind (gassert (was_init st)) (\<lambda>_. gbind (nnc_get_pclass (atype a) st) (\<lambda>(c, st).
       case c of C_MEMORY \<Rightarrow> nnc_store_mem_param a st | C_INTEGER \<Rightarrow> gbind (nnc_store_int_param a st) (\<lambda>l. gret (l, st))))"


section \<open>The map of locations\<close>

lemmas gen_run = gbind_def gret_def gget_def gput_def gassert_def gfail_def from_opt_def from_res_gen_def

text \<open>The label of a temporary or a name, and the location stored under a label.\<close>

definition label_of :: "nnc_3a_addr \<Rightarrow> string" where
  "label_of a = (if akind a = ADDR_CGT then ''c_'' @ dec_digits (unat (exact a)) else aname a)"

definition stored :: "nnc_3a_addr \<Rightarrow> bool" where
  "stored a \<longleftrightarrow> akind a = ADDR_CGT \<or> akind a = ADDR_NAME \<and> length (aname a) < LOC_LABEL_SIZE"

definition loc_index :: "cgen \<Rightarrow> string \<Rightarrow> nat option" where
  "loc_index s = map_abs str_keys (the_loc_map s)"

definition location :: "cgen \<Rightarrow> string \<Rightarrow> nnc_loc option" where
  "location s l = map_option (\<lambda>i. locs s ! i) (loc_index s l)"

definition map_ok :: "cgen \<Rightarrow> bool" where
  "map_ok s \<longleftrightarrow> map_inv str_keys (the_loc_map s) \<and> (\<forall>l i. loc_index s l = Some i \<longrightarrow> i < length (locs s))"

definition opened :: "cgen \<Rightarrow> cgen" where
  "opened s = s\<lparr>loc_map := Some (the_loc_map s)\<rparr>"

lemma make_label: "stored a \<Longrightarrow> nnc_make_loc_label a s = Inr (Some (label_of a), s)"
  by (auto simp: stored_def nnc_make_loc_label_def nnc_make_cgt_loc_label_def nnc_make_var_loc_label_def label_of_def gen_run)

lemma opened_map [simp]: "the_loc_map (opened s) = the_loc_map s" "locs (opened s) = locs s"
  by (simp_all add: opened_def the_loc_map_def)

lemma opened_location [simp]: "location (opened s) = location s" "loc_index (opened s) = loc_index s"
  by (auto simp: location_def loc_index_def)

lemma get_loc_run:
  assumes "stored a" "map_ok s"
  shows "nnc_get_loc a s = Inr (loc_index s (label_of a), opened s)"
proof -
  have i: "map_inv str_keys (the_loc_map s)" using assms(2) by (simp add: map_ok_def)
  show ?thesis
  proof (cases "loc_index s (label_of a)")
    case None
    then show ?thesis
      using str_dict.has_abs [OF i, of "label_of a"]
      by (simp add: nnc_get_loc_def gen_run make_label [OF assms(1)] Let_def loc_index_def opened_def)
  next
    case (Some j)
    then show ?thesis
      using str_dict.has_abs [OF i, of "label_of a"] str_dict.get_abs [OF i, of "label_of a" j]
      by (simp add: nnc_get_loc_def gen_run make_label [OF assms(1)] Let_def loc_index_def opened_def)
  qed
qed

text \<open>A new location under a label that has none.\<close>

definition placed :: "nnc_where \<Rightarrow> nnc_3a_addr \<Rightarrow> cgen \<Rightarrow> cgen \<Rightarrow> bool" where
  "placed w a s s' \<longleftrightarrow> (\<exists>m. s' = s\<lparr>locs := locs s @ [mk_loc w (atype a)], loc_map := Some m\<rparr>) \<and> map_ok s' \<and>
     loc_index s' = (loc_index s)(label_of a \<mapsto> length (locs s)) \<and> location s' = (location s)(label_of a \<mapsto> mk_loc w (atype a))"

lemma place_loc_run:
  assumes "stored a" "map_ok s" "loc_index s (label_of a) = None"
  shows "\<exists>s'. place_loc w a s = Inr (length (locs s), s') \<and> placed w a s s'"
proof -
  have i: "map_inv str_keys (the_loc_map s)" "\<And>l i. loc_index s l = Some i \<Longrightarrow> i < length (locs s)" using assms(2) by (simp_all add: map_ok_def)
  obtain m where m: "nncmap_put str_keys (the_loc_map s) (label_of a) (length (locs s)) = Inr m" "map_inv str_keys m"
    "map_abs str_keys m = (map_abs str_keys (the_loc_map s))(label_of a \<mapsto> length (locs s))"
    using str_dict.put_abs [OF i(1), of "label_of a" "length (locs s)"] assms(3) by (auto simp: loc_index_def)
  define s' where "s' = s\<lparr>locs := locs s @ [mk_loc w (atype a)], loc_map := Some m\<rparr>"
  have "the_loc_map (s\<lparr>locs := locs s @ [mk_loc w (atype a)]\<rparr>) = the_loc_map s" by (simp add: the_loc_map_def)
  then have "nnc_put_loc (length (locs s)) a (s\<lparr>locs := locs s @ [mk_loc w (atype a)]\<rparr>) = Inr ((), s')"
    by (simp add: nnc_put_loc_def gbind_def make_label [OF assms(1)] gget_def from_res_gen_def m(1) gret_def gput_def s'_def)
  then have "place_loc w a s = Inr (length (locs s), s')"
    by (simp add: place_loc_def new_loc_def gbind_def gret_def)
  moreover have tm: "the_loc_map s' = m" by (simp add: the_loc_map_def s'_def)
  have ls: "locs s' = locs s @ [mk_loc w (atype a)]" by (simp add: s'_def)
  have x: "loc_index s' = (loc_index s)(label_of a \<mapsto> length (locs s))" by (simp add: loc_index_def tm m(3))
  have "location s' l = ((location s)(label_of a \<mapsto> mk_loc w (atype a))) l" for l
    using i(2) [of l] by (cases "loc_index s l") (auto simp: location_def x ls nth_append)
  moreover have "map_ok s'" using i m(2) x by (auto simp: map_ok_def tm ls less_Suc_eq)
  ultimately show ?thesis using x unfolding placed_def s'_def by blast
qed

lemma store_known:
  assumes "stored a" "map_ok s" "location s (label_of a) = Some l"
  shows "nnc_store a s = Inr (l, opened s)"
proof -
  obtain i where "loc_index s (label_of a) = Some i" "l = locs s ! i" using assms(3) by (auto simp: location_def)
  then show ?thesis using get_loc_run [OF assms(1,2)] by (simp add: nnc_store_def gen_run loc_value_def)
qed

lemma location_None: "location s l = None \<longleftrightarrow> loc_index s l = None"
  by (simp add: location_def)

lemma map_ok_opened [simp]: "map_ok (opened s) \<longleftrightarrow> map_ok s"
  by (simp add: map_ok_def)

section \<open>Slots on the stack\<close>

definition size_at :: "cgen \<Rightarrow> tref option \<Rightarrow> nat" where
  "size_at s t = (case t of None \<Rightarrow> 0 | Some t \<Rightarrow> (case nnc_sizeof (a_types s) t of None \<Rightarrow> 0 | Some n \<Rightarrow> unat n))"

definition sized :: "cgen \<Rightarrow> tref option \<Rightarrow> bool" where
  "sized s t \<longleftrightarrow> (\<exists>u n. t = Some u \<and> nnc_sizeof (a_types s) u = Some n)"

text \<open>A slot \<open>m\<close> of \<open>n\<close> bytes lies in the frame, and two slots do not overlap.\<close>

definition in_frame :: "cgen \<Rightarrow> u16 \<Rightarrow> nat \<Rightarrow> bool" where
  "in_frame s m n \<longleftrightarrow> - int (unat (l_stack s)) \<le> sint m \<and> sint m + int n \<le> 0"

definition slots_apart :: "u16 \<Rightarrow> nat \<Rightarrow> u16 \<Rightarrow> nat \<Rightarrow> bool" where
  "slots_apart m n m' n' \<longleftrightarrow> sint m + int n \<le> sint m' \<or> sint m' + int n' \<le> sint m"

lemma sizeof_run: "sized s t \<Longrightarrow> gtype nnc_sizeof t s = Inr (of_nat (size_at s t), s)"
  by (auto simp: sized_def size_at_def gtype_def gen_run)

lemma neg_ucast: "(ucast (- (of_nat k :: u32)) :: u16) = - of_nat k"
proof -
  have "- (of_nat k :: u32) = word_of_int (- int k)" "- (of_nat k :: u16) = word_of_int (- int k)" by simp_all
  then show ?thesis by (simp only: unsigned_of_int of_nat_nat take_bit_nonnegative) (simp only: word_of_int_eq_iff take_bit_take_bit, simp)
qed

lemma sint_neg: "k \<le> 2 ^ 15 \<Longrightarrow> sint (- (of_nat k) :: u16) = - int k"
proof -
  assume k: "k \<le> 2 ^ 15"
  have "- (of_nat k :: u16) = word_of_int (- int k)" by simp
  then show ?thesis using k by (simp only: signed_of_int) (simp add: signed_take_bit_int_eq_self)
qed

lemma frame_offset:
  assumes "unat (l_stack s) + n \<le> 2 ^ 15"
  shows "unat (l_stack s + ucast (of_nat n :: u64)) = unat (l_stack s) + n"
    "sint (ucast (- (l_stack s + ucast (of_nat n :: u64))) :: u16) = - int (unat (l_stack s) + n)"
proof -
  define t where "t = l_stack s + ucast (of_nat n :: u64)"
  have c: "(ucast (of_nat n :: u64) :: u32) = of_nat n"
    using assms by (simp add: unsigned_of_nat take_bit_nat_eq_self)
  have "unat (of_nat n :: u32) = n" using assms by (simp add: unat_of_nat take_bit_nat_eq_self)
  then show u: "unat (l_stack s + ucast (of_nat n :: u64)) = unat (l_stack s) + n"
    using assms by (simp add: c unat_word_ariths(1))
  have t: "t = of_nat (unat (l_stack s) + n)" using u t_def by (metis of_nat_unat ucast_id)
  have "(ucast (- t) :: u16) = - (of_nat (unat (l_stack s) + n))" unfolding t by (rule neg_ucast)
  then show "sint (ucast (- (l_stack s + ucast (of_nat n :: u64))) :: u16) = - int (unat (l_stack s) + n)"
    using sint_neg [OF assms] by (simp add: t_def)
qed


section \<open>Registers and ranges\<close>

definition temp_label :: "u64 \<Rightarrow> string" where
  "temp_label c = ''c_'' @ dec_digits (unat c)"

definition held :: "cgen \<Rightarrow> u64 \<Rightarrow> nnc_reg \<Rightarrow> bool" where
  "held s c r \<longleftrightarrow> (\<exists>l. location s (temp_label c) = Some l \<and> loc_at l = L_REG r)"

definition temp_range :: "cgen \<Rightarrow> u64 \<Rightarrow> nnc_3a_lr" where
  "temp_range s c = the (range_of (a_lr s) (Temp c))"

definition ranges_ok :: "cgen \<Rightarrow> bool" where
  "ranges_ok s \<longleftrightarrow> lr_inv (a_lr s) \<and> (\<forall>k r. range_of (a_lr s) k = Some r \<longrightarrow> starts r \<le> ends r)"

definition before :: "cgen \<Rightarrow> u64 \<Rightarrow> u64 \<Rightarrow> bool" where
  "before s c d \<longleftrightarrow> ends (temp_range s c) < starts (temp_range s d)"

text \<open>The stack of a register has the range of the last temporary it was given to, the ranges of the others ended before.\<close>

definition reg_ok :: "cgen \<Rightarrow> u32 \<Rightarrow> nnc_reg \<Rightarrow> bool" where
  "reg_ok s now r \<longleftrightarrow> reg_stack s r = [] \<and> (\<forall>c. \<not> held s c r) \<or>
     (\<exists>t j. reg_stack s r = [Some j] \<and> lr_index (a_lr s) (Temp t) = Some j \<and> held s t r \<and> starts (temp_range s t) \<le> now \<and>
        (\<forall>c. held s c r \<longrightarrow> c \<noteq> t \<longrightarrow> before s c t))"

definition regs_ok :: "cgen \<Rightarrow> u32 \<Rightarrow> bool" where
  "regs_ok s now \<longleftrightarrow> (\<forall>r. reg_ok s now r) \<and> (\<forall>c d r. held s c r \<longrightarrow> held s d r \<longrightarrow> c \<noteq> d \<longrightarrow> before s c d \<or> before s d c)"

definition frame_ok :: "cgen \<Rightarrow> bool" where
  "frame_ok s \<longleftrightarrow> (\<forall>k l m. location s k = Some l \<longrightarrow> loc_at l = L_STACK m \<longrightarrow> in_frame s m (size_at s (loc_type l))) \<and>
     (\<forall>k k' l l' m m'. k \<noteq> k' \<longrightarrow> location s k = Some l \<longrightarrow> location s k' = Some l' \<longrightarrow> loc_at l = L_STACK m \<longrightarrow> loc_at l' = L_STACK m' \<longrightarrow>
        slots_apart m (size_at s (loc_type l)) m' (size_at s (loc_type l')))"

definition alloc_ok :: "cgen \<Rightarrow> u32 \<Rightarrow> bool" where
  "alloc_ok s now \<longleftrightarrow> map_ok s \<and> ranges_ok s \<and> regs_ok s now \<and> frame_ok s"

lemma int_p_local_in: "list_all in_lr_vec int_p_local"
  by (simp add: int_p_local_def in_lr_vec_def)

lemma temp_label_inj [simp]: "temp_label c = temp_label d \<longleftrightarrow> c = d"
  by (simp add: temp_label_def word_unat_eq_iff)

lemma peek_run: "in_lr_vec r \<Longrightarrow> nnc_peek_reg r s = Inr (if reg_stack s r = [] then None else last (reg_stack s r), s)"
  by (simp add: nnc_peek_reg_def nnc_reg_lr_empty_def gen_run)

text \<open>A register that is found is free of ranges that do not end before the given one.\<close>

definition fits :: "cgen \<Rightarrow> u64 \<Rightarrow> nnc_reg \<Rightarrow> bool" where
  "fits s c r \<longleftrightarrow> (\<forall>d. held s d r \<longrightarrow> before s d c) \<and> length (reg_stack s r) \<le> 1"

lemma find_reg_run:
  assumes "alloc_ok s now" "lr_index (a_lr s) (Temp c) = Some j" "now \<le> starts (temp_range s c)" "list_all in_lr_vec rs"
  shows "\<exists>x. find_reg rs (Some j) s = Inr (x, s) \<and> (case x of None \<Rightarrow> True | Some r \<Rightarrow> r \<in> set rs \<and> fits s c r)"
  using assms(4)
proof (induction rs)
  case Nil
  then show ?case by (simp add: gret_def)
next
  case (Cons r rs)
  have inv: "ranges_ok s" "reg_ok s now r" "\<forall>c d r. held s c r \<longrightarrow> held s d r \<longrightarrow> c \<noteq> d \<longrightarrow> before s c d \<or> before s d c"
    using assms(1) by (simp_all add: alloc_ok_def regs_ok_def)
  have lr: "lr_at s (Some i) = Some (temp_range s t)" "range_of (a_lr s) (Temp t) = Some (temp_range s t)"
    if "lr_index (a_lr s) (Temp t) = Some i" for t i
    using that by (simp_all add: lr_at_def temp_range_def range_of_def)
  define free where "free = (\<not> nnc_lr_intersects (lr_at s (Some j)) (lr_at s (if reg_stack s r = [] then None else last (reg_stack s r))))"
  have r: "in_lr_vec r" "list_all in_lr_vec rs" using Cons.prems by simp_all
  have run: "find_reg (r # rs) (Some j) s = (if free then Inr (Some r, s) else find_reg rs (Some j) s)"
    by (simp add: gbind_def gassert_def r(1) peek_run [OF r(1)] gret_def gget_def free_def)
  have "fits s c r" if f: "free"
  proof (cases "reg_stack s r = []")
    case True
    then show ?thesis using inv(2) by (auto simp: reg_ok_def fits_def)
  next
    case False
    then obtain t i where t: "reg_stack s r = [Some i]" "lr_index (a_lr s) (Temp t) = Some i" "held s t r" "starts (temp_range s t) \<le> now"
      "\<forall>c. held s c r \<longrightarrow> c \<noteq> t \<longrightarrow> before s c t" using inv(2) by (auto simp: reg_ok_def)
    have le: "starts (temp_range s t) \<le> ends (temp_range s t)" "starts (temp_range s c) \<le> ends (temp_range s c)"
      using inv(1) lr(2) [OF t(2)] lr(2) [OF assms(2)] by (auto simp: ranges_ok_def)
    have "\<not> (starts (temp_range s c) \<le> ends (temp_range s t) \<and> starts (temp_range s t) \<le> ends (temp_range s c))"
      using f by (simp add: free_def t(1) lr(1) [OF t(2)] lr(1) [OF assms(2)] nnc_lr_intersects_def)
    then have bt: "before s t c" using le assms(3) t(4) by (auto simp: before_def)
    have "before s d c" if "held s d r" for d
    proof (cases "d = t")
      case False
      then have "before s d t" using t(5) that by blast
      then show ?thesis using bt le by (simp add: before_def)
    qed (use bt in simp)
    then show ?thesis by (simp add: fits_def t(1))
  qed
  then show ?case using Cons.IH [OF r(2)] by (cases free) (auto simp: run simp del: find_reg.simps split: option.splits)
qed

text \<open>What a store of an address makes of the state.\<close>

definition stores :: "nnc_3a_addr \<Rightarrow> cgen \<Rightarrow> u32 \<Rightarrow> (nnc_loc \<times> cgen) res \<Rightarrow> bool" where
  "stores a s now res \<longleftrightarrow> (\<exists>l s'. res = Inr (l, s') \<and> alloc_ok s' now \<and> location s' = (location s)(label_of a \<mapsto> l) \<and> a_lr s' = a_lr s \<and>
     a_types s' = a_types s \<and> unat (l_stack s') \<le> unat (l_stack s) + size_at s (atype a))"

lemma placed_fields:
  assumes "placed w a s s'"
  shows "map_ok s'" "location s' = (location s)(label_of a \<mapsto> mk_loc w (atype a))" "a_lr s' = a_lr s" "a_types s' = a_types s"
    "l_stack s' = l_stack s" "lr_vec s' = lr_vec s" "locs s' = locs s @ [mk_loc w (atype a)]"
  using assms by (auto simp: placed_def)

lemma same_ranges:
  assumes "a_lr s' = a_lr s"
  shows "ranges_ok s' = ranges_ok s" "temp_range s' = temp_range s" "before s' = before s"
  using assms by (auto simp: ranges_ok_def temp_range_def before_def fun_eq_iff)

lemma same_regs:
  assumes "a_lr s' = a_lr s" "lr_vec s' = lr_vec s" "\<And>c r. held s' c r = held s c r"
  shows "regs_ok s' now = regs_ok s now"
  by (simp add: regs_ok_def reg_ok_def assms same_ranges [OF assms(1)] reg_stack_def)

lemma same_frame:
  assumes "a_types s' = a_types s" "l_stack s' = l_stack s" "\<And>k l m. location s' k = Some l \<Longrightarrow> loc_at l = L_STACK m \<Longrightarrow> location s k = Some l"
    "frame_ok s"
  shows "frame_ok s'"
  using assms(4) unfolding frame_ok_def in_frame_def size_at_def assms(1,2) by (blast dest: assms(3))

text \<open>A new slot below the frame.\<close>

lemma stack_stores:
  assumes s: "alloc_ok s now" "stored a" "location s (label_of a) = None" "sized s (atype a)"
    "unat (l_stack s) + size_at s (atype a) \<le> 2 ^ 15"
  shows "stores a s now (gbind (nnc_make_ss_loc a) loc_value s)"
proof -
  define n where "n = size_at s (atype a)"
  define t where "t = l_stack s + ucast (of_nat n :: u64)"
  define s1 where "s1 = s\<lparr>l_stack := t\<rparr>"
  define m where "m = (ucast (- t) :: u16)"
  have off: "unat t = unat (l_stack s) + n" "sint m = - int (unat (l_stack s) + n)"
    using frame_offset [of s n] s(5) by (simp_all add: t_def m_def n_def)
  have s1: "map_ok s1" "loc_index s1 = loc_index s" "location s1 = location s"
    using s(1) by (auto simp: alloc_ok_def map_ok_def loc_index_def location_def the_loc_map_def s1_def)
  obtain s' where s': "place_loc (L_STACK m) a s1 = Inr (length (locs s1), s')" "placed (L_STACK m) a s1 s'"
    using place_loc_run [OF s(2) s1(1), of "L_STACK m"] s(3) by (auto simp: s1 location_None)
  note f = placed_fields [OF s'(2)]
  have lrs: "a_lr s' = a_lr s" "lr_vec s' = lr_vec s" "a_types s' = a_types s" "l_stack s' = t" using f by (simp_all add: s1_def)
  have loc: "location s' = (location s)(label_of a \<mapsto> mk_loc (L_STACK m) (atype a))" using f(2) s1(3) by simp
  have "nnc_make_ss_loc a s = place_loc (L_STACK (ucast (- l_stack s1))) a s1"
    using sizeof_run [OF s(4)] by (simp add: nnc_make_ss_loc_def gbind_def gput_def gget_def s1_def t_def n_def)
  also have "l_stack s1 = t" by (simp add: s1_def)
  finally have slot: "nnc_make_ss_loc a s = place_loc (L_STACK m) a s1" unfolding m_def .
  have run: "gbind (nnc_make_ss_loc a) loc_value s = Inr (mk_loc (L_STACK m) (atype a), s')"
    using s'(1) f(7) slot by (simp add: gbind_def gget_def loc_value_def)
  have "held s' c r = held s c r" for c r using s(3) by (auto simp: held_def loc mk_loc_def)
  then have regs: "regs_ok s' now" using same_regs [OF lrs(1,2)] s(1) by (simp add: alloc_ok_def)
  have old: "in_frame s x k" "slots_apart m n x k \<and> slots_apart x k m n"
    if "location s q = Some l" "loc_at l = L_STACK x" "k = size_at s (loc_type l)" for q l x k
  proof -
    show b: "in_frame s x k" using s(1) that by (auto simp: alloc_ok_def frame_ok_def)
    show "slots_apart m n x k \<and> slots_apart x k m n" using b off by (simp add: slots_apart_def in_frame_def)
  qed
  have sz: "size_at s' = size_at s" unfolding size_at_def lrs(3) ..
  have "in_frame s' m n" using off by (simp add: in_frame_def lrs)
  moreover have "in_frame s' x k" if "in_frame s x k" for x k using that off(1) by (simp add: in_frame_def lrs)
  moreover have "slots_apart x (size_at s (loc_type l)) y (size_at s (loc_type l'))"
    if "q \<noteq> q'" "location s q = Some l" "location s q' = Some l'" "loc_at l = L_STACK x" "loc_at l' = L_STACK y" for q q' l l' x y
    using s(1) that by (simp add: alloc_ok_def frame_ok_def)
  ultimately have "frame_ok s'"
    unfolding frame_ok_def sz loc
    by (auto simp: mk_loc_def n_def [symmetric] old split: if_splits)
  then have "alloc_ok s' now" using f(1) regs s(1) by (simp add: alloc_ok_def same_ranges(1) [OF lrs(1)])
  then show ?thesis unfolding stores_def run using loc lrs off(1) by (auto simp: n_def)
qed


lemma reg_ok_mono: "reg_ok s now r \<Longrightarrow> now \<le> now' \<Longrightarrow> reg_ok s now' r"
  unfolding reg_ok_def by (blast intro: order_trans)

lemma alloc_ok_mono: "alloc_ok s now \<Longrightarrow> now \<le> now' \<Longrightarrow> alloc_ok s now'"
  unfolding alloc_ok_def regs_ok_def by (blast intro: reg_ok_mono)

lemma opened_fields [simp]: "a_lr (opened s) = a_lr s" "a_types (opened s) = a_types s" "l_stack (opened s) = l_stack s"
  "lr_vec (opened s) = lr_vec s"
  by (simp_all add: opened_def)

lemma opened_ok [simp]: "alloc_ok (opened s) now \<longleftrightarrow> alloc_ok s now" "sized (opened s) = sized s" "size_at (opened s) = size_at s"
proof -
  have "held (opened s) = held s" by (simp add: held_def fun_eq_iff)
  then have "regs_ok (opened s) now = regs_ok s now" using same_regs [of "opened s" s] by simp
  moreover show z: "size_at (opened s) = size_at s" "sized (opened s) = sized s"
    unfolding size_at_def sized_def opened_fields by simp_all
  ultimately show "alloc_ok (opened s) now \<longleftrightarrow> alloc_ok s now"
    by (simp add: alloc_ok_def frame_ok_def in_frame_def same_ranges(1) [of "opened s" s])
qed

text \<open>A temporary in a register.\<close>

lemma register_stores:
  assumes s: "alloc_ok s now" "akind a = ADDR_CGT" "location s (label_of a) = None" "lr_index (a_lr s) (Temp (exact a)) = Some j"
    and r: "fits s (exact a) r" "in_lr_vec r" and now: "now \<le> starts (temp_range s (exact a))"
  shows "stores a s (starts (temp_range s (exact a)))
     (gbind (gbind (nnc_update_reg r (Some j)) (\<lambda>_. nnc_make_reg_loc r a)) loc_value s)"
proof -
  define c where "c = exact a"
  define s1 where "s1 = s\<lparr>lr_vec := (lr_vec s)(r := Some [Some j])\<rparr>"
  have l: "label_of a = temp_label c" "stored a" using s(2) by (simp_all add: label_of_def temp_label_def stored_def c_def)
  have "reg_stack s r = [] \<or> (\<exists>x. reg_stack s r = [x])" using r(1) by (cases "reg_stack s r") (auto simp: fits_def)
  then have up: "nnc_update_reg r (Some j) s = Inr ((), s1)"
    using r(2) by (auto simp: nnc_update_reg_def nnc_reg_lr_empty_def set_reg_def gbind_def gget_def gput_def s1_def)
  have s1: "map_ok s1" "loc_index s1 = loc_index s" "location s1 = location s"
    using s(1) by (auto simp: alloc_ok_def map_ok_def loc_index_def location_def the_loc_map_def s1_def)
  obtain s' where s': "place_loc (L_REG r) a s1 = Inr (length (locs s1), s')" "placed (L_REG r) a s1 s'"
    using place_loc_run [OF l(2) s1(1), of "L_REG r"] s(3) by (auto simp: s1 location_None)
  note f = placed_fields [OF s'(2)]
  have loc: "location s' = (location s)(label_of a \<mapsto> mk_loc (L_REG r) (atype a))" using f(2) s1(3) by simp
  have lrs: "a_lr s' = a_lr s" "a_types s' = a_types s" "l_stack s' = l_stack s" "lr_vec s' = (lr_vec s)(r := Some [Some j])"
    using f by (simp_all add: s1_def)
  have run: "gbind (gbind (nnc_update_reg r (Some j)) (\<lambda>_. nnc_make_reg_loc r a)) loc_value s = Inr (mk_loc (L_REG r) (atype a), s')"
    using s'(1) f(7) up by (simp add: gbind_def nnc_make_reg_loc_def loc_value_def gget_def)
  have held: "held s' d q \<longleftrightarrow> (if d = c then q = r else held s d q)" for d q
    by (auto simp: held_def loc l(1) mk_loc_def)
  have stack: "reg_stack s' q = (if q = r then [Some j] else reg_stack s q)" for q by (simp add: reg_stack_def lrs)
  note same = same_ranges [OF lrs(1)]
  have fit: "before s d c" if "held s d r" for d using r(1) that by (simp add: fits_def c_def)
  have none: "\<not> held s c q" for q using s(3) by (simp add: held_def l(1))
  have regs: "regs_ok s now" using s(1) by (simp add: alloc_ok_def)
  have old: "reg_ok s (starts (temp_range s c)) q" for q
    using regs reg_ok_mono [OF _ now] by (simp add: regs_ok_def c_def)
  have "reg_ok s' (starts (temp_range s c)) q" for q
  proof (cases "q = r")
    case True
    have "(\<forall>d. held s' d q \<longrightarrow> d \<noteq> c \<longrightarrow> before s' d c)" using fit by (auto simp: held True same)
    then show ?thesis using s(4) unfolding reg_ok_def by (intro disjI2 exI [of _ c] exI [of _ j]) (simp add: stack True held same lrs c_def)
  next
    case False
    then have "held s' d q = held s d q" for d using none by (auto simp: held)
    then show ?thesis using old [of q] by (simp add: reg_ok_def stack False same lrs)
  qed
  moreover have "before s' d e \<or> before s' e d" if h: "held s' d q" "held s' e q" "d \<noteq> e" for d e q
  proof -
    consider "d = c" | "e = c" | "d \<noteq> c" "e \<noteq> c" by blast
    then show ?thesis
    proof cases
      case 1
      then show ?thesis using h fit [of e] by (simp add: held same)
    next
      case 2
      then show ?thesis using h fit [of d] by (simp add: held same)
    next
      case 3
      then show ?thesis using h regs by (simp add: held same regs_ok_def)
    qed
  qed
  ultimately have "regs_ok s' (starts (temp_range s c))" by (simp add: regs_ok_def)
  moreover have "frame_ok s'"
    using s(1) by (intro same_frame [OF lrs(2,3)]) (auto simp: loc mk_loc_def alloc_ok_def split: if_splits)
  ultimately have "alloc_ok s' (starts (temp_range s c))" using f(1) s(1) by (simp add: alloc_ok_def same(1))
  then show ?thesis unfolding stores_def run using loc lrs by (auto simp: c_def)
qed

text \<open>A name in the data segment.\<close>

lemma data_stores:
  assumes s: "alloc_ok s now" "stored a" "location s (label_of a) = None"
  shows "stores a s now (gbind (gbind (nnc_make_ds_loc a) (\<lambda>i. gbind (if b then set_offset i else gret ()) (\<lambda>_. gret i))) loc_value s)"
proof -
  define w where "w = L_DATA (label_of a)"
  have ok: "map_ok s" "loc_index s (label_of a) = None" using s(1,3) by (simp_all add: alloc_ok_def location_None)
  obtain s1 where s1: "place_loc w a s = Inr (length (locs s), s1)" "placed w a s s1" using place_loc_run [OF s(2) ok, of w] by blast
  note f = placed_fields [OF s1(2)]
  define l where "l = (mk_loc w (atype a))\<lparr>has_offset := b\<rparr>"
  define s' where "s' = (if b then s1\<lparr>locs := (locs s1)[length (locs s) := l]\<rparr> else s1)"
  have idx: "loc_index s1 = (loc_index s)(label_of a \<mapsto> length (locs s))" using s1(2) by (simp add: placed_def)
  have map: "the_loc_map s' = the_loc_map s1" by (simp add: s'_def the_loc_map_def)
  then have idx': "loc_index s' = loc_index s1" by (simp add: loc_index_def)
  have locs: "length (locs s') = length (locs s1)" "locs s' ! i = (if i = length (locs s) then l else locs s1 ! i)" for i
    using f(7) by (auto simp: s'_def l_def mk_loc_def nth_append)
  have run: "gbind (gbind (nnc_make_ds_loc a) (\<lambda>i. gbind (if b then set_offset i else gret ()) (\<lambda>_. gret i))) loc_value s = Inr (l, s')"
    using s1(1) f(7) make_label [OF s(2), of s] locs(2) [of "length (locs s)"]
    by (simp add: nnc_make_ds_loc_def gbind_def w_def [symmetric] set_offset_def gput_def gret_def loc_value_def gget_def s'_def l_def mk_loc_def)
  have bound: "i < length (locs s)" if "loc_index s k = Some i" for k i using ok(1) that by (auto simp: map_ok_def)
  have loc: "location s' = (location s)(label_of a \<mapsto> l)"
  proof
    fix k
    show "location s' k = ((location s)(label_of a \<mapsto> l)) k"
      using bound [of k] f(7) by (cases "loc_index s k") (auto simp: location_def idx' idx locs nth_append)
  qed
  have fields: "a_lr s' = a_lr s" "a_types s' = a_types s" "l_stack s' = l_stack s" "lr_vec s' = lr_vec s"
    using f by (simp_all add: s'_def)
  have "map_ok s'" using f(1) by (simp add: map_ok_def map idx' locs(1))
  moreover have "held s' = held s" using s(3) by (auto simp: held_def loc l_def mk_loc_def w_def fun_eq_iff)
  then have "regs_ok s' now" using same_regs [OF fields(1,4)] s(1) by (simp add: alloc_ok_def)
  moreover have "frame_ok s'"
    using s(1) by (intro same_frame [OF fields(2,3)]) (auto simp: loc l_def w_def mk_loc_def alloc_ok_def split: if_splits)
  ultimately have "alloc_ok s' now" using s(1) by (simp add: alloc_ok_def same_ranges(1) [OF fields(1)])
  then show ?thesis unfolding stores_def run using loc fields by auto
qed


section \<open>Any address of the quads\<close>

lemma gbind_steps: "gbind (gret x) f = f x" "gbind (gassert True) g = g ()"
  by (simp_all add: gbind_def gret_def gassert_def fun_eq_iff)

definition in_data :: "nnc_3a_addr \<Rightarrow> bool" where
  "in_data a \<longleftrightarrow> akind a = ADDR_NAME \<and> (exact a = ictx_num IDENT_GLOBAL \<or> exact a = ictx_num IDENT_FUNCTION)"

definition storable :: "types \<Rightarrow> nnc_3a_addr \<Rightarrow> bool" where
  "storable ts a \<longleftrightarrow> stored a \<and> (in_data a \<or> (case atype a of None \<Rightarrow> False
     | Some t \<Rightarrow> nnc_sizeof ts t \<noteq> None \<and> (akind a = ADDR_CGT \<longrightarrow> nnc_real_type ts t = Some False)))"

lemma storableD:
  assumes "storable (a_types s) a"
  shows "stored a" "\<not> in_data a \<Longrightarrow> sized s (atype a)" "akind a = ADDR_CGT \<Longrightarrow> gtype nnc_real_type (atype a) s = Inr (False, s)"
  using assms by (auto simp: storable_def sized_def in_data_def gtype_def gen_run split: option.splits)

lemma get_lr_run:
  assumes "ranges_ok s" "akind a = ADDR_CGT" "lr_index (a_lr s) (Temp (exact a)) = Some j"
  shows "nnc_get_lr a s = Inr (Some j, s)"
proof -
  have i: "map_inv int_keys (lr_cgt (a_lr s))" "map_abs int_keys (lr_cgt (a_lr s)) (exact a) = Some j"
    using assms by (simp_all add: ranges_ok_def lr_inv_def lr_index_def)
  show ?thesis
    using int_dict.has_abs [OF i(1), of "exact a"] int_dict.get_abs [OF i]
    by (simp add: nnc_get_lr_def gbind_def gget_def assms(2) from_res_gen_def i(2) gret_def)
qed

lemma stores_opened: "stores a (opened s) now r \<longleftrightarrow> stores a s now r"
  by (simp add: stores_def)

lemma store_cgt_stores:
  assumes s: "alloc_ok s now" "akind a = ADDR_CGT" "location s (label_of a) = None" "storable (a_types s) a"
    and j: "lr_index (a_lr s) (Temp (exact a)) = Some j" "now \<le> starts (temp_range s (exact a))"
    and room: "unat (l_stack s) + size_at s (atype a) \<le> 2 ^ 15"
  shows "stores a s (starts (temp_range s (exact a))) (nnc_store_cgt a s)"
proof -
  have r: "ranges_ok s" using s(1) by (simp add: alloc_ok_def)
  have sz: "sized s (atype a)" using storableD(2) [OF s(4)] s(2) by (simp add: in_data_def)
  obtain x where x: "find_reg int_p_local (Some j) s = Inr (x, s)" "case x of None \<Rightarrow> True | Some r \<Rightarrow> r \<in> set int_p_local \<and> fits s (exact a) r"
    using find_reg_run [OF s(1) j int_p_local_in] by blast
  have run: "nnc_store_cgt a s =
     gbind (case x of None \<Rightarrow> nnc_make_ss_loc a | Some r \<Rightarrow> gbind (nnc_update_reg r (Some j)) (\<lambda>_. nnc_make_reg_loc r a)) loc_value s"
    by (simp add: nnc_store_cgt_def gbind_def gassert_def s(2) gret_def storableD(3) [OF s(4,2)] get_lr_run [OF r s(2) j(1)] x(1) split: option.split)
  show ?thesis
  proof (cases x)
    case None
    show ?thesis unfolding run None option.case
      by (rule stack_stores [OF alloc_ok_mono [OF s(1) j(2)] storableD(1) [OF s(4)] s(3) sz room])
  next
    case (Some r)
    then have "fits s (exact a) r" "in_lr_vec r" using x(2) int_p_local_in by (auto simp: list_all_iff)
    from register_stores [OF s(1-3) j(1) this j(2)] show ?thesis unfolding run Some option.case .
  qed
qed

lemma store_var_stores:
  assumes "alloc_ok s now" "akind a = ADDR_NAME" "location s (label_of a) = None" "storable (a_types s) a"
    "unat (l_stack s) + size_at s (atype a) \<le> 2 ^ 15"
  shows "stores a s now (nnc_store_var a s)"
proof (cases "in_data a")
  case True
  then have "nnc_store_var a s = gbind (gbind (nnc_make_ds_loc a)
      (\<lambda>i. gbind (if exact a = ictx_num IDENT_FUNCTION then set_offset i else gret ()) (\<lambda>_. gret i))) loc_value s"
    by (auto simp: nnc_store_var_def in_data_def gbind_steps)
  then show ?thesis using data_stores [OF assms(1) storableD(1) [OF assms(4)] assms(3)] by simp
next
  case False
  then have "nnc_store_var a s = gbind (nnc_make_ss_loc a) loc_value s"
    using assms(2) by (auto simp: nnc_store_var_def in_data_def gbind_steps)
  then show ?thesis using stack_stores [OF assms(1) storableD(1) [OF assms(4)] assms(3) storableD(2) [OF assms(4) False] assms(5)] by simp
qed

lemma store_stores:
  assumes s: "alloc_ok s now" "storable (a_types s) a" "unat (l_stack s) + size_at s (atype a) \<le> 2 ^ 15" "now \<le> now'"
    and new: "location s (label_of a) = None \<Longrightarrow> akind a = ADDR_CGT \<Longrightarrow>
      \<exists>j. lr_index (a_lr s) (Temp (exact a)) = Some j \<and> starts (temp_range s (exact a)) = now'"
  shows "stores a s now' (nnc_store a s)"
proof (cases "location s (label_of a)")
  case (Some l)
  have m: "map_ok s" using s(1) by (simp add: alloc_ok_def)
  have "nnc_store a s = Inr (l, opened s)" by (rule store_known [OF storableD(1) [OF s(2)] m Some])
  moreover have "(location s)(label_of a \<mapsto> l) = location s" using Some by auto
  ultimately show ?thesis using alloc_ok_mono [OF s(1,4)] by (simp add: stores_def)
next
  case None
  have m: "map_ok s" using s(1) by (simp add: alloc_ok_def)
  have st: "stored a" by (rule storableD(1) [OF s(2)])
  define o' where "o' = opened s"
  have o: "alloc_ok o' now" "location o' (label_of a) = None" "storable (a_types o') a" "unat (l_stack o') + size_at o' (atype a) \<le> 2 ^ 15"
    "a_lr o' = a_lr s"
    using s None by (simp_all add: o'_def)
  have run: "nnc_store a s = (if akind a = ADDR_CGT then nnc_store_cgt a o' else nnc_store_var a o')"
    using st None by (auto simp: nnc_store_def gbind_def get_loc_run [OF st m] location_None stored_def o'_def)
  have "stores a o' now' (nnc_store a s)"
  proof (cases "akind a = ADDR_CGT")
    case True
    obtain j where j: "lr_index (a_lr s) (Temp (exact a)) = Some j" "starts (temp_range s (exact a)) = now'" using new [OF None True] by blast
    have "temp_range o' = temp_range s" by (rule same_ranges(2) [OF o(5)])
    then show ?thesis using store_cgt_stores [OF o(1) True o(2,3), of j] j s(4) o(4,5) True by (simp add: run)
  next
    case False
    then have "akind a = ADDR_NAME" using st by (simp add: stored_def)
    from store_var_stores [OF alloc_ok_mono [OF o(1) s(4)] this o(2-4)] show ?thesis using False by (simp add: run)
  qed
  then show ?thesis by (simp add: o'_def stores_opened)
qed


end
