(* ===== verification/Nnc_SA_Apart.thy ===== *)
theory Nnc_SA_Apart
  imports Nnc_SA
begin

text \<open>
  What storage allocation promises to the generated code: addresses whose live ranges meet do not
  share a register, and slots of the frame do not overlap; and where the labels of addresses break it.
\<close>

section \<open>The addresses of the quads, in order\<close>

definition quad_addrs :: "nnc_quad \<Rightarrow> nnc_3a_addr list" where
  "quad_addrs q = filter (\<lambda>a. akind a = ADDR_CGT \<or> akind a = ADDR_NAME) [qres q, arg1 q, arg2 q]"

definition addrs :: "nnc_quad list \<Rightarrow> nnc_3a_addr list" where
  "addrs qs = concat (map quad_addrs qs)"

definition store_all :: "nnc_3a_addr list \<Rightarrow> unit gen" where
  "store_all = giter (\<lambda>a. gbind (nnc_store a) (\<lambda>_. gret ()))"

text \<open>The bytes of the addresses, each label counted once.\<close>

fun frame_size :: "types \<Rightarrow> string list \<Rightarrow> nnc_3a_addr list \<Rightarrow> nat" where
  "frame_size ts ls [] = 0"
| "frame_size ts ls (a # as) =
     (if label_of a \<in> set ls then 0 else case atype a of None \<Rightarrow> 0 | Some t \<Rightarrow> (case nnc_sizeof ts t of None \<Rightarrow> 0 | Some n \<Rightarrow> unat n))
     + frame_size ts (label_of a # ls) as"

definition fresh_storage :: "cgen \<Rightarrow> bool" where
  "fresh_storage s \<longleftrightarrow> (\<forall>r. lr_vec s r = None) \<and> loc_map s = None \<and> l_stack s = 0"

lemma giter_append: "giter f (xs @ ys) s = bind_res (giter f xs s) (\<lambda>r. giter f ys (snd r))"
  by (induction xs arbitrary: s) (simp_all add: gret_def gbind_def bind_res_assoc)

lemma temp_in_quad: "a \<in> set (quad_addrs q) \<Longrightarrow> akind a = ADDR_CGT \<Longrightarrow> Temp (exact a) \<in> set (quad_keys q)"
  by (auto simp: quad_addrs_def quad_keys_def addr_keys_def split: if_splits)

lemma key_in_quad: "Temp c \<in> set (quad_keys q) \<Longrightarrow> \<exists>a \<in> set (quad_addrs q). label_of a = temp_label c"
  by (auto simp: quad_addrs_def quad_keys_def addr_keys_def label_of_def temp_label_def split: nnc_3a_addr_kind.splits)

lemma fresh_ok:
  assumes "fresh_storage s" "ranges_ok s"
  shows "alloc_ok s now" "location s = Map.empty"
proof -
  have m: "the_loc_map s = nncmap_init NNC_MAP_INICAP" using assms(1) by (simp add: fresh_storage_def the_loc_map_def)
  have e: "loc_index s = Map.empty" by (auto simp: loc_index_def m NNC_MAP_INICAP_def nncmap_init_abs fun_eq_iff)
  then show l: "location s = Map.empty" by (simp add: location_def fun_eq_iff)
  have "map_ok s" using nncmap_init_inv [of 128 str_keys] by (simp add: map_ok_def e m NNC_MAP_INICAP_def)
  moreover have "reg_stack s r = []" "\<not> held s c r" for c r using assms(1) by (simp_all add: fresh_storage_def reg_stack_def held_def l)
  ultimately show "alloc_ok s now" using assms(2) by (simp add: alloc_ok_def regs_ok_def reg_ok_def frame_ok_def l)
qed

text \<open>The state behind the first uses: they are stored, and the frame has not grown beyond their size.\<close>

definition stored_up_to :: "nnc_quad list \<Rightarrow> nat \<Rightarrow> string set \<Rightarrow> cgen \<Rightarrow> bool" where
  "stored_up_to qs n L s \<longleftrightarrow> alloc_ok s (of_nat n) \<and> dom (location s) = L \<and>
     (\<forall>k. range_of (a_lr s) k = (case occurrences k qs of [] \<Rightarrow> None
       | i # is \<Rightarrow> Some (nnc_3a_mklr (of_nat i) (of_nat (last (i # is))))))"

lemma first_use:
  assumes "n < length qs" "a \<in> set (quad_addrs (qs ! n))" "akind a = ADDR_CGT" "temp_label (exact a) \<notin> label_of ` set (addrs (take n qs))"
  shows "\<exists>is. occurrences (Temp (exact a)) qs = n # is"
proof -
  let ?P = "\<lambda>i. Temp (exact a) \<in> set (quad_keys (qs ! i))"
  have "\<not> ?P i" if "i < n" for i
  proof
    assume "?P i"
    then obtain b where b: "b \<in> set (quad_addrs (qs ! i))" "label_of b = temp_label (exact a)" using key_in_quad by blast
    have "qs ! i \<in> set (take n qs)" using that assms(1) by (force simp: in_set_conv_nth)
    then have "b \<in> set (addrs (take n qs))" using b(1) by (auto simp: addrs_def)
    then show False using b(2) assms(4) by (metis imageI)
  qed
  then have "filter ?P [0..<n] = []" by (simp add: filter_empty_conv)
  moreover have "[0..<length qs] = [0..<n] @ n # [Suc n..<length qs]" 
    using upt_add_eq_append [of 0 n "length qs - n"] assms(1) by (simp add: upt_conv_Cons)
  ultimately show ?thesis using temp_in_quad [OF assms(2,3)] by (simp add: occurrences_def)
qed

lemma store_use:
  assumes s: "stored_up_to qs n L s" and n: "n < length qs" "length qs \<le> 2 ^ 31" "a \<in> set (quad_addrs (qs ! n))"
    and a: "storable (a_types s) a" "label_of ` set (addrs (take n qs)) \<subseteq> L"
    and room: "unat (l_stack s) + (if label_of a \<in> L then 0 else size_at s (atype a)) \<le> 2 ^ 15"
  shows "\<exists>l s'. nnc_store a s = Inr (l, s') \<and> stored_up_to qs n (insert (label_of a) L) s' \<and> a_types s' = a_types s \<and>
     unat (l_stack s') \<le> unat (l_stack s) + (if label_of a \<in> L then 0 else size_at s (atype a))"
proof (cases "label_of a \<in> L")
  case True
  then obtain l where l: "location s (label_of a) = Some l" using s by (auto simp: stored_up_to_def)
  have m: "map_ok s" using s by (simp add: stored_up_to_def alloc_ok_def)
  have "nnc_store a s = Inr (l, opened s)" by (rule store_known [OF storableD(1) [OF a(1)] m l])
  moreover have "insert (label_of a) L = L" using True by blast
  ultimately show ?thesis using s by (simp add: stored_up_to_def)
next
  case False
  have none: "location s (label_of a) = None" using s False by (auto simp: stored_up_to_def)
  have "\<exists>j. lr_index (a_lr s) (Temp (exact a)) = Some j \<and> starts (temp_range s (exact a)) = of_nat n" if c: "akind a = ADDR_CGT"
  proof -
    have "temp_label (exact a) = label_of a" using c by (simp add: label_of_def temp_label_def)
    then have "temp_label (exact a) \<notin> label_of ` set (addrs (take n qs))" using False a(2) by auto
    from first_use [OF n(1,3) c this] obtain "is" where "occurrences (Temp (exact a)) qs = n # is" by blast
    then have "range_of (a_lr s) (Temp (exact a)) = Some (nnc_3a_mklr (of_nat n) (of_nat (last (n # is))))"
      using s by (simp add: stored_up_to_def)
    then show ?thesis by (auto simp: temp_range_def range_of_def nnc_3a_mklr_def)
  qed
  then have "stores a s (of_nat n) (nnc_store a s)"
    using store_stores [OF _ a(1), of "of_nat n" "of_nat n"] s room False by (simp add: stored_up_to_def)
  then show ?thesis using False s by (auto simp: stores_def stored_up_to_def)
qed


lemma frame_size_append: "frame_size ts ls (xs @ ys) = frame_size ts ls xs + frame_size ts (map label_of (rev xs) @ ls) ys"
  by (induction xs arbitrary: ls) simp_all

lemma frame_size_set: "set ls = set ls' \<Longrightarrow> frame_size ts ls xs = frame_size ts ls' xs"
proof (induction xs arbitrary: ls ls')
  case (Cons a xs)
  have "frame_size ts (label_of a # ls) xs = frame_size ts (label_of a # ls') xs" using Cons.prems by (intro Cons.IH) simp
  then show ?case using Cons.prems by simp
qed simp

lemma store_quad:
  assumes "stored_up_to qs n (set ls) s" "n < length qs" "length qs \<le> 2 ^ 31" "set as \<subseteq> set (quad_addrs (qs ! n))"
    "list_all (storable (a_types s)) as" "label_of ` set (addrs (take n qs)) \<subseteq> set ls"
    "unat (l_stack s) + frame_size (a_types s) ls as \<le> 2 ^ 15"
  shows "\<exists>s'. store_all as s = Inr ((), s') \<and> stored_up_to qs n (label_of ` set as \<union> set ls) s' \<and> a_types s' = a_types s \<and>
    unat (l_stack s') \<le> unat (l_stack s) + frame_size (a_types s) ls as"
  using assms(1,4-7)
proof (induction as arbitrary: s ls)
  case Nil
  then show ?case by (simp add: store_all_def gret_def)
next
  case (Cons a as)
  have sz: "frame_size (a_types s) ls (a # as) = (if label_of a \<in> set ls then 0 else size_at s (atype a)) + frame_size (a_types s) (label_of a # ls) as"
    by (simp add: size_at_def)
  have mem: "a \<in> set (quad_addrs (qs ! n))" "storable (a_types s) a" using Cons.prems(2,3) by simp_all
  have room: "unat (l_stack s) + (if label_of a \<in> set ls then 0 else size_at s (atype a)) \<le> 2 ^ 15" using Cons.prems(5) sz by linarith
  obtain l s1 where s1: "nnc_store a s = Inr (l, s1)" "stored_up_to qs n (insert (label_of a) (set ls)) s1" "a_types s1 = a_types s"
    "unat (l_stack s1) \<le> unat (l_stack s) + (if label_of a \<in> set ls then 0 else size_at s (atype a))"
    using store_use [OF Cons.prems(1) assms(2,3) mem(1,2) Cons.prems(4) room] by auto
  have "\<exists>s'. store_all as s1 = Inr ((), s') \<and> stored_up_to qs n (label_of ` set as \<union> set (label_of a # ls)) s' \<and> a_types s' = a_types s1 \<and>
    unat (l_stack s') \<le> unat (l_stack s1) + frame_size (a_types s1) (label_of a # ls) as"
    using Cons.prems s1 sz by (intro Cons.IH) auto
  then obtain s' where s': "store_all as s1 = Inr ((), s')" "stored_up_to qs n (label_of ` set as \<union> set (label_of a # ls)) s'"
    "a_types s' = a_types s" "unat (l_stack s') \<le> unat (l_stack s1) + frame_size (a_types s) (label_of a # ls) as"
    using s1(3) by auto
  have "store_all (a # as) s = Inr ((), s')" using s1(1) s'(1) by (simp add: store_all_def gbind_def gret_def)
  moreover have "label_of ` set (a # as) \<union> set ls = label_of ` set as \<union> set (label_of a # ls)" by auto
  ultimately show ?case using s' s1(4) sz by (intro exI [of _ s']) auto
qed

lemma addrs_take: "n < length qs \<Longrightarrow> addrs (take (Suc n) qs) = addrs (take n qs) @ quad_addrs (qs ! n)"
  by (simp add: addrs_def take_Suc_conv_app_nth)

lemma stored_mono: "stored_up_to qs n L s \<Longrightarrow> n < length qs \<Longrightarrow> length qs \<le> 2 ^ 31 \<Longrightarrow> stored_up_to qs (Suc n) L s"
proof -
  assume a: "stored_up_to qs n L s" "n < length qs" "length qs \<le> 2 ^ 31"
  have "(of_nat n :: u32) \<le> of_nat (Suc n)" using a(2,3) by (simp add: word_le_nat_alt unat_of_nat take_bit_nat_eq_self del: of_nat_Suc)
  then show ?thesis using a(1) alloc_ok_mono by (auto simp: stored_up_to_def simp del: of_nat_Suc)
qed

lemma store_quads:
  assumes "stored_up_to qs 0 {} s" "length qs \<le> 2 ^ 31" "list_all (storable (a_types s)) (addrs qs)" "l_stack s = 0"
    "frame_size (a_types s) [] (addrs qs) \<le> 2 ^ 15" "n \<le> length qs"
  shows "\<exists>s'. store_all (addrs (take n qs)) s = Inr ((), s') \<and> stored_up_to qs n (label_of ` set (addrs (take n qs))) s' \<and>
    a_types s' = a_types s \<and> unat (l_stack s') \<le> frame_size (a_types s) [] (addrs (take n qs))"
  using assms(6)
proof (induction n)
  case 0
  then show ?case using assms(1,4) by (simp add: addrs_def store_all_def gret_def)
next
  case (Suc n)
  then have n: "n < length qs" by simp
  let ?as = "addrs (take n qs)" and ?q = "quad_addrs (qs ! n)"
  obtain s1 where s1: "store_all ?as s = Inr ((), s1)" "stored_up_to qs n (label_of ` set ?as) s1" "a_types s1 = a_types s"
    "unat (l_stack s1) \<le> frame_size (a_types s) [] ?as" using Suc by auto
  define ls where "ls = map label_of (rev ?as)"
  have ls: "set ls = label_of ` set ?as" by (simp add: ls_def)
  have split: "addrs qs = addrs (take (Suc n) qs) @ addrs (drop (Suc n) qs)"
    unfolding addrs_def by (simp only: concat_append [symmetric] map_append [symmetric] append_take_drop_id)
  have st: "list_all (storable (a_types s1)) ?q" using assms(3) s1(3) unfolding split addrs_take [OF n] by simp
  have fs: "frame_size (a_types s) [] (addrs (take (Suc n) qs)) = frame_size (a_types s) [] ?as + frame_size (a_types s) ls ?q"
    by (simp add: addrs_take [OF n] frame_size_append ls_def)
  moreover have "frame_size (a_types s) [] (addrs (take (Suc n) qs)) \<le> 2 ^ 15" using assms(5) unfolding split frame_size_append by simp
  ultimately have room: "unat (l_stack s1) + frame_size (a_types s1) ls ?q \<le> 2 ^ 15" using s1(3,4) by simp
  obtain s' where s': "store_all ?q s1 = Inr ((), s')" "stored_up_to qs n (label_of ` set ?q \<union> set ls) s'" "a_types s' = a_types s1"
    "unat (l_stack s') \<le> unat (l_stack s1) + frame_size (a_types s1) ls ?q"
    using store_quad [of qs n ls s1 ?q] s1(2) n assms(2) st room ls by auto
  have "store_all (addrs (take (Suc n) qs)) s = Inr ((), s')"
    using s1(1) s'(1) by (simp add: addrs_take [OF n] store_all_def giter_append)
  moreover have "label_of ` set ?q \<union> set ls = label_of ` set (addrs (take (Suc n) qs))" by (auto simp: addrs_take [OF n] ls)
  then have "stored_up_to qs (Suc n) (label_of ` set (addrs (take (Suc n) qs))) s'" using stored_mono [OF s'(2) n assms(2)] by simp
  ultimately show ?case using s' s1(3,4) fs by (intro exI [of _ s']) auto
qed

lemma storage_run:
  assumes "length qs \<le> 2 ^ 31" "nnc_3a_make_lr_for_proc qs fresh_lr_proc = Inr p" "fresh_storage s" "a_lr s = p"
    "list_all (storable (a_types s)) (addrs qs)" "frame_size (a_types s) [] (addrs qs) \<le> 2 ^ 15"
  shows "\<exists>s'. store_all (addrs qs) s = Inr ((), s') \<and> stored_up_to qs (length qs) (label_of ` set (addrs qs)) s' \<and> a_types s' = a_types s"
proof -
  obtain p' where p': "nnc_3a_make_lr_for_proc qs fresh_lr_proc = Inr p'" "lr_inv p'"
    "\<forall>k. range_of p' k = (case occurrences k qs of [] \<Rightarrow> None
       | i # is \<Rightarrow> Some (nnc_3a_mklr (of_nat i) (of_nat (last (i # is)))))" using make_lr_ranges [OF assms(1)] by blast
  have eq: "p' = p" using p'(1) assms(2) by simp
  have "starts r \<le> ends r" if r: "range_of p k = Some r" for k r
  proof -
    obtain i "is" where i: "occurrences k qs = i # is" "r = nnc_3a_mklr (of_nat i) (of_nat (last (i # is)))"
      using r p'(3) by (auto simp: eq split: list.splits)
    have s: "sorted (occurrences k qs)" "\<forall>j \<in> set (occurrences k qs). j < length qs"
      by (simp_all add: occurrences_def sorted_wrt_filter)
    have "last (i # is) \<in> set (occurrences k qs)" unfolding i(1) by (rule last_in_set) simp
    then have "i \<le> last (i # is)" "last (i # is) < length qs" using s i(1) by (auto simp: i(1))
    then show ?thesis using assms(1) by (simp add: i(2) nnc_3a_mklr_def word_le_nat_alt unat_of_nat take_bit_nat_eq_self)
  qed
  then have "ranges_ok s" using p'(2) by (simp add: ranges_ok_def assms(4) eq)
  note f = fresh_ok [OF assms(3) this]
  have "stored_up_to qs 0 {} s" using f p'(3) by (simp add: stored_up_to_def assms(4) eq)
  from store_quads [OF this assms(1,5) _ assms(6), of "length qs"] assms(3) show ?thesis by (auto simp: fresh_storage_def)
qed


section \<open>Properties\<close>

lemma sorted_last: "sorted xs \<Longrightarrow> x \<in> set xs \<Longrightarrow> x \<le> last xs" for x :: nat
  by (induction xs) (auto split: if_splits)

lemma occurrences_bounds:
  assumes "occurrences k qs = i # is" "j \<in> set (occurrences k qs)"
  shows "i \<le> j" "j \<le> last (i # is)" "j < length qs"
proof -
  have s: "sorted (occurrences k qs)" by (simp add: occurrences_def sorted_wrt_filter)
  show "i \<le> j" using s assms by auto
  show "j \<le> last (i # is)" using sorted_last [OF s assms(2)] by (simp only: assms(1))
  show "j < length qs" using assms(2) by (simp add: occurrences_def)
qed

lemma stored_location: "stored_up_to qs n L s \<Longrightarrow> k \<in> L \<Longrightarrow> \<exists>l. location s k = Some l"
  unfolding stored_up_to_def by blast

lemma before_occurrences:
  assumes s: "stored_up_to qs n L s" "length qs \<le> 2 ^ 31" and b: "before s c d"
    and i: "i \<in> set (occurrences (Temp c) qs)" and j: "j \<in> set (occurrences (Temp d) qs)"
  shows "i < j"
proof -
  obtain i0 "is" where iq: "occurrences (Temp c) qs = i0 # is" using i by (cases "occurrences (Temp c) qs") auto
  obtain j0 js where js: "occurrences (Temp d) qs = j0 # js" using j by (cases "occurrences (Temp d) qs") auto
  have r: "temp_range s c = nnc_3a_mklr (of_nat i0) (of_nat (last (i0 # is)))" "temp_range s d = nnc_3a_mklr (of_nat j0) (of_nat (last (j0 # js)))"
    using s(1) iq js by (simp_all add: stored_up_to_def temp_range_def)
  have "last (i0 # is) \<in> set (occurrences (Temp c) qs)" "j0 \<in> set (occurrences (Temp d) qs)"
    unfolding iq js by (rule last_in_set, simp) simp
  then have "last (i0 # is) < length qs" "j0 < length qs"
    using occurrences_bounds(3) [OF iq] occurrences_bounds(3) [OF js] by blast+
  then have "last (i0 # is) < j0"
    using b s(2) by (simp add: before_def r nnc_3a_mklr_def word_less_nat_alt unat_of_nat take_bit_nat_eq_self)
  then show ?thesis using occurrences_bounds(2) [OF iq i] occurrences_bounds(1) [OF js j] by simp
qed



text \<open>Addresses with one label have one location, whatever they are: the label is all that the map knows.\<close>

lemma one_label_one_location:
  assumes "alloc_ok s now" "storable (a_types s) a" "stored b" "label_of b = label_of a" "location s (label_of a) = Some l"
  shows "\<exists>t u. nnc_store a s = Inr (l, t) \<and> nnc_store b s = Inr (l, u)"
  using assms store_known [of a s l] store_known [of b s l] storableD(1) [OF assms(2)] by (simp add: alloc_ok_def)

lemma label_clashes:
  "label_of (local_addr ''c_1'' t) = label_of (cgt_addr 1 t')"
  "label_of ((local_addr x t)\<lparr>exact := ictx_num IDENT_GLOBAL\<rparr>) = label_of (local_addr x t')"
  by (simp_all add: label_of_def local_addr_def cgt_addr_def dec_digits.simps digit_chr_def)

section \<open>An example\<close>

definition storage_example :: "nnc_quad list" where
  "storage_example =
     [quad2 OP_COPY (cgt_addr 1 (Some i32_type)) (nnc_3a_mki3 7), quad2 OP_COPY (cgt_addr 2 (Some i32_type)) (local_addr ''x'' (Some i32_type)),
      quad3 OP_ADD (cgt_addr 3 (Some i32_type)) (cgt_addr 1 (Some i32_type)) (cgt_addr 2 (Some i32_type)),
      quad2 OP_COPY (local_addr ''y'' (Some i64_type)) (cgt_addr 3 (Some i32_type))]"

definition empty_cgen :: "types \<Rightarrow> lr_proc \<Rightarrow> nnc_quad list \<Rightarrow> cgen" where
  "empty_cgen ts p qs = \<lparr>a_types = ts, a_lr = p, lr_vec = (\<lambda>_. None), str_counter = 0, str_map = None, locs = [], loc_map = None,
     a_name = [], a_quads = qs, quad_pointer = 0, p_stack = 0, p_stack_pad = 0, l_stack = 0, stack_alloc = 0, junk = (\<lambda>_. 8),
     call_states = [], seg_text = [], seg_data = []\<rparr>"

lemma static_sizes:
  "nnc_sizeof static_types i32_type = Some 4" "nnc_sizeof static_types i64_type = Some 8" "nnc_real_type static_types i32_type = Some False"
proof -
  have a: "nnc_unalias static_types t = Some t" if "t = 5 \<or> t = 8" for t
    using that by (subst nnc_unalias.simps) (auto simp: tget_def static_types_def base_type_def)
  show "nnc_sizeof static_types i32_type = Some 4" "nnc_sizeof static_types i64_type = Some 8" "nnc_real_type static_types i32_type = Some False"
    using a [of 5] a [of 8] kind_of_static [of 5 "[]"] kind_of_static [of 8 "[]"]
    by (simp_all add: nnc_sizeof_def nnc_incomplete_type_def nnc_real_type_def kind_in_def)
      (simp_all add: tget_def static_types_def base_type_def real_kinds_def)
qed

lemma storage_example_ok:
  "length storage_example \<le> 2 ^ 31" "list_all (storable static_types) (addrs storage_example)"
  "frame_size static_types [] (addrs storage_example) \<le> 2 ^ 15"
  by (simp_all add: storage_example_def addrs_def quad_addrs_def quad3_def cgt_addr_def local_addr_def nnc_3a_mki3_def no_addr_def)
    (simp_all add: storable_def stored_def in_data_def LOC_LABEL_SIZE_def static_sizes label_of_def split: if_splits)


lemma storage_example_fresh: "fresh_storage (empty_cgen ts p qs)" "a_lr (empty_cgen ts p qs) = p" "a_types (empty_cgen ts p qs) = ts"
  by (simp_all add: fresh_storage_def empty_cgen_def)




end
