(* ===== verification/Nnc_Gen.thy ===== *)
theory Nnc_Gen
  imports Nnc_SA Nnc_Buf Nnc_Eval Nnc_3A
begin

text \<open>
  Code generation, \<^verbatim>\<open>src/src/nnc_gen.c\<close>: the assembly text of a procedure, quad by quad, and the
  bytes of the global variables and strings, on the state \<open>cgen\<close> of the storage allocation.
  \<open>seg_text\<close> is the blob of the procedure that is generated, \<open>seg_data\<close> the data segment of the
  file. \<open>stack_alloc\<close> is a signed counter, so its sign is read with \<open>sint\<close>.
\<close>

section \<open>Text\<close>

text \<open>One step after the other.\<close>

definition gseq :: "unit gen list \<Rightarrow> unit gen" where
  "gseq ms = foldr (\<lambda>m k. gbind m (\<lambda>_. k)) ms (gret ())"

definition lf :: string where "lf = [CHR 0x0A]"
definition crlf :: string where "crlf = [CHR 0x0D, CHR 0x0A]"

text \<open>A formatted text that does not fit the buffer of \<^verbatim>\<open>nnc_blob_buf_putf\<close> is read behind its end.\<close>

definition GEN_TEXT :: "string \<Rightarrow> unit gen" where
  "GEN_TEXT x = (if FMEMOPEN_BUF_GROWTH \<le> length x then gfail Crash else gput (\<lambda>s. s\<lparr>seg_text := seg_text s @ x\<rparr>))"

definition GEN_DATA :: "string \<Rightarrow> unit gen" where
  "GEN_DATA x = (if FMEMOPEN_BUF_GROWTH \<le> length x then gfail Crash else gput (\<lambda>s. s\<lparr>seg_data := seg_data s @ x\<rparr>))"

definition GEN_INST :: "string \<Rightarrow> unit gen" where
  "GEN_INST x = GEN_TEXT (''  '' @ x @ '' '')"

definition reg_text :: "nnc_reg \<Rightarrow> string gen" where
  "reg_text r = (if r = R_NONE then gfail Crash else gret (glob_reg_str r))"

definition nnc_mkloc_reg :: "nnc_reg \<Rightarrow> tref option \<Rightarrow> nnc_loc" where
  "nnc_mkloc_reg r t = mk_loc (L_REG r) t"

definition REG_LOC :: "nnc_reg \<Rightarrow> nnc_loc" where
  "REG_LOC r = mk_loc (L_REG r) None"

text \<open>The register of a location that has to be one.\<close>

definition loc_reg :: "nnc_loc \<Rightarrow> nnc_reg gen" where
  "loc_reg l = (case loc_at l of L_REG r \<Rightarrow> gret r | _ \<Rightarrow> gfail AssertFail)"

definition in_mem :: "nnc_loc \<Rightarrow> bool" where
  "in_mem l \<longleftrightarrow> (case loc_at l of L_STACK _ \<Rightarrow> True | L_DATA _ \<Rightarrow> True | _ \<Rightarrow> False)"

definition in_dseg :: "nnc_loc \<Rightarrow> bool" where
  "in_dseg l \<longleftrightarrow> (case loc_at l of L_DATA _ \<Rightarrow> True | _ \<Rightarrow> False)"

definition loc_imm :: "nnc_loc \<Rightarrow> u64 gen" where
  "loc_imm l = (case loc_at l of L_IMM v \<Rightarrow> gret v | _ \<Rightarrow> gfail AssertFail)"

section \<open>The stack\<close>

definition NNC_STACK_ALIGN :: u32 where "NNC_STACK_ALIGN = 16"

definition stack_moved :: "u32 \<Rightarrow> unit gen" where
  "stack_moved n = gput (\<lambda>s. s\<lparr>stack_alloc := stack_alloc s + n\<rparr>)"

definition stack_valid :: "unit gen" where
  "stack_valid = gbind (gget stack_alloc) (\<lambda>n. gassert (0 \<le> sint n))"

definition nnc_gen_push :: "nnc_loc \<Rightarrow> unit gen" where
  "nnc_gen_push l = gbind (loc_reg l) (\<lambda>r. gseq
     [GEN_INST ''push'', gbind (reg_text r) GEN_TEXT, GEN_TEXT crlf, stack_moved 8])"

definition nnc_gen_pop :: "nnc_loc \<Rightarrow> unit gen" where
  "nnc_gen_pop l = gbind (loc_reg l) (\<lambda>r. gseq
     [GEN_INST ''pop'', gbind (reg_text r) GEN_TEXT, GEN_TEXT crlf, stack_moved (- 8), stack_valid])"

definition nnc_gen_alloc_stack :: "u32 \<Rightarrow> unit gen" where
  "nnc_gen_alloc_stack n = (if n \<noteq> 0 then gseq
     [GEN_INST ''sub'', GEN_TEXT (''rsp,'' @ dec_digits (unat n) @ lf), stack_moved n] else gret ())"

definition nnc_gen_dealloc_stack :: "u32 \<Rightarrow> unit gen" where
  "nnc_gen_dealloc_stack n = gseq
     [if n \<noteq> 0 then gseq [GEN_INST ''add'', GEN_TEXT (''rsp,'' @ dec_digits (unat n) @ lf), stack_moved (- n)] else gret (),
      stack_valid]"

definition nnc_get_stack_pad :: "u32 \<Rightarrow> u32" where
  "nnc_get_stack_pad n = (let pad = n mod NNC_STACK_ALIGN in
     if pad \<noteq> 0 then (NNC_STACK_ALIGN - pad) mod NNC_STACK_ALIGN else pad)"

definition nnc_gen_align_stack :: "u32 \<Rightarrow> u32 gen" where
  "nnc_gen_align_stack n = (let pad = nnc_get_stack_pad n in
     gbind (if pad \<noteq> 0 then gseq
         [GEN_TEXT (''# alignment'' @ lf),
          if pad = 8 then nnc_gen_push (REG_LOC R_R15)
          else gseq [GEN_INST ''and'', GEN_TEXT ''rsp,0xfffffffffffffff0'',
            gput (\<lambda>s. s\<lparr>stack_alloc := stack_alloc s + nnc_get_stack_pad (stack_alloc s)\<rparr>), GEN_TEXT crlf]]
       else gret ()) (\<lambda>_. gret pad))"

section \<open>Operands\<close>

definition nnc_get_ptr_size :: "tref option \<Rightarrow> string gen" where
  "nnc_get_ptr_size t = gbind (gtype nnc_arr_or_ptr_type t) (\<lambda>p. if p then gret ''qword'' else
     gbind (gtype nnc_sizeof t) (\<lambda>n.
       if n = 1 then gret ''byte'' else if n = 2 then gret ''word'' else if n = 4 then gret ''dword''
       else if n = 8 then gret ''qword'' else gfail Abort))"

fun int_names :: "nnc_reg \<Rightarrow> string list option" where
  "int_names R_RAX = Some [''al'', ''ax'', ''eax'', ''rax'']"
| "int_names R_RBX = Some [''bl'', ''bx'', ''ebx'', ''rbx'']"
| "int_names R_RCX = Some [''cl'', ''cx'', ''ecx'', ''rcx'']"
| "int_names R_RDX = Some [''dl'', ''dx'', ''edx'', ''rdx'']"
| "int_names R_RSI = Some [''sil'', ''si'', ''esi'', ''rsi'']"
| "int_names R_RDI = Some [''dil'', ''di'', ''edi'', ''rdi'']"
| "int_names R_R8 = Some [''r8b'', ''r8w'', ''r8d'', ''r8'']"
| "int_names R_R9 = Some [''r9b'', ''r9w'', ''r9d'', ''r9'']"
| "int_names R_R10 = Some [''r10b'', ''r10w'', ''r10d'', ''r10'']"
| "int_names R_R11 = Some [''r11b'', ''r11w'', ''r11d'', ''r11'']"
| "int_names R_R12 = Some [''r12b'', ''r12w'', ''r12d'', ''r12'']"
| "int_names R_R13 = Some [''r13b'', ''r13w'', ''r13d'', ''r13'']"
| "int_names R_R14 = Some [''r14b'', ''r14w'', ''r14d'', ''r14'']"
| "int_names R_R15 = Some [''r15b'', ''r15w'', ''r15d'', ''r15'']"
| "int_names _ = None"

definition nnc_get_reg_of_size :: "nnc_reg \<Rightarrow> u64 \<Rightarrow> string gen" where
  "nnc_get_reg_of_size r n =
     (if r \<in> set [R_XMM0, R_XMM1, R_XMM2, R_XMM3, R_XMM4, R_XMM5, R_XMM6, R_XMM7] then gret (glob_reg_str r)
      else if n \<notin> set [1, 2, 4, 8] then gfail Abort
      else gbind (from_opt (int_names r)) (\<lambda>ns.
        gret (ns ! (if n = 1 then 0 else if n = 2 then 1 else if n = 4 then 2 else 3))))"

definition nnc_get_reg_of_type :: "nnc_reg \<Rightarrow> tref option \<Rightarrow> string gen" where
  "nnc_get_reg_of_type r t = gbind (gtype nnc_arr_or_ptr_type t) (\<lambda>p. if p then nnc_get_reg_of_size r 8 else
     gbind (gtype nnc_real_type t) (\<lambda>b. if b then nnc_get_reg_of_size r 8 else
     gbind (gtype nnc_sizeof t) (nnc_get_reg_of_size r)))"

definition nnc_addr_inside_reg :: "nnc_3a_addr \<Rightarrow> nnc_reg \<Rightarrow> bool gen" where
  "nnc_addr_inside_reg a r = gbind (nnc_get_loc a) (\<lambda>i. case i of None \<Rightarrow> gret False
     | Some i \<Rightarrow> gbind (loc_value i) (\<lambda>l. gret (loc_at l = L_REG r)))"

definition nnc_addr_inside :: "nnc_3a_addr \<Rightarrow> (nnc_loc \<Rightarrow> bool) \<Rightarrow> bool gen" where
  "nnc_addr_inside a at_loc = gbind (nnc_get_loc a) (\<lambda>i. case i of None \<Rightarrow> gret False
     | Some i \<Rightarrow> gbind (loc_value i) (\<lambda>l. gret (at_loc l)))"

text \<open>\<open>junk\<close> is \<^verbatim>\<open>glob_junk_vec\<close>; it has 21 entries, too.\<close>

definition nnc_reset_junk_vec :: "unit gen" where
  "nnc_reset_junk_vec = gput (\<lambda>s. s\<lparr>junk := (\<lambda>r. if in_lr_vec r then 8 else junk s r)\<rparr>)"

definition get_junk :: "nnc_reg \<Rightarrow> u64 gen" where
  "get_junk r = (if in_lr_vec r then gget (\<lambda>s. of_nat (junk s r)) else gfail Crash)"

definition nnc_pollute :: "nnc_reg \<Rightarrow> u8 \<Rightarrow> unit gen" where
  "nnc_pollute r n = gseq [gassert (n \<in> set [0, 1, 2, 4, 8]),
     if in_lr_vec r then gput (\<lambda>s. s\<lparr>junk := (junk s)(r := unat n)\<rparr>) else gfail Crash]"

definition nnc_gen_reserve_reg :: "nnc_reg \<Rightarrow> bool gen" where
  "nnc_gen_reserve_reg r = gbind (nnc_reserve_reg r) (\<lambda>b.
     gbind (if b then nnc_gen_push (REG_LOC r) else gret ()) (\<lambda>_. gret b))"

definition nnc_gen_pop_reg :: "nnc_reg \<Rightarrow> bool \<Rightarrow> unit gen" where
  "nnc_gen_pop_reg r was_pushed = gseq [nnc_unreserve_reg r,
     if was_pushed then gseq [nnc_gen_pop (REG_LOC r), nnc_pollute r 8] else gret ()]"

definition nnc_gen_unreserve_reg :: "nnc_reg \<Rightarrow> unit gen" where
  "nnc_gen_unreserve_reg r = nnc_gen_pop_reg r True"

definition ptr_text :: "tref option \<Rightarrow> string \<Rightarrow> unit gen" where
  "ptr_text t x = gbind (nnc_get_ptr_size t) (\<lambda>p. GEN_TEXT (p @ '' ptr ['' @ x @ '']''))"

definition nnc_gen_loc :: "nnc_loc \<Rightarrow> tref option \<Rightarrow> unit gen" where
  "nnc_gen_loc l t = (case loc_at l of
     L_REG r \<Rightarrow> if deref l then gbind (nnc_get_ptr_size t) (\<lambda>p. gbind (reg_text r) (\<lambda>x. GEN_TEXT (p @ '' ptr ['' @ x @ '']'')))
        else gbind (nnc_get_reg_of_type r t) GEN_TEXT
   | L_STACK m \<Rightarrow> if sint m \<le> 0 then ptr_text t (''rbp'' @ signed_digits (sint m))
        else ptr_text t (''rbp+'' @ signed_digits (sint m))
   | L_DATA x \<Rightarrow> gseq [if has_offset l then GEN_TEXT ''offset '' else gret (),
        if deref l then ptr_text t x else GEN_TEXT x]
   | L_IMM v \<Rightarrow> GEN_TEXT (''0x'' @ hex_digits (unat v))
   | L_NONE \<Rightarrow> gfail Abort)"

definition nnc_gen_operand :: "nnc_3a_addr \<Rightarrow> tref option \<Rightarrow> unit gen" where
  "nnc_gen_operand a t = gbind (nnc_store a) (\<lambda>l. nnc_gen_loc l t)"

definition nnc_gen_xor_reg :: "nnc_loc \<Rightarrow> unit gen" where
  "nnc_gen_xor_reg l = gbind (loc_reg l) (\<lambda>r. gbind (get_junk r) (\<lambda>n. gseq
     [if n \<noteq> 0 then gbind (nnc_get_reg_of_size r n) (\<lambda>x. gseq [GEN_INST ''xor'', GEN_TEXT (x @ '','' @ x @ lf)]) else gret (),
      nnc_pollute r 0]))"

definition nnc_gen_erase_reg :: "nnc_loc \<Rightarrow> unit gen" where
  "nnc_gen_erase_reg l = gbind (loc_reg l) (\<lambda>r. gbind (get_junk r) (\<lambda>n.
     gbind (gtype nnc_arr_type (loc_type l)) (\<lambda>arr.
     gbind (if arr then gret 8 else gtype nnc_sizeof (loc_type l)) (\<lambda>size.
       if n \<noteq> 0 \<and> n = 8 \<and> size = 4 then nnc_pollute r 4
       else gseq [if size < n then nnc_gen_xor_reg l else gret (), nnc_pollute r (ucast size)]))))"

section \<open>Moves\<close>

definition cur_op :: "nnc_3a_op_kind gen" where
  "cur_op = gbind (gget (\<lambda>s. (unat (quad_pointer s), a_quads s))) (\<lambda>(i, qs).
     if i < length qs then gret (qop (qs ! i)) else gfail Crash)"

definition nnc_unsigned_type :: "types \<Rightarrow> tref \<Rightarrow> bool option" where
  "nnc_unsigned_type ts t = map_option Not (nnc_signed_type ts t)"

text \<open>The instruction for a conversion, \<open>None\<close> where an assertion fails.\<close>

definition conv_inst :: "bool \<Rightarrow> u64 \<Rightarrow> u64 \<Rightarrow> string option" where
  "conv_inst is_u d n =
     (let ext = (if is_u then ''movzx'' else ''movsx'') in
      if d = 1 then Some ''mov''
      else if d = 2 then (if n = 1 then Some ext else if n = 2 then Some ''mov'' else None)
      else if d = 4 then (if n = 1 \<or> n = 2 then Some ext else if n = 4 then Some ''mov'' else None)
      else if d = 8 then (if n = 1 \<or> n = 2 then Some ext
        else if n = 4 then Some (if is_u then ''mov'' else ''movsxd'') else if n = 8 then Some ''mov'' else None)
      else None)"

definition two_operands :: "string \<Rightarrow> nnc_loc \<Rightarrow> tref option \<Rightarrow> nnc_loc \<Rightarrow> tref option \<Rightarrow> unit gen" where
  "two_operands i d dt l lt = gseq [GEN_INST i, nnc_gen_loc d dt, GEN_TEXT '','', nnc_gen_loc l lt, GEN_TEXT crlf]"

definition is_reg :: "nnc_loc \<Rightarrow> bool" where
  "is_reg l \<longleftrightarrow> (case loc_at l of L_REG _ \<Rightarrow> True | _ \<Rightarrow> False)"

definition nnc_gen_int_conv :: "nnc_loc \<Rightarrow> nnc_loc \<Rightarrow> bool gen" where
  "nnc_gen_int_conv d l =
     gbind (gtype nnc_sizeof (loc_type d)) (\<lambda>dn. gbind (gtype nnc_sizeof (loc_type l)) (\<lambda>ln.
     gbind (gtype nnc_unsigned_type (loc_type d)) (\<lambda>is_u.
       if dn < ln then gret False
       else case conv_inst is_u dn ln of None \<Rightarrow> gfail AssertFail
       | Some i \<Rightarrow> gbind (gseq [if is_reg d then nnc_gen_erase_reg d else gret (),
           two_operands i d (if is_u \<and> dn = 8 \<and> ln = 4 then loc_type l else loc_type d) l (loc_type l)]) (\<lambda>_. gret True))))"

definition nnc_gen_conv :: "nnc_loc \<Rightarrow> nnc_loc \<Rightarrow> bool gen" where
  "nnc_gen_conv d l =
     gbind (gtype nnc_integral_type (loc_type d)) (\<lambda>b. if \<not> b then gret False else
     gbind (gtype nnc_integral_type (loc_type l)) (\<lambda>b. if \<not> b then gret False else nnc_gen_int_conv d l))"

text \<open>A cast is generated as a conversion if it is one.\<close>

definition unless_conv :: "nnc_loc \<Rightarrow> nnc_loc \<Rightarrow> unit gen \<Rightarrow> unit gen" where
  "unless_conv d l m = gbind cur_op (\<lambda>x. gbind (if x = OP_CAST then nnc_gen_conv d l else gret False) (\<lambda>b.
     if b then gret () else m))"

definition nnc_gen_mov_mem_to_reg :: "nnc_loc \<Rightarrow> nnc_loc \<Rightarrow> unit gen" where
  "nnc_gen_mov_mem_to_reg r m = gseq [gassert (in_mem m), unless_conv r m
     (gbind (gtype nnc_arr_type (loc_type m)) (\<lambda>arr.
       let l = (if arr \<and> in_dseg m then m\<lparr>has_offset := True\<rparr> else m);
           i = (if arr \<and> \<not> in_dseg m then ''lea'' else ''mov'') in
       gseq [nnc_gen_erase_reg r, two_operands i r (loc_type m) l (loc_type m)]))]"

definition nnc_gen_reg_to_mem_mov :: "nnc_loc \<Rightarrow> nnc_loc \<Rightarrow> unit gen" where
  "nnc_gen_reg_to_mem_mov r m = gbind (loc_reg r) (\<lambda>x. gseq [gassert (in_mem m), GEN_INST ''mov'', nnc_gen_loc m (loc_type r),
     gbind (nnc_get_reg_of_type x (loc_type r)) (\<lambda>y. GEN_TEXT ('','' @ y @ crlf))])"

definition nnc_gen_mov_reg_to_reg :: "nnc_loc \<Rightarrow> nnc_loc \<Rightarrow> unit gen" where
  "nnc_gen_mov_reg_to_reg d l = gbind (loc_reg l) (\<lambda>x. unless_conv d l
     (if \<not> deref d \<and> loc_at d = L_REG x then gret () else
      gseq [if deref d then gret () else nnc_gen_erase_reg d,
        gbind (if deref l then gtype nnc_arr_type (loc_type d) else gret False) (\<lambda>arr.
          two_operands ''mov'' d (loc_type d) (if arr then l\<lparr>deref := False\<rparr> else l) (loc_type d))]))"

definition nnc_gen_mov_imm_to_reg :: "nnc_loc \<Rightarrow> nnc_loc \<Rightarrow> unit gen" where
  "nnc_gen_mov_imm_to_reg r i = gbind (loc_reg r) (\<lambda>_. gbind (loc_imm i) (\<lambda>_.
     gseq [nnc_gen_erase_reg r, two_operands ''mov'' r (loc_type r) i (loc_type r)]))"

definition nnc_gen_mov_reg_to_mem :: "nnc_loc \<Rightarrow> nnc_loc \<Rightarrow> unit gen" where
  "nnc_gen_mov_reg_to_mem m r = gbind (loc_reg r) (\<lambda>_.
     gseq [gassert (in_mem m), two_operands ''mov'' m (loc_type m) r (loc_type m)])"

definition nnc_gen_mov_mem_to_mem :: "nnc_loc \<Rightarrow> nnc_loc \<Rightarrow> unit gen" where
  "nnc_gen_mov_mem_to_mem d l = gseq [gassert (in_mem l), gassert (in_mem d),
     gbind (nnc_gen_reserve_reg R_R15) (\<lambda>b. let r = nnc_mkloc_reg R_R15 (loc_type d) in
       gseq [nnc_gen_mov_mem_to_reg r l, nnc_gen_mov_reg_to_mem d r, nnc_gen_pop_reg R_R15 b])]"

text \<open>There is no line end behind the constant.\<close>

definition nnc_gen_mov_imm_to_mem :: "nnc_loc \<Rightarrow> nnc_loc \<Rightarrow> unit gen" where
  "nnc_gen_mov_imm_to_mem m i = gbind (loc_imm i) (\<lambda>v. gseq [gassert (in_mem m), gassert (unat v < 2 ^ 32),
     GEN_INST ''mov'', nnc_gen_loc m (loc_type m), GEN_TEXT '','', nnc_gen_loc i (loc_type m)])"

definition nnc_gen_mov_operand_to_reg :: "nnc_loc \<Rightarrow> nnc_3a_addr \<Rightarrow> unit gen" where
  "nnc_gen_mov_operand_to_reg r a = gbind (loc_reg r) (\<lambda>_. gbind (nnc_store a) (\<lambda>l. case loc_at l of
     L_IMM _ \<Rightarrow> nnc_gen_mov_imm_to_reg r l | L_REG _ \<Rightarrow> nnc_gen_mov_reg_to_reg r l
   | L_DATA _ \<Rightarrow> nnc_gen_mov_mem_to_reg r l | L_STACK _ \<Rightarrow> nnc_gen_mov_mem_to_reg r l | L_NONE \<Rightarrow> gfail AssertFail))"

definition nnc_gen_mov_reg_to_operand :: "nnc_loc \<Rightarrow> nnc_3a_addr \<Rightarrow> unit gen" where
  "nnc_gen_mov_reg_to_operand r a = gbind (loc_reg r) (\<lambda>_. gbind (nnc_store a) (\<lambda>l. case loc_at l of
     L_REG _ \<Rightarrow> nnc_gen_mov_reg_to_reg l r | L_DATA _ \<Rightarrow> nnc_gen_mov_reg_to_mem l r
   | L_STACK _ \<Rightarrow> nnc_gen_mov_reg_to_mem l r | _ \<Rightarrow> gfail AssertFail))"

definition nnc_gen_mov_operand_to_mem :: "nnc_loc \<Rightarrow> nnc_3a_addr \<Rightarrow> unit gen" where
  "nnc_gen_mov_operand_to_mem m a = gseq [gassert (in_mem m), gbind (nnc_store a) (\<lambda>l.
     let d = (if in_dseg m then m\<lparr>deref := True\<rparr> else m) in case loc_at l of
     L_REG _ \<Rightarrow> nnc_gen_mov_reg_to_mem d l | L_IMM _ \<Rightarrow> nnc_gen_mov_imm_to_mem d l
   | L_DATA _ \<Rightarrow> nnc_gen_mov_mem_to_mem d l | L_STACK _ \<Rightarrow> nnc_gen_mov_mem_to_mem d l | L_NONE \<Rightarrow> gfail AssertFail)]"

definition nnc_gen_mov_operand_to_operand :: "nnc_3a_addr \<Rightarrow> nnc_3a_addr \<Rightarrow> unit gen" where
  "nnc_gen_mov_operand_to_operand d a = gseq
     [gbind (gtype nnc_real_type (atype d)) (\<lambda>b. gassert (\<not> b)),
      gbind (gtype nnc_struct_or_union_type (atype d)) (\<lambda>b. gassert (\<not> b)),
      gbind (nnc_store d) (\<lambda>l. gbind cur_op (\<lambda>x.
        let l = (if x = OP_DEREF_COPY then l\<lparr>deref := True, loc_type := atype a\<rparr> else l) in case loc_at l of
          L_REG _ \<Rightarrow> nnc_gen_mov_operand_to_reg l a | L_DATA _ \<Rightarrow> nnc_gen_mov_operand_to_mem l a
        | L_STACK _ \<Rightarrow> nnc_gen_mov_operand_to_mem l a | _ \<Rightarrow> gfail AssertFail))]"

definition nnc_cmp_addr :: "nnc_3a_addr \<Rightarrow> nnc_3a_addr \<Rightarrow> bool gen" where
  "nnc_cmp_addr a b = (if akind a \<noteq> akind b then gret False else case akind a of
     ADDR_CGT \<Rightarrow> gret (exact a = exact b) | ADDR_NAME \<Rightarrow> gret (aname a = aname b)
   | ADDR_FCONST \<Rightarrow> gret (exact a = exact b) | ADDR_ICONST \<Rightarrow> gret (exact a = exact b) | _ \<Rightarrow> gfail Abort)"

section \<open>Data\<close>

text \<open>\<open>b\<close> counts the bytes of a line, \<open>k\<close> those that are left. Reading behind the memory is a crash.\<close>

fun mem_loop :: "u8 list \<Rightarrow> nat \<Rightarrow> nat \<Rightarrow> unit gen" where
  "mem_loop bs b 0 = gret ()"
| "mem_loop bs b (Suc k) = (let new = (b mod 8 = 0); b = (if new then 0 else b) in gseq
     [if new then GEN_DATA (lf @ ''.byte '') else gret (),
      case bs of [] \<Rightarrow> gfail Crash | c # _ \<Rightarrow> GEN_DATA (''0x'' @ hex_byte (unat c)),
      if b \<noteq> 7 \<and> k \<noteq> 0 then GEN_DATA '', '' else gret (),
      mem_loop (tl bs) (b + 1) k])"

definition nnc_gen_mem :: "u8 list \<Rightarrow> string \<Rightarrow> u64 \<Rightarrow> unit gen" where
  "nnc_gen_mem bs name n = gseq
     [GEN_DATA (''   '' @ name @ '':'' @ lf),
      GEN_DATA (''# init'' @ [CHR 0x27] @ ''d pad of '' @ dec_digits (unat n) @ '' bytes''),
      mem_loop bs 0 (unat n), GEN_DATA lf,
      GEN_DATA (''# init'' @ [CHR 0x27] @ ''d pad ends'' @ lf)]"

fun pad_loop :: "nat \<Rightarrow> nat \<Rightarrow> unit gen" where
  "pad_loop b 0 = gret ()"
| "pad_loop b (Suc k) = (let new = (b mod 8 = 0); b = (if new then 0 else b) in gseq
     [if new then GEN_DATA (lf @ ''.byte '') else gret (),
      GEN_DATA ''0x00'',
      if b \<noteq> 7 \<and> k \<noteq> 0 then GEN_DATA '', '' else gret (),
      pad_loop (b + 1) k])"

definition nnc_gen_mem_pad :: "u64 \<Rightarrow> unit gen" where
  "nnc_gen_mem_pad n = gseq
     [GEN_DATA (''# zero pad of '' @ dec_digits (unat n) @ '' bytes''), pad_loop 0 (unat n), GEN_DATA lf,
      GEN_DATA (''# zero pad ends'' @ lf)]"

definition nnc_gen_mem_named :: "string \<Rightarrow> u64 \<Rightarrow> unit gen" where
  "nnc_gen_mem_named name n = gseq [GEN_DATA (''   '' @ name @ '':'' @ lf), nnc_gen_mem_pad n]"

text \<open>The bytes of a number in memory.\<close>

definition u64_bytes :: "u64 \<Rightarrow> u8 list" where
  "u64_bytes v = map (\<lambda>k. ucast (drop_bit (8 * k) v)) [0..<8]"

text \<open>
  \<open>init\<close> and \<open>t\<close> are the initializer and the type of the \<^verbatim>\<open>let\<close> statement, \<open>d2i\<close> and \<open>H\<close> are
  those of \<^verbatim>\<open>nnc_evald\<close>. The value is one number, whatever the size of the variable.
\<close>

definition dseg_label :: "nnc_loc \<Rightarrow> string gen" where
  "dseg_label l = (case loc_at l of L_DATA x \<Rightarrow> gret x | _ \<Rightarrow> gfail AssertFail)"

definition nnc_gen_var :: "(u64 \<Rightarrow> u64) \<Rightarrow> st_heap \<Rightarrow> ir_var \<Rightarrow> nnc_expression option \<Rightarrow> tref \<Rightarrow> unit gen" where
  "nnc_gen_var d2i H v init t =
     gbind (nnc_store (ir_res v)) (\<lambda>l.
     gbind (nnc_get_loc (ir_res v)) (\<lambda>i. case i of None \<Rightarrow> gfail AssertFail | Some i \<Rightarrow>
     gbind (loc_value i) (\<lambda>l'. gbind (dseg_label l') (\<lambda>_. gbind (dseg_label l) (\<lambda>name.
     gbind (gtype nnc_sizeof (Some t)) (\<lambda>n. gseq
       [case init of None \<Rightarrow> nnc_gen_mem_named name n
        | Some e \<Rightarrow> gbind (from_res_gen (nnc_evald d2i H None e)) (\<lambda>v. nnc_gen_mem (u64_bytes v) name n),
        gbind (gtype nnc_arr_type (Some t)) (\<lambda>arr. if arr then nnc_gen_mem_pad 8 else gret ())]))))))"

section \<open>Quads\<close>

definition nnc_gen_label :: "nnc_3a_addr \<Rightarrow> unit gen" where
  "nnc_gen_label a = gseq [gassert (akind a = ADDR_ICONST), GEN_TEXT (''.L'' @ dec_digits (unat (exact a)) @ lf)]"

definition nnc_gen_label_decl :: "nnc_quad \<Rightarrow> unit gen" where
  "nnc_gen_label_decl q = gseq [gassert (qlabel q \<noteq> 0), GEN_TEXT (''.L'' @ dec_digits (unat (qlabel q)) @ '':'' @ lf), nnc_reset_junk_vec]"

definition assert_type :: "(types \<Rightarrow> tref \<Rightarrow> bool option) \<Rightarrow> nnc_3a_addr \<Rightarrow> unit gen" where
  "assert_type p a = gbind (gtype p (atype a)) (\<lambda>b. gassert (\<not> b))"

definition nnc_gen_op_ref :: "nnc_quad \<Rightarrow> unit gen" where
  "nnc_gen_op_ref q = gbind (nnc_store (qres q)) (\<lambda>d. gseq
     [nnc_gen_erase_reg d, GEN_INST ''lea'', nnc_gen_loc d (atype (qres q)), GEN_TEXT '','',
      nnc_gen_operand (arg1 q) (atype (qres q)), GEN_TEXT crlf])"

definition nnc_gen_op_cast :: "nnc_quad \<Rightarrow> unit gen" where
  "nnc_gen_op_cast q = nnc_gen_mov_operand_to_operand (qres q) (arg1 q)"

definition nnc_gen_op_copy :: "nnc_quad \<Rightarrow> unit gen" where
  "nnc_gen_op_copy q = gseq [assert_type nnc_struct_or_union_type (qres q), nnc_gen_mov_operand_to_operand (qres q) (arg1 q)]"

definition nnc_gen_op_deref :: "nnc_quad \<Rightarrow> unit gen" where
  "nnc_gen_op_deref q = gseq [assert_type nnc_struct_or_union_type (qres q),
     gbind (nnc_addr_inside_reg (arg1 q) R_RBX) (\<lambda>inside.
     gbind (if inside then gret False else gbind (nnc_gen_reserve_reg R_RBX) (\<lambda>b.
         gbind (nnc_gen_mov_operand_to_reg (nnc_mkloc_reg R_RBX (Some u64_type)) (arg1 q)) (\<lambda>_. gret b))) (\<lambda>b. gseq
       [nnc_gen_mov_reg_to_operand ((nnc_mkloc_reg R_RBX (atype (qres q)))\<lparr>deref := True\<rparr>) (qres q),
        nnc_gen_pop_reg R_RBX b]))]"

definition nnc_gen_op_deref_copy :: "nnc_quad \<Rightarrow> unit gen" where
  "nnc_gen_op_deref_copy q = nnc_gen_mov_operand_to_operand (qres q) (arg1 q)"

text \<open>The result is copied when it is another address than the first argument.\<close>

definition copy_result :: "nnc_quad \<Rightarrow> unit gen" where
  "copy_result q = gbind (nnc_cmp_addr (qres q) (arg1 q)) (\<lambda>same. if same then gret () else
     gbind (nnc_store (qres q)) (\<lambda>_. nnc_gen_mov_operand_to_operand (qres q) (arg1 q)))"

definition nnc_gen_op_unary :: "nnc_quad \<Rightarrow> string \<Rightarrow> unit gen" where
  "nnc_gen_op_unary q i = gseq [GEN_INST i, gassert (akind (arg1 q) = ADDR_CGT),
     nnc_gen_operand (arg1 q) (atype (qres q)), copy_result q, GEN_TEXT crlf]"

definition nnc_gen_op_plus :: "nnc_quad \<Rightarrow> unit gen" where
  "nnc_gen_op_plus q = gret ()"

definition nnc_gen_op_minus :: "nnc_quad \<Rightarrow> unit gen" where
  "nnc_gen_op_minus q = gseq [assert_type nnc_real_type (qres q), nnc_gen_op_unary q ''neg'']"

definition nnc_gen_op_not :: "nnc_quad \<Rightarrow> unit gen" where
  "nnc_gen_op_not q = nnc_gen_op_unary q ''not''"

definition nnc_gen_op_binary :: "nnc_quad \<Rightarrow> string \<Rightarrow> unit gen" where
  "nnc_gen_op_binary q i = gseq [GEN_INST i,
     gassert (akind (arg1 q) = ADDR_CGT \<and> akind (arg2 q) \<in> set [ADDR_CGT, ADDR_ICONST, ADDR_NAME]),
     nnc_gen_operand (arg1 q) (atype (qres q)), GEN_TEXT '','', nnc_gen_operand (arg2 q) (atype (qres q)), GEN_TEXT crlf,
     copy_result q]"

definition one_cgt :: "nnc_quad \<Rightarrow> unit gen" where
  "one_cgt q = gassert (akind (arg1 q) = ADDR_CGT \<or> akind (arg2 q) = ADDR_CGT)"

text \<open>The operations that are one two-operand instruction.\<close>

definition simple_binary :: "nnc_quad \<Rightarrow> string \<Rightarrow> unit gen" where
  "simple_binary q i = gseq [assert_type nnc_real_type (qres q), one_cgt q, nnc_gen_op_binary q i]"

definition nnc_gen_op_add :: "nnc_quad \<Rightarrow> unit gen" where "nnc_gen_op_add q = simple_binary q ''add''"

definition nnc_gen_op_sub :: "nnc_quad \<Rightarrow> unit gen" where
  "nnc_gen_op_sub q = gseq [assert_type nnc_real_type (qres q), nnc_gen_op_binary q ''sub'']"

definition nnc_gen_op_or :: "nnc_quad \<Rightarrow> unit gen" where "nnc_gen_op_or q = simple_binary q ''or''"
definition nnc_gen_op_and :: "nnc_quad \<Rightarrow> unit gen" where "nnc_gen_op_and q = simple_binary q ''and''"
definition nnc_gen_op_xor :: "nnc_quad \<Rightarrow> unit gen" where "nnc_gen_op_xor q = simple_binary q ''xor''"

text \<open>Unless the address is in the register, the register is reserved and the operand moved to it.\<close>

definition nnc_gen_one_op_mul :: "nnc_quad \<Rightarrow> string \<Rightarrow> unit gen" where
  "nnc_gen_one_op_mul q i = (let rax = nnc_mkloc_reg R_RAX (atype (arg1 q)) in
     gbind (nnc_gen_reserve_reg R_RDX) (\<lambda>rdx_pushed.
     gbind (gtype nnc_sizeof (atype (qres q))) (\<lambda>size.
     gbind (nnc_addr_inside_reg (arg1 q) R_RAX) (\<lambda>inside.
     gbind (if inside then gret False else gbind (nnc_gen_reserve_reg R_RAX) (\<lambda>b.
         gbind (nnc_gen_mov_operand_to_reg rax (arg1 q)) (\<lambda>_. gret b))) (\<lambda>rax_pushed. gseq
       [GEN_INST i, nnc_gen_operand (arg2 q) (atype (qres q)), GEN_TEXT crlf, nnc_pollute R_RDX (ucast size),
        gbind (nnc_addr_inside_reg (qres q) R_RAX) (\<lambda>b. if b then gret () else nnc_gen_mov_reg_to_operand rax (qres q)),
        gbind (nnc_addr_inside_reg (arg1 q) R_RAX) (\<lambda>b. if b then gret () else nnc_gen_pop_reg R_RAX rax_pushed),
        nnc_gen_pop_reg R_RDX rdx_pushed])))))"

definition nnc_gen_two_op_mul :: "nnc_quad \<Rightarrow> string \<Rightarrow> unit gen" where
  "nnc_gen_two_op_mul q i = nnc_gen_op_binary q i"

definition nnc_gen_three_op_mul :: "nnc_quad \<Rightarrow> string \<Rightarrow> unit gen" where
  "nnc_gen_three_op_mul q i = gseq [GEN_INST i, nnc_gen_operand (qres q) (atype (qres q)), GEN_TEXT '','',
     nnc_gen_operand (arg1 q) (atype (qres q)), GEN_TEXT '','', gassert (akind (arg2 q) = ADDR_ICONST),
     nnc_gen_operand (arg2 q) (atype (arg2 q)), GEN_TEXT crlf]"

text \<open>A location that is dereferenced without a test.\<close>

definition loc_deref :: "nat option \<Rightarrow> nnc_loc gen" where
  "loc_deref i = gbind (from_opt i) loc_value"

definition nnc_is_two_op_mul :: "nnc_quad \<Rightarrow> bool gen" where
  "nnc_is_two_op_mul q = gbind (nnc_get_loc (arg1 q)) (\<lambda>i1. gbind (nnc_get_loc (arg2 q)) (\<lambda>i2.
     gbind (loc_deref i1) (\<lambda>l1. if is_reg l1 then gbind (loc_deref i2) (\<lambda>l2. gret (is_reg l2 \<or> in_mem l2)) else gret False)))"

definition nnc_is_three_op_mul :: "nnc_quad \<Rightarrow> bool gen" where
  "nnc_is_three_op_mul q = gbind (nnc_get_loc (arg1 q)) (\<lambda>i1.
     gbind (loc_deref i1) (\<lambda>l1. gret (is_reg l1 \<and> akind (arg2 q) = ADDR_ICONST)))"

definition nnc_gen_mul :: "nnc_quad \<Rightarrow> unit gen" where
  "nnc_gen_mul q = nnc_gen_one_op_mul q ''mul''"

definition nnc_gen_imul :: "nnc_quad \<Rightarrow> unit gen" where
  "nnc_gen_imul q = gbind (nnc_is_three_op_mul q) (\<lambda>b. if b then nnc_gen_three_op_mul q ''imul'' else
     gbind (nnc_is_two_op_mul q) (\<lambda>b. if b then nnc_gen_two_op_mul q ''imul'' else nnc_gen_one_op_mul q ''imul''))"

definition nnc_gen_op_mul :: "nnc_quad \<Rightarrow> unit gen" where
  "nnc_gen_op_mul q = gseq [assert_type nnc_real_type (qres q),
     gbind (gtype nnc_signed_type (atype (qres q))) (\<lambda>b. if b then nnc_gen_imul q else nnc_gen_mul q)]"

definition nnc_gen_rdx_extend :: "nnc_quad \<Rightarrow> unit gen" where
  "nnc_gen_rdx_extend q = gbind (gtype nnc_sizeof (atype (qres q))) (\<lambda>n. gseq
     [if n = 2 then GEN_INST ''cwd'' else if n = 4 then GEN_INST ''cdq'' else if n = 8 then GEN_INST ''cqo'' else gfail Abort,
      GEN_TEXT crlf])"

text \<open>
  When the second argument is in RAX, its register is exchanged with that of the first and the value that
  was saved on the stack is popped into the new one.
\<close>

definition div_load_rax :: "nnc_quad \<Rightarrow> bool gen" where
  "div_load_rax q = gbind (nnc_gen_reserve_reg R_RAX) (\<lambda>b.
     gbind (nnc_gen_mov_operand_to_reg (nnc_mkloc_reg R_RAX (atype (arg1 q))) (arg1 q)) (\<lambda>_.
     gbind (nnc_addr_inside_reg (arg2 q) R_RAX) (\<lambda>inside. if \<not> inside then gret b else
       gbind (nnc_unreserve_reg R_RAX) (\<lambda>_. gbind (nnc_swap_loc (arg1 q) (arg2 q)) (\<lambda>_.
       gbind (nnc_store (arg2 q)) (\<lambda>l. gbind (loc_reg l) (\<lambda>r.
       gbind (nnc_gen_pop (REG_LOC r)) (\<lambda>_. gret False))))))))"

definition nnc_gen_one_op_div :: "nnc_quad \<Rightarrow> string \<Rightarrow> bool \<Rightarrow> unit gen" where
  "nnc_gen_one_op_div q i want_mod = (let rax = nnc_mkloc_reg R_RAX (atype (arg1 q)); rdx = nnc_mkloc_reg R_RDX (atype (arg1 q)) in
     gbind (assert_type nnc_real_type (qres q)) (\<lambda>_.
     gbind (nnc_gen_reserve_reg R_RDX) (\<lambda>rdx_pushed.
     gbind (gtype nnc_sizeof (atype (arg1 q))) (\<lambda>size.
     gbind (nnc_addr_inside_reg (arg1 q) R_RAX) (\<lambda>inside.
     gbind (if inside then gret False else div_load_rax q) (\<lambda>rax_pushed. gseq
       [gbind (get_junk R_RDX) (\<lambda>n. if n \<noteq> 0 then nnc_gen_xor_reg rdx else gret ()),
        gbind (gtype nnc_signed_type (atype (qres q))) (\<lambda>b. if b then nnc_gen_rdx_extend q else gret ()),
        GEN_INST i, nnc_gen_operand (arg2 q) (atype (qres q)), GEN_TEXT crlf, nnc_pollute R_RDX (ucast size),
        if want_mod then gret () else
          gbind (nnc_addr_inside_reg (qres q) R_RAX) (\<lambda>b. if b then gret () else nnc_gen_mov_reg_to_operand rax (qres q)),
        if \<not> want_mod then gret () else
          gbind (nnc_addr_inside_reg (qres q) R_RDX) (\<lambda>b. if b then gret () else nnc_gen_mov_reg_to_operand rdx (qres q)),
        gbind (nnc_addr_inside_reg (arg1 q) R_RAX) (\<lambda>b. if b then gret () else nnc_gen_pop_reg R_RAX rax_pushed),
        nnc_gen_pop_reg R_RDX rdx_pushed]))))))"

definition nnc_gen_div :: "nnc_quad \<Rightarrow> bool \<Rightarrow> unit gen" where
  "nnc_gen_div q want_mod = nnc_gen_one_op_div q ''div'' want_mod"

definition nnc_gen_idiv :: "nnc_quad \<Rightarrow> bool \<Rightarrow> unit gen" where
  "nnc_gen_idiv q want_mod = nnc_gen_one_op_div q ''idiv'' want_mod"

text \<open>The two instructions are the wrong way round.\<close>

definition nnc_gen_op_div :: "nnc_quad \<Rightarrow> unit gen" where
  "nnc_gen_op_div q = gseq [assert_type nnc_real_type (qres q), one_cgt q,
     gbind (gtype nnc_signed_type (atype (qres q))) (\<lambda>b. if b then nnc_gen_div q False else nnc_gen_idiv q False)]"

definition nnc_gen_op_mod :: "nnc_quad \<Rightarrow> unit gen" where
  "nnc_gen_op_mod q = gseq [assert_type nnc_real_type (qres q), one_cgt q,
     gbind (gtype nnc_signed_type (atype (qres q))) (\<lambda>b. if b then nnc_gen_div q True else nnc_gen_idiv q True)]"

definition nnc_gen_inst_shift :: "nnc_quad \<Rightarrow> string \<Rightarrow> unit gen" where
  "nnc_gen_inst_shift q i =
     gbind (nnc_addr_inside_reg (arg1 q) R_RCX) (\<lambda>in1. gbind (nnc_addr_inside_reg (arg2 q) R_RCX) (\<lambda>in2.
     gbind (gassert (\<not> in1)) (\<lambda>_. gbind (gassert (akind (arg2 q) \<noteq> ADDR_ICONST)) (\<lambda>_.
     gbind (if in2 then gret False else gbind (nnc_gen_reserve_reg R_RCX) (\<lambda>b.
         gbind (nnc_gen_mov_operand_to_reg (nnc_mkloc_reg R_RCX (atype (arg2 q))) (arg2 q)) (\<lambda>_. gret b))) (\<lambda>b. gseq
       [GEN_INST i, nnc_gen_operand (arg1 q) (atype (qres q)), GEN_TEXT '',cl'', nnc_gen_pop_reg R_RCX b, GEN_TEXT crlf])))))"

definition simple_shift :: "nnc_quad \<Rightarrow> string \<Rightarrow> unit gen" where
  "simple_shift q i = gseq [assert_type nnc_real_type (qres q), one_cgt q, nnc_gen_inst_shift q i]"

definition nnc_gen_op_shr :: "nnc_quad \<Rightarrow> unit gen" where "nnc_gen_op_shr q = simple_shift q ''shr''"
definition nnc_gen_op_shl :: "nnc_quad \<Rightarrow> unit gen" where "nnc_gen_op_shl q = simple_shift q ''shl''"
definition nnc_gen_op_sal :: "nnc_quad \<Rightarrow> unit gen" where "nnc_gen_op_sal q = simple_shift q ''sal''"
definition nnc_gen_op_sar :: "nnc_quad \<Rightarrow> unit gen" where "nnc_gen_op_sar q = simple_shift q ''sar''"

section \<open>Calls\<close>

definition call_state :: "nnc_pclass_state gen" where
  "call_state = gbind (gget call_states) (\<lambda>cs. if cs = [] then gfail Crash else gret (last cs))"

definition set_call_state :: "nnc_pclass_state \<Rightarrow> unit gen" where
  "set_call_state st = gput (\<lambda>s. s\<lparr>call_states := butlast (call_states s) @ [st]\<rparr>)"

definition nnc_gen_op_arg :: "nnc_quad \<Rightarrow> unit gen" where
  "nnc_gen_op_arg q = gseq [assert_type nnc_real_type (arg1 q), assert_type nnc_struct_or_union_type (arg1 q),
     gassert (akind (arg1 q) = ADDR_CGT),
     gbind call_state (\<lambda>st. gbind (nnc_store (arg1 q)) (\<lambda>l. gbind (nnc_store_param (arg1 q) st) (\<lambda>(abi, st).
       case loc_at abi of
         L_REG r \<Rightarrow> gseq [set_call_state st, gbind (loc_reg l) (\<lambda>_. nnc_gen_mov_reg_to_reg abi l),
           set_call_state (st\<lparr>abi_used := abi_used st @ [r]\<rparr>)]
       | L_STACK _ \<Rightarrow> gseq [set_call_state st, gbind (loc_reg l) (\<lambda>_. nnc_gen_push l)]
       | _ \<Rightarrow> set_call_state st)))]"

definition jump_to_end :: "unit gen" where
  "jump_to_end = gseq [GEN_INST ''jmp'', gbind (gget a_name) (\<lambda>x. GEN_TEXT (''.Lfini_'' @ x @ lf))]"

definition nnc_gen_op_retp :: "nnc_quad \<Rightarrow> unit gen" where
  "nnc_gen_op_retp q = jump_to_end"

definition nnc_gen_op_retf :: "nnc_quad \<Rightarrow> unit gen" where
  "nnc_gen_op_retf q = gseq [assert_type nnc_real_type (arg1 q), gassert (akind (arg1 q) = ADDR_CGT),
     nnc_gen_mov_operand_to_reg (nnc_mkloc_reg R_RAX (atype (qres q))) (arg1 q), jump_to_end]"

text \<open>\<open>H\<close> and \<open>st\<close>: the tables of names and that of the file.\<close>

definition nnc_gen_call :: "st_heap \<Rightarrow> nat \<Rightarrow> nnc_3a_addr \<Rightarrow> unit gen" where
  "nnc_gen_call H st a = gseq [GEN_INST ''call'',
     if akind a \<noteq> ADDR_NAME then nnc_gen_operand a (Some u64_type)
     else gbind (from_res_gen (nnc_st_get H (Some st) (aname a) ST_SYM_IDENT)) (\<lambda>x.
       if x = None then nnc_gen_operand a (Some u64_type) else GEN_TEXT (aname a)),
     GEN_TEXT crlf]"

definition nnc_gen_res_dealloc :: "nnc_pclass_state \<Rightarrow> unit gen" where
  "nnc_gen_res_dealloc st = (case pc_res st of None \<Rightarrow> gret ()
     | Some a \<Rightarrow> gbind (nnc_addr_inside_reg a R_RAX) (\<lambda>b. if b then gret () else nnc_gen_pop_reg R_RAX (was_res_pushed st)))"

definition nnc_gen_caller_prepare :: "unit gen" where
  "nnc_gen_caller_prepare = gbind call_state (\<lambda>st. gbind (gget stack_alloc) (\<lambda>n.
     gbind (nnc_gen_align_stack (nnc_get_stack_pad n + nnc_get_stack_pad (on_stack st))) (\<lambda>pad.
       set_call_state (st\<lparr>on_stack := on_stack st + pad\<rparr>))))"

definition nnc_gen_caller_restore :: "unit gen" where
  "nnc_gen_caller_restore = gbind call_state (\<lambda>st. gseq
     [nnc_gen_dealloc_stack (on_stack st),
      giter (\<lambda>r. nnc_gen_pop (REG_LOC r)) (rev (pushed st)),
      nnc_gen_res_dealloc st, nnc_pclass_state_fini st,
      gput (\<lambda>s. s\<lparr>call_states := butlast (call_states s)\<rparr>)])"

definition nnc_gen_op_pcall :: "st_heap \<Rightarrow> nat \<Rightarrow> nnc_quad \<Rightarrow> unit gen" where
  "nnc_gen_op_pcall H st q = gseq [nnc_gen_caller_prepare, nnc_gen_call H st (arg1 q), nnc_gen_caller_restore]"

definition nnc_gen_op_fcall :: "st_heap \<Rightarrow> nat \<Rightarrow> nnc_quad \<Rightarrow> unit gen" where
  "nnc_gen_op_fcall H st q = gseq [nnc_gen_caller_prepare, nnc_gen_call H st (arg1 q),
     gbind (nnc_store (qres q)) (\<lambda>_. nnc_gen_mov_reg_to_operand (nnc_mkloc_reg R_RAX (atype (qres q))) (qres q)),
     nnc_gen_caller_restore]"

section \<open>Jumps\<close>

definition nnc_gen_cmp :: "nnc_quad \<Rightarrow> unit gen" where
  "nnc_gen_cmp q = gseq [one_cgt q,
     gbind (gtype nnc_sizeof (atype (arg1 q))) (\<lambda>n1. gbind (gtype nnc_sizeof (atype (arg2 q))) (\<lambda>n2.
       let t = (if n1 < n2 then atype (arg2 q) else atype (arg1 q)) in gseq
       [GEN_INST ''cmp'', nnc_gen_operand (arg1 q) t, GEN_TEXT '','', nnc_gen_operand (arg2 q) t, GEN_TEXT crlf]))]"

definition nnc_gen_test :: "nnc_quad \<Rightarrow> unit gen" where
  "nnc_gen_test q = gseq
     [gbind (if akind (arg1 q) = ADDR_CGT then gret True else nnc_addr_inside (arg1 q) (\<lambda>l. is_reg l \<or> in_mem l)) gassert,
      GEN_INST ''test'', nnc_gen_operand (arg1 q) (atype (arg1 q)), GEN_TEXT '','',
      nnc_gen_operand (arg1 q) (atype (arg1 q)), GEN_TEXT crlf]"

definition nnc_gen_inst_jump :: "nnc_quad \<Rightarrow> string \<Rightarrow> unit gen" where
  "nnc_gen_inst_jump q i = gseq [GEN_INST i, nnc_gen_label (qres q)]"

definition nnc_gen_op_ujump :: "nnc_quad \<Rightarrow> unit gen" where
  "nnc_gen_op_ujump q = nnc_gen_inst_jump q ''jmp''"

definition nnc_gen_op_cjumpt :: "nnc_quad \<Rightarrow> unit gen" where
  "nnc_gen_op_cjumpt q = gseq [nnc_gen_test q, nnc_gen_inst_jump q ''jnz'']"

definition nnc_gen_op_cjumpf :: "nnc_quad \<Rightarrow> unit gen" where
  "nnc_gen_op_cjumpf q = gseq [nnc_gen_test q, nnc_gen_inst_jump q ''jz'']"

text \<open>Whether the comparison is signed is read from the type of the label.\<close>

definition ordered_jump :: "nnc_quad \<Rightarrow> string \<Rightarrow> string \<Rightarrow> unit gen" where
  "ordered_jump q i u = gseq [nnc_gen_cmp q,
     gbind (gtype nnc_signed_type (atype (qres q))) (\<lambda>b. nnc_gen_inst_jump q (if b then i else u))]"

definition nnc_gen_op_cjumplt :: "nnc_quad \<Rightarrow> unit gen" where "nnc_gen_op_cjumplt q = ordered_jump q ''jl'' ''jb''"
definition nnc_gen_op_cjumpgt :: "nnc_quad \<Rightarrow> unit gen" where "nnc_gen_op_cjumpgt q = ordered_jump q ''jg'' ''ja''"
definition nnc_gen_op_cjumplte :: "nnc_quad \<Rightarrow> unit gen" where "nnc_gen_op_cjumplte q = ordered_jump q ''jle'' ''jbe''"
definition nnc_gen_op_cjumpgte :: "nnc_quad \<Rightarrow> unit gen" where "nnc_gen_op_cjumpgte q = ordered_jump q ''jge'' ''jae''"

definition test_or_cmp :: "nnc_quad \<Rightarrow> unit gen" where
  "test_or_cmp q = (if akind (arg2 q) = ADDR_ICONST \<and> exact (arg2 q) = 0 then nnc_gen_test q else nnc_gen_cmp q)"

definition nnc_gen_op_cjumpe :: "nnc_quad \<Rightarrow> unit gen" where
  "nnc_gen_op_cjumpe q = gseq [test_or_cmp q, nnc_gen_inst_jump q ''je'']"

definition nnc_gen_op_cjumpne :: "nnc_quad \<Rightarrow> unit gen" where
  "nnc_gen_op_cjumpne q = gseq [test_or_cmp q, nnc_gen_inst_jump q ''jne'']"

section \<open>Hints\<close>

definition no_pclass_state :: nnc_pclass_state where
  "no_pclass_state = \<lparr>int_iter = 0, on_stack = 0, was_init = False, was_res_pushed = False, pc_stack_pad = 0,
     pc_res = None, pushed = [], abi_used = []\<rparr>"

definition general_regs :: "nnc_reg list" where
  "general_regs = [R_RAX, R_RBX, R_RCX, R_RDX, R_RSI, R_RDI, R_R8, R_R9, R_R10, R_R11, R_R12, R_R13, R_R14, R_R15]"

primrec save_regs :: "nnc_reg list \<Rightarrow> nnc_reg \<Rightarrow> nnc_reg list gen" where
  "save_regs [] res_reg = gret []"
| "save_regs (r # rs) res_reg = gbind (nnc_reg_busy r) (\<lambda>b.
     if b \<and> r \<noteq> res_reg then
       gbind (nnc_push_reg r) (\<lambda>_. gbind (nnc_gen_push (REG_LOC r)) (\<lambda>_. gbind (save_regs rs res_reg) (\<lambda>xs. gret (r # xs))))
     else save_regs rs res_reg)"

definition nnc_gen_op_decl_call :: "nnc_quad \<Rightarrow> unit gen" where
  "nnc_gen_op_decl_call q = gbind (nnc_pclass_state_init no_pclass_state) (\<lambda>st.
     gbind (if akind (qres q) \<noteq> ADDR_NONE then gbind (nnc_store (qres q)) (\<lambda>l.
         gret (case loc_at l of L_REG r \<Rightarrow> r | _ \<Rightarrow> R_NONE)) else gret R_NONE) (\<lambda>res_reg.
     gbind (save_regs general_regs res_reg) (\<lambda>rs.
       gput (\<lambda>s. s\<lparr>call_states := call_states s @ [st\<lparr>pushed := rs\<rparr>]\<rparr>))))"

definition is_stack :: "nnc_loc \<Rightarrow> bool" where
  "is_stack l \<longleftrightarrow> (case loc_at l of L_STACK _ \<Rightarrow> True | _ \<Rightarrow> False)"

definition nnc_gen_op_decl_local :: "nnc_quad \<Rightarrow> unit gen" where
  "nnc_gen_op_decl_local q = gbind (nnc_store (qres q)) (\<lambda>_. gbind (nnc_get_loc (qres q)) (\<lambda>i.
     gbind (loc_deref i) (\<lambda>l. gseq [gassert (is_stack l), gassert (exact (qres q) = ictx_num IDENT_DEFAULT)])))"

definition nnc_gen_op_decl_global :: "nnc_quad \<Rightarrow> unit gen" where
  "nnc_gen_op_decl_global q = gbind (nnc_store (qres q)) (\<lambda>_. gbind (nnc_get_loc (qres q)) (\<lambda>i.
     gbind (loc_deref i) (\<lambda>l. gseq [gassert (in_dseg l), gassert (exact (qres q) = ictx_num IDENT_GLOBAL)])))"

text \<open>The string with the NUL behind it; its C length is in the literal the hint points to.\<close>

definition c_bytes :: "string \<Rightarrow> u8 list" where
  "c_bytes x = map of_char (takeWhile (\<lambda>c. c \<noteq> CHR 0x00) x) @ [0]"

definition nnc_gen_op_decl_string :: "nnc_quad \<Rightarrow> unit gen" where
  "nnc_gen_op_decl_string q = gbind (nnc_get_loc (qres q)) (\<lambda>i. if i \<noteq> None then gret () else
     gbind (nnc_store (qres q)) (\<lambda>l. gbind (dseg_label l) (\<lambda>name.
       nnc_gen_mem (c_bytes (aname (qres q))) name (of_nat (length (c_bytes (aname (qres q))))))))"

section \<open>Procedures\<close>

definition nnc_gen_proc_prologue :: "unit gen" where
  "nnc_gen_proc_prologue = gbind (gget l_stack) (\<lambda>n. let pad = nnc_get_stack_pad n in gseq
     [if n \<noteq> 0 \<and> pad \<noteq> 0 then gseq [GEN_TEXT (''# stack size: '' @ dec_digits (unat n) @ '';'' @ lf),
          GEN_TEXT (''# aligned   : +'' @ dec_digits (unat pad) @ '';'' @ lf)] else gret (),
      if n = 0 then gseq [GEN_INST ''push'', GEN_TEXT (''rbp'' @ lf), GEN_INST ''mov'', GEN_TEXT (''rbp,rsp'' @ lf)]
      else gseq [GEN_INST ''enter'', GEN_TEXT (''0x'' @ hex_digits (unat (n + pad)) @ '',0x0'' @ lf)]])"

definition nnc_gen_callee_prepare :: "unit gen" where
  "nnc_gen_callee_prepare = nnc_gen_proc_prologue"

definition nnc_gen_proc_epilogue :: "unit gen" where
  "nnc_gen_proc_epilogue = gseq [GEN_INST ''leave'', GEN_TEXT lf]"

definition nnc_gen_callee_restore :: "unit gen" where
  "nnc_gen_callee_restore = gseq [gbind (gget a_name) (\<lambda>x. GEN_TEXT (''.Lfini_'' @ x @ '':'' @ lf)),
     nnc_gen_proc_epilogue, GEN_INST ''ret'', GEN_TEXT (lf @ lf)]"

definition nnc_build_proc :: "bool \<Rightarrow> string \<Rightarrow> string gen" where
  "nnc_build_proc pub code = gbind (gseq
     [if pub then gbind (gget a_name) (\<lambda>x. GEN_TEXT (''.globl '' @ x @ lf)) else gret (),
      gbind (gget a_name) (\<lambda>x. GEN_TEXT (x @ '':'' @ lf)),
      nnc_gen_callee_prepare,
      gput (\<lambda>s. s\<lparr>seg_text := seg_text s @ code\<rparr>),
      nnc_gen_callee_restore]) (\<lambda>_. gget seg_text)"

definition nnc_get_callee_stack :: "nnc_ident list \<Rightarrow> u32" where
  "nnc_get_callee_stack params = of_nat (length params) * 8"

text \<open>The parameters in order, with the state of their classes.\<close>

primrec store_params :: "nnc_ident list \<Rightarrow> nnc_pclass_state \<Rightarrow> nnc_pclass_state gen" where
  "store_params [] st = gret st"
| "store_params (p # ps) st = (let a = nnc_3a_mkname1 p in
     gbind (nnc_store_param a st) (\<lambda>(l, st).
     gbind (if is_reg l then gbind (nnc_spill a) (\<lambda>m. nnc_gen_mov_reg_to_mem m l) else gret ()) (\<lambda>_.
       store_params ps st)))"

definition nnc_gen_store_params :: "nnc_ident list \<Rightarrow> unit gen" where
  "nnc_gen_store_params params = (let n = nnc_get_callee_stack params; pad = ucast (nnc_get_stack_pad n) in
     gbind (gput (\<lambda>s. s\<lparr>p_stack := n, p_stack_pad := pad\<rparr>)) (\<lambda>_.
     gbind (nnc_pclass_state_init (no_pclass_state\<lparr>pc_stack_pad := pad\<rparr>)) (\<lambda>st.
     gbind (store_params params st) (\<lambda>st. gseq [gassert (pushed st = []), nnc_pclass_state_fini st]))))"

definition nnc_gen_op :: "st_heap \<Rightarrow> nat \<Rightarrow> nnc_quad \<Rightarrow> unit gen" where
  "nnc_gen_op H st q = (case qop q of
     OP_REF \<Rightarrow> nnc_gen_op_ref q | OP_CAST \<Rightarrow> nnc_gen_op_cast q | OP_COPY \<Rightarrow> nnc_gen_op_copy q
   | OP_DEREF \<Rightarrow> nnc_gen_op_deref q | OP_DEREF_COPY \<Rightarrow> nnc_gen_op_deref_copy q
   | OP_PLUS \<Rightarrow> nnc_gen_op_plus q | OP_MINUS \<Rightarrow> nnc_gen_op_minus q | OP_BW_NOT \<Rightarrow> nnc_gen_op_not q
   | OP_ADD \<Rightarrow> nnc_gen_op_add q | OP_SUB \<Rightarrow> nnc_gen_op_sub q | OP_MUL \<Rightarrow> nnc_gen_op_mul q
   | OP_DIV \<Rightarrow> nnc_gen_op_div q | OP_MOD \<Rightarrow> nnc_gen_op_mod q
   | OP_SHR \<Rightarrow> nnc_gen_op_shr q | OP_SHL \<Rightarrow> nnc_gen_op_shl q | OP_SAL \<Rightarrow> nnc_gen_op_sal q | OP_SAR \<Rightarrow> nnc_gen_op_sar q
   | OP_BW_OR \<Rightarrow> nnc_gen_op_or q | OP_BW_AND \<Rightarrow> nnc_gen_op_and q | OP_BW_XOR \<Rightarrow> nnc_gen_op_xor q
   | OP_ARG \<Rightarrow> nnc_gen_op_arg q | OP_RETP \<Rightarrow> nnc_gen_op_retp q | OP_RETF \<Rightarrow> nnc_gen_op_retf q
   | OP_PCALL \<Rightarrow> nnc_gen_op_pcall H st q | OP_FCALL \<Rightarrow> nnc_gen_op_fcall H st q
   | OP_UJUMP \<Rightarrow> nnc_gen_op_ujump q | OP_CJUMPT \<Rightarrow> nnc_gen_op_cjumpt q | OP_CJUMPF \<Rightarrow> nnc_gen_op_cjumpf q
   | OP_CJUMPLT \<Rightarrow> nnc_gen_op_cjumplt q | OP_CJUMPGT \<Rightarrow> nnc_gen_op_cjumpgt q
   | OP_CJUMPLTE \<Rightarrow> nnc_gen_op_cjumplte q | OP_CJUMPGTE \<Rightarrow> nnc_gen_op_cjumpgte q
   | OP_CJUMPE \<Rightarrow> nnc_gen_op_cjumpe q | OP_CJUMPNE \<Rightarrow> nnc_gen_op_cjumpne q
   | OP_HINT_DECL_CALL \<Rightarrow> nnc_gen_op_decl_call q | OP_HINT_DECL_LOCAL \<Rightarrow> nnc_gen_op_decl_local q
   | OP_HINT_DECL_GLOBAL \<Rightarrow> nnc_gen_op_decl_global q | OP_HINT_DECL_STRING \<Rightarrow> nnc_gen_op_decl_string q
   | OP_NONE \<Rightarrow> gfail Abort)"

definition nnc_gen_quad :: "st_heap \<Rightarrow> nat \<Rightarrow> nnc_quad \<Rightarrow> unit gen" where
  "nnc_gen_quad H st q = gseq [if qlabel q \<noteq> 0 then nnc_gen_label_decl q else nnc_gen_op H st q,
     gput (\<lambda>s. s\<lparr>quad_pointer := quad_pointer s + 1\<rparr>)]"

text \<open>\<open>pub\<close> is the public bit of the storage, \<open>params\<close> the variables of the parameters.\<close>

definition nnc_gen_proc :: "st_heap \<Rightarrow> nat \<Rightarrow> nnc_3a_proc \<Rightarrow> bool \<Rightarrow> nnc_ident list \<Rightarrow> string gen" where
  "nnc_gen_proc H st p pub params =
     gbind (gput (\<lambda>s. s\<lparr>a_name := pname p, a_quads := pquads p, a_lr := plive p, quad_pointer := 0, l_stack := 0,
       p_stack := 0, p_stack_pad := 0, stack_alloc := 0, seg_text := []\<rparr>)) (\<lambda>_.
     gbind (gseq [nnc_reset_lr_vec, nnc_reset_loc_map, nnc_reset_junk_vec, nnc_gen_store_params params,
         giter (nnc_gen_quad H st) (pquads p)]) (\<lambda>_.
     gbind (gget seg_text) (\<lambda>code. gbind (gput (\<lambda>s. s\<lparr>seg_text := []\<rparr>)) (\<lambda>_. nnc_build_proc pub code))))"

text \<open>A symbol with the parts of its statement that code generation reads.\<close>

datatype gen_sym = GEN_VAR ir_var "nnc_expression option" tref | GEN_PROC nnc_3a_proc bool "nnc_ident list" | GEN_NONE

text \<open>\<open>procs\<close> is \<^verbatim>\<open>glob_asm_file.procs\<close>.\<close>

definition nnc_gen :: "(u64 \<Rightarrow> u64) \<Rightarrow> st_heap \<Rightarrow> nat \<Rightarrow> gen_sym \<Rightarrow> string list \<Rightarrow> string list gen" where
  "nnc_gen d2i H st y procs = (case y of
     GEN_VAR v init t \<Rightarrow> gbind (nnc_gen_var d2i H v init t) (\<lambda>_. gret procs)
   | GEN_PROC p pub params \<Rightarrow> gbind (nnc_gen_proc H st p pub params) (\<lambda>x. gret (procs @ [x]))
   | GEN_NONE \<Rightarrow> gret procs)"

definition nnc_build :: "string list \<Rightarrow> string gen" where
  "nnc_build procs = gbind (gget seg_data) (\<lambda>data. gbind nnc_reset_str_map (\<lambda>_.
     gret (''.intel_syntax noprefix '' @ lf @ lf @ ''.text'' @ lf @ lf @ concat procs @
       (if data \<noteq> [] then lf @ ''.data'' @ lf @ lf @ data else []))))"

section \<open>Running steps\<close>

lemma gbind_Inr: "gbind m k s = Inr (y, s'') \<longleftrightarrow> (\<exists>x s'. m s = Inr (x, s') \<and> k x s' = Inr (y, s''))"
  by (auto simp: gbind_def bind_res_eq_Inr)

lemma gseq_simps [simp]: "gseq [] = gret ()" "gseq (m # ms) = gbind m (\<lambda>_. gseq ms)"
  by (simp_all add: gseq_def)

lemma from_res_Inr: "from_res_gen r s = Inr (x, s') \<longleftrightarrow> r = Inr x \<and> s' = s"
  by (auto simp: from_res_gen_def gen_run split: sum.splits)

end
