(* ===== verification/Nnc_Gen_Steps.thy ===== *)
theory Nnc_Gen_Steps
  imports Nnc_Gen
begin

text \<open>
  Steps of the generator and what they leave alone: storage allocation touches neither the text nor the counter of
  the stack nor the open calls.
\<close>

named_theorems quiet_rules

section \<open>Quiet steps\<close>

text \<open>What storage allocation cannot change.\<close>

definition outside_view :: "cgen \<Rightarrow> types \<times> u32 \<times> nnc_pclass_state list \<times> string \<times> string \<times> string \<times> nnc_quad list \<times> u64 \<times> (nnc_reg \<Rightarrow> nat)" where
  "outside_view s = (a_types s, stack_alloc s, call_states s, seg_text s, seg_data s, a_name s, a_quads s, quad_pointer s, junk s)"

definition quiet :: "'a gen \<Rightarrow> bool" where
  "quiet m \<longleftrightarrow> (\<forall>s x s'. m s = Inr (x, s') \<longrightarrow> outside_view s' = outside_view s)"

lemma quietI: "(\<And>s x s'. m s = Inr (x, s') \<Longrightarrow> outside_view s' = outside_view s) \<Longrightarrow> quiet m"
  by (simp add: quiet_def)

lemma quietD:
  assumes "quiet m" "m s = Inr (x, s')"
  shows "a_types s' = a_types s" "stack_alloc s' = stack_alloc s" "call_states s' = call_states s" "seg_text s' = seg_text s" "seg_data s' = seg_data s"
  using assms by (auto simp: quiet_def outside_view_def)

lemma quiet_bind [quiet_rules]: "quiet m \<Longrightarrow> (\<And>x. quiet (k x)) \<Longrightarrow> quiet (gbind m k)"
  by (fastforce simp: quiet_def gbind_Inr)

lemma quiet_basic [quiet_rules]:
  "quiet (gret x)" "quiet (gfail e)" "quiet (gget f)" "quiet (gassert b)" "quiet (from_opt y)" "quiet (from_res_gen z)"
  by (auto simp: quiet_def gen_run split: if_splits option.splits sum.splits)

lemma quiet_put [quiet_rules]: "(\<And>s. outside_view (f s) = outside_view s) \<Longrightarrow> quiet (gput f)"
  by (auto simp: quiet_def gput_def)

lemma quiet_case [quiet_rules]:
  "quiet a \<Longrightarrow> quiet b \<Longrightarrow> quiet (if c then a else b)"
  "quiet m \<Longrightarrow> (\<And>x. quiet (k x)) \<Longrightarrow> quiet (case z of None \<Rightarrow> m | Some x \<Rightarrow> k x)"
  "(\<And>x y. quiet (h x y)) \<Longrightarrow> quiet (case p of (x, y) \<Rightarrow> h x y)"
  "quiet m \<Longrightarrow> (\<And>x xs. quiet (h' x xs)) \<Longrightarrow> quiet (case zs of [] \<Rightarrow> m | x # xs \<Rightarrow> h' x xs)"
  by (simp_all split: option.splits prod.splits list.splits)

lemma quiet_where [quiet_rules]:
  "quiet n \<Longrightarrow> (\<And>v. quiet (i v)) \<Longrightarrow> (\<And>r. quiet (g r)) \<Longrightarrow> (\<And>x. quiet (d x)) \<Longrightarrow> (\<And>m. quiet (st m)) \<Longrightarrow>
    quiet (case w of L_NONE \<Rightarrow> n | L_IMM v \<Rightarrow> i v | L_REG r \<Rightarrow> g r | L_DATA x \<Rightarrow> d x | L_STACK m \<Rightarrow> st m)"
  by (simp split: nnc_where.splits)

lemma quiet_kind [quiet_rules]:
  "quiet n \<Longrightarrow> quiet a \<Longrightarrow> quiet b \<Longrightarrow> quiet c \<Longrightarrow> quiet d \<Longrightarrow> quiet e \<Longrightarrow>
    quiet (case k of ADDR_NONE \<Rightarrow> n | ADDR_NAME \<Rightarrow> a | ADDR_SCONST \<Rightarrow> b | ADDR_ICONST \<Rightarrow> c | ADDR_FCONST \<Rightarrow> d | ADDR_CGT \<Rightarrow> e)"
  by (simp split: nnc_3a_addr_kind.splits)

lemma quiet_pclass [quiet_rules]: "quiet a \<Longrightarrow> quiet b \<Longrightarrow> quiet (case c of C_INTEGER \<Rightarrow> a | C_MEMORY \<Rightarrow> b)"
  by (simp split: nnc_pclass.splits)

lemma quiet_iter [quiet_rules]: "(\<And>x. quiet (f x)) \<Longrightarrow> quiet (giter f xs)"
  by (induction xs) (simp_all add: quiet_rules)

lemma quiet_gtype [quiet_rules]: "quiet (gtype f t)"
  unfolding gtype_def by (intro quiet_rules)

section \<open>Storage allocation\<close>

lemma quiet_empty [quiet_rules]: "quiet (nnc_reg_lr_empty r)"
  by (rule quietI) (auto simp: nnc_reg_lr_empty_def split: if_splits)

lemma quiet_new [quiet_rules]: "quiet (new_loc l)"
  by (rule quietI) (auto simp: new_loc_def outside_view_def)

lemma quiet_peek [quiet_rules]: "quiet (nnc_peek_reg r)"
  unfolding nnc_peek_reg_def by (intro quiet_rules)

lemma quiet_set [quiet_rules]: "quiet (set_reg r xs)" "quiet (set_offset i)"
  unfolding set_reg_def set_offset_def by (intro quiet_rules; simp add: outside_view_def)+

lemma quiet_regs [quiet_rules]: "quiet (nnc_reg_busy r)" "quiet (nnc_update_reg r j)" "quiet (nnc_pop_reg r)" "quiet (nnc_unreserve_reg r)" "quiet (nnc_push_reg r)"
  unfolding nnc_reg_busy_def nnc_update_reg_def nnc_pop_reg_def nnc_unreserve_reg_def nnc_push_reg_def by (intro quiet_rules)+

lemma quiet_reserve [quiet_rules]: "quiet (nnc_reserve_reg r)"
  unfolding nnc_reserve_reg_def by (intro quiet_rules; simp add: outside_view_def)

lemma quiet_labels [quiet_rules]: "quiet (nnc_make_cgt_loc_label a)" "quiet (nnc_make_var_loc_label a)" "quiet (nnc_make_str_loc_label a)"
  unfolding nnc_make_cgt_loc_label_def nnc_make_var_loc_label_def nnc_make_str_loc_label_def Let_def by (intro quiet_rules; simp add: outside_view_def)+

lemma quiet_label [quiet_rules]: "quiet (nnc_make_loc_label a)" "quiet (nnc_get_lr a)"
  unfolding nnc_make_loc_label_def nnc_get_lr_def by (intro quiet_rules)+

lemma quiet_loc [quiet_rules]: "quiet (nnc_get_loc a)" "quiet (nnc_put_loc i a)" "quiet (loc_value i)"
  unfolding nnc_get_loc_def nnc_put_loc_def loc_value_def Let_def by (intro quiet_rules; simp add: outside_view_def)+

lemma quiet_place [quiet_rules]: "quiet (place_loc w a)"
  unfolding place_loc_def by (intro quiet_rules)

lemma quiet_make [quiet_rules]: "quiet (nnc_make_reg_loc r a)" "quiet (nnc_make_ds_loc a)" "quiet (nnc_make_ss_loc a)" "quiet (nnc_make_pss_loc a st)"
  unfolding nnc_make_reg_loc_def nnc_make_ds_loc_def nnc_make_ss_loc_def nnc_make_pss_loc_def by (intro quiet_rules; simp add: outside_view_def)+

lemma quiet_find [quiet_rules]: "quiet (find_reg rs lr)"
  by (induction rs) (simp_all add: quiet_rules)

lemma quiet_store_kinds [quiet_rules]: "quiet (nnc_store_cgt a)" "quiet (nnc_store_var a)" "quiet (nnc_store_str a)" "quiet (nnc_store_imm a)"
  unfolding nnc_store_cgt_def nnc_store_var_def nnc_store_str_def nnc_store_imm_def by (intro quiet_rules)+

lemma quiet_store [quiet_rules]: "quiet (nnc_store a)" "quiet (nnc_spill a)" "quiet (nnc_swap_loc a b)"
  unfolding nnc_store_def nnc_spill_def nnc_swap_loc_def by (intro quiet_rules)+

lemma quiet_params [quiet_rules]: "quiet (nnc_pclass_state_init st)" "quiet (nnc_get_pclass t st)" "quiet (nnc_pclass_state_fini st)"
    "quiet (nnc_store_int_param a st)" "quiet (nnc_store_mem_param a st)"
  unfolding nnc_pclass_state_init_def nnc_get_pclass_def nnc_pclass_state_fini_def nnc_store_int_param_def nnc_store_mem_param_def Let_def
  by (intro quiet_rules)+

lemma quiet_param [quiet_rules]: "quiet (nnc_store_param a st)"
  unfolding nnc_store_param_def by (intro quiet_rules)

lemmas quiet_storage = quiet_empty quiet_new quiet_peek quiet_set quiet_regs quiet_reserve quiet_labels quiet_label quiet_loc quiet_place quiet_make quiet_find quiet_store_kinds quiet_store quiet_params quiet_param

section \<open>An empty state\<close>

definition start_cgen :: cgen where
  "start_cgen = \<lparr>a_types = static_types, a_lr = fresh_lr_proc, lr_vec = (\<lambda>_. None), str_counter = 0, str_map = None, locs = [], loc_map = None,
     a_name = ''f'', a_quads = [], quad_pointer = 0, p_stack = 0, p_stack_pad = 0, l_stack = 0, stack_alloc = 0, junk = (\<lambda>_. 8),
     call_states = [], seg_text = [], seg_data = []\<rparr>"

end
