(* ===== verification/Nnc_Gen_Stack.thy ===== *)
theory Nnc_Gen_Stack
  imports Nnc_Gen_Steps
begin

text \<open>
  The stack pointer in the generated code: \<open>stack_alloc\<close> counts what is pushed below the frame, the open calls
  know what of it is theirs. Every quad keeps the two in step; at a call this decides on the alignment
  the ABI asks for and on the place where the callee looks for its arguments.
\<close>

named_theorems level

section \<open>Steps that leave the stack alone\<close>

text \<open>
  \<open>moves f m\<close>: the step changes the counter by \<open>f\<close> of its result and the open calls not at all.
\<close>

definition moves :: "('a \<Rightarrow> u32) \<Rightarrow> 'a gen \<Rightarrow> bool" where
  "moves f m \<longleftrightarrow> (\<forall>s x s'. m s = Inr (x, s') \<longrightarrow> stack_alloc s' = stack_alloc s + f x \<and> call_states s' = call_states s)"

definition level :: "'a gen \<Rightarrow> bool" where
  "level m \<longleftrightarrow> moves (\<lambda>_. 0) m"

lemma levelI: "(\<And>s x s'. m s = Inr (x, s') \<Longrightarrow> stack_alloc s' = stack_alloc s \<and> call_states s' = call_states s) \<Longrightarrow> level m"
  by (simp add: level_def moves_def)

lemma levelD: "level m \<Longrightarrow> m s = Inr (x, s') \<Longrightarrow> stack_alloc s' = stack_alloc s" "level m \<Longrightarrow> m s = Inr (x, s') \<Longrightarrow> call_states s' = call_states s"
  by (simp_all add: level_def moves_def)

lemma movesD: "moves f m \<Longrightarrow> m s = Inr (x, s') \<Longrightarrow> stack_alloc s' = stack_alloc s + f x" "moves f m \<Longrightarrow> m s = Inr (x, s') \<Longrightarrow> call_states s' = call_states s"
  by (simp_all add: moves_def)

lemma moves_bind: "moves f m \<Longrightarrow> (\<And>x. moves (\<lambda>y. g y - f x) (k x)) \<Longrightarrow> moves g (gbind m k)"
  by (fastforce simp: moves_def gbind_Inr)

lemma level_moves: "level m \<Longrightarrow> moves (\<lambda>_. 0) m"
  by (simp add: level_def)

lemma moves_level: "level m \<Longrightarrow> (\<And>x. moves g (k x)) \<Longrightarrow> moves g (gbind m k)"
  using moves_bind [of "\<lambda>_. 0" m g k] by (simp add: level_def)

lemma level_bind [level]: "level m \<Longrightarrow> (\<And>x. level (k x)) \<Longrightarrow> level (gbind m k)"
  unfolding level_def by (rule moves_level) (simp_all add: level_def)

lemma level_basic [level]:
  "level (gret x)" "level (gfail e)" "level (gget f)" "level (gassert b)" "level (from_opt y)" "level (from_res_gen z)"
  by (auto simp: level_def moves_def gen_run split: if_splits option.splits sum.splits)

lemma level_put [level]: "(\<And>s. stack_alloc (f s) = stack_alloc s) \<Longrightarrow> (\<And>s. call_states (f s) = call_states s) \<Longrightarrow> level (gput f)"
  by (auto simp: level_def moves_def gput_def)

lemma level_case [level]:
  "level a \<Longrightarrow> level b \<Longrightarrow> level (if c then a else b)"
  "level m \<Longrightarrow> (\<And>x. level (k x)) \<Longrightarrow> level (case z of None \<Rightarrow> m | Some x \<Rightarrow> k x)"
  "(\<And>x y. level (h x y)) \<Longrightarrow> level (case p of (x, y) \<Rightarrow> h x y)"
  "level m \<Longrightarrow> (\<And>x xs. level (h' x xs)) \<Longrightarrow> level (case zs of [] \<Rightarrow> m | x # xs \<Rightarrow> h' x xs)"
  by (simp_all split: option.splits prod.splits list.splits)

lemma level_where [level]:
  "level n \<Longrightarrow> (\<And>v. level (i v)) \<Longrightarrow> (\<And>r. level (g r)) \<Longrightarrow> (\<And>x. level (d x)) \<Longrightarrow> (\<And>m. level (st m)) \<Longrightarrow>
    level (case w of L_NONE \<Rightarrow> n | L_IMM v \<Rightarrow> i v | L_REG r \<Rightarrow> g r | L_DATA x \<Rightarrow> d x | L_STACK m \<Rightarrow> st m)"
  by (simp split: nnc_where.splits)

lemma level_kind [level]:
  "level n \<Longrightarrow> level a \<Longrightarrow> level b \<Longrightarrow> level c \<Longrightarrow> level d \<Longrightarrow> level e \<Longrightarrow>
    level (case k of ADDR_NONE \<Rightarrow> n | ADDR_NAME \<Rightarrow> a | ADDR_SCONST \<Rightarrow> b | ADDR_ICONST \<Rightarrow> c | ADDR_FCONST \<Rightarrow> d | ADDR_CGT \<Rightarrow> e)"
  by (simp split: nnc_3a_addr_kind.splits)

lemma level_pclass [level]: "level a \<Longrightarrow> level b \<Longrightarrow> level (case c of C_INTEGER \<Rightarrow> a | C_MEMORY \<Rightarrow> b)"
  by (simp split: nnc_pclass.splits)

lemma level_iter [level]: "(\<And>x. level (f x)) \<Longrightarrow> level (giter f xs)"
  by (induction xs) (simp_all add: level)

lemma level_gtype [level]: "level (gtype f t)"
  unfolding gtype_def by (intro level)

lemma quiet_level: "quiet m \<Longrightarrow> level m"
  by (rule levelI) (simp add: quietD)

lemmas level_storage [level] = quiet_storage [THEN quiet_level]

section \<open>Code generation\<close>

lemma level_text [level]: "level (GEN_TEXT x)" "level (GEN_DATA x)" "level (GEN_INST x)" "level (reg_text r)"
  unfolding GEN_TEXT_def GEN_DATA_def GEN_INST_def reg_text_def by (intro level; simp)+

lemma level_seq_Nil [level]: "level (gseq [])"
  by (simp add: level)

lemma level_seq_Cons [level]: "level m \<Longrightarrow> level (gseq ms) \<Longrightarrow> level (gseq (m # ms))"
  by (simp add: level)

lemma level_parts [level]: "level (loc_reg l)" "level (loc_imm l)" "level (dseg_label l)" "level stack_valid" "level (loc_deref i)" "level cur_op"
  "level (assert_type p a)" "level call_state" "level jump_to_end"
  unfolding loc_reg_def loc_imm_def dseg_label_def stack_valid_def loc_deref_def cur_op_def assert_type_def call_state_def jump_to_end_def
  by (intro level)+

lemma level_sizes [level]: "level (nnc_get_ptr_size t)" "level (nnc_get_reg_of_size r n)" "level (nnc_get_reg_of_type r t)"
  "level (nnc_addr_inside_reg a r)" "level (nnc_addr_inside a p)" "level (ptr_text t x)"
  unfolding nnc_get_ptr_size_def nnc_get_reg_of_size_def nnc_get_reg_of_type_def nnc_addr_inside_reg_def nnc_addr_inside_def ptr_text_def
  by (intro level)+

lemma level_junk [level]: "level nnc_reset_junk_vec" "level (get_junk r)" "level (nnc_pollute r n)"
  unfolding nnc_reset_junk_vec_def get_junk_def nnc_pollute_def by (intro level; simp)+

lemma level_operand [level]: "level (nnc_gen_loc l t)" "level (nnc_gen_operand a t)" "level (nnc_gen_xor_reg l)" "level (nnc_gen_erase_reg l)"
  "level (two_operands i d dt l t)"
  unfolding nnc_gen_loc_def nnc_gen_operand_def nnc_gen_xor_reg_def nnc_gen_erase_reg_def two_operands_def by (intro level)+

lemma level_conv [level]: "level (nnc_gen_int_conv d l)" "level (nnc_gen_conv d l)" "level m \<Longrightarrow> level (unless_conv d l m)"
  unfolding nnc_gen_int_conv_def nnc_gen_conv_def unless_conv_def by (intro level; assumption?)+

lemma level_mov [level]: "level (nnc_gen_mov_mem_to_reg r m)" "level (nnc_gen_mov_reg_to_reg d l)" "level (nnc_gen_mov_imm_to_reg r i)"
  "level (nnc_gen_mov_reg_to_mem m r)" "level (nnc_gen_mov_imm_to_mem m i)" "level (nnc_gen_reg_to_mem_mov r m)"
  unfolding nnc_gen_mov_mem_to_reg_def nnc_gen_mov_reg_to_reg_def nnc_gen_mov_imm_to_reg_def nnc_gen_mov_reg_to_mem_def
    nnc_gen_mov_imm_to_mem_def nnc_gen_reg_to_mem_mov_def Let_def
  by (intro level)+

subsection \<open>Pushing and popping\<close>

lemma moves_stack: "moves (\<lambda>_. n) (stack_moved n)"
  by (auto simp: moves_def stack_moved_def gput_def)

lemma moves_then: "moves (\<lambda>_. n) m \<Longrightarrow> level k \<Longrightarrow> moves (\<lambda>_. n) (gbind m (\<lambda>_. k))"
  by (rule moves_bind) (auto simp: level_def)

lemma moves_push: "moves (\<lambda>_. 8) (nnc_gen_push l)"
  unfolding nnc_gen_push_def gseq_simps
  by (intro moves_level level moves_then moves_stack)

lemma moves_pop: "moves (\<lambda>_. - 8) (nnc_gen_pop l)"
  unfolding nnc_gen_pop_def gseq_simps
  by (intro moves_level level moves_then moves_stack)

lemma moves_reserve: "moves (\<lambda>b. if b then 8 else 0) (nnc_gen_reserve_reg r)"
proof -
  have "moves (\<lambda>y. if y then 8 else 0) (gbind (if b then nnc_gen_push (REG_LOC r) else gret ()) (\<lambda>_. gret b))" for b
    using moves_push [of "REG_LOC r"] by (cases b) (auto simp: moves_def gen_run bind_res_eq_Inr)
  then show ?thesis unfolding nnc_gen_reserve_reg_def by (rule moves_level [OF quiet_level [OF quiet_reserve]])
qed

lemma moves_pop_reg: "moves (\<lambda>_. if b then - 8 else 0) (nnc_gen_pop_reg r b)"
  unfolding nnc_gen_pop_reg_def gseq_simps
  by (intro moves_level level moves_then) (auto simp: moves_push moves_pop intro!: moves_then level level_moves)

lemmas moves_pop_then = moves_then [OF moves_pop_reg]

text \<open>What reserves a register and releases it in the end is level.\<close>

lemma level_reserved:
  assumes "\<And>b. moves (\<lambda>_. if b then - 8 else 0) (k b)"
  shows "level (gbind (nnc_gen_reserve_reg r) k)"
  unfolding level_def
proof (rule moves_bind [OF moves_reserve])
  fix b show "moves (\<lambda>_. 0 - (if b then 8 else 0)) (k b)" using assms [of b] by (simp split: if_splits)
qed

lemma moves_if_reserved:
  assumes "\<And>b. level (k b)"
  shows "moves (\<lambda>b. if b then 8 else 0) (if c then gret False else gbind (nnc_gen_reserve_reg r) (\<lambda>b. gbind (k b) (\<lambda>_. gret b)))"
proof (cases c)
  case True
  then show ?thesis by (simp add: moves_def gret_def)
next
  case False
  have "moves (\<lambda>y. (if y then 8 else 0) - (if b then 8 else 0)) (gbind (k b) (\<lambda>_. gret b))" for b
    using assms [of b] by (fastforce simp: moves_def level_def gbind_Inr gret_def)
  then show ?thesis using False by (simp add: moves_bind [OF moves_reserve])
qed

lemma level_mem_to_mem [level]: "level (nnc_gen_mov_mem_to_mem d l)"
  unfolding nnc_gen_mov_mem_to_mem_def Let_def
  by (intro level_reserved level) (simp only: gseq_simps, intro moves_pop_then moves_level level)

lemma level_mov_operand [level]: "level (nnc_gen_mov_operand_to_reg r a)" "level (nnc_gen_mov_reg_to_operand r a)"
  "level (nnc_gen_mov_operand_to_mem m a)"
  unfolding nnc_gen_mov_operand_to_reg_def nnc_gen_mov_reg_to_operand_def nnc_gen_mov_operand_to_mem_def Let_def
  by (intro level)+

lemma level_mov_operands [level]: "level (nnc_gen_mov_operand_to_operand d a)" "level (nnc_cmp_addr d a)"
  unfolding nnc_gen_mov_operand_to_operand_def nnc_cmp_addr_def Let_def by (intro level)+

subsection \<open>Quads without calls\<close>

lemma level_label_ops [level]: "level (nnc_gen_label a)" "level (nnc_gen_label_decl q)" "level (nnc_gen_op_ref q)" "level (nnc_gen_op_cast q)"
  "level (nnc_gen_op_copy q)" "level (nnc_gen_op_deref_copy q)" "level (copy_result q)"
  unfolding nnc_gen_label_def nnc_gen_label_decl_def nnc_gen_op_ref_def nnc_gen_op_cast_def nnc_gen_op_copy_def nnc_gen_op_deref_copy_def
    copy_result_def by (intro level)+

lemma level_if_reserved:
  assumes "\<And>b. level (k b)" "\<And>b. moves (\<lambda>_. if b then - 8 else 0) (h b)"
  shows "level (gbind (if c then gret False else gbind (nnc_gen_reserve_reg r) (\<lambda>b. gbind (k b) (\<lambda>_. gret b))) h)"
  unfolding level_def
proof (rule moves_bind [OF moves_if_reserved [OF assms(1)]])
  fix b show "moves (\<lambda>_. 0 - (if b then 8 else 0)) (h b)" using assms(2) [of b] by (simp split: if_splits)
qed

lemma level_deref [level]: "level (nnc_gen_op_deref q)"
  unfolding nnc_gen_op_deref_def
  by (intro level_if_reserved level) (simp only: gseq_simps, intro moves_pop_then moves_level level)

lemma level_unary [level]: "level (nnc_gen_op_unary q i)" "level (nnc_gen_op_binary q i)" "level (one_cgt q)"
  unfolding nnc_gen_op_unary_def nnc_gen_op_binary_def one_cgt_def by (intro level)+

lemma level_simple [level]: "level (simple_binary q i)" "level (nnc_gen_op_plus q)" "level (nnc_gen_op_minus q)" "level (nnc_gen_op_not q)"
  "level (nnc_gen_op_sub q)"
  unfolding simple_binary_def nnc_gen_op_plus_def nnc_gen_op_minus_def nnc_gen_op_not_def nnc_gen_op_sub_def by (intro level)+

lemma level_shift [level]: "level (nnc_gen_inst_shift q i)"
  unfolding nnc_gen_inst_shift_def
  by (intro level_if_reserved level) (simp only: gseq_simps, intro moves_pop_then moves_level level)

lemma level_jumps [level]: "level (nnc_gen_cmp q)" "level (nnc_gen_test q)" "level (nnc_gen_inst_jump q i)"
  unfolding nnc_gen_cmp_def nnc_gen_test_def nnc_gen_inst_jump_def Let_def by (intro level)+

lemma level_cond [level]: "level (ordered_jump q i u)" "level (test_or_cmp q)"
  unfolding ordered_jump_def test_or_cmp_def by (intro level)+

lemma level_mem_loop [level]: "level (mem_loop bs b k)" "level (pad_loop b k)"
  by (induction k arbitrary: bs b) (simp_all add: Let_def level del: gseq_simps)

lemma level_mem [level]: "level (nnc_gen_mem bs x n)" "level (nnc_gen_mem_pad n)" "level (nnc_gen_mem_named x n)"
  unfolding nnc_gen_mem_def nnc_gen_mem_pad_def nnc_gen_mem_named_def by (intro level)+

lemma level_decls [level]: "level (nnc_gen_op_decl_local q)" "level (nnc_gen_op_decl_global q)" "level (nnc_gen_op_decl_string q)"
  "level (nnc_gen_op_retp q)" "level (nnc_gen_op_retf q)" "level (nnc_gen_call H st a)"
  unfolding nnc_gen_op_decl_local_def nnc_gen_op_decl_global_def nnc_gen_op_decl_string_def nnc_gen_op_retp_def nnc_gen_op_retf_def nnc_gen_call_def
  by (intro level)+

section \<open>The books of the open calls\<close>

text \<open>What an open call has on the stack: its arguments with the padding, and the registers it saved.\<close>

definition owed :: "nnc_pclass_state \<Rightarrow> u32" where
  "owed st = on_stack st + 8 * of_nat (length (pushed st))"

definition ledger :: "cgen \<Rightarrow> u32" where
  "ledger s = stack_alloc s - sum_list (map owed (call_states s))"

definition in_words :: "cgen \<Rightarrow> bool" where
  "in_words s \<longleftrightarrow> 8 dvd stack_alloc s \<and> list_all (\<lambda>st. 8 dvd on_stack st \<and> pc_res st = None) (call_states s)"

definition books :: "cgen \<Rightarrow> cgen \<Rightarrow> bool" where
  "books s s' \<longleftrightarrow> ledger s' = ledger s \<and> in_words s'"

subsection \<open>Opening a call\<close>

lemma moves_save: "moves (\<lambda>rs. 8 * of_nat (length rs)) (save_regs rs res_reg)"
proof (induction rs)
  case (Cons r rs)
  have "moves (\<lambda>ys. 8 * of_nat (length ys) - 8) (gbind (save_regs rs res_reg) (\<lambda>xs. gret (r # xs)))"
    using Cons by (fastforce simp: moves_def gbind_Inr gret_def algebra_simps)
  then have "moves (\<lambda>ys. 8 * of_nat (length ys)) (gbind (nnc_push_reg r) (\<lambda>_. gbind (nnc_gen_push (REG_LOC r)) (\<lambda>_. gbind (save_regs rs res_reg) (\<lambda>xs. gret (r # xs)))))"
    by (intro moves_level [OF quiet_level [OF quiet_regs(5)]] moves_bind [OF moves_push])
  then show ?case using Cons by (auto intro!: moves_level [OF quiet_level [OF quiet_regs(1)]])
qed (simp add: moves_def gret_def)

lemma init_run: "nnc_pclass_state_init no_pclass_state s = Inr (no_pclass_state\<lparr>was_init := True\<rparr>, s)"
  by (simp add: nnc_pclass_state_init_def no_pclass_state_def gen_run)

lemma decl_call_run:
  assumes "nnc_gen_op_decl_call q s = Inr (x, s')"
  shows "\<exists>rs. stack_alloc s' = stack_alloc s + 8 * of_nat (length rs) \<and>
     call_states s' = call_states s @ [no_pclass_state\<lparr>was_init := True, pushed := rs\<rparr>]"
proof -
  define res where "res = (if akind (qres q) \<noteq> ADDR_NONE then gbind (nnc_store (qres q)) (\<lambda>l. gret (case loc_at l of L_REG r \<Rightarrow> r | _ \<Rightarrow> R_NONE)) else gret R_NONE)"
  have res: "level res" unfolding res_def by (intro level)
  obtain r s1 rs s2 where run: "res s = Inr (r, s1)" "save_regs general_regs r s1 = Inr (rs, s2)"
    "s' = s2\<lparr>call_states := call_states s2 @ [no_pclass_state\<lparr>was_init := True, pushed := rs\<rparr>]\<rparr>"
    using assms unfolding nnc_gen_op_decl_call_def res_def [symmetric]
    by (auto simp: gbind_Inr init_run gput_def)
  then show ?thesis using levelD [OF res run(1)] movesD [OF moves_save run(2)] by auto
qed

lemma decl_call_books:
  assumes "nnc_gen_op_decl_call q s = Inr (x, s')" "in_words s"
  shows "books s s'"
  using decl_call_run [OF assms(1)] assms(2) by (auto simp: books_def ledger_def in_words_def owed_def no_pclass_state_def)

subsection \<open>Arguments\<close>

lemma make_label_locs: "nnc_make_loc_label a s = Inr (l, s') \<Longrightarrow> locs s' = locs s"
  by (auto simp: nnc_make_loc_label_def nnc_make_cgt_loc_label_def nnc_make_var_loc_label_def nnc_make_str_loc_label_def gen_run Let_def bind_res_eq_Inr
      split: nnc_3a_addr_kind.splits if_splits sum.splits)

lemma put_loc_locs: "nnc_put_loc i a s = Inr (x, s') \<Longrightarrow> locs s' = locs s"
  by (auto simp: nnc_put_loc_def gbind_Inr from_res_Inr gput_def gget_def gfail_def dest!: make_label_locs split: option.splits)

lemma place_loc_value: "place_loc w a s = Inr (i, s') \<Longrightarrow> locs s' ! i = mk_loc w (atype a)"
  by (auto simp: place_loc_def gbind_Inr new_loc_def gret_def dest!: put_loc_locs)

text \<open>Where a parameter goes and what it adds to the stack.\<close>

definition pclass_next :: "nnc_pclass_state \<Rightarrow> nnc_pclass_state" where
  "pclass_next st = (if int_iter st < 6 then st\<lparr>int_iter := int_iter st + 1\<rparr> else st\<lparr>on_stack := on_stack st + 8\<rparr>)"

lemma store_param_value:
  assumes "nnc_store_param a st s = Inr ((l, st'), s')"
  shows "st' = pclass_next st" "loc_at l = (if int_iter st < 6 then L_REG (int_p_param ! int_iter st) else
     L_STACK (ucast (8 + ucast (pc_stack_pad st) + (on_stack st + 8))))"
proof -
  have w: "was_init st" using assms by (auto simp: nnc_store_param_def gbind_Inr gassert_def gfail_def split: if_splits)
  obtain c st1 s1 where c: "nnc_get_pclass (atype a) st s = Inr ((c, st1), s1)"
    "(case c of C_MEMORY \<Rightarrow> nnc_store_mem_param a st1 | C_INTEGER \<Rightarrow> gbind (nnc_store_int_param a st1) (\<lambda>l. gret (l, st1))) s1 = Inr ((l, st'), s')"
    using assms w by (auto simp: nnc_store_param_def gbind_Inr gassert_def gret_def)
  have c1: "(c, st1) = (if int_iter st < 6 then (C_INTEGER, st\<lparr>int_iter := int_iter st + 1\<rparr>) else (C_MEMORY, st))"
    using c(1) w by (auto simp: nnc_get_pclass_def gbind_Inr int_p_param_def gret_def split: if_splits)
  have "st' = pclass_next st \<and> loc_at l = (if int_iter st < 6 then L_REG (int_p_param ! int_iter st) else
     L_STACK (ucast (8 + ucast (pc_stack_pad st) + (on_stack st + 8))))"
    using c(2) c1 by (auto simp: pclass_next_def nnc_store_int_param_def nnc_store_mem_param_def nnc_make_reg_loc_def nnc_make_pss_loc_def gbind_Inr
        gret_def loc_value_def gget_def mk_loc_def Let_def dest!: place_loc_value split: if_splits)
  then show "st' = pclass_next st" "loc_at l = (if int_iter st < 6 then L_REG (int_p_param ! int_iter st) else
     L_STACK (ucast (8 + ucast (pc_stack_pad st) + (on_stack st + 8))))" by simp_all
qed

lemma set_state_run: "set_call_state st s = Inr ((), s\<lparr>call_states := butlast (call_states s) @ [st]\<rparr>)"
  by (simp add: set_call_state_def gput_def)

lemma call_state_Inr: "call_state s = Inr (st, s') \<longleftrightarrow> s' = s \<and> call_states s \<noteq> [] \<and> st = last (call_states s)"
  by (auto simp: call_state_def gen_run split: if_splits)

lemma arg_run:
  assumes "nnc_gen_op_arg q s = Inr (x, s')"
  shows "call_states s \<noteq> []" "stack_alloc s' = stack_alloc s + (if int_iter (last (call_states s)) < 6 then 0 else 8)"
    "\<exists>st. call_states s' = butlast (call_states s) @ [st] \<and> pushed st = pushed (last (call_states s)) \<and>
       int_iter st = int_iter (pclass_next (last (call_states s))) \<and> on_stack st = on_stack (pclass_next (last (call_states s))) \<and>
       pc_res st = pc_res (last (call_states s))"
proof -
  define pre where "pre = gseq [assert_type nnc_real_type (arg1 q), assert_type nnc_struct_or_union_type (arg1 q), gassert (akind (arg1 q) = ADDR_CGT)]"
  define st where "st = last (call_states s)"
  define move push where act: "move l abi = gbind (loc_reg l) (\<lambda>_. nnc_gen_mov_reg_to_reg abi l)" "push l = gbind (loc_reg l) (\<lambda>_. nnc_gen_push l)" for l abi
  have "level pre" unfolding pre_def by (intro level)
  obtain s0 s1 l s2 abi st1 where run: "pre s = Inr ((), s0)" "call_states s0 \<noteq> []" "nnc_store (arg1 q) s0 = Inr (l, s1)"
    "nnc_store_param (arg1 q) (last (call_states s0)) s1 = Inr ((abi, st1), s2)"
    "(case loc_at abi of
         L_REG r \<Rightarrow> gseq [set_call_state st1, move l abi, set_call_state (st1\<lparr>abi_used := abi_used st1 @ [r]\<rparr>)]
       | L_STACK _ \<Rightarrow> gseq [set_call_state st1, push l]
       | _ \<Rightarrow> set_call_state st1) s2 = Inr ((), s')"
    using assms unfolding nnc_gen_op_arg_def pre_def act [symmetric] by (auto simp: gbind_Inr call_state_Inr gret_def)
  note s0 = levelD [OF \<open>level pre\<close> run(1)]
  note s1 = levelD [OF quiet_level [OF quiet_store(1)] run(3)] and s2 = levelD [OF quiet_level [OF quiet_param] run(4)]
  have lv: "level (move l abi)" and mv: "moves (\<lambda>_. 8) (push l)" unfolding act by (intro level moves_level moves_push)+
  have st1: "st1 = pclass_next st" "loc_at abi = (if int_iter st < 6 then L_REG (int_p_param ! int_iter st) else
     L_STACK (ucast (8 + ucast (pc_stack_pad st) + (on_stack st + 8))))"
    using store_param_value [OF run(4)] s0 by (simp_all add: st_def)
  show "call_states s \<noteq> []" using run(2) s0 by simp
  have fin: "stack_alloc s' = stack_alloc s + (if int_iter st < 6 then 0 else 8) \<and> (\<exists>st'. call_states s' = butlast (call_states s) @ [st'] \<and> pushed st' = pushed st1 \<and>
       int_iter st' = int_iter st1 \<and> on_stack st' = on_stack st1 \<and> pc_res st' = pc_res st1)"
  proof (cases "int_iter st < 6")
    case True
    then show ?thesis using run(5) s0 s1 s2 levelD [OF lv]
      by (auto simp: st1(2) gbind_Inr set_state_run gret_def butlast_append)
  next
    case False
    then show ?thesis using run(5) s0 s1 s2 movesD [OF mv]
      by (auto simp: st1(2) gbind_Inr set_state_run gret_def)
  qed
  moreover have "pushed st1 = pushed st" "pc_res st1 = pc_res st" by (simp_all add: st1(1) pclass_next_def)
  ultimately show "stack_alloc s' = stack_alloc s + (if int_iter (last (call_states s)) < 6 then 0 else 8)"
    "\<exists>st. call_states s' = butlast (call_states s) @ [st] \<and> pushed st = pushed (last (call_states s)) \<and>
       int_iter st = int_iter (pclass_next (last (call_states s))) \<and> on_stack st = on_stack (pclass_next (last (call_states s))) \<and>
       pc_res st = pc_res (last (call_states s))"
    by (auto simp: st_def [symmetric] st1(1))
qed

lemma arg_books:
  assumes "nnc_gen_op_arg q s = Inr (x, s')" "in_words s"
  shows "books s s'"
proof -
  note r = arg_run [OF assms(1)]
  obtain cs st where cs: "call_states s = cs @ [st]" using r(1) by (metis append_butlast_last_id)
  obtain st' where st': "call_states s' = cs @ [st']" "pushed st' = pushed st" "on_stack st' = on_stack (pclass_next st)" "pc_res st' = pc_res st" using r(3) cs by auto
  show ?thesis using assms(2) r(2) by (auto simp: cs st' books_def ledger_def in_words_def owed_def pclass_next_def)
qed

subsection \<open>The call\<close>

lemma dvd_unat: "(8 :: u32) dvd n \<Longrightarrow> unat n mod 16 = 0 \<or> unat n mod 16 = 8"
proof -
  assume "(8 :: u32) dvd n"
  then obtain k where k: "n = 8 * k" by (auto simp: dvd_def)
  have "unat n mod 16 = (8 * unat k) mod 16" by (simp add: k unat_word_ariths mod_mod_cancel)
  then show ?thesis by presburger
qed

lemma mod16: "(n :: u32) mod 16 = 0 \<longleftrightarrow> unat n mod 16 = 0" "(n :: u32) mod 16 = 8 \<longleftrightarrow> unat n mod 16 = 8"
  by (simp_all add: word_unat_eq_iff unat_mod_distrib)

lemma stack_pad: "8 dvd n \<Longrightarrow> nnc_get_stack_pad n = (if n mod 16 = 0 then 0 else 8)"
  using dvd_unat [of n] mod16 [of n] by (auto simp: nnc_get_stack_pad_def NNC_STACK_ALIGN_def)

lemma align_run:
  assumes "nnc_gen_align_stack n s = Inr (p, s')" "n = 0 \<or> n = 8 \<or> n = 16"
  shows "p = (if n = 8 then 8 else 0)" "stack_alloc s' = stack_alloc s + p" "call_states s' = call_states s"
proof -
  have pad: "nnc_get_stack_pad n = (if n = 8 then 8 else 0)" using assms(2) by (auto simp: nnc_get_stack_pad_def NNC_STACK_ALIGN_def)
  have mv: "moves (\<lambda>_. 8) (gseq [GEN_TEXT (''# alignment'' @ lf), nnc_gen_push (REG_LOC R_R15)])"
    unfolding gseq_simps by (intro moves_level moves_then moves_push level)
  show p: "p = (if n = 8 then 8 else 0)" using assms(1) pad by (auto simp: nnc_gen_align_stack_def Let_def gbind_Inr gret_def split: if_splits)
  show "stack_alloc s' = stack_alloc s + p" "call_states s' = call_states s"
    using assms pad p movesD [OF mv, of s] by (auto simp del: gseq_simps simp: nnc_gen_align_stack_def Let_def gbind_Inr gret_def split: if_splits)
qed

definition call_pad :: "cgen \<Rightarrow> u32" where
  "call_pad s = (if (stack_alloc s mod 16 = 0) \<noteq> (on_stack (last (call_states s)) mod 16 = 0) then 8 else 0)"

lemma prepare_run:
  assumes "nnc_gen_caller_prepare s = Inr (x, s')" "in_words s"
  shows "call_states s \<noteq> []" "stack_alloc s' = stack_alloc s + call_pad s"
    "call_states s' = butlast (call_states s) @ [(last (call_states s))\<lparr>on_stack := on_stack (last (call_states s)) + call_pad s\<rparr>]"
proof -
  obtain p s1 where run: "call_states s \<noteq> []" "nnc_gen_align_stack (nnc_get_stack_pad (stack_alloc s) + nnc_get_stack_pad (on_stack (last (call_states s)))) s = Inr (p, s1)"
    "s' = s1\<lparr>call_states := butlast (call_states s1) @ [(last (call_states s))\<lparr>on_stack := on_stack (last (call_states s)) + p\<rparr>]\<rparr>"
    using assms(1) by (auto simp: nnc_gen_caller_prepare_def gbind_Inr call_state_Inr gget_def set_state_run)
  have "8 dvd stack_alloc s" "8 dvd on_stack (last (call_states s))" using assms(2) run(1) by (simp_all add: in_words_def list_all_iff)
  then have n: "nnc_get_stack_pad (stack_alloc s) + nnc_get_stack_pad (on_stack (last (call_states s))) =
     (if stack_alloc s mod 16 = 0 then 0 else 8) + (if on_stack (last (call_states s)) mod 16 = 0 then 0 else 8)"
    by (simp only: stack_pad)
  have "p = call_pad s" "stack_alloc s1 = stack_alloc s + p" "call_states s1 = call_states s"
    using align_run [OF run(2)] unfolding n by (auto simp: call_pad_def split: if_splits)
  then show "call_states s \<noteq> []" "stack_alloc s' = stack_alloc s + call_pad s"
    "call_states s' = butlast (call_states s) @ [(last (call_states s))\<lparr>on_stack := on_stack (last (call_states s)) + call_pad s\<rparr>]"
    using run(1,3) by simp_all
qed

lemma moves_pops: "moves (\<lambda>_. - (8 * of_nat (length rs))) (giter (\<lambda>r. nnc_gen_pop (REG_LOC r)) rs)"
proof (induction rs)
  case (Cons r rs)
  have "moves (\<lambda>_. - (8 * of_nat (length rs)) - 8 - - 8) (giter (\<lambda>r. nnc_gen_pop (REG_LOC r)) rs)" using Cons by simp
  then have "moves (\<lambda>_. - (8 * of_nat (length rs)) - 8) (gbind (nnc_gen_pop (REG_LOC r)) (\<lambda>_. giter (\<lambda>r. nnc_gen_pop (REG_LOC r)) rs))"
    by (rule moves_bind [OF moves_pop])
  moreover have "- (8 * of_nat (length (r # rs))) = - (8 * of_nat (length rs)) - (8 :: u32)" by (simp add: algebra_simps)
  ultimately show ?case by (simp only: giter.simps)
qed (simp add: moves_def gret_def)

lemma moves_dealloc: "moves (\<lambda>_. - n) (nnc_gen_dealloc_stack n)"
proof -
  have a: "moves (\<lambda>_. - n) (if n \<noteq> 0 then gseq [GEN_INST ''add'', GEN_TEXT (''rsp,'' @ dec_digits (unat n) @ lf), stack_moved (- n)] else gret ())"
  proof (cases "n = 0")
    case False
    have "moves (\<lambda>_. - n) (gseq [GEN_INST ''add'', GEN_TEXT (''rsp,'' @ dec_digits (unat n) @ lf), stack_moved (- n)])"
      unfolding gseq_simps by (intro moves_level [OF level_text(3)] moves_level [OF level_text(1)] moves_then moves_stack level)
    then show ?thesis using False by (simp only: if_True not_False_eq_True)
  qed (simp add: level_moves [OF level_basic(1)])
  have b: "level (gbind stack_valid (\<lambda>_. gret ()))" by (intro level)
  show ?thesis using moves_then [OF a b] by (simp add: nnc_gen_dealloc_stack_def)
qed

lemma restore_run:
  assumes "nnc_gen_caller_restore s = Inr (x, s')" "in_words s"
  shows "call_states s \<noteq> []" "stack_alloc s' = stack_alloc s - owed (last (call_states s))" "call_states s' = butlast (call_states s)"
proof -
  define st where "st = last (call_states s)"
  show ne: "call_states s \<noteq> []" using assms(1) by (auto simp: nnc_gen_caller_restore_def gbind_Inr call_state_Inr)
  then have "pc_res st = None" using assms(2) by (simp add: st_def in_words_def list_all_iff)
  then obtain s1 s2 s3 where run: "nnc_gen_dealloc_stack (on_stack st) s = Inr ((), s1)"
    "giter (\<lambda>r. nnc_gen_pop (REG_LOC r)) (rev (pushed st)) s1 = Inr ((), s2)" "nnc_pclass_state_fini st s2 = Inr ((), s3)"
    "s' = s3\<lparr>call_states := butlast (call_states s3)\<rparr>"
    using assms(1) by (auto simp: nnc_gen_caller_restore_def gbind_Inr call_state_Inr st_def nnc_gen_res_dealloc_def gret_def gput_def)
  then show "stack_alloc s' = stack_alloc s - owed (last (call_states s))" "call_states s' = butlast (call_states s)"
    using movesD [OF moves_dealloc run(1)] movesD [OF moves_pops run(2)] levelD [OF quiet_level [OF quiet_params(3)] run(3)]
    by (simp_all add: owed_def st_def)
qed

lemma call_books:
  assumes "gseq [nnc_gen_caller_prepare, m, nnc_gen_caller_restore] s = Inr (x, s')" "level m" "in_words s"
  shows "books s s'" "call_states s' = butlast (call_states s)"
proof -
  obtain s1 y s2 where run: "nnc_gen_caller_prepare s = Inr ((), s1)" "m s1 = Inr (y, s2)" "nnc_gen_caller_restore s2 = Inr ((), s')"
    using assms(1) by (auto simp: gbind_Inr gret_def)
  note p = prepare_run [OF run(1) assms(3)] and m = levelD [OF assms(2) run(2)]
  obtain cs st where cs: "call_states s = cs @ [st]" using p(1) by (metis append_butlast_last_id)
  have w: "8 dvd call_pad s" by (simp add: call_pad_def)
  have i2: "in_words s2" using p m w assms(3) by (simp add: cs in_words_def)
  note r = restore_run [OF run(3) i2]
  show "books s s'" "call_states s' = butlast (call_states s)"
    using p m r w assms(3) by (auto simp: cs books_def ledger_def in_words_def owed_def)
qed

section \<open>Runs of quads\<close>

text \<open>
  The one-operand multiplication and the division look again at the place of their operands before they
  release RAX; they are left out here.
\<close>

definition calm :: "nnc_quad \<Rightarrow> bool" where
  "calm q \<longleftrightarrow> qlabel q \<noteq> 0 \<or> qop q \<notin> {OP_MUL, OP_DIV, OP_MOD}"

text \<open>The numbers of arguments of the calls that are open, from the outermost.\<close>

definition count_args :: "nat list \<Rightarrow> nnc_quad \<Rightarrow> nat list" where
  "count_args ns q = (if qlabel q \<noteq> 0 then ns else case qop q of
     OP_HINT_DECL_CALL \<Rightarrow> ns @ [0]
   | OP_ARG \<Rightarrow> butlast ns @ [last ns + 1]
   | OP_PCALL \<Rightarrow> butlast ns
   | OP_FCALL \<Rightarrow> butlast ns
   | _ \<Rightarrow> ns)"

definition open_args :: "nnc_quad list \<Rightarrow> nat list" where
  "open_args qs = foldl count_args [] qs"

definition has_args :: "nnc_pclass_state \<Rightarrow> nat \<Rightarrow> bool" where
  "has_args st n \<longleftrightarrow> int_iter st = min n 6 \<and> on_stack st = 8 * of_nat (n - 6)"

definition runs :: "cgen \<Rightarrow> nat list \<Rightarrow> bool" where
  "runs s ns \<longleftrightarrow> in_words s \<and> ledger s = 0 \<and> list_all2 has_args (call_states s) ns"

lemma runs_level:
  assumes "level m" "m s = Inr (x, s')" "runs s ns"
  shows "runs s' ns"
  using assms(3) unfolding runs_def ledger_def in_words_def levelD [OF assms(1,2)] .

lemma runs_decl:
  assumes "nnc_gen_op_decl_call q s = Inr (x, s')" "runs s ns"
  shows "runs s' (ns @ [0])"
proof -
  obtain rs where "call_states s' = call_states s @ [no_pclass_state\<lparr>was_init := True, pushed := rs\<rparr>]"
    using decl_call_run [OF assms(1)] by blast
  then show ?thesis using decl_call_books [OF assms(1)] assms(2)
    by (auto simp: runs_def books_def has_args_def no_pclass_state_def intro!: list_all2_appendI)
qed

lemma has_args_next: "has_args st n \<Longrightarrow> int_iter st' = int_iter (pclass_next st) \<Longrightarrow> on_stack st' = on_stack (pclass_next st) \<Longrightarrow> has_args st' (n + 1)"
  by (cases "n < 6") (auto simp: has_args_def pclass_next_def Suc_diff_le algebra_simps)

lemma runs_arg:
  assumes "nnc_gen_op_arg q s = Inr (x, s')" "runs s ns"
  shows "runs s' (butlast ns @ [last ns + 1])"
proof -
  note r = arg_run [OF assms(1)]
  obtain cs st where cs: "call_states s = cs @ [st]" using r(1) by (metis append_butlast_last_id)
  obtain st' where st': "call_states s' = cs @ [st']" "int_iter st' = int_iter (pclass_next st)" "on_stack st' = on_stack (pclass_next st)"
    using r(3) cs by auto
  obtain ms n where ns: "ns = ms @ [n]" "list_all2 has_args cs ms" "has_args st n"
    using assms(2) cs by (auto simp: runs_def list_all2_append1 list_all2_Cons1)
  show ?thesis using arg_books [OF assms(1)] assms(2) has_args_next [OF ns(3) st'(2,3)] ns(2)
    by (simp add: runs_def books_def st'(1) ns(1) list_all2_appendI)
qed

lemma runs_call:
  assumes "gseq [nnc_gen_caller_prepare, m, nnc_gen_caller_restore] s = Inr (x, s')" "level m" "runs s ns"
  shows "runs s' (butlast ns)"
proof -
  have i: "in_words s" using assms(3) by (simp add: runs_def)
  have "call_states s' = butlast (call_states s)" using call_books(2) [OF assms(1,2) i] .
  then have "list_all2 has_args (call_states s') (butlast ns)" using assms(3)
    by (auto simp: runs_def list_all2_conv_all_nth nth_butlast)
  then show ?thesis using call_books(1) [OF assms(1,2) i] assms(3) by (simp add: runs_def books_def)
qed

lemma level_rest [level]: "level (nnc_gen_op_add q)" "level (nnc_gen_op_or q)" "level (nnc_gen_op_and q)" "level (nnc_gen_op_xor q)"
  "level (nnc_gen_op_shr q)" "level (nnc_gen_op_shl q)" "level (nnc_gen_op_sal q)" "level (nnc_gen_op_sar q)"
  "level (nnc_gen_op_ujump q)" "level (nnc_gen_op_cjumpt q)" "level (nnc_gen_op_cjumpf q)" "level (nnc_gen_op_cjumplt q)" "level (nnc_gen_op_cjumpgt q)"
  "level (nnc_gen_op_cjumplte q)" "level (nnc_gen_op_cjumpgte q)" "level (nnc_gen_op_cjumpe q)" "level (nnc_gen_op_cjumpne q)"
  unfolding nnc_gen_op_add_def nnc_gen_op_or_def nnc_gen_op_and_def nnc_gen_op_xor_def nnc_gen_op_shr_def nnc_gen_op_shl_def nnc_gen_op_sal_def
    nnc_gen_op_sar_def simple_shift_def nnc_gen_op_ujump_def nnc_gen_op_cjumpt_def nnc_gen_op_cjumpf_def nnc_gen_op_cjumplt_def
    nnc_gen_op_cjumpgt_def nnc_gen_op_cjumplte_def nnc_gen_op_cjumpgte_def nnc_gen_op_cjumpe_def nnc_gen_op_cjumpne_def
  by (intro level)+

lemma quad_runs:
  assumes "nnc_gen_quad H st q s = Inr (x, s')" "calm q" "runs s ns"
  shows "runs s' (count_args ns q)"
proof -
  have up: "level (gput (\<lambda>s. s\<lparr>quad_pointer := quad_pointer s + 1\<rparr>))" by (intro level; simp)
  define m where "m = (if qlabel q \<noteq> 0 then nnc_gen_label_decl q else nnc_gen_op H st q)"
  obtain s1 where s1: "m s = Inr ((), s1)" "gput (\<lambda>s. s\<lparr>quad_pointer := quad_pointer s + 1\<rparr>) s1 = Inr ((), s')"
    using assms(1) unfolding nnc_gen_quad_def m_def [symmetric] by (auto simp: gbind_Inr gret_def)
  have "runs s1 (count_args ns q)"
  proof (cases "qlabel q \<noteq> 0")
    case True
    then show ?thesis using s1(1) assms(3) runs_level [OF level_label_ops(2)] by (simp add: m_def count_args_def)
  next
    case False
    have run: "nnc_gen_op H st q s = Inr ((), s1)" and c: "qop q \<notin> {OP_MUL, OP_DIV, OP_MOD}" using s1(1) False assms(2) by (simp_all add: m_def calm_def)
    have p: "nnc_gen_op_pcall H st q = gseq [nnc_gen_caller_prepare, nnc_gen_call H st (arg1 q), nnc_gen_caller_restore]"
      by (simp add: nnc_gen_op_pcall_def)
    define res where "res = gbind (nnc_store (qres q)) (\<lambda>_. nnc_gen_mov_reg_to_operand (nnc_mkloc_reg R_RAX (atype (qres q))) (qres q))"
    have f: "nnc_gen_op_fcall H st q s = gseq [nnc_gen_caller_prepare, gseq [nnc_gen_call H st (arg1 q), res], nnc_gen_caller_restore] s"
      by (simp add: nnc_gen_op_fcall_def res_def gbind_def gret_def bind_res_assoc)
    have lv: "level (nnc_gen_call H st (arg1 q))" "level (gseq [nnc_gen_call H st (arg1 q), res])" unfolding res_def by (intro level)+
    have level_op: "level (nnc_gen_op H st q)" if "qop q \<notin> {OP_MUL, OP_DIV, OP_MOD, OP_HINT_DECL_CALL, OP_ARG, OP_PCALL, OP_FCALL}"
      using that by (cases "qop q") (simp_all add: nnc_gen_op_def level_rest level_unary level_simple level_decls level_label_ops level_deref level_basic)
    show ?thesis
    proof (cases "qop q \<in> {OP_HINT_DECL_CALL, OP_ARG, OP_PCALL, OP_FCALL}")
      case True
      then show ?thesis using run False runs_decl [OF _ assms(3)] runs_arg [OF _ assms(3)] runs_call [OF _ lv(1) assms(3)]
          runs_call [OF _ lv(2) assms(3)]
        by (auto simp del: gseq_simps simp: nnc_gen_op_def count_args_def p f)
    next
      case other: False
      then have "level (nnc_gen_op H st q)" using c by (intro level_op) auto
      then have "runs s1 ns" using run assms(3) by (rule runs_level)
      moreover have "count_args ns q = ns" using other by (cases "qop q") (simp_all add: count_args_def)
      ultimately show ?thesis by simp
    qed
  qed
  then show ?thesis using runs_level [OF up s1(2)] by simp
qed

lemma quads_runs:
  "giter (nnc_gen_quad H st) qs s = Inr (x, s') \<Longrightarrow> list_all calm qs \<Longrightarrow> runs s ns \<Longrightarrow> runs s' (foldl count_args ns qs)"
proof (induction qs arbitrary: s ns)
  case (Cons q qs)
  then show ?case using quad_runs by (fastforce simp: gbind_Inr)
qed (simp add: gret_def)

section \<open>Properties\<close>

definition at_start :: "cgen \<Rightarrow> bool" where
  "at_start s \<longleftrightarrow> stack_alloc s = 0 \<and> call_states s = []"

lemma runs_start: "at_start s \<Longrightarrow> runs s []"
  by (simp add: at_start_def runs_def in_words_def ledger_def)

lemma has_args_aligned:
  assumes "has_args st n"
  shows "on_stack st mod 16 = 0 \<longleftrightarrow> even (n - 6)"
proof -
  have "unat (8 * of_nat (n - 6) :: u32) mod 16 = (8 * (n - 6)) mod 16"
    by (simp add: unat_word_ariths unat_of_nat mod_mod_cancel mod_mult_right_eq)
  then have "on_stack st mod 16 = 0 \<longleftrightarrow> (8 * (n - 6)) mod 16 = 0" using assms mod16(1) [of "on_stack st"] by (simp add: has_args_def)
  then show ?thesis by presburger
qed

text \<open>
  C6. After any quads without multiplication and division the counter of the stack is the sum of what the open calls
  have on it, their arguments with the padding and the registers they saved; the open calls are those of the quads,
  each with its number of arguments, of which the first six are in registers. In particular the stack is empty between calls.
\<close>

theorem stack_ledger:
  assumes "giter (nnc_gen_quad H st) qs s = Inr ((), s')" "list_all calm qs" "at_start s"
  shows "stack_alloc s' = sum_list (map owed (call_states s')) \<and> list_all2 has_args (call_states s') (open_args qs) \<and>
    (open_args qs = [] \<longrightarrow> at_start s')"
  using quads_runs [OF assms(1,2) runs_start [OF assms(3)]] by (auto simp: runs_def ledger_def open_args_def at_start_def)


lemma busy_start: "in_lr_vec r \<Longrightarrow> lr_vec s = (\<lambda>_. None) \<Longrightarrow> nnc_reg_busy r s = Inr (False, s)"
  by (simp add: nnc_reg_busy_def nnc_peek_reg_def nnc_reg_lr_empty_def gen_run reg_stack_def lr_at_def nnc_lr_intersects_def)

definition two_calls :: "nnc_quad list" where
  "two_calls = [hint_quad OP_HINT_DECL_CALL, hint_quad OP_HINT_DECL_CALL]"

lemma two_calls_run:
  "\<exists>s'. giter (nnc_gen_quad H st) two_calls start_cgen = Inr ((), s') \<and> in_words s' \<and>
     call_states s' = [no_pclass_state\<lparr>was_init := True\<rparr>, no_pclass_state\<lparr>was_init := True\<rparr>]"
proof -
  have g: "\<forall>r \<in> set general_regs. in_lr_vec r" by (simp add: general_regs_def in_lr_vec_def)
  have sv: "save_regs rs x s = Inr ([], s)" if "\<forall>r \<in> set rs. in_lr_vec r" "lr_vec s = (\<lambda>_. None)" for rs x s
    using that by (induction rs) (simp_all add: gret_def gbind_def busy_start)
  show ?thesis
    by (simp add: two_calls_def nnc_gen_quad_def hint_quad_def no_quad_def no_addr_def nnc_gen_op_def nnc_gen_op_decl_call_def gbind_def gret_def gput_def
        init_run sv [OF g] start_cgen_def)
      (simp add: in_words_def no_pclass_state_def)
qed

definition no_tables :: st_heap where
  "no_tables = \<lparr>tables = [], idents = [], htypes = static_types\<rparr>"

lemma stack_ledger_witness:
  "\<exists>s'. giter (nnc_gen_quad no_tables 0) two_calls start_cgen = Inr ((), s') \<and> stack_alloc s' = sum_list (map owed (call_states s'))"
proof -
  have "list_all calm two_calls" "at_start start_cgen" by (simp_all add: two_calls_def calm_def hint_quad_def at_start_def start_cgen_def)
  then show ?thesis using stack_ledger [of no_tables 0 two_calls start_cgen] two_calls_run by blast
qed


end
