(* ===== verification/Nnc_Gen_Data.thy ===== *)
theory Nnc_Gen_Data
  imports Nnc_Gen_Steps
begin

text \<open>
  What two pieces of the generated text mean: the instruction that is chosen for a conversion of integers, and the
  bytes of a global variable in the data segment.
\<close>

section \<open>Text that only grows\<close>

named_theorems writes

definition writing :: "'a gen \<Rightarrow> bool" where
  "writing m \<longleftrightarrow> (\<forall>s x s'. m s = Inr (x, s') \<longrightarrow> (\<exists>t. seg_text s' = seg_text s @ t))"

lemma writing_bind [writes]: "writing m \<Longrightarrow> (\<And>x. writing (k x)) \<Longrightarrow> writing (gbind m k)"
  by (fastforce simp: writing_def gbind_Inr)

lemma writing_basic [writes]:
  "writing (gret x)" "writing (gfail e)" "writing (gget f)" "writing (gassert b)" "writing (from_opt y)"
  by (auto simp: writing_def gen_run split: if_splits option.splits)

lemma writing_put [writes]: "(\<And>s. \<exists>t. seg_text (f s) = seg_text s @ t) \<Longrightarrow> writing (gput f)"
  by (auto simp: writing_def gput_def)

lemma writing_case [writes]:
  "writing a \<Longrightarrow> writing b \<Longrightarrow> writing (if c then a else b)"
  "writing n \<Longrightarrow> (\<And>v. writing (i v)) \<Longrightarrow> (\<And>r. writing (g r)) \<Longrightarrow> (\<And>x. writing (d x)) \<Longrightarrow> (\<And>m. writing (st m)) \<Longrightarrow>
    writing (case w of L_NONE \<Rightarrow> n | L_IMM v \<Rightarrow> i v | L_REG r \<Rightarrow> g r | L_DATA x \<Rightarrow> d x | L_STACK m \<Rightarrow> st m)"
  by (simp_all split: nnc_where.splits)

lemma writing_seq [writes]: "writing (gseq [])" "writing m \<Longrightarrow> writing (gseq ms) \<Longrightarrow> writing (gseq (m # ms))"
  by (simp_all add: writes)

lemma writing_text [writes]: "writing (GEN_TEXT x)" "writing (GEN_INST x)" "writing (reg_text r)"
  unfolding GEN_TEXT_def GEN_INST_def reg_text_def by (intro writes; simp)+

lemma writing_gtype [writes]: "writing (gtype f t)"
  unfolding gtype_def by (intro writes)

lemma writing_sizes [writes]: "writing (nnc_get_ptr_size t)" "writing (nnc_get_reg_of_size r n)" "writing (nnc_get_reg_of_type r t)"
  "writing (ptr_text t x)" "writing (loc_reg l)" "writing (get_junk r)" "writing (nnc_pollute r k)"
  unfolding nnc_get_ptr_size_def nnc_get_reg_of_size_def nnc_get_reg_of_type_def ptr_text_def loc_reg_def get_junk_def nnc_pollute_def
  by (intro writes; simp)+

lemma writing_loc [writes]: "writing (nnc_gen_loc l t)" "writing (nnc_gen_xor_reg l)" "writing (nnc_gen_erase_reg l)"
  unfolding nnc_gen_loc_def nnc_gen_xor_reg_def nnc_gen_erase_reg_def by (intro writes)+

lemma writingD: "writing m \<Longrightarrow> m s = Inr (x, s') \<Longrightarrow> \<exists>t. seg_text s' = seg_text s @ t"
  by (simp add: writing_def)

lemma two_operands_text:
  assumes "two_operands i d dt l lt s = Inr (x, s')"
  shows "\<exists>post. seg_text s' = seg_text s @ ''  '' @ i @ '' '' @ post"
proof -
  define rest where "rest = gseq [nnc_gen_loc d dt, GEN_TEXT '','', nnc_gen_loc l lt, GEN_TEXT crlf]"
  have r: "writing rest" unfolding rest_def by (intro writes)
  obtain s1 where s1: "GEN_INST i s = Inr ((), s1)" "rest s1 = Inr ((), s')"
    using assms unfolding two_operands_def rest_def by (auto simp: gseq_def gbind_Inr)
  have "seg_text s1 = seg_text s @ ''  '' @ i @ '' ''" using s1(1) by (auto simp: GEN_INST_def GEN_TEXT_def gput_def gfail_def split: if_splits)
  then show ?thesis using writingD [OF r s1(2)] by auto
qed

section \<open>Conversions\<close>

text \<open>
  The value of \<open>ln\<close> bytes \<open>v\<close>, read with a sign or without, as C converts it to \<open>dn\<close> bytes; and what the
  instruction puts there: \<^verbatim>\<open>movsx\<close> and \<^verbatim>\<open>movsxd\<close> copy the sign, \<^verbatim>\<open>movzx\<close> and a move
  to the low half of a register fill with zeros.
\<close>

definition signed_value :: "nat \<Rightarrow> nat \<Rightarrow> int" where
  "signed_value n v = (if v < 2 ^ (8 * n - 1) then int v else int v - 2 ^ (8 * n))"

definition converted :: "bool \<Rightarrow> nat \<Rightarrow> nat \<Rightarrow> nat \<Rightarrow> nat" where
  "converted sg dn ln v = nat ((if sg then signed_value ln v else int v) mod 2 ^ (8 * dn))"

definition inst_bits :: "string \<Rightarrow> nat \<Rightarrow> nat \<Rightarrow> nat \<Rightarrow> nat" where
  "inst_bits i dn ln v = (if i = ''movsx'' \<or> i = ''movsxd'' then nat (signed_value ln v mod 2 ^ (8 * dn)) else v)"

lemma signed_value_same:
  assumes "ln \<le> dn" "v < 2 ^ (8 * ln)"
  shows "nat (signed_value ln v mod 2 ^ (8 * dn)) = v \<longleftrightarrow> dn = ln \<or> v < 2 ^ (8 * ln - 1)"
proof -
  have le: "(2 :: int) ^ (8 * ln) \<le> 2 ^ (8 * dn)" using assms(1) by (simp add: power_increasing)
  have v: "int v < 2 ^ (8 * ln)" using assms(2) by (metis of_nat_less_iff of_nat_numeral of_nat_power)
  show ?thesis
  proof (cases "v < 2 ^ (8 * ln - 1)")
    case True
    have "int v mod 2 ^ (8 * dn) = int v" by (rule mod_pos_pos_trivial) (use v le in linarith)+
    then show ?thesis using True by (simp add: signed_value_def)
  next
    case False
    then have "ln \<noteq> 0" using assms(2) by (cases ln) auto
    have "v \<noteq> 0" using False by (cases v) auto
    have "signed_value ln v mod 2 ^ (8 * dn) = (int v - 2 ^ (8 * ln) + 2 ^ (8 * dn)) mod 2 ^ (8 * dn)"
      using False by (simp add: signed_value_def)
    also have "\<dots> = int v - 2 ^ (8 * ln) + 2 ^ (8 * dn)" by (rule mod_pos_pos_trivial) (use v le in linarith)+
    finally have m: "signed_value ln v mod 2 ^ (8 * dn) = int v - 2 ^ (8 * ln) + 2 ^ (8 * dn)" .
    have "nat (signed_value ln v mod 2 ^ (8 * dn)) = v \<longleftrightarrow> (2 :: int) ^ (8 * dn) = 2 ^ (8 * ln)" unfolding m using v le by linarith
    then show ?thesis using False by simp
  qed
qed


lemma converted_unsigned:
  assumes "ln \<le> dn" "v < 2 ^ (8 * ln)"
  shows "converted False dn ln v = v"
proof -
  have "int v < 2 ^ (8 * ln)" using assms(2) by (metis of_nat_less_iff of_nat_numeral of_nat_power)
  also have "(2 :: int) ^ (8 * ln) \<le> 2 ^ (8 * dn)" using assms(1) by (simp add: power_increasing)
  finally show ?thesis by (simp add: converted_def mod_pos_pos_trivial)
qed

lemma conv_inst_right:
  assumes "conv_inst is_u d n = Some i" "n \<le> d" "v < 2 ^ (8 * unat n)"
  shows "inst_bits i (unat d) (unat n) v = converted sg (unat d) (unat n) v \<longleftrightarrow>
    d = n \<or> sg = (\<not> is_u) \<or> v < 2 ^ (8 * unat n - 1)"
proof -
  have le: "unat n \<le> unat d" using assms(2) by (simp add: word_le_nat_alt)
  have dn: "unat d = unat n \<longleftrightarrow> d = n" by (simp add: word_unat_eq_iff)
  note a = signed_value_same [OF le assms(3)] and b = converted_unsigned [OF le assms(3)]
  have i: "d = n \<and> i = ''mov'' \<or> i = (if is_u then ''movzx'' else ''movsx'') \<or> is_u \<and> i = ''mov'' \<or> \<not> is_u \<and> i = ''movsxd'' \<or> n = 0 \<and> i = ''mov''"
  proof -
    have "d = 1 \<Longrightarrow> n = 0 \<or> n = 1" using le by (auto simp: word_unat_eq_iff le_Suc_eq)
    then show ?thesis using assms(1) by (auto simp: conv_inst_def Let_def split: if_splits)
  qed
  then show ?thesis using a b dn assms(3) by (cases sg; cases is_u) (auto simp: inst_bits_def converted_def)
qed


section \<open>Bytes in the data segment\<close>

lemma gtype_Inr: "gtype f (Some t) s = Inr (x, s') \<longleftrightarrow> s' = s \<and> f (a_types s) t = Some x"
  by (auto simp: gtype_def gen_run split: option.splits)

definition hex_value :: "char \<Rightarrow> nat" where
  "hex_value c = (if of_char c < (58 :: nat) then of_char c - 48 else of_char c - 87)"

text \<open>The bytes an assembler reads: behind every x two digits.\<close>

fun read_bytes :: "string \<Rightarrow> u8 list" where
  "read_bytes [] = []"
| "read_bytes (c # r) = (if c = CHR ''x'' then (case r of a # b # r' \<Rightarrow> of_nat (16 * hex_value a + hex_value b) # read_bytes r' | _ \<Rightarrow> [])
     else read_bytes r)"

lemma hex_value_digit: "n < 16 \<Longrightarrow> hex_value (digit_chr n) = n"
proof -
  have "list_all (\<lambda>n. hex_value (digit_chr n) = n) [0..<16]" by (simp add: upt_rec digit_chr_def hex_value_def)
  then show "n < 16 \<Longrightarrow> hex_value (digit_chr n) = n" by (simp add: list_all_iff)
qed

lemma read_byte: "read_bytes (''0x'' @ hex_byte (unat c) @ r) = c # read_bytes r" for c :: u8
proof -
  have "unat c < 256" using unsigned_less [of c] by simp
  then have "hex_value (digit_chr (unat c div 16)) = unat c div 16" "hex_value (digit_chr (unat c mod 16)) = unat c mod 16"
    by (simp_all add: hex_value_digit div_less_iff_less_mult)
  moreover have "of_nat (16 * (unat c div 16) + unat c mod 16) = c" by (simp only: mult_div_mod_eq of_nat_unat ucast_id)
  ultimately show ?thesis by (simp add: hex_byte_def del: of_nat_add of_nat_mult)
qed

lemma data_Inr: "GEN_DATA x s = Inr (y, s') \<longleftrightarrow> length x < FMEMOPEN_BUF_GROWTH \<and> s' = s\<lparr>seg_data := seg_data s @ x\<rparr>"
  by (auto simp: GEN_DATA_def gput_def gfail_def split: if_splits)

lemma mem_loop_bytes:
  "mem_loop bs b k s = Inr (x, s') \<Longrightarrow> \<exists>body. s' = s\<lparr>seg_data := seg_data s @ body\<rparr> \<and> k \<le> length bs \<and> (\<forall>r. read_bytes (body @ r) = take k bs @ read_bytes r)"
proof (induction k arbitrary: bs b s)
  case 0
  then show ?case by (auto simp: gret_def intro!: exI [of _ "[]"])
next
  case (Suc k)
  define b' new sep where "b' = (if b mod 8 = 0 then 0 else b)" and "new = (if b mod 8 = 0 then lf @ ''.byte '' else [])"
    and "sep = (if b' \<noteq> 7 \<and> k \<noteq> 0 then '', '' else [])"
  obtain c cs where bs: "bs = c # cs" using Suc.prems by (cases bs) (auto simp: gbind_Inr Let_def gfail_def split: if_splits)
  define s1 where "s1 = s\<lparr>seg_data := seg_data s @ new @ ''0x'' @ hex_byte (unat c) @ sep\<rparr>"
  have "mem_loop cs (b' + 1) k s1 = Inr (x, s')" using Suc.prems
    by (auto simp: bs gbind_Inr Let_def data_Inr gret_def s1_def new_def sep_def b'_def split: if_splits)
  from Suc.IH [OF this] obtain body where body: "s' = s1\<lparr>seg_data := seg_data s1 @ body\<rparr>" "k \<le> length cs" "\<And>r. read_bytes (body @ r) = take k cs @ read_bytes r"
    by blast
  have new: "read_bytes (new @ r) = read_bytes r" "read_bytes (sep @ r) = read_bytes r" for r by (simp_all add: new_def sep_def lf_def)
  show ?case
  proof (intro exI conjI allI)
    show "s' = s\<lparr>seg_data := seg_data s @ new @ ''0x'' @ hex_byte (unat c) @ sep @ body\<rparr>" by (simp add: body(1) s1_def)
    show "Suc k \<le> length bs" using body(2) by (simp add: bs)
    show "read_bytes ((new @ ''0x'' @ hex_byte (unat c) @ sep @ body) @ r) = take (Suc k) bs @ read_bytes r" for r
      using read_byte [of c "sep @ body @ r"] by (simp only: append_assoc new body(3) bs) simp
  qed
qed


text \<open>The number that bytes stand for, the first being the lowest.\<close>

fun le_value :: "u8 list \<Rightarrow> nat" where
  "le_value [] = 0"
| "le_value (b # bs) = unat b + 256 * le_value bs"

lemma le_value_digits: "le_value (map (\<lambda>k. of_nat (x div 256 ^ k)) [0..<n]) = x mod 256 ^ n"
proof (induction n arbitrary: x)
  case (Suc n)
  have "map (\<lambda>k. of_nat (x div 256 ^ k) :: u8) [0..<Suc n] = of_nat x # map (\<lambda>k. of_nat (x div 256 div 256 ^ k)) [0..<n]"
    by (simp add: map_upt_Suc div_mult2_eq del: upt_Suc)
  then have "le_value (map (\<lambda>k. of_nat (x div 256 ^ k)) [0..<Suc n]) = x mod 256 + 256 * (x div 256 mod 256 ^ n)"
    by (simp only: le_value.simps Suc.IH) (simp add: unat_of_nat)
  then show ?case by (simp add: mod_mult2_eq)
qed simp

lemma u64_bytes_value: "n \<le> 8 \<Longrightarrow> le_value (take n (u64_bytes v)) = unat v mod 2 ^ (8 * n)"
proof -
  assume n: "n \<le> 8"
  have "ucast (drop_bit (8 * k) v) = (of_nat (unat v div 256 ^ k) :: u8)" for k
  proof -
    have "unat (drop_bit (8 * k) v) = drop_bit (8 * k) (unat v)" by (rule unat_drop_bit_eq)
    also have "\<dots> = unat v div 256 ^ k" by (simp add: drop_bit_eq_div power_mult)
    finally have "unat (drop_bit (8 * k) v) = unat v div 256 ^ k" .
    then show ?thesis by (metis of_nat_unat)
  qed
  then have "take n (u64_bytes v) = map (\<lambda>k. of_nat (unat v div 256 ^ k)) [0..<n]" using n by (simp add: u64_bytes_def take_map min_def)
  then show ?thesis by (simp add: le_value_digits power_mult)
qed

lemma pad_loop_text: "pad_loop b k s = Inr (x, s') \<Longrightarrow> \<exists>t. s' = s\<lparr>seg_data := seg_data s @ t\<rparr>"
proof (induction k arbitrary: b s)
  case (Suc k)
  obtain t1 b1 where "pad_loop b1 k (s\<lparr>seg_data := seg_data s @ t1\<rparr>) = Inr (x, s')" using Suc.prems
    by (auto simp: gbind_Inr Let_def data_Inr gret_def split: if_splits)
  from Suc.IH [OF this] show ?case by auto
qed (auto simp: gret_def intro!: exI [of _ "[]"])

lemma mem_pad_text:
  assumes "nnc_gen_mem_pad n s = Inr (x, s')"
  shows "\<exists>t. seg_data s' = seg_data s @ t"
proof -
  define h where "h = ''# zero pad of '' @ dec_digits (unat n) @ '' bytes''"
  obtain s1 where s1: "pad_loop 0 (unat n) (s\<lparr>seg_data := seg_data s @ h\<rparr>) = Inr ((), s1)" "\<exists>t. seg_data s' = seg_data s1 @ t"
    using assms unfolding nnc_gen_mem_pad_def h_def [symmetric] by (auto simp: gbind_Inr data_Inr gret_def)
  show ?thesis using pad_loop_text [OF s1(1)] s1(2) by auto
qed

definition mem_head :: "string \<Rightarrow> u64 \<Rightarrow> string" where
  "mem_head name n = ''   '' @ name @ '':'' @ lf @ ''# init'' @ [CHR 0x27] @ ''d pad of '' @ dec_digits (unat n) @ '' bytes''"

lemma gen_mem_run:
  assumes "nnc_gen_mem bs name n s = Inr (x, s')"
  shows "\<exists>body tail. s' = s\<lparr>seg_data := seg_data s @ mem_head name n @ body @ tail\<rparr> \<and> unat n \<le> length bs \<and> read_bytes body = take (unat n) bs"
proof -
  obtain s1 where s1: "mem_loop bs 0 (unat n) (s\<lparr>seg_data := seg_data s @ mem_head name n\<rparr>) = Inr ((), s1)"
    "s' = s1\<lparr>seg_data := seg_data s1 @ lf @ ''# init'' @ [CHR 0x27] @ ''d pad ends'' @ lf\<rparr>"
    using assms by (auto simp: nnc_gen_mem_def gbind_Inr data_Inr gret_def mem_head_def)
  obtain body where body: "s1 = s\<lparr>seg_data := seg_data s @ mem_head name n @ body\<rparr>" "unat n \<le> length bs" "\<And>r. read_bytes (body @ r) = take (unat n) bs @ read_bytes r"
    using mem_loop_bytes [OF s1(1)] by auto
  have "read_bytes body = take (unat n) bs" using body(3) [of "[]"] by simp
  then show ?thesis using s1(2) body(1,2) by auto
qed


section \<open>Examples\<close>

lemma start_kind: "t < 12 \<Longrightarrow> kind_of static_types t = Some (tkind (static_types ! t))"
  using kind_of_static [of t "[]"] by (simp add: static_types_def)

lemma start_unalias: "t < 12 \<Longrightarrow> nnc_unalias static_types t = Some t"
proof -
  assume t: "t < 12"
  have "\<forall>ty \<in> set static_types. tkind ty \<noteq> T_ALIAS" by (simp add: static_types_def base_type_def)
  moreover have len: "length static_types = 12" by (simp add: static_types_def)
  ultimately have "tkind (static_types ! t) \<noteq> T_ALIAS" using t by (metis nth_mem)
  then show ?thesis using t by (subst nnc_unalias.simps) (simp add: tget_def len)
qed

lemma start_sizes: "nnc_sizeof static_types i64_type = Some 8" "nnc_sizeof static_types u8_type = Some 1" "nnc_sizeof static_types i16_type = Some 2"
  by (simp_all add: nnc_sizeof_def nnc_incomplete_type_def kind_in_def start_kind start_unalias)
    (simp_all add: tget_def static_types_def base_type_def)

lemma start_kinds:
  "nnc_signed_type static_types i64_type = Some True" "nnc_arr_type static_types i64_type = Some False" "nnc_arr_or_ptr_type static_types i64_type = Some False"
  "nnc_real_type static_types i64_type = Some False" "nnc_arr_or_ptr_type static_types u8_type = Some False" "nnc_real_type static_types u8_type = Some False"
  "nnc_arr_type static_types i16_type = Some False"
  by (simp_all add: nnc_signed_type_def nnc_arr_type_def nnc_arr_or_ptr_type_def nnc_real_type_def kind_in_def start_kind)
    (simp_all add: static_types_def base_type_def real_kinds_def signed_kinds_def)


definition global_x :: ir_var where
  "global_x = \<lparr>ir_name = ''x'', ir_res = (local_addr ''x'' (Some i16_type))\<lparr>exact := ictx_num IDENT_GLOBAL\<rparr>, ir_quads = []\<rparr>"

lemma start_map: "map_ok start_cgen" "loc_index start_cgen l = None"
proof -
  have m: "the_loc_map start_cgen = nncmap_init NNC_MAP_INICAP" by (simp add: start_cgen_def the_loc_map_def)
  have e: "loc_index start_cgen = Map.empty" by (auto simp: loc_index_def m NNC_MAP_INICAP_def nncmap_init_abs fun_eq_iff)
  then show "loc_index start_cgen l = None" by simp
  show "map_ok start_cgen" using nncmap_init_inv [of 128 str_keys] by (simp add: map_ok_def e m NNC_MAP_INICAP_def)
qed

lemma global_x_stored:
  "\<exists>s0 s1. nnc_store (ir_res global_x) start_cgen = Inr (mk_loc (L_DATA ''x'') (Some i16_type), s0) \<and>
     nnc_get_loc (ir_res global_x) s0 = Inr (Some 0, s1) \<and> locs s1 = [mk_loc (L_DATA ''x'') (Some i16_type)] \<and> a_types s1 = static_types \<and> seg_data s1 = []"
proof -
  define a where "a = ir_res global_x"
  have a: "stored a" "akind a = ADDR_NAME" "exact a = ictx_num IDENT_GLOBAL" "label_of a = ''x''" "atype a = Some i16_type"
    by (simp_all add: a_def global_x_def local_addr_def stored_def LOC_LABEL_SIZE_def label_of_def)
  define so where "so = opened start_cgen"
  have o: "map_ok so" "loc_index so (label_of a) = None" by (simp_all add: so_def start_map)
  obtain s0 where p: "place_loc (L_DATA (label_of a)) a so = Inr (length (locs so), s0)" "placed (L_DATA (label_of a)) a so s0"
    using place_loc_run [OF a(1) o] by blast
  have ln: "length (locs so) = 0" "a_types so = static_types" "seg_data so = []" by (simp_all add: so_def opened_def start_cgen_def)
  then have l0: "locs s0 = [mk_loc (L_DATA ''x'') (Some i16_type)]" "loc_index s0 (label_of a) = Some 0" "map_ok s0" "a_types s0 = static_types" "seg_data s0 = []"
    using p(2) a(4,5) by (auto simp: placed_def)
  have "nnc_store a start_cgen = Inr (mk_loc (L_DATA ''x'') (Some i16_type), s0)"
    using get_loc_run [OF a(1) start_map(1)] p(1) l0(1) make_label [OF a(1), of so] ln(1)
    by (simp add: nnc_store_def nnc_store_var_def nnc_make_ds_loc_def gbind_def gret_def gassert_def loc_value_def gget_def a(2,3) so_def start_map(2) ictx_num.simps)
  moreover have "nnc_get_loc a s0 = Inr (Some 0, opened s0)" using get_loc_run [OF a(1) l0(3)] l0(2) by simp
  ultimately show ?thesis using l0 by (auto simp: a_def opened_def)
qed



end
