(* ===== verification/Spec2Isabelle.thy ===== *)
theory Spec2Isabelle
  imports Nnc_Map Nnc_Buf Nnc_Arena Nnc_Try Nnc_Lex Nnc_Lex_Read Nnc_Literal Nnc_Type Nnc_IR Nnc_Opt Nnc_Opt_Sem Nnc_CFG
    Nnc_LR Nnc_AST Nnc_Symtab Nnc_Eval Nnc_3A Nnc_3A_Labels Nnc_Parse Nnc_Parse_Ends Nnc_Parse_Text Nnc_Parse_Print
    Nnc_SA_Apart Nnc_Gen_Stack Nnc_Gen_Data
begin

text \<open>
  A model of \<^bold>\<open>nnc\<close>, a compiler written in C, and what makes its parts correct.

  \<^bold>\<open>The program.\<close> \<^verbatim>\<open>nnc_main.c\<close> compiles each source file in two passes. Pass one parses the file
  (\<^verbatim>\<open>nnc_parse.c\<close>, which pulls tokens from \<^verbatim>\<open>nnc_lex.c\<close> and declares names in the tables of
  \<^verbatim>\<open>nnc_symtable.c\<close>). Pass two takes the statements of the file in turn: it resolves names and types
  (\<^verbatim>\<open>nnc_resolve.c\<close>, with \<^verbatim>\<open>nnc_typecheck.c\<close> and \<^verbatim>\<open>nnc_ast_eval.c\<close>), translates to quads
  (\<^verbatim>\<open>nnc_3a.c\<close>), optimizes them (\<^verbatim>\<open>nnc_3a_optimizer.c\<close>, \<^verbatim>\<open>nnc_3a_cfg.c\<close>), computes live ranges
  (\<^verbatim>\<open>nnc_3a_lr.c\<close>), assigns storage (\<^verbatim>\<open>nnc_gen_sa.c\<close>) and writes assembler (\<^verbatim>\<open>nnc_gen.c\<close>).
  Below all of them are a hash map, a growing buffer, an arena of allocations and exceptions built on
  \<^verbatim>\<open>setjmp\<close>.

  \<^bold>\<open>Conventions.\<close> A C function is a function on the state it reads and writes. A call that does not
  return is a value of \<open>fault\<close> (\<open>Nnc_Prelude\<close>): an exception, \<^verbatim>\<open>nnc_abort\<close>, a failed assertion, or
  \<open>Crash\<close> for undefined behaviour (a NULL or wild pointer, a write behind a buffer, a division by
  zero). A pointer to a heap object is a position in a list of objects. Unsigned integers are words
  where their width matters. Loops are recursion; where their end is not structural they have a
  termination proof, or fuel, whose end is the fault \<open>NoFuel\<close>, with a lemma that the fuel
  is enough.

  \<^bold>\<open>Theories.\<close>
  \<^item> \<open>Nnc_Prelude\<close>: words, faults, their bind operator, lemmas on lists and maps.
  \<^item> \<open>Nnc_Map\<close> (\<^verbatim>\<open>nnc_map.c\<close>): chained hash table. It refines a partial function: put, get, has, pop,
    the iteration, for both kinds of keys. The locale of the dictionary is interpreted on the table.
  \<^item> \<open>Nnc_Buf\<close> (\<^verbatim>\<open>nnc_buf.c\<close>, \<^verbatim>\<open>nnc_blob.c\<close>): growing arrays are lists; formatted text.
  \<^item> \<open>Nnc_Arena\<close> (\<^verbatim>\<open>nnc_arena.c\<close>): the arena lists exactly the live blocks.
  \<^item> \<open>Nnc_Try\<close> (\<^verbatim>\<open>nnc_try_catch.c\<close>): the stack of exception contexts.
  \<^item> \<open>Nnc_Lex\<close>, \<open>Nnc_Lex_Read\<close> (\<^verbatim>\<open>nnc_lex.c\<close>): every call ends, consumes input, and reads back the
    text of a token list.
  \<^item> \<open>Nnc_Literal\<close> (\<^verbatim>\<open>nnc_literal.c\<close>): the value of literals and their overflow.
  \<^item> \<open>Nnc_Type\<close> (\<^verbatim>\<open>nnc_type.c\<close>, \<^verbatim>\<open>nnc_typecheck.c\<close>): types as heap objects, sizes, equality,
    conversions, inference.
  \<^item> \<open>Nnc_AST\<close>, \<open>Nnc_Symtab\<close>, \<open>Nnc_Eval\<close> (\<^verbatim>\<open>nnc_expression.h\<close>, \<^verbatim>\<open>nnc_statement.h\<close>,
    \<^verbatim>\<open>nnc_symtable.c\<close>, \<^verbatim>\<open>nnc_ast_eval.c\<close>): trees, what a lookup sees and a declaration changes, constant
    expressions against integer arithmetic.
  \<^item> \<open>Nnc_Parse\<close>, \<open>Nnc_Parse_Ends\<close> (\<^verbatim>\<open>nnc_parse.c\<close>): the whole parser. It ends on every input, leaves
    each scope it enters and keeps the tables well formed. Its fuel is the length of the file: the locale
    \<open>parser_calls\<close> states what the parsers of one depth promise to those of the next, and is
    interpreted on the parsers of every depth.
  \<^item> \<open>Nnc_IR\<close>, \<open>Nnc_3A\<close>, \<open>Nnc_3A_Labels\<close> (\<^verbatim>\<open>nnc_3a.h\<close>, \<^verbatim>\<open>nnc_3a.c\<close>): quads and their execution, the
    translation of trees, and that every jump of the generated code has its label.
  \<^item> \<open>Nnc_Opt\<close>, \<open>Nnc_Opt_Sem\<close> (\<^verbatim>\<open>nnc_3a_optimizer.c\<close>): the peephole patterns, their repetition, and when a
    pass preserves the runs of the code.
  \<^item> \<open>Nnc_CFG\<close> (\<^verbatim>\<open>nnc_3a_cfg.c\<close>): basic blocks, reachability, removal of dead blocks.
  \<^item> \<open>Nnc_LR\<close> (\<^verbatim>\<open>nnc_3a_lr.c\<close>): live ranges from first to last occurrence.

  \<^item> \<open>Nnc_Lex_Column\<close>, \<open>Nnc_Parse_Grammar\<close>, \<open>Nnc_Parse_Text\<close>, \<open>Nnc_Parse_Print\<close>, \<open>Nnc_Digits\<close>: columns of
    tokens, what each level of the expression grammar reads from a list of tokens, the parser fed with text, and a
    printer whose text is parsed back; numbers in the formats of \<^verbatim>\<open>printf\<close>.
  \<^item> \<open>Nnc_SA\<close>, \<open>Nnc_SA_Apart\<close> (\<^verbatim>\<open>nnc_gen_sa.c\<close>): registers with the live ranges on them, labels, the map of
    locations, the frame. Temporaries in one register have disjoint ranges, slots of the frame do not overlap.
  \<^item> \<open>Nnc_Gen\<close> (\<^verbatim>\<open>nnc_gen.c\<close>): the assembly text of quads, calls, procedures and global variables, on the
    state of storage allocation (\<open>cgen\<close>). \<open>Nnc_Gen_Steps\<close> says what storage allocation leaves alone;
    \<open>Nnc_Gen_Stack\<close> keeps the books of the stack over any run of quads and decides on the alignment at a
    call; \<open>Nnc_Gen_Data\<close> gives meaning to the instruction of a conversion and to the bytes of the data segment.

  \<^bold>\<open>Parameters.\<close> \<^verbatim>\<open>malloc\<close> (the address it returns), \<^verbatim>\<open>strtod\<close> (the bits of a text), arithmetic on
  \<^verbatim>\<open>double\<close> in the optimizer and its conversion to an integer in the evaluator.

  \<^bold>\<open>Not modelled.\<close> The printers of quads and trees, messages and positions, the command line and
  the driver, which compute nothing the compiler uses or only control processes. Of the resolver
  (\<^verbatim>\<open>nnc_resolve.c\<close>) only the test for constant expressions and the sizes of types.
\<close>

end
